(* ===== verification/Prelude.thy ===== *)
theory Prelude
  imports Main "HOL-Library.Word" "HOL-Library.Monad_Syntax"
begin

text \<open>
  Shared ground of the development: the types of C data (bytes, C strings, 32 and 64 bit
  integers), the allocator every component draws on, bounded reads of a byte buffer, and the
  list and option lemmas the component theories use.

  The allocator \<open>mem\<close> stands for the C heap as the program sees it: \<open>outcomes\<close> lists
  whether the next calls of \<open>malloc\<close>, \<open>calloc\<close>, \<open>strdup\<close> and \<open>realloc\<close> succeed (a call
  beyond the list succeeds), and \<open>live\<close> is the ledger of blocks allocated and not yet freed.
  A theorem for all \<open>mem\<close> thus covers every pattern of allocation failures, and an equation
  on \<open>live\<close> says that an operation neither leaks a block nor frees one twice.
\<close>

unbundle bit_operations_syntax

section \<open>Types of C data\<close>

type_synonym byte = "8 word"
type_synonym u16 = "16 word"
type_synonym u32 = "32 word"
type_synonym u64 = "64 word"

text \<open>A C string is the list of its bytes before the terminating NUL.\<close>

type_synonym cstring = "byte list"

definition str :: "string \<Rightarrow> cstring" where
  "str s = map of_char s"

text \<open>
  Conversion of a mathematical value to a 32 bit \<open>int\<close>, and to a 64 bit one, with
  wrap-around: what signed arithmetic gives on the two's complement targets the program is
  built for.
\<close>

definition to_int32 :: "int \<Rightarrow> int" where
  "to_int32 x = sint (word_of_int x :: 32 word)"

definition to_int64 :: "int \<Rightarrow> int" where
  "to_int64 x = sint (word_of_int x :: 64 word)"

section \<open>Allocator\<close>

record mem =
  outcomes :: "bool list"
  live :: int

definition malloc :: "mem \<Rightarrow> bool \<times> mem" where
  "malloc m =
     (case outcomes m of
        [] \<Rightarrow> (True, m\<lparr>live := live m + 1\<rparr>)
      | ok # oks \<Rightarrow>
          (if ok then (True, m\<lparr>outcomes := oks, live := live m + 1\<rparr>)
           else (False, m\<lparr>outcomes := oks\<rparr>)))"

definition mfree :: "mem \<Rightarrow> mem" where
  "mfree m = m\<lparr>live := live m - 1\<rparr>"

text \<open>\<open>realloc\<close> of a live block: on failure the old block stays allocated.\<close>

definition mrealloc :: "mem \<Rightarrow> bool \<times> mem" where
  "mrealloc m =
     (case outcomes m of
        [] \<Rightarrow> (True, m)
      | ok # oks \<Rightarrow> (ok, m\<lparr>outcomes := oks\<rparr>))"

section \<open>Outcomes of effectful code\<close>

text \<open>
  Code that prints, exits or dereferences pointers ends in one of three ways: it returns, the
  process exits with a status, or the behaviour is undefined (an access out of bounds, a use
  of NULL). Sequencing stops at the first exit or undefined step.
\<close>

datatype 's outcome = Done 's | Exited int | Undefined

primrec and_then :: "'s outcome \<Rightarrow> ('s \<Rightarrow> 't outcome) \<Rightarrow> 't outcome" where
  "and_then (Done s) f = f s"
| "and_then (Exited c) f = Exited c"
| "and_then Undefined f = Undefined"

section \<open>Reads of a byte buffer\<close>

text \<open>A read past the end of the buffer is undefined behaviour in C: it is \<open>None\<close> here.\<close>

definition get8 :: "byte list \<Rightarrow> nat \<Rightarrow> byte option" where
  "get8 bs i = (if i < length bs then Some (bs ! i) else None)"

definition get_be16 :: "byte list \<Rightarrow> nat \<Rightarrow> u16 option" where
  "get_be16 bs i = do {
     a \<leftarrow> get8 bs i;
     b \<leftarrow> get8 bs (i + 1);
     Some (word_of_nat (unat a * 256 + unat b))
   }"

definition get_be32 :: "byte list \<Rightarrow> nat \<Rightarrow> u32 option" where
  "get_be32 bs i = do {
     a \<leftarrow> get8 bs i;
     b \<leftarrow> get8 bs (i + 1);
     c \<leftarrow> get8 bs (i + 2);
     d \<leftarrow> get8 bs (i + 3);
     Some (word_of_nat (unat a * 2 ^ 24 + unat b * 2 ^ 16 + unat c * 2 ^ 8 + unat d))
   }"

text \<open>A 32 bit field left in memory order, as \<open>struct in_addr\<close> is, on a little-endian host.\<close>

definition le32 :: "byte \<Rightarrow> byte \<Rightarrow> byte \<Rightarrow> byte \<Rightarrow> u32" where
  "le32 a b c d =
     word_of_nat (unat a + unat b * 2 ^ 8 + unat c * 2 ^ 16 + unat d * 2 ^ 24)"

definition get_le32 :: "byte list \<Rightarrow> nat \<Rightarrow> u32 option" where
  "get_le32 bs i = do {
     a \<leftarrow> get8 bs i;
     b \<leftarrow> get8 bs (i + 1);
     c \<leftarrow> get8 bs (i + 2);
     d \<leftarrow> get8 bs (i + 3);
     Some (le32 a b c d)
   }"

text \<open>Encoders, the inverse of the reads.\<close>

definition put_be16 :: "u16 \<Rightarrow> byte list" where
  "put_be16 w = [word_of_nat (unat w div 256), word_of_nat (unat w mod 256)]"

definition put_be32 :: "u32 \<Rightarrow> byte list" where
  "put_be32 w =
     [word_of_nat (unat w div 2 ^ 24), word_of_nat (unat w div 2 ^ 16),
      word_of_nat (unat w div 2 ^ 8), word_of_nat (unat w mod 256)]"

definition put_le32 :: "u32 \<Rightarrow> byte list" where
  "put_le32 w = rev (put_be32 w)"

named_theorems reads "reads of a byte buffer that stay inside it"
named_theorems ledger "effect of an operation on the allocator's ledger"

section \<open>Allocator lemmas\<close>

lemma malloc_live [ledger]:
  "malloc m = (True, m') \<Longrightarrow> live m' = live m + 1"
  "malloc m = (False, m') \<Longrightarrow> live m' = live m"
  by (auto simp: malloc_def split: list.splits if_splits)

lemma mfree_live [ledger, simp]: "live (mfree m) = live m - 1"
  by (simp add: mfree_def)

lemma mrealloc_live [ledger]: "mrealloc m = (ok, m') \<Longrightarrow> live m' = live m"
  by (auto simp: mrealloc_def split: list.splits)

lemma malloc_plenty:
  "outcomes m = [] \<Longrightarrow> malloc m = (True, m\<lparr>live := live m + 1\<rparr>)"
  by (simp add: malloc_def)

section \<open>Outcome lemmas\<close>

lemma and_then_Done_iff:
  "and_then r f = Done t \<longleftrightarrow> (\<exists>s. r = Done s \<and> f s = Done t)"
  by (cases r) auto

lemma and_then_Undefined_iff:
  "and_then r f = Undefined \<longleftrightarrow> r = Undefined \<or> (\<exists>s. r = Done s \<and> f s = Undefined)"
  by (cases r) auto

section \<open>Read lemmas\<close>

lemma get8_Some [reads]: "i < length bs \<Longrightarrow> get8 bs i = Some (bs ! i)"
  by (simp add: get8_def)

lemma get8_eq_None [simp]: "get8 bs i = None \<longleftrightarrow> length bs \<le> i"
  by (simp add: get8_def)

lemma get_be16_Some [reads]:
  "i + 1 < length bs \<Longrightarrow>
   get_be16 bs i = Some (word_of_nat (unat (bs ! i) * 256 + unat (bs ! (i + 1))))"
  by (simp add: get_be16_def get8_def)

lemma get_be32_Some [reads]:
  "i + 3 < length bs \<Longrightarrow>
   get_be32 bs i = Some (word_of_nat (unat (bs ! i) * 2 ^ 24 + unat (bs ! (i + 1)) * 2 ^ 16
                                      + unat (bs ! (i + 2)) * 2 ^ 8 + unat (bs ! (i + 3))))"
  by (simp add: get_be32_def get8_def)

lemma get_le32_Some [reads]:
  "i + 3 < length bs \<Longrightarrow>
   get_le32 bs i = Some (le32 (bs ! i) (bs ! (i + 1)) (bs ! (i + 2)) (bs ! (i + 3)))"
  by (simp add: get_le32_def get8_def)

lemma reads_append [reads]:
  "get8 (xs @ ys) (length xs + i) = get8 ys i"
  "get_be16 (xs @ ys) (length xs + i) = get_be16 ys i"
  "get_be32 (xs @ ys) (length xs + i) = get_be32 ys i"
  "get_le32 (xs @ ys) (length xs + i) = get_le32 ys i"
  by (simp_all add: get8_def get_be16_def get_be32_def get_le32_def nth_append add.assoc)

lemma reads_append0 [reads]:
  "get8 (xs @ ys) (length xs) = get8 ys 0"
  "get_be16 (xs @ ys) (length xs) = get_be16 ys 0"
  "get_be32 (xs @ ys) (length xs) = get_be32 ys 0"
  "get_le32 (xs @ ys) (length xs) = get_le32 ys 0"
  using reads_append [of xs ys 0] by simp_all

text \<open>A read that ends inside the prefix taken sees the whole buffer.\<close>

lemma reads_take [reads]:
  "i < n \<Longrightarrow> get8 (take n bs) i = get8 bs i"
  "i + 1 < n \<Longrightarrow> get_be16 (take n bs) i = get_be16 bs i"
  "i + 3 < n \<Longrightarrow> get_be32 (take n bs) i = get_be32 bs i"
  "i + 3 < n \<Longrightarrow> get_le32 (take n bs) i = get_le32 bs i"
  by (simp_all add: get8_def get_be16_def get_be32_def get_le32_def)

lemma put_length [simp]:
  "length (put_be16 w) = 2" "length (put_be32 v) = 4" "length (put_le32 v) = 4"
  by (simp_all add: put_be16_def put_be32_def put_le32_def)

section \<open>Machine integers\<close>

lemma unat_byte [simp]: "unat (b :: byte) < 256"
  by (rule order_less_le_trans [OF unsigned_less]) simp

lemma unat_u16 [simp]: "unat (w :: u16) < 65536"
  by (rule order_less_le_trans [OF unsigned_less]) simp

lemma unat_u32 [simp]: "unat (w :: u32) < 4294967296"
  by (rule order_less_le_trans [OF unsigned_less]) simp

lemma unat_of_nat_byte: "unat (word_of_nat n :: byte) = n mod 256"
  by (simp add: unat_of_nat)

lemma nat_digits256:
  fixes n :: nat
  assumes "n < 4294967296"
  shows "n div 16777216 mod 256 * 16777216 + n div 65536 mod 256 * 65536 +
         n div 256 mod 256 * 256 + n mod 256 = n"
proof -
  define q where "q = n div 256"
  define r where "r = q div 256"
  define s where "s = r div 256"
  have eqs: "n div 65536 = r" "n div 16777216 = s"
    by (simp_all add: q_def r_def s_def flip: div_mult2_eq)
  have "s < 256" using assms by (simp add: q_def r_def s_def flip: div_mult2_eq)
  moreover have "q * 256 + n mod 256 = n" "r * 256 + q mod 256 = q" "s * 256 + r mod 256 = r"
    by (simp_all add: q_def r_def s_def)
  ultimately show ?thesis unfolding eqs by (simp flip: q_def)
qed

lemma get_be16_put [reads]: "get_be16 (put_be16 w @ xs) 0 = Some w"
proof -
  have "unat w div 256 < 256" using unat_u16 [of w] by (simp add: div_less_iff_less_mult)
  then have "word_of_nat (unat w div 256 mod 256 * 256 + unat w mod 256) = w"
    by (simp only: mod_less div_mult_mod_eq) simp
  then show ?thesis
    by (simp add: get_be16_def put_be16_def get8_def unat_of_nat_byte del: of_nat_add of_nat_mult)
qed

lemma get_be32_put [reads]: "get_be32 (put_be32 w @ xs) 0 = Some w"
proof -
  have "word_of_nat (unat w div 16777216 mod 256 * 16777216 + unat w div 65536 mod 256 * 65536 +
         unat w div 256 mod 256 * 256 + unat w mod 256) = w"
    by (simp only: nat_digits256 [OF unat_u32]) simp
  then show ?thesis
    by (simp add: get_be32_def put_be32_def get8_def unat_of_nat_byte del: of_nat_add of_nat_mult)
qed

lemma get_le32_put [reads]: "get_le32 (put_le32 w @ xs) 0 = Some w"
proof -
  have "unat w mod 256 + unat w div 256 mod 256 * 256 +
         unat w div 65536 mod 256 * 65536 + unat w div 16777216 mod 256 * 16777216 = unat w"
    using nat_digits256 [OF unat_u32 [of w]] by linarith
  then have "word_of_nat (unat w mod 256 + unat w div 256 mod 256 * 256 +
         unat w div 65536 mod 256 * 65536 + unat w div 16777216 mod 256 * 16777216) = w"
    by (simp only:) simp
  then show ?thesis
    by (simp add: get_le32_def le32_def put_le32_def put_be32_def get8_def unat_of_nat_byte
          del: of_nat_add of_nat_mult)
qed

lemma unat_low_nibble: "unat (b AND 0x0f :: byte) = unat b mod 16"
proof -
  have "b AND 0x0f = take_bit 4 b" by (simp add: take_bit_eq_mask mask_eq_exp_minus_1)
  then show ?thesis by (simp add: take_bit_eq_mod unat_mod)
qed

lemma unat_high_nibble: "unat (drop_bit 4 b :: byte) = unat b div 16"
  by (simp add: drop_bit_eq_div unat_div)

lemma to_int32_id: "- (2 ^ 31) \<le> x \<Longrightarrow> x < 2 ^ 31 \<Longrightarrow> to_int32 x = x"
  unfolding to_int32_def
  by (simp add: signed_of_int signed_take_bit_int_eq_self)

lemma to_int64_id: "- (2 ^ 63) \<le> x \<Longrightarrow> x < 2 ^ 63 \<Longrightarrow> to_int64 x = x"
  unfolding to_int64_def
  by (simp add: signed_of_int signed_take_bit_int_eq_self)

lemma to_int32_range: "- (2 ^ 31) \<le> to_int32 x \<and> to_int32 x < 2 ^ 31"
  using sint_range_size [of "word_of_int x :: 32 word"] by (simp add: to_int32_def word_size)

lemma sint_u32_small:
  assumes "(b :: u32) < 2 ^ 31"
  shows "sint b = int (unat b)"
proof -
  from assms have "uint b < 2147483648" by (simp add: word_less_def)
  moreover have "- (2 ^ 31) \<le> uint b" by (rule order_trans [of _ 0]) simp_all
  ultimately have "signed_take_bit 31 (uint b) = uint b"
    by (intro signed_take_bit_int_eq_self) simp_all
  then show ?thesis by (simp add: sint_uint)
qed

section \<open>Literals\<close>

lemma unat_of_char: "unat (of_char c :: byte) = of_char c"
  by (metis of_nat_of_char unat_of_nat_byte of_char_mod_256)

lemma of_char_byte_inject: "(of_char c :: byte) = of_char d \<longleftrightarrow> c = d"
  by (metis unat_of_char of_char_eq_iff)

lemma str_inject: "str a = str b \<longleftrightarrow> a = b"
  unfolding str_def by (rule inj_map_eq_map) (simp add: inj_def of_char_byte_inject)

lemma str_nul_free: "0 \<in> set (str a) \<longleftrightarrow> CHR 0x00 \<in> set a"
proof -
  have "of_char CHR 0x00 = (0 :: byte)" by simp
  then have "of_char c = (0 :: byte) \<longleftrightarrow> c = CHR 0x00" for c
    by (metis of_char_byte_inject)
  then show ?thesis by (auto simp: str_def image_iff)
qed

section \<open>Lists\<close>

lemma list_update_concat_mset:
  "i < length xss \<Longrightarrow>
   length (concat (xss[i := ys])) + length (xss ! i) = length (concat xss) + length ys"
  by (induction xss arbitrary: i) (auto split: nat.splits)

lemma concat_update_split:
  "i < length xss \<Longrightarrow>
   \<exists>pre post. concat xss = pre @ (xss ! i) @ post \<and> concat (xss[i := ys]) = pre @ ys @ post"
  by (metis concat.simps(2) concat_append id_take_nth_drop upd_conv_take_nth_drop)

lemma takeWhile_append_stop:
  "\<forall>x \<in> set xs. P x \<Longrightarrow> \<not> P c \<Longrightarrow> takeWhile P (xs @ c # ys) = xs"
  by (induction xs) auto

lemma append_stop_inject:
  assumes "xs @ c # ys = xs' @ d # ys'"
    and "\<forall>x \<in> set xs. P x" "\<forall>x \<in> set xs'. P x" "\<not> P c" "\<not> P d"
  shows "xs = xs' \<and> c = d \<and> ys = ys'"
proof -
  have "takeWhile P (xs @ c # ys) = xs" "takeWhile P (xs' @ d # ys') = xs'"
    using assms(2-5) by (auto intro: takeWhile_append_stop)
  with assms(1) show ?thesis by auto
qed

end
