(* ===== verification/Libc.thy ===== *)
theory Libc
  imports Prelude
begin

text \<open>
  The part of the C library the program's logic rests on: string comparison, decimal
  conversion (\<open>%u\<close>, \<open>%d\<close>, \<open>%06d\<close>), bounded printing (\<open>snprintf\<close>), \<open>atoi\<close> as glibc
  defines it, and \<open>inet_ntoa\<close>. The lemmas show that decimal texts are made of digits only,
  determine the number, and have a bounded length; they carry the injectivity of the hash
  keys and the buffer bounds of the components.
\<close>

unbundle bit_operations_syntax

section \<open>Strings\<close>

text \<open>\<open>strncmp\<close> on two NUL terminated strings: the sign of the result is the order.\<close>

fun strncmp :: "cstring \<Rightarrow> cstring \<Rightarrow> nat \<Rightarrow> int" where
  "strncmp s t 0 = 0"
| "strncmp [] [] (Suc n) = 0"
| "strncmp [] (d # t) (Suc n) = - uint d"
| "strncmp (c # s) [] (Suc n) = uint c"
| "strncmp (c # s) (d # t) (Suc n) =
     (if c = d then strncmp s t n else uint c - uint d)"

definition strcmp :: "cstring \<Rightarrow> cstring \<Rightarrow> int" where
  "strcmp s t = strncmp s t (max (length s) (length t) + 1)"

text \<open>\<open>%.*s\<close> prints bytes up to the precision or to a NUL, whichever comes first.\<close>

definition print_prec_s :: "nat \<Rightarrow> byte list \<Rightarrow> byte list" where
  "print_prec_s n bs = takeWhile (\<lambda>b. b \<noteq> 0) (take n bs)"

text \<open>
  The same conversion on a buffer of known extent: it reads up to the precision or to a NUL,
  and \<open>None\<close> when the buffer ends before both. A negative precision counts as none.
\<close>

definition read_prec_s :: "int \<Rightarrow> byte list \<Rightarrow> byte list option" where
  "read_prec_s n bs =
     (let s = takeWhile (\<lambda>b. b \<noteq> 0) (if n < 0 then bs else take (nat n) bs) in
      if length s = length bs \<and> (n < 0 \<or> length bs < nat n) then None else Some s)"

text \<open>\<open>%s\<close> of a pointer that may be NULL, which glibc prints as \<open>(null)\<close>.\<close>

definition show_s :: "cstring option \<Rightarrow> cstring" where
  "show_s s = (case s of None \<Rightarrow> str ''(null)'' | Some t \<Rightarrow> t)"

text \<open>\<open>snprintf\<close> into a buffer of \<open>n\<close> bytes keeps at most \<open>n - 1\<close> of the text.\<close>

definition snprintf :: "nat \<Rightarrow> byte list \<Rightarrow> cstring" where
  "snprintf n txt = take (n - 1) txt"

section \<open>Decimal conversion\<close>

definition is_digit :: "byte \<Rightarrow> bool" where
  "is_digit b \<longleftrightarrow> 48 \<le> b \<and> b \<le> 57"

fun show_nat :: "nat \<Rightarrow> byte list" where
  "show_nat n =
     (if n < 10 then [word_of_nat (48 + n)]
      else show_nat (n div 10) @ [word_of_nat (48 + n mod 10)])"

declare show_nat.simps [simp del]

definition show_int :: "int \<Rightarrow> byte list" where
  "show_int i = (if i < 0 then 45 # show_nat (nat (- i)) else show_nat (nat i))"

definition show_u32 :: "u32 \<Rightarrow> byte list" where
  "show_u32 w = show_nat (unat w)"

definition show_u16 :: "u16 \<Rightarrow> byte list" where
  "show_u16 w = show_nat (unat w)"

text \<open>\<open>%0nd\<close>: the sign, then zeros up to the width, then the digits.\<close>

definition show_pad :: "nat \<Rightarrow> int \<Rightarrow> byte list" where
  "show_pad w i =
     (let s = (if i < 0 then [45] else []); d = show_nat (nat \<bar>i\<bar>)
      in s @ replicate (w - length s - length d) 48 @ d)"

definition digit_val :: "byte \<Rightarrow> nat" where
  "digit_val b = unat b - 48"

definition digits_val :: "byte list \<Rightarrow> nat" where
  "digits_val ds = foldl (\<lambda>a d. a * 10 + digit_val d) 0 ds"

text \<open>
  glibc's \<open>atoi\<close> is \<open>(int) strtol(s, NULL, 10)\<close>: white space, an optional sign, digits;
  the value saturates at the 64 bit \<open>long\<close> range and its low 32 bits are taken.
\<close>

definition is_space :: "byte \<Rightarrow> bool" where
  "is_space b \<longleftrightarrow> b = 32 \<or> (9 \<le> b \<and> b \<le> 13)"

definition strtol :: "cstring \<Rightarrow> int" where
  "strtol s =
     (let t = dropWhile is_space s;
          neg = (t \<noteq> [] \<and> hd t = 45);
          u = (if t \<noteq> [] \<and> (hd t = 45 \<or> hd t = 43) then tl t else t);
          v = int (digits_val (takeWhile is_digit u));
          x = (if neg then - v else v)
      in max (- (2 ^ 63)) (min (2 ^ 63 - 1) x))"

definition atoi :: "cstring \<Rightarrow> int" where
  "atoi s = to_int32 (strtol s)"

section \<open>Addresses\<close>

text \<open>
  \<open>inet_ntoa\<close> prints the four bytes of \<open>s_addr\<close> in memory order; on a little-endian host
  the first is the low byte.
\<close>

definition addr_byte :: "u32 \<Rightarrow> nat \<Rightarrow> nat" where
  "addr_byte a i = unat (take_bit 8 (drop_bit (8 * i) a))"

definition inet_ntoa :: "u32 \<Rightarrow> cstring" where
  "inet_ntoa a =
     show_nat (addr_byte a 0) @ 46 # show_nat (addr_byte a 1) @ 46 #
     show_nat (addr_byte a 2) @ 46 # show_nat (addr_byte a 3)"

section \<open>Comparison lemmas\<close>

lemma strncmp_same [simp]: "strncmp s s n = 0"
proof (induction n arbitrary: s)
  case (Suc n)
  then show ?case by (cases s) auto
qed simp

lemma strncmp_zero_prefix:
  "strncmp s t n = 0 \<Longrightarrow> n \<le> length s \<Longrightarrow> n \<le> length t \<Longrightarrow> take n s = take n t"
  by (induction s t n rule: strncmp.induct) (auto split: if_splits simp: word_uint_eq_iff)

text \<open>Equal lengths and an equal prefix of that length: the test of the hash table.\<close>

lemma strncmp_eq_iff:
  "length s = length t \<and> strncmp s t (length s) = 0 \<longleftrightarrow> s = t"
  using strncmp_zero_prefix [of s t "length s"] by auto

lemma strncmp_zero_nul_free:
  "0 \<notin> set s \<Longrightarrow> 0 \<notin> set t \<Longrightarrow> max (length s) (length t) < n \<Longrightarrow> strncmp s t n = 0 \<longleftrightarrow> s = t"
  by (induction s t n rule: strncmp.induct) (auto simp: word_uint_eq_iff)

lemma strcmp_zero_iff: "0 \<notin> set s \<Longrightarrow> 0 \<notin> set t \<Longrightarrow> strcmp s t = 0 \<longleftrightarrow> s = t"
  by (simp add: strcmp_def strncmp_zero_nul_free)

section \<open>Decimal lemmas\<close>

lemma digit_val_of_nat: "d < 10 \<Longrightarrow> digit_val (word_of_nat (48 + d)) = d"
  by (simp add: digit_val_def unat_of_nat del: of_nat_add)

lemma is_digit_of_nat: "d < 10 \<Longrightarrow> is_digit (word_of_nat (48 + d))"
  by (simp add: is_digit_def word_le_nat_alt unat_of_nat del: of_nat_add)

lemma show_nat_digits: "\<forall>b \<in> set (show_nat n). is_digit b"
proof (induction n rule: show_nat.induct)
  case (1 n)
  then show ?case
    by (subst show_nat.simps) (auto simp del: of_nat_add simp: is_digit_of_nat)
qed

lemma show_nat_nonempty [simp]: "show_nat n \<noteq> []"
  by (subst show_nat.simps) simp

lemma digits_val_show_nat: "digits_val (show_nat n) = n"
proof (induction n rule: show_nat.induct)
  case (1 n)
  then show ?case
    by (subst show_nat.simps) (auto simp del: of_nat_add simp: digits_val_def digit_val_of_nat)
qed

lemma show_nat_inject [simp]: "show_nat a = show_nat b \<longleftrightarrow> a = b"
  by (metis digits_val_show_nat)

text \<open>A number followed by a byte that is no digit can be read back: the key formats.\<close>

lemma show_nat_stop_inject:
  assumes "show_nat a @ c # xs = show_nat b @ d # ys" and "\<not> is_digit c" "\<not> is_digit d"
  shows "a = b \<and> c = d \<and> xs = ys"
  using append_stop_inject [OF assms(1), of is_digit] assms(2,3) show_nat_digits by auto

lemma show_nat_length: "0 < k \<Longrightarrow> n < 10 ^ k \<Longrightarrow> length (show_nat n) \<le> k"
proof (induction n arbitrary: k rule: show_nat.induct)
  case (1 n)
  show ?case
  proof (cases "n < 10")
    case True
    with "1.prems" show ?thesis by (subst show_nat.simps) simp
  next
    case False
    with "1.prems" obtain j where k: "k = Suc j" "0 < j"
      by (cases k; cases "k - 1") auto
    with "1.prems" have "n div 10 < 10 ^ j" by (simp add: less_mult_imp_div_less mult.commute)
    with "1.IH" [OF False, of j] k False show ?thesis by (subst show_nat.simps) simp
  qed
qed

lemma show_u32_length: "length (show_u32 w) \<le> 10"
proof -
  have "unat w < 10 ^ 10" by (rule less_trans [OF unat_u32]) simp
  then show ?thesis by (simp add: show_u32_def show_nat_length)
qed

lemma show_u16_length: "length (show_u16 w) \<le> 5"
proof -
  have "unat w < 10 ^ 5" by (rule less_trans [OF unat_u16]) simp
  then show ?thesis by (simp add: show_u16_def show_nat_length)
qed

lemma addr_byte_less: "addr_byte a i < 256"
  by (simp add: addr_byte_def take_bit_eq_mod unat_mod_distrib)

lemma inet_ntoa_length: "length (inet_ntoa a) \<le> 15"
proof -
  have "length (show_nat (addr_byte a i)) \<le> 3" for i
    using show_nat_length [of 3 "addr_byte a i"] addr_byte_less [of a i] by simp
  from this [of 0] this [of 1] this [of 2] this [of 3] show ?thesis
    by (simp add: inet_ntoa_def)
qed

end
