(* ===== verification/Double.thy ===== *)
theory Double
  imports Libc
begin

text \<open>
  Double precision numbers as the JSON library uses them: conversion from integers, the
  decimal formats \<open>%1.15g\<close> and \<open>%1.17g\<close>, \<open>strtod\<close>, subtraction and comparison, all with
  IEEE rounding to nearest, ties to even.

  A finite double is a sign and a natural number of units of \<open>2 ^ -1074\<close>, the smallest
  positive one; \<open>double_ok\<close> says that the number fits the 53 bit significand and the exponent
  range. Rounding, formatting and reading are then integer arithmetic. The lemmas give the
  exactness of integers below \<open>2 ^ 53\<close>, the decimal form of those below \<open>10 ^ 15\<close>, the
  length bound of the formats, and that reading a decimal integer gives it back.
\<close>

text \<open>Powers such as \<open>10 ^ 400\<close> stay symbolic in this theory.\<close>

declare power_numeral [simp del]

section \<open>Representation and rounding\<close>

datatype double = NaN | Inf bool | Fin bool nat

definition UNITS :: nat where
  "UNITS = 2 ^ 1074"

fun bitlen :: "nat \<Rightarrow> nat" where
  "bitlen n = (if n = 0 then 0 else Suc (bitlen (n div 2)))"

declare bitlen.simps [simp del]

definition round_half_even :: "nat \<Rightarrow> nat \<Rightarrow> nat" where
  "round_half_even n d =
     (let q = n div d; r = n mod d in
      if 2 * r < d \<or> 2 * r = d \<and> even q then q else q + 1)"

text \<open>The nearest representable number of units to \<open>n / d\<close> units.\<close>

definition round_units :: "nat \<Rightarrow> nat \<Rightarrow> nat" where
  "round_units n d =
     (let k = bitlen (n div d) - 53 in round_half_even n (d * 2 ^ k) * 2 ^ k)"

definition make_double :: "bool \<Rightarrow> nat \<Rightarrow> double" where
  "make_double s u = (if u < 2 ^ 2098 then Fin s u else Inf s)"

fun double_ok :: "double \<Rightarrow> bool" where
  "double_ok (Fin s u) \<longleftrightarrow> 2 ^ (bitlen u - 53) dvd u \<and> u < 2 ^ 2098"
| "double_ok _ \<longleftrightarrow> True"

definition double_of_nat :: "nat \<Rightarrow> double" where
  "double_of_nat n = make_double False (round_units (n * UNITS) 1)"

definition double_of_int :: "int \<Rightarrow> double" where
  "double_of_int i = make_double (i < 0) (round_units (nat \<bar>i\<bar> * UNITS) 1)"

section \<open>Tests and conversion to integers\<close>

text \<open>\<open>d * 0 != 0\<close> holds of NaN and the infinities only.\<close>

definition nan_or_inf :: "double \<Rightarrow> bool" where
  "nan_or_inf d = (case d of Fin s u \<Rightarrow> False | _ \<Rightarrow> True)"

definition units_of :: "bool \<Rightarrow> nat \<Rightarrow> int" where
  "units_of s u = (if s then - int u else int u)"

text \<open>
  \<open>d >= i\<close> and \<open>d <= i\<close> for an integer \<open>i\<close>; both are false of NaN.
\<close>

definition double_ge :: "double \<Rightarrow> int \<Rightarrow> bool" where
  "double_ge d i = (case d of NaN \<Rightarrow> False | Inf s \<Rightarrow> \<not> s | Fin s u \<Rightarrow> i * int UNITS \<le> units_of s u)"

definition double_le :: "double \<Rightarrow> int \<Rightarrow> bool" where
  "double_le d i = (case d of NaN \<Rightarrow> False | Inf s \<Rightarrow> s | Fin s u \<Rightarrow> units_of s u \<le> i * int UNITS)"

text \<open>
  \<open>(int) d\<close> truncates; where the value does not fit, the result is what the x86-64
  conversion gives, \<open>INT_MIN\<close>.
\<close>

definition double_to_int :: "double \<Rightarrow> int" where
  "double_to_int d =
     (case d of
        Fin s u \<Rightarrow>
          (let t = (if s then - int (u div UNITS) else int (u div UNITS)) in
           if - (2 ^ 31) \<le> t \<and> t < 2 ^ 31 then t else - (2 ^ 31))
      | _ \<Rightarrow> - (2 ^ 31))"

text \<open>\<open>fabs(a - b) <= 0.0000000000000001\<close>: the difference is rounded, the literal too.\<close>

definition DOUBLE_PRECISION :: nat where
  "DOUBLE_PRECISION = round_units UNITS (10 ^ 16)"

definition compare_double :: "double \<Rightarrow> double \<Rightarrow> bool" where
  "compare_double a b =
     (case a of
        Fin s u \<Rightarrow>
          (case b of
             Fin t v \<Rightarrow> round_units (nat \<bar>units_of s u - units_of t v\<bar>) 1 \<le> DOUBLE_PRECISION
           | _ \<Rightarrow> False)
      | _ \<Rightarrow> False)"

section \<open>Decimal output\<close>

text \<open>The decimal exponent of \<open>u\<close> units, scaled so that the digits of the floor show it.\<close>

definition dec_exp :: "nat \<Rightarrow> int" where
  "dec_exp u = int (length (show_nat (u * 10 ^ 400 div UNITS))) - 401"

definition strip_zeros :: "byte list \<Rightarrow> byte list" where
  "strip_zeros ds = rev (dropWhile (\<lambda>d. d = 48) (rev ds))"

definition point :: "byte list \<Rightarrow> byte list" where
  "point ds = (if ds = [] then [] else 46 # ds)"

text \<open>
  The \<open>p\<close> significant digits of \<open>u\<close> units and the exponent of the first one, as style
  \<open>%e\<close> rounds them.
\<close>

definition sig_digits :: "nat \<Rightarrow> nat \<Rightarrow> byte list \<times> int" where
  "sig_digits p u =
     (let e = dec_exp u; k = e - int p + 1;
          d = (if 0 \<le> k then round_half_even u (UNITS * 10 ^ nat k)
               else round_half_even (u * 10 ^ nat (- k)) UNITS)
      in if d = 10 ^ p then (show_nat (10 ^ (p - 1)), e + 1) else (show_nat d, e))"

text \<open>\<open>%1.pg\<close>: fixed notation for exponents from -4 to \<open>p - 1\<close>, trailing zeros dropped.\<close>

definition format_mag :: "nat \<Rightarrow> nat \<Rightarrow> byte list" where
  "format_mag p u =
     (if u = 0 then [48]
      else
        (let (ds, e) = sig_digits p u in
         if e < - 4 \<or> int p \<le> e then
           hd ds # point (strip_zeros (tl ds)) @ 101 # (if e < 0 then 45 else 43) # show_pad 2 \<bar>e\<bar>
         else if e < 0 then 48 # 46 # replicate (nat (- e - 1)) 48 @ strip_zeros ds
         else take (nat e + 1) ds @ point (strip_zeros (drop (nat e + 1) ds))))"

definition format_g :: "nat \<Rightarrow> double \<Rightarrow> byte list" where
  "format_g p d =
     (case d of
        NaN \<Rightarrow> str ''nan''
      | Inf s \<Rightarrow> (if s then [45] else []) @ str ''inf''
      | Fin s u \<Rightarrow> (if s then [45] else []) @ format_mag p u)"

section \<open>Decimal input\<close>

definition read_exp :: "byte list \<Rightarrow> int \<times> nat" where
  "read_exp cs =
     (case cs of
        c # cs' \<Rightarrow>
          if c = 101 \<or> c = 69 then
            (let neg = (cs' \<noteq> [] \<and> hd cs' = 45);
                 sgn = (cs' \<noteq> [] \<and> (hd cs' = 45 \<or> hd cs' = 43));
                 ds = takeWhile is_digit (if sgn then tl cs' else cs');
                 v = int (digits_val ds)
             in if ds = [] then (0, 0)
                else (if neg then - v else v, 1 + (if sgn then 1 else 0) + length ds))
          else (0, 0)
      | [] \<Rightarrow> (0, 0))"

text \<open>
  \<open>strtod\<close> on a decimal text without leading blanks: the number and how many characters it
  takes, none where no digit is found.
\<close>

definition strtod :: "cstring \<Rightarrow> double \<times> nat" where
  "strtod cs =
     (let neg = (cs \<noteq> [] \<and> hd cs = 45);
          sgn = (cs \<noteq> [] \<and> (hd cs = 45 \<or> hd cs = 43));
          r = (if sgn then tl cs else cs);
          ip = takeWhile is_digit r;
          r = dropWhile is_digit r;
          dot = (r \<noteq> [] \<and> hd r = 46);
          fp = (if dot then takeWhile is_digit (tl r) else []);
          r = (if dot then dropWhile is_digit (tl r) else r);
          (e, n) = read_exp r;
          k = e - int (length fp);
          mant = digits_val (ip @ fp);
          u = (if 0 \<le> k then round_units (mant * 10 ^ nat k * UNITS) 1
               else round_units (mant * UNITS) (10 ^ nat (- k)))
      in if ip @ fp = [] then (Fin False 0, 0)
         else (make_double neg u,
               (if sgn then 1 else 0) + length ip + (if dot then 1 else 0) + length fp + n))"


section \<open>Digits\<close>

lemma show_nat_shift: "0 < n \<Longrightarrow> show_nat (n * 10 ^ j) = show_nat n @ replicate j 48"
proof (induction j)
  case (Suc j)
  then have "\<not> n * 10 ^ Suc j < 10" by simp
  then have "show_nat (n * 10 ^ Suc j) = show_nat (n * 10 ^ Suc j div 10) @ [word_of_nat (48 + n * 10 ^ Suc j mod 10)]"
    by (subst show_nat.simps) (simp only: if_False)
  moreover have "n * 10 ^ Suc j = (n * 10 ^ j) * 10" by simp
  ultimately have "show_nat (n * 10 ^ Suc j) = show_nat (n * 10 ^ j) @ [48]"
    by (simp only: nonzero_mult_div_cancel_right mod_mult_self2_is_0) simp
  with Suc show ?case by (simp flip: replicate_append_same)
qed simp

lemma digits_val_less: "\<forall>d \<in> set ds. is_digit d \<Longrightarrow> digits_val ds < 10 ^ length ds"
proof (induction ds rule: rev_induct)
  case (snoc d ds)
  then have "digits_val ds + 1 \<le> 10 ^ length ds" "digit_val d < 10"
    by (auto simp: digit_val_def is_digit_def word_le_nat_alt)
  then have "digits_val ds * 10 + digit_val d < (digits_val ds + 1) * 10" by simp
  also have "\<dots> \<le> 10 ^ length ds * 10"
    using \<open>digits_val ds + 1 \<le> 10 ^ length ds\<close> by (rule mult_right_mono) simp
  finally show ?case by (simp add: digits_val_def)
qed (simp add: digits_val_def)

lemma show_nat_upper: "n < 10 ^ length (show_nat n)"
  using digits_val_less [OF show_nat_digits, of n] by (simp add: digits_val_show_nat)

lemma show_nat_lower: "0 < n \<Longrightarrow> 10 ^ (length (show_nat n) - 1) \<le> n"
proof (induction n rule: show_nat.induct)
  case (1 n)
  show ?case
  proof (cases "n < 10")
    case True
    with "1.prems" show ?thesis by (subst show_nat.simps) simp
  next
    case False
    let ?l = "length (show_nat (n div 10))"
    from False have "10 ^ (?l - 1) \<le> n div 10" using "1.IH" by simp
    then have "10 ^ (?l - 1) * 10 \<le> n" by (simp add: less_eq_div_iff_mult_less_eq)
    moreover have "length (show_nat n) = Suc ?l" using False by (subst show_nat.simps) simp
    moreover have "0 < ?l" by simp
    ultimately show ?thesis
      by (metis One_nat_def Suc_pred diff_Suc_1 mult.commute power_Suc)
  qed
qed

lemma show_nat_length_eq: "10 ^ k \<le> n \<Longrightarrow> n < 10 ^ Suc k \<Longrightarrow> length (show_nat n) = Suc k"
proof (rule antisym)
  assume "10 ^ k \<le> n"
  then have "(10::nat) ^ k < 10 ^ length (show_nat n)" using show_nat_upper by (rule le_less_trans)
  then show "Suc k \<le> length (show_nat n)" by (simp add: Suc_le_eq)
next
  assume "n < 10 ^ Suc k"
  then show "length (show_nat n) \<le> Suc k" by (intro show_nat_length) simp_all
qed

section \<open>Rounding\<close>

lemma UNITS_pos [simp]: "0 < UNITS" "UNITS \<noteq> 0"
  by (simp_all add: UNITS_def)

lemma round_half_even_exact [simp]: "0 < d \<Longrightarrow> round_half_even (n * d) d = n"
  by (simp add: round_half_even_def Let_def)

lemma bitlen_upper: "n < 2 ^ bitlen n"
proof (induction n rule: bitlen.induct)
  case (1 n)
  then show ?case by (subst bitlen.simps) auto
qed

lemma bitlen_le: "n < 2 ^ k \<Longrightarrow> bitlen n \<le> k"
proof (induction n arbitrary: k rule: bitlen.induct)
  case (1 n)
  show ?case
  proof (cases "n = 0")
    case False
    with "1.prems" obtain j where "k = Suc j" by (cases k) auto
    with "1.IH" [OF False, of j] "1.prems" False show ?thesis by (subst bitlen.simps) auto
  qed (simp add: bitlen.simps)
qed

lemma bitlen_shift: "0 < n \<Longrightarrow> bitlen (n * 2 ^ k) = bitlen n + k"
proof (induction k)
  case (Suc k)
  have "n * 2 ^ Suc k div 2 = n * 2 ^ k" by simp
  with Suc show ?case by (subst bitlen.simps) simp
qed simp

lemma bitlen_mono: "m \<le> n \<Longrightarrow> bitlen m \<le> bitlen n"
  by (meson bitlen_upper bitlen_le le_less_trans)

text \<open>A representable number of units is its own rounding.\<close>

lemma round_units_exact_div: "0 < d \<Longrightarrow> 2 ^ (bitlen n - 53) dvd n \<Longrightarrow> round_units (n * d) d = n"
proof -
  let ?k = "2 ^ (bitlen n - 53)"
  assume "0 < d" "?k dvd n"
  then obtain q where "n = q * ?k" by (metis dvdE mult.commute)
  then have "n * d = q * (d * ?k)" by simp
  then have "round_half_even (n * d) (d * ?k) = q"
    using \<open>0 < d\<close> by (simp only: round_half_even_exact) simp
  with \<open>n = q * ?k\<close> \<open>0 < d\<close> show ?thesis by (simp add: round_units_def Let_def)
qed

lemma round_units_exact: "2 ^ (bitlen n - 53) dvd n \<Longrightarrow> round_units n 1 = n"
  using round_units_exact_div [of 1 n] by simp

lemma int_units_representable: "n < 2 ^ 53 \<Longrightarrow> 2 ^ (bitlen (n * UNITS) - 53) dvd n * UNITS"
proof (cases "n = 0")
  case False
  assume "n < 2 ^ 53"
  then have "bitlen (n * UNITS) - 53 \<le> 1074"
    using bitlen_shift [of n 1074] bitlen_le [of n 53] False by (simp add: UNITS_def)
  then have "(2::nat) ^ (bitlen (n * UNITS) - 53) dvd 2 ^ 1074" by (rule le_imp_power_dvd)
  then show ?thesis by (simp add: UNITS_def)
qed simp

lemma int_units_range: "n < 2 ^ 53 \<Longrightarrow> n * UNITS < 2 ^ 2098"
proof -
  assume "n < 2 ^ 53"
  then have "n * UNITS < 2 ^ 53 * 2 ^ 1074" unfolding UNITS_def by (rule mult_strict_right_mono) simp
  also have "\<dots> \<le> 2 ^ 2098" unfolding power_add [symmetric] by (rule power_increasing) simp_all
  finally show ?thesis .
qed

lemma double_of_nat_exact: "n < 2 ^ 53 \<Longrightarrow> double_of_nat n = Fin False (n * UNITS)"
  unfolding double_of_nat_def make_double_def
  using round_units_exact [OF int_units_representable] int_units_range by metis

text \<open>Rounding gives a representable number, whatever is rounded.\<close>

lemma round_half_even_bound: "n < q * d \<Longrightarrow> 0 < d \<Longrightarrow> round_half_even n d \<le> q"
  using div_less_iff_less_mult [of d n q] by (auto simp: round_half_even_def Let_def)

lemma round_units_ok:
  assumes "0 < d"
  shows "2 ^ (bitlen (round_units n d) - 53) dvd round_units n d"
proof -
  define k where "k = bitlen (n div d) - 53"
  define q where "q = round_half_even n (d * 2 ^ k)"
  have "bitlen (n div d) \<le> 53 + k" by (simp add: k_def)
  then have "(2 :: nat) ^ bitlen (n div d) \<le> 2 ^ (53 + k)" by (rule power_increasing) simp
  then have "n div d < 2 ^ (53 + k)" using bitlen_upper [of "n div d"] by (rule less_le_trans [rotated])
  then have "n < 2 ^ (53 + k) * d" using assms by (simp only: div_less_iff_less_mult)
  then have "n < 2 ^ 53 * (d * 2 ^ k)" by (simp only: power_add mult_ac)
  then have q: "q \<le> 2 ^ 53" unfolding q_def using assms by (intro round_half_even_bound) simp_all
  have r: "round_units n d = q * 2 ^ k" by (simp add: round_units_def k_def q_def Let_def)
  show ?thesis
  proof (cases "q < 2 ^ 53")
    case True
    then have "q * 2 ^ k < 2 ^ 53 * 2 ^ k" by (intro mult_strict_right_mono) simp_all
    then have "q * 2 ^ k < 2 ^ (53 + k)" by (simp only: power_add)
    then have "bitlen (q * 2 ^ k) - 53 \<le> k" using bitlen_le by fastforce
    then have "(2 :: nat) ^ (bitlen (q * 2 ^ k) - 53) dvd 2 ^ k" by (rule le_imp_power_dvd)
    then show ?thesis unfolding r by (rule dvd_mult)
  next
    case False
    with q have "q = 2 ^ 53" by simp
    then have e: "q * 2 ^ k = 2 ^ (53 + k)" by (simp only: power_add)
    have "(2 :: nat) ^ (53 + k) < 2 ^ (54 + k)" by (rule power_strict_increasing) simp_all
    from bitlen_le [OF this] have "bitlen (2 ^ (53 + k)) - 53 \<le> 53 + k" by simp
    then show ?thesis unfolding r e by (rule le_imp_power_dvd)
  qed
qed

lemma make_double_ok: "0 < d \<Longrightarrow> double_ok (make_double s (round_units n d))"
  using round_units_ok [of d n] by (simp add: make_double_def)

lemma double_of_nat_ok: "double_ok (double_of_nat n)"
  unfolding double_of_nat_def by (rule make_double_ok) simp


section \<open>Integers as decimal text\<close>

lemma strip_zeros_replicate [simp]: "strip_zeros (replicate j 48) = []"
  by (simp add: strip_zeros_def)

lemma dec_exp_int: "0 < n \<Longrightarrow> dec_exp (n * UNITS) = int (length (show_nat n)) - 1"
proof -
  assume "0 < n"
  have "n * UNITS * 10 ^ 400 div UNITS = n * 10 ^ 400"
    by (metis UNITS_pos(2) mult.assoc mult.commute nonzero_mult_div_cancel_left)
  with \<open>0 < n\<close> show ?thesis by (simp only: dec_exp_def show_nat_shift) simp
qed

lemma sig_digits_int:
  assumes "0 < n" "n < 10 ^ p" "0 < p"
  shows "sig_digits p (n * UNITS) =
           (show_nat n @ replicate (p - length (show_nat n)) 48, int (length (show_nat n)) - 1)"
proof -
  let ?l = "length (show_nat n)"
  from assms have l: "?l \<le> p" by (intro show_nat_length)
  define k where "k = int ?l - int p"
  have d: "(if 0 \<le> k then round_half_even (n * UNITS) (UNITS * 10 ^ nat k)
            else round_half_even (n * UNITS * 10 ^ nat (- k)) UNITS) = n * 10 ^ (p - ?l)"
  proof (cases "?l = p")
    case True
    then show ?thesis by (simp add: k_def)
  next
    case False
    with l have "\<not> 0 \<le> k" "nat (- k) = p - ?l" by (auto simp: k_def)
    moreover have "n * UNITS * 10 ^ (p - ?l) = (n * 10 ^ (p - ?l)) * UNITS" by simp
    ultimately show ?thesis by (simp only: if_False round_half_even_exact UNITS_pos)
  qed
  have "n * 10 ^ (p - ?l) < 10 ^ ?l * 10 ^ (p - ?l)"
    using show_nat_upper [of n] by simp
  also have "\<dots> = 10 ^ p" using l by (simp flip: power_add)
  finally have "n * 10 ^ (p - ?l) \<noteq> 10 ^ p" by simp
  moreover have "int ?l - 1 - int p + 1 = k" by (simp add: k_def)
  ultimately show ?thesis
    by (simp only: sig_digits_def dec_exp_int [OF assms(1)] Let_def d if_False show_nat_shift [OF assms(1)])
qed

lemma show_nat_zero: "show_nat 0 = [48]"
  by (subst show_nat.simps) simp

text \<open>An integer below \<open>10 ^ p\<close> is printed as its decimal digits.\<close>

lemma format_g_int:
  assumes "n < 10 ^ p" "n < 2 ^ 53" "0 < p"
  shows "format_g p (double_of_nat n) = show_nat n"
proof (cases "n = 0")
  case True
  then show ?thesis by (simp add: double_of_nat_exact format_g_def format_mag_def show_nat_zero)
next
  case False
  let ?l = "length (show_nat n)"
  from assms have l: "?l \<le> p" by (intro show_nat_length)
  have "0 < ?l" by simp
  then have e: "\<not> int ?l - 1 < 0" "\<not> (int ?l - 1 < - 4 \<or> int p \<le> int ?l - 1)" "nat (int ?l - 1) + 1 = ?l"
    using l by linarith+
  from False assms(1,3) sig_digits_int [of n p] show ?thesis
    by (simp only: double_of_nat_exact [OF assms(2)] format_g_def format_mag_def double.case prod.case Let_def)
      (use False e in \<open>simp add: point_def\<close>)
qed

section \<open>Reading decimal integers\<close>

definition number_end :: "byte list \<Rightarrow> bool" where
  "number_end cs \<longleftrightarrow> cs = [] \<or> \<not> is_digit (hd cs) \<and> hd cs \<notin> {46, 101, 69}"

lemma takeWhile_digits:
  assumes "number_end cs" "\<forall>d \<in> set ds. is_digit d"
  shows "takeWhile is_digit (ds @ cs) = ds \<and> dropWhile is_digit (ds @ cs) = cs"
  using assms by (cases cs) (auto simp: number_end_def)

lemma digit_not_sign: "is_digit d \<Longrightarrow> d \<noteq> 45 \<and> d \<noteq> 43"
  by (auto simp: is_digit_def)

lemma strtod_nat:
  assumes "n < 2 ^ 53" "number_end cs"
  shows "strtod (show_nat n @ cs) = (double_of_nat n, length (show_nat n))"
proof -
  have "is_digit (hd (show_nat n @ cs))" using show_nat_digits [of n] by (simp add: hd_append)
  then have sign: "(hd (show_nat n @ cs) = 45) = False" "(hd (show_nat n @ cs) = 43) = False"
    using digit_not_sign by blast+
  have split: "takeWhile is_digit (show_nat n @ cs) = show_nat n" "dropWhile is_digit (show_nat n @ cs) = cs"
    using takeWhile_digits [OF assms(2) show_nat_digits] by auto
  have tl: "read_exp cs = (0, 0)" "(cs \<noteq> [] \<and> hd cs = 46) = False"
    using assms(2) by (auto simp: read_exp_def number_end_def split: list.splits)
  have "round_units (n * UNITS) 1 = n * UNITS"
    using round_units_exact [OF int_units_representable [OF assms(1)]] .
  then show ?thesis
    unfolding strtod_def Let_def sign split tl simp_thms if_False append_Nil2 prod.case digits_val_show_nat
    by (simp add: double_of_nat_def)
qed


section \<open>Extent of the formats\<close>

lemma scaled_less:
  fixes u U :: nat
  assumes "u * 10 ^ 400 < 10 ^ l * U" "400 + p + b = l + a"
  shows "u * 10 ^ a < 10 ^ p * (U * 10 ^ b)"
proof -
  have "u * 10 ^ a * 10 ^ 400 = u * 10 ^ 400 * 10 ^ a" by simp
  also have "\<dots> < 10 ^ l * U * 10 ^ a" by (rule mult_strict_right_mono [OF assms(1)]) simp
  also have "\<dots> = 10 ^ (l + a) * U" by (simp add: power_add)
  also have "\<dots> = 10 ^ p * (U * 10 ^ b) * 10 ^ 400"
    unfolding assms(2) [symmetric] by (simp only: power_add mult_ac)
  finally show ?thesis by (rule mult_right_less_imp_less) simp
qed

lemma round_half_even_le: "0 < d \<Longrightarrow> n < m * d \<Longrightarrow> round_half_even n d \<le> m"
  using less_mult_imp_div_less [of n m d] by (auto simp: round_half_even_def Let_def)

lemma dec_exp_upper:
  "u * 10 ^ 400 < 10 ^ length (show_nat (u * 10 ^ 400 div UNITS)) * UNITS"
  using show_nat_upper [of "u * 10 ^ 400 div UNITS"] by (metis UNITS_pos(1) div_less_iff_less_mult)

lemma sig_digits_length:
  assumes "0 < p" "sig_digits p u = (ds, e)"
  shows "length ds \<le> p \<and> ds \<noteq> [] \<and> (\<forall>d \<in> set ds. is_digit d) \<and>
         (e = dec_exp u \<or> e = dec_exp u + 1)"
proof -
  let ?l = "length (show_nat (u * 10 ^ 400 div UNITS))"
  define k where "k = int ?l - 400 - int p"
  define d where "d = (if 0 \<le> k then round_half_even u (UNITS * 10 ^ nat k)
                       else round_half_even (u * 10 ^ nat (- k)) UNITS)"
  have k: "dec_exp u - int p + 1 = k" by (simp add: dec_exp_def k_def)
  have le: "d \<le> 10 ^ p"
  proof (cases "0 \<le> k")
    case True
    then have "400 + p + nat k = ?l + 0" by (auto simp: k_def)
    from scaled_less [OF dec_exp_upper this] True show ?thesis
      by (simp add: d_def round_half_even_le)
  next
    case False
    then have "400 + p + 0 = ?l + nat (- k)" by (auto simp: k_def)
    from scaled_less [OF dec_exp_upper this] False show ?thesis
      by (simp add: d_def round_half_even_le)
  qed
  have "length (show_nat (10 ^ (p - 1))) = p"
    using show_nat_length_eq [of "p - 1" "10 ^ (p - 1)"] assms(1) by simp
  moreover have "length (show_nat d) \<le> p" if "d \<noteq> 10 ^ p"
    using that le assms(1) by (intro show_nat_length) auto
  ultimately show ?thesis
    using assms(2) show_nat_digits [of d] show_nat_digits [of "10 ^ (p - 1)"]
    unfolding sig_digits_def Let_def k d_def [symmetric]
    by (simp split: if_splits; fastforce)
qed

lemma strip_zeros_props: "length (strip_zeros ds) \<le> length ds" "set (strip_zeros ds) \<subseteq> set ds"
  unfolding strip_zeros_def
  using length_dropWhile_le [of "\<lambda>d. d = 48" "rev ds"] set_dropWhileD by fastforce+

lemma dec_exp_range: "u < 2 ^ 2098 \<Longrightarrow> - 401 \<le> dec_exp u \<and> dec_exp u \<le> 308"
proof -
  assume "u < 2 ^ 2098"
  moreover have "(2098::nat) = 1024 + 1074" by simp
  then have "(2::nat) ^ 2098 = 2 ^ 1024 * UNITS" by (simp only: UNITS_def power_add)
  ultimately have "u < 2 ^ 1024 * UNITS" by metis
  moreover have "(2::nat) ^ 1024 \<le> 10 ^ 309" by (simp add: power_numeral)
  ultimately have "u < 10 ^ 309 * UNITS" by (meson mult_le_mono1 order_less_le_trans)
  then have "u * 10 ^ 400 < 10 ^ 309 * UNITS * 10 ^ 400" by (rule mult_strict_right_mono) simp
  then have "u * 10 ^ 400 div UNITS < 10 ^ 309 * 10 ^ 400"
    by (intro less_mult_imp_div_less) (simp only: mult_ac)
  moreover have "(709::nat) = 309 + 400" by simp
  ultimately have "u * 10 ^ 400 div UNITS < 10 ^ 709" by (simp only: power_add)
  from show_nat_length [OF _ this] show ?thesis by (simp add: dec_exp_def)
qed

lemma show_pad_exp: "\<bar>e\<bar> < 1000 \<Longrightarrow> length (show_pad 2 \<bar>e\<bar>) \<le> 3"
proof -
  assume "\<bar>e\<bar> < 1000"
  then have "nat \<bar>e\<bar> < 10 ^ 3" by (simp add: power_numeral)
  from show_nat_length [OF _ this] show ?thesis by (simp add: show_pad_def Let_def)
qed

text \<open>The longest text of a double with \<open>p\<close> digits has a sign, a point and \<open>e-308\<close>.\<close>

lemma format_g_length:
  assumes "double_ok d" "\<not> nan_or_inf d" "0 < p"
  shows "length (format_g p d) \<le> p + 7 \<and> format_g p d \<noteq> []"
proof -
  from assms(2) obtain s u where d: "d = Fin s u" by (cases d) (auto simp: nan_or_inf_def)
  obtain ds e where sd: "sig_digits p u = (ds, e)" by (cases "sig_digits p u")
  from assms(1) d have "- 401 \<le> e" "e \<le> 309"
    using sig_digits_length [OF assms(3) sd] dec_exp_range [of u] by auto
  then have pad: "length (show_pad 2 \<bar>e\<bar>) \<le> 3" by (intro show_pad_exp) auto
  have len: "length ds \<le> p" "0 < length ds" using sig_digits_length [OF assms(3) sd] by auto
  have st: "length (strip_zeros xs) \<le> length xs" for xs by (rule strip_zeros_props)
  have "length (format_mag p u) \<le> p + 6 \<and> format_mag p u \<noteq> []"
    using pad len st [of ds] st [of "tl ds"] st [of "drop (nat e + 1) ds"] assms(3)
    by (auto simp: format_mag_def sd point_def)
  then show ?thesis by (auto simp: d format_g_def)
qed

definition number_char :: "byte \<Rightarrow> bool" where
  "number_char c \<longleftrightarrow> is_digit c \<or> c \<in> {43, 45, 46, 101, 69}"

lemma format_g_chars:
  assumes "\<not> nan_or_inf d" "0 < p"
  shows "\<forall>c \<in> set (format_g p d). number_char c"
proof -
  from assms(1) obtain s u where d: "d = Fin s u" by (cases d) (auto simp: nan_or_inf_def)
  obtain ds e where sd: "sig_digits p u = (ds, e)" by (cases "sig_digits p u")
  have ds: "\<forall>c \<in> set ds. is_digit c" "ds \<noteq> []" using sig_digits_length [OF assms(2) sd] by auto
  have st: "set (strip_zeros xs) \<subseteq> set xs" for xs by (rule strip_zeros_props)
  have "\<forall>c \<in> set (point (strip_zeros (tl ds))). number_char c"
    "\<forall>c \<in> set (point (strip_zeros (drop (nat e + 1) ds))). number_char c"
    "\<forall>c \<in> set (strip_zeros ds). number_char c" "\<forall>c \<in> set (take (nat e + 1) ds). number_char c"
    using ds st [of ds] st [of "tl ds"] st [of "drop (nat e + 1) ds"]
    by (auto simp: point_def number_char_def dest!: subsetD list.set_sel(2) in_set_dropD in_set_takeD)
  moreover have "number_char (hd ds)" "number_char 48"
    using ds by (auto simp: number_char_def is_digit_def)
  moreover have "\<forall>c \<in> set (show_pad 2 \<bar>e\<bar>). number_char c"
    using show_nat_digits [of "nat \<bar>e\<bar>"] \<open>number_char 48\<close>
    by (auto simp: show_pad_def Let_def number_char_def)
  moreover have "number_char 43" "number_char 45" "number_char 46" "number_char 101"
    by (simp_all add: number_char_def)
  ultimately show ?thesis by (auto simp: d format_g_def format_mag_def sd)
qed

lemma number_char_nonzero: "number_char c \<Longrightarrow> c \<noteq> 0"
  by (auto simp: number_char_def is_digit_def)

declare power_numeral [simp]

end
