(* ===== verification/Json.thy ===== *)
theory Json
  imports Double
begin

text \<open>
  The data model of the JSON library (\<open>cJSON.c\<close>): items, their construction, lookup, the
  additions to arrays and objects, duplication and comparison, with the library's allocator
  calls on every outcome.

  An item is a tree: \<open>child\<close> is the list of the items reached from the \<open>child\<close> pointer along
  \<open>next\<close>. How the pointer operations keep that list is the subject of \<open>Json_Links\<close>. A
  pointer that may be NULL is an option; a function that changes an item through a pointer
  returns the changed item. The ledger of the allocator counts one block per item, per key
  and per string value the item owns (\<open>json_blocks\<close>).
\<close>

unbundle bit_operations_syntax

section \<open>Items\<close>

definition cJSON_Invalid :: int where "cJSON_Invalid = 0"
definition cJSON_False :: int where "cJSON_False = 1"
definition cJSON_True :: int where "cJSON_True = 2"
definition cJSON_NULL :: int where "cJSON_NULL = 4"
definition cJSON_Number :: int where "cJSON_Number = 8"
definition cJSON_String :: int where "cJSON_String = 16"
definition cJSON_Array :: int where "cJSON_Array = 32"
definition cJSON_Object :: int where "cJSON_Object = 64"
definition cJSON_Raw :: int where "cJSON_Raw = 128"
definition cJSON_IsReference :: int where "cJSON_IsReference = 256"
definition cJSON_StringIsConst :: int where "cJSON_StringIsConst = 512"

lemmas json_types =
  cJSON_Invalid_def cJSON_False_def cJSON_True_def cJSON_NULL_def cJSON_Number_def
  cJSON_String_def cJSON_Array_def cJSON_Object_def cJSON_Raw_def cJSON_IsReference_def
  cJSON_StringIsConst_def

datatype cJSON =
  JItem (jtype: int) (valuestring: "cstring option") (valueint: int) (valuedouble: double)
    (jstring: "cstring option") (child: "cJSON list")

text \<open>An item zeroed by \<open>memset\<close>, and assignments to one field.\<close>

definition zero_item :: cJSON where
  "zero_item = JItem 0 None 0 (Fin False 0) None []"

primrec set_type :: "int \<Rightarrow> cJSON \<Rightarrow> cJSON" where
  "set_type t (JItem _ vs vi vd s cs) = JItem t vs vi vd s cs"

primrec set_valuestring :: "cstring option \<Rightarrow> cJSON \<Rightarrow> cJSON" where
  "set_valuestring vs (JItem t _ vi vd s cs) = JItem t vs vi vd s cs"

primrec set_number :: "int \<Rightarrow> double \<Rightarrow> cJSON \<Rightarrow> cJSON" where
  "set_number vi vd (JItem t vs _ _ s cs) = JItem t vs vi vd s cs"

primrec set_string :: "cstring option \<Rightarrow> cJSON \<Rightarrow> cJSON" where
  "set_string s (JItem t vs vi vd _ cs) = JItem t vs vi vd s cs"

primrec set_child :: "cJSON list \<Rightarrow> cJSON \<Rightarrow> cJSON" where
  "set_child cs (JItem t vs vi vd s _) = JItem t vs vi vd s cs"

definition has_flag :: "cJSON \<Rightarrow> int \<Rightarrow> bool" where
  "has_flag x f \<longleftrightarrow> jtype x AND f \<noteq> 0"

definition base_type :: "cJSON \<Rightarrow> int" where
  "base_type x = jtype x AND 0xFF"

section \<open>Allocation\<close>

definition cJSON_New_Item :: "mem \<Rightarrow> cJSON option \<times> mem" where
  "cJSON_New_Item m = (case malloc m of (True, m) \<Rightarrow> (Some zero_item, m) | (False, m) \<Rightarrow> (None, m))"

definition cJSON_strdup :: "cstring option \<Rightarrow> mem \<Rightarrow> cstring option \<times> mem" where
  "cJSON_strdup s m =
     (case s of
        None \<Rightarrow> (None, m)
      | Some t \<Rightarrow> (case malloc m of (True, m) \<Rightarrow> (Some t, m) | (False, m) \<Rightarrow> (None, m)))"

text \<open>The chain of items along \<open>next\<close>, each with its children, values and keys.\<close>

fun cJSON_Delete :: "cJSON list \<Rightarrow> mem \<Rightarrow> mem" where
  "cJSON_Delete [] m = m"
| "cJSON_Delete (JItem t vs vi vd s cs # rest) m =
     (let m = (if t AND cJSON_IsReference = 0 then cJSON_Delete cs m else m);
          m = (if t AND cJSON_IsReference = 0 \<and> vs \<noteq> None then mfree m else m);
          m = (if t AND cJSON_StringIsConst = 0 \<and> s \<noteq> None then mfree m else m)
      in cJSON_Delete rest (mfree m))"

text \<open>\<open>cJSON_Delete\<close> of a pointer that may be NULL.\<close>

definition delete_opt :: "cJSON option \<Rightarrow> mem \<Rightarrow> mem" where
  "delete_opt x m = (case x of None \<Rightarrow> m | Some y \<Rightarrow> cJSON_Delete [y] m)"

section \<open>Type tests\<close>

definition is_type :: "int \<Rightarrow> cJSON option \<Rightarrow> bool" where
  "is_type t x = (case x of None \<Rightarrow> False | Some y \<Rightarrow> base_type y = t)"

definition cJSON_IsInvalid :: "cJSON option \<Rightarrow> bool" where
  "cJSON_IsInvalid = is_type cJSON_Invalid"
definition cJSON_IsFalse :: "cJSON option \<Rightarrow> bool" where
  "cJSON_IsFalse = is_type cJSON_False"
definition cJSON_IsTrue :: "cJSON option \<Rightarrow> bool" where
  "cJSON_IsTrue = is_type cJSON_True"
definition cJSON_IsBool :: "cJSON option \<Rightarrow> bool" where
  "cJSON_IsBool x =
     (case x of None \<Rightarrow> False | Some y \<Rightarrow> jtype y AND (cJSON_True OR cJSON_False) \<noteq> 0)"
definition cJSON_IsNull :: "cJSON option \<Rightarrow> bool" where
  "cJSON_IsNull = is_type cJSON_NULL"
definition cJSON_IsNumber :: "cJSON option \<Rightarrow> bool" where
  "cJSON_IsNumber = is_type cJSON_Number"
definition cJSON_IsString :: "cJSON option \<Rightarrow> bool" where
  "cJSON_IsString = is_type cJSON_String"
definition cJSON_IsArray :: "cJSON option \<Rightarrow> bool" where
  "cJSON_IsArray = is_type cJSON_Array"
definition cJSON_IsObject :: "cJSON option \<Rightarrow> bool" where
  "cJSON_IsObject = is_type cJSON_Object"
definition cJSON_IsRaw :: "cJSON option \<Rightarrow> bool" where
  "cJSON_IsRaw = is_type cJSON_Raw"

definition cJSON_GetStringValue :: "cJSON option \<Rightarrow> cstring option" where
  "cJSON_GetStringValue x =
     (if \<not> cJSON_IsString x then None else Option.bind x valuestring)"

section \<open>Lookup\<close>

definition tolower :: "byte \<Rightarrow> int" where
  "tolower c = (if 65 \<le> c \<and> c \<le> 90 then uint c + 32 else uint c)"

text \<open>
  The loop of the comparison; a byte of a C string is not NUL, so it differs from the other
  string's terminator.
\<close>

fun ci_loop :: "cstring \<Rightarrow> cstring \<Rightarrow> int" where
  "ci_loop (c # s) (d # t) = (if tolower c = tolower d then ci_loop s t else tolower c - tolower d)"
| "ci_loop (c # s) [] = tolower c"
| "ci_loop [] (d # t) = - tolower d"
| "ci_loop [] [] = 0"

definition case_insensitive_strcmp :: "cstring option \<Rightarrow> cstring option \<Rightarrow> int" where
  "case_insensitive_strcmp s t =
     (case (s, t) of (Some a, Some b) \<Rightarrow> ci_loop a b | _ \<Rightarrow> 1)"

definition cJSON_GetArraySize :: "cJSON option \<Rightarrow> int" where
  "cJSON_GetArraySize a = (case a of None \<Rightarrow> 0 | Some x \<Rightarrow> to_int32 (int (length (child x))))"

fun walk_to :: "cJSON list \<Rightarrow> nat \<Rightarrow> cJSON option" where
  "walk_to [] i = None"
| "walk_to (x # xs) 0 = Some x"
| "walk_to (x # xs) (Suc i) = walk_to xs i"

definition get_array_item :: "cJSON option \<Rightarrow> nat \<Rightarrow> cJSON option" where
  "get_array_item a i = (case a of None \<Rightarrow> None | Some x \<Rightarrow> walk_to (child x) i)"

definition cJSON_GetArrayItem :: "cJSON option \<Rightarrow> int \<Rightarrow> cJSON option" where
  "cJSON_GetArrayItem a i = (if i < 0 then None else get_array_item a (nat i))"

text \<open>
  The two loops of \<open>get_object_item\<close>: the case sensitive one stops at a key that is NULL.
\<close>

fun find_sensitive :: "cstring \<Rightarrow> cJSON list \<Rightarrow> cJSON option" where
  "find_sensitive name [] = None"
| "find_sensitive name (x # xs) =
     (case jstring x of
        None \<Rightarrow> Some x
      | Some s \<Rightarrow> if strcmp name s \<noteq> 0 then find_sensitive name xs else Some x)"

fun find_insensitive :: "cstring \<Rightarrow> cJSON list \<Rightarrow> cJSON option" where
  "find_insensitive name [] = None"
| "find_insensitive name (x # xs) =
     (if case_insensitive_strcmp (Some name) (jstring x) \<noteq> 0 then find_insensitive name xs else Some x)"

definition get_object_item :: "cJSON option \<Rightarrow> cstring option \<Rightarrow> bool \<Rightarrow> cJSON option" where
  "get_object_item obj name case_sensitive =
     (case (obj, name) of
        (Some x, Some n) \<Rightarrow>
          (case (if case_sensitive then find_sensitive n (child x) else find_insensitive n (child x)) of
             None \<Rightarrow> None
           | Some y \<Rightarrow> if jstring y = None then None else Some y)
      | _ \<Rightarrow> None)"

definition cJSON_GetObjectItem :: "cJSON option \<Rightarrow> cstring option \<Rightarrow> cJSON option" where
  "cJSON_GetObjectItem obj name = get_object_item obj name False"

definition cJSON_GetObjectItemCaseSensitive :: "cJSON option \<Rightarrow> cstring option \<Rightarrow> cJSON option" where
  "cJSON_GetObjectItemCaseSensitive obj name = get_object_item obj name True"

definition cJSON_HasObjectItem :: "cJSON option \<Rightarrow> cstring option \<Rightarrow> bool" where
  "cJSON_HasObjectItem obj name \<longleftrightarrow> cJSON_GetObjectItem obj name \<noteq> None"

section \<open>Additions\<close>

text \<open>
  The container is returned with the item appended; the flag is the function's result. NULL
  for either leaves the container as it is.
\<close>

definition add_item_to_array :: "cJSON option \<Rightarrow> cJSON option \<Rightarrow> bool \<times> cJSON option" where
  "add_item_to_array a item =
     (case (a, item) of
        (Some x, Some y) \<Rightarrow> (True, Some (set_child (child x @ [y]) x))
      | _ \<Rightarrow> (False, a))"

definition cJSON_AddItemToArray :: "cJSON option \<Rightarrow> cJSON option \<Rightarrow> cJSON option" where
  "cJSON_AddItemToArray a item = snd (add_item_to_array a item)"

text \<open>
  The key is copied unless it is constant; an older key the item owns is freed. The result
  carries the item as it was stored.
\<close>

definition add_item_to_object ::
    "cJSON option \<Rightarrow> cstring option \<Rightarrow> cJSON option \<Rightarrow> bool \<Rightarrow> mem \<Rightarrow>
     (bool \<times> cJSON option) \<times> cJSON option \<times> mem" where
  "add_item_to_object obj key item constant_key m =
     (case (obj, key, item) of
        (Some x, Some k, Some y) \<Rightarrow>
          (case (if constant_key then (Some k, m) else cJSON_strdup (Some k) m) of
             (None, m) \<Rightarrow> ((False, obj), item, m)
           | (Some k', m) \<Rightarrow>
               (let t = (if constant_key then jtype y OR cJSON_StringIsConst
                         else jtype y AND NOT cJSON_StringIsConst);
                    m = (if \<not> has_flag y cJSON_StringIsConst \<and> jstring y \<noteq> None then mfree m else m);
                    y = set_type t (set_string (Some k') y)
                in (add_item_to_array obj (Some y), Some y, m)))
      | _ \<Rightarrow> ((False, obj), item, m))"

definition cJSON_AddItemToObject ::
    "cJSON option \<Rightarrow> cstring option \<Rightarrow> cJSON option \<Rightarrow> mem \<Rightarrow> cJSON option \<times> mem" where
  "cJSON_AddItemToObject obj key item m =
     (let (r, y, m) = add_item_to_object obj key item False m in (snd r, m))"

definition cJSON_AddItemToObjectCS ::
    "cJSON option \<Rightarrow> cstring option \<Rightarrow> cJSON option \<Rightarrow> mem \<Rightarrow> cJSON option \<times> mem" where
  "cJSON_AddItemToObjectCS obj key item m =
     (let (r, y, m) = add_item_to_object obj key item True m in (snd r, m))"


section \<open>Creation\<close>

definition create_typed :: "int \<Rightarrow> mem \<Rightarrow> cJSON option \<times> mem" where
  "create_typed t m = (let (x, m) = cJSON_New_Item m in (map_option (set_type t) x, m))"

definition cJSON_CreateNull :: "mem \<Rightarrow> cJSON option \<times> mem" where
  "cJSON_CreateNull = create_typed cJSON_NULL"
definition cJSON_CreateTrue :: "mem \<Rightarrow> cJSON option \<times> mem" where
  "cJSON_CreateTrue = create_typed cJSON_True"
definition cJSON_CreateFalse :: "mem \<Rightarrow> cJSON option \<times> mem" where
  "cJSON_CreateFalse = create_typed cJSON_False"
definition cJSON_CreateBool :: "bool \<Rightarrow> mem \<Rightarrow> cJSON option \<times> mem" where
  "cJSON_CreateBool b = create_typed (if b then cJSON_True else cJSON_False)"
definition cJSON_CreateArray :: "mem \<Rightarrow> cJSON option \<times> mem" where
  "cJSON_CreateArray = create_typed cJSON_Array"
definition cJSON_CreateObject :: "mem \<Rightarrow> cJSON option \<times> mem" where
  "cJSON_CreateObject = create_typed cJSON_Object"

definition saturate :: "double \<Rightarrow> int" where
  "saturate num =
     (if double_ge num (2 ^ 31 - 1) then 2 ^ 31 - 1
      else if double_le num (- (2 ^ 31)) then - (2 ^ 31)
      else double_to_int num)"

definition cJSON_SetNumberHelper :: "cJSON \<Rightarrow> double \<Rightarrow> cJSON" where
  "cJSON_SetNumberHelper x num = set_number (saturate num) num x"

definition cJSON_CreateNumber :: "double \<Rightarrow> mem \<Rightarrow> cJSON option \<times> mem" where
  "cJSON_CreateNumber num m =
     (let (x, m) = cJSON_New_Item m
      in (map_option (\<lambda>y. set_number (saturate num) num (set_type cJSON_Number y)) x, m))"

text \<open>A text item; where its copy cannot be allocated, the item is deleted again.\<close>

definition create_text :: "int \<Rightarrow> cstring option \<Rightarrow> mem \<Rightarrow> cJSON option \<times> mem" where
  "create_text t s m =
     (case cJSON_New_Item m of
        (None, m) \<Rightarrow> (None, m)
      | (Some x, m) \<Rightarrow>
          (case cJSON_strdup s m of
             (None, m) \<Rightarrow> (None, cJSON_Delete [set_type t x] m)
           | (Some v, m) \<Rightarrow> (Some (set_valuestring (Some v) (set_type t x)), m)))"

definition cJSON_CreateString :: "cstring option \<Rightarrow> mem \<Rightarrow> cJSON option \<times> mem" where
  "cJSON_CreateString = create_text cJSON_String"
definition cJSON_CreateRaw :: "cstring option \<Rightarrow> mem \<Rightarrow> cJSON option \<times> mem" where
  "cJSON_CreateRaw = create_text cJSON_Raw"

definition cJSON_CreateStringReference :: "cstring option \<Rightarrow> mem \<Rightarrow> cJSON option \<times> mem" where
  "cJSON_CreateStringReference s m =
     (let (x, m) = cJSON_New_Item m
      in (map_option (\<lambda>y. set_valuestring s (set_type (cJSON_String OR cJSON_IsReference) y)) x, m))"

text \<open>
  The arrays of a given number of elements: \<open>mk\<close> creates the element at an index; an element
  that cannot be created deletes the array so far. The caller passes at least \<open>count\<close>
  elements, as the header demands.
\<close>

fun array_loop ::
    "('e \<Rightarrow> mem \<Rightarrow> cJSON option \<times> mem) \<Rightarrow> 'e list \<Rightarrow> cJSON \<Rightarrow> mem \<Rightarrow> cJSON option \<times> mem" where
  "array_loop mk [] a m = (Some a, m)"
| "array_loop mk (e # es) a m =
     (case mk e m of
        (None, m) \<Rightarrow> (None, cJSON_Delete [a] m)
      | (Some n, m) \<Rightarrow> array_loop mk es (set_child (child a @ [n]) a) m)"

definition create_array ::
    "('e \<Rightarrow> mem \<Rightarrow> cJSON option \<times> mem) \<Rightarrow> 'e list option \<Rightarrow> int \<Rightarrow> mem \<Rightarrow> cJSON option \<times> mem" where
  "create_array mk es count m =
     (case es of
        None \<Rightarrow> (None, m)
      | Some l \<Rightarrow>
          if count < 0 then (None, m)
          else
            (case cJSON_CreateArray m of
               (None, m) \<Rightarrow> (None, m)
             | (Some a, m) \<Rightarrow> array_loop mk (take (nat count) l) a m))"

definition cJSON_CreateIntArray :: "int list option \<Rightarrow> int \<Rightarrow> mem \<Rightarrow> cJSON option \<times> mem" where
  "cJSON_CreateIntArray = create_array (\<lambda>i. cJSON_CreateNumber (double_of_int i))"

text \<open>A \<open>float\<close> converts to a \<open>double\<close> exactly: the elements are given as doubles.\<close>

definition cJSON_CreateFloatArray :: "double list option \<Rightarrow> int \<Rightarrow> mem \<Rightarrow> cJSON option \<times> mem" where
  "cJSON_CreateFloatArray = create_array cJSON_CreateNumber"
definition cJSON_CreateDoubleArray :: "double list option \<Rightarrow> int \<Rightarrow> mem \<Rightarrow> cJSON option \<times> mem" where
  "cJSON_CreateDoubleArray = create_array cJSON_CreateNumber"
definition cJSON_CreateStringArray :: "cstring option list option \<Rightarrow> int \<Rightarrow> mem \<Rightarrow> cJSON option \<times> mem" where
  "cJSON_CreateStringArray = create_array cJSON_CreateString"

section \<open>Creation inside an object\<close>

text \<open>
  The \<open>cJSON_Add...ToObject\<close> functions create an item and add it under a key; an item that
  cannot be added is deleted and NULL returned. The result is the item and the object.
\<close>

definition add_created ::
    "(mem \<Rightarrow> cJSON option \<times> mem) \<Rightarrow> cJSON option \<Rightarrow> cstring option \<Rightarrow> mem \<Rightarrow>
     cJSON option \<times> cJSON option \<times> mem" where
  "add_created mk obj name m =
     (let (item, m) = mk m;
          ((ok, obj), item, m) = add_item_to_object obj name item False m
      in if ok then (item, obj, m) else (None, obj, delete_opt item m))"

definition cJSON_AddNullToObject ::
    "cJSON option \<Rightarrow> cstring option \<Rightarrow> mem \<Rightarrow> cJSON option \<times> cJSON option \<times> mem" where
  "cJSON_AddNullToObject = add_created cJSON_CreateNull"
definition cJSON_AddTrueToObject ::
    "cJSON option \<Rightarrow> cstring option \<Rightarrow> mem \<Rightarrow> cJSON option \<times> cJSON option \<times> mem" where
  "cJSON_AddTrueToObject = add_created cJSON_CreateTrue"
definition cJSON_AddFalseToObject ::
    "cJSON option \<Rightarrow> cstring option \<Rightarrow> mem \<Rightarrow> cJSON option \<times> cJSON option \<times> mem" where
  "cJSON_AddFalseToObject = add_created cJSON_CreateFalse"
definition cJSON_AddBoolToObject ::
    "cJSON option \<Rightarrow> cstring option \<Rightarrow> bool \<Rightarrow> mem \<Rightarrow> cJSON option \<times> cJSON option \<times> mem" where
  "cJSON_AddBoolToObject obj name b = add_created (cJSON_CreateBool b) obj name"
definition cJSON_AddNumberToObject ::
    "cJSON option \<Rightarrow> cstring option \<Rightarrow> double \<Rightarrow> mem \<Rightarrow> cJSON option \<times> cJSON option \<times> mem" where
  "cJSON_AddNumberToObject obj name num = add_created (cJSON_CreateNumber num) obj name"
definition cJSON_AddStringToObject ::
    "cJSON option \<Rightarrow> cstring option \<Rightarrow> cstring option \<Rightarrow> mem \<Rightarrow> cJSON option \<times> cJSON option \<times> mem" where
  "cJSON_AddStringToObject obj name s = add_created (cJSON_CreateString s) obj name"
definition cJSON_AddRawToObject ::
    "cJSON option \<Rightarrow> cstring option \<Rightarrow> cstring option \<Rightarrow> mem \<Rightarrow> cJSON option \<times> cJSON option \<times> mem" where
  "cJSON_AddRawToObject obj name s = add_created (cJSON_CreateRaw s) obj name"
definition cJSON_AddObjectToObject ::
    "cJSON option \<Rightarrow> cstring option \<Rightarrow> mem \<Rightarrow> cJSON option \<times> cJSON option \<times> mem" where
  "cJSON_AddObjectToObject = add_created cJSON_CreateObject"
definition cJSON_AddArrayToObject ::
    "cJSON option \<Rightarrow> cstring option \<Rightarrow> mem \<Rightarrow> cJSON option \<times> cJSON option \<times> mem" where
  "cJSON_AddArrayToObject = add_created cJSON_CreateArray"

section \<open>Duplication\<close>

text \<open>The item without its children, copied into the fresh \<open>newitem\<close>; \<open>Inl\<close> where a copy fails.\<close>

definition duplicate_fields :: "cJSON \<Rightarrow> cJSON \<Rightarrow> mem \<Rightarrow> (cJSON + cJSON) \<times> mem" where
  "duplicate_fields x newitem m =
     (let n = set_number (valueint x) (valuedouble x)
                (set_type (jtype x AND NOT cJSON_IsReference) newitem);
          (vs, m) = cJSON_strdup (valuestring x) m
      in if valuestring x \<noteq> None \<and> vs = None then (Inl n, m)
         else
           (let n = set_valuestring vs n;
                (s, m) = (if has_flag x cJSON_StringIsConst then (jstring x, m)
                          else cJSON_strdup (jstring x) m)
            in if jstring x \<noteq> None \<and> s = None then (Inl n, m)
               else (Inr (set_string s n), m)))"

function (sequential) cJSON_Duplicate :: "cJSON option \<Rightarrow> bool \<Rightarrow> mem \<Rightarrow> cJSON option \<times> mem"
  and duplicate_chain :: "cJSON list \<Rightarrow> cJSON \<Rightarrow> mem \<Rightarrow> cJSON option \<times> mem" where
  "cJSON_Duplicate None recurse m = (None, m)"
| "cJSON_Duplicate (Some x) recurse m =
     (case cJSON_New_Item m of
        (None, m) \<Rightarrow> (None, m)
      | (Some newitem, m) \<Rightarrow>
          (case duplicate_fields x newitem m of
             (Inl n, m) \<Rightarrow> (None, cJSON_Delete [n] m)
           | (Inr n, m) \<Rightarrow> if \<not> recurse then (Some n, m) else duplicate_chain (child x) n m))"
| "duplicate_chain [] n m = (Some n, m)"
| "duplicate_chain (c # cs) n m =
     (case cJSON_Duplicate (Some c) True m of
        (None, m) \<Rightarrow> (None, cJSON_Delete [n] m)
      | (Some newchild, m) \<Rightarrow> duplicate_chain cs (set_child (child n @ [newchild]) n) m)"
  by pat_completeness auto

lemma size_child: "size_list size (child x) < size x"
  by (cases x) simp

termination cJSON_Duplicate
  by (relation "measure (\<lambda>a. case a of Inl (x, r, m) \<Rightarrow> (case x of None \<Rightarrow> 0 | Some y \<Rightarrow> Suc (2 * size y))
                                   | Inr (cs, n, m) \<Rightarrow> 2 * size_list size cs)")
    (auto simp: less_Suc_eq_le less_imp_le [OF size_child])

section \<open>Comparison\<close>

text \<open>
  \<open>same\<close> says whether the two pointers are equal. The loops over the members of two objects
  look every key of one up in the other.
\<close>

function cJSON_Compare :: "bool \<Rightarrow> bool \<Rightarrow> cJSON \<Rightarrow> cJSON \<Rightarrow> bool" where
  "cJSON_Compare same case_sensitive a b =
     (if base_type a \<noteq> base_type b \<or> base_type a = cJSON_Invalid then False
      else if base_type a \<notin> {cJSON_False, cJSON_True, cJSON_NULL, cJSON_Number, cJSON_String,
                              cJSON_Raw, cJSON_Array, cJSON_Object} then False
      else if same then True
      else if base_type a \<in> {cJSON_False, cJSON_True, cJSON_NULL} then True
      else if base_type a = cJSON_Number then compare_double (valuedouble a) (valuedouble b)
      else if base_type a \<in> {cJSON_String, cJSON_Raw} then
        (case (valuestring a, valuestring b) of
           (Some s, Some t) \<Rightarrow> strcmp s t = 0
         | _ \<Rightarrow> False)
      else if base_type a = cJSON_Array then
        list_all (\<lambda>(x, y). cJSON_Compare False case_sensitive x y) (zip (child a) (child b)) \<and>
        length (child a) = length (child b)
      else
        list_all (\<lambda>x. case get_object_item (Some b) (jstring x) case_sensitive of
                        None \<Rightarrow> False
                      | Some y \<Rightarrow> cJSON_Compare False case_sensitive x y) (child a) \<and>
        list_all (\<lambda>y. case get_object_item (Some a) (jstring y) case_sensitive of
                        None \<Rightarrow> False
                      | Some x \<Rightarrow> cJSON_Compare False case_sensitive y x) (child b))"
  by pat_completeness auto

lemma find_sensitive_mem: "find_sensitive n xs = Some y \<Longrightarrow> y \<in> set xs"
  by (induction xs) (auto split: option.splits if_splits)

lemma find_insensitive_mem: "find_insensitive n xs = Some y \<Longrightarrow> y \<in> set xs"
  by (induction xs) (auto split: if_splits)

lemma get_object_item_mem: "get_object_item (Some x) k cs = Some y \<Longrightarrow> y \<in> set (child x)"
  by (auto simp: get_object_item_def split: option.splits if_splits
      dest: find_sensitive_mem find_insensitive_mem)

lemma child_size: "y \<in> set (child x) \<Longrightarrow> size y < size x"
  by (cases x) (auto dest: size_list_estimation' [of _ _ _ size, OF _ order_refl] simp: less_Suc_eq_le)

lemma child_zip_size:
  "(x, y) \<in> set (zip (child a) (child b)) \<Longrightarrow> size x + size y < size a + size b"
  by (metis add_strict_mono child_size set_zip_leftD set_zip_rightD)

lemma member_size:
  assumes "x \<in> set (child a)" "get_object_item (Some b) k cs = Some y"
  shows "size x + size y < size a + size b" "size x + size y < size b + size a"
  using child_size [OF assms(1)] child_size [OF get_object_item_mem [OF assms(2)]] by simp_all

termination cJSON_Compare
proof (relation "measure (\<lambda>(s, c, a, b). size a + size b)", goal_cases)
  case 2
  then show ?case by (auto dest: child_zip_size)
qed (simp_all add: member_size)

declare cJSON_Compare.simps [simp del]


section \<open>Field lemmas\<close>

lemma set_fields [simp]:
  "jtype (set_type t x) = t" "valuestring (set_type t x) = valuestring x"
  "valueint (set_type t x) = valueint x" "valuedouble (set_type t x) = valuedouble x"
  "jstring (set_type t x) = jstring x" "child (set_type t x) = child x"
  "jtype (set_valuestring v x) = jtype x" "valuestring (set_valuestring v x) = v"
  "valueint (set_valuestring v x) = valueint x" "valuedouble (set_valuestring v x) = valuedouble x"
  "jstring (set_valuestring v x) = jstring x" "child (set_valuestring v x) = child x"
  "jtype (set_number i d x) = jtype x" "valuestring (set_number i d x) = valuestring x"
  "valueint (set_number i d x) = i" "valuedouble (set_number i d x) = d"
  "jstring (set_number i d x) = jstring x" "child (set_number i d x) = child x"
  "jtype (set_string s x) = jtype x" "valuestring (set_string s x) = valuestring x"
  "valueint (set_string s x) = valueint x" "valuedouble (set_string s x) = valuedouble x"
  "jstring (set_string s x) = s" "child (set_string s x) = child x"
  "jtype (set_child cs x) = jtype x" "valuestring (set_child cs x) = valuestring x"
  "valueint (set_child cs x) = valueint x" "valuedouble (set_child cs x) = valuedouble x"
  "jstring (set_child cs x) = jstring x" "child (set_child cs x) = cs"
  by (cases x; simp)+

lemma zero_item_fields [simp]:
  "jtype zero_item = 0" "valuestring zero_item = None" "jstring zero_item = None"
  "child zero_item = []" "valueint zero_item = 0" "valuedouble zero_item = Fin False 0"
  by (simp_all add: zero_item_def)

lemma item_eqI:
  "jtype x = jtype y \<Longrightarrow> valuestring x = valuestring y \<Longrightarrow> valueint x = valueint y \<Longrightarrow>
   valuedouble x = valuedouble y \<Longrightarrow> jstring x = jstring y \<Longrightarrow> child x = child y \<Longrightarrow> x = y"
  by (cases x; cases y) simp

lemma and_not_flag [simp]:
  "(t AND NOT f) AND f = (0 :: int)"
  by (simp add: bit_eq_iff bit_simps)

lemma and_not_other [simp]:
  "f AND g = (0 :: int) \<Longrightarrow> (t AND NOT f) AND g = t AND g"
  by (simp add: bit_eq_iff bit_simps) blast

lemma flags_apart [simp]:
  "cJSON_IsReference AND cJSON_StringIsConst = 0" "cJSON_StringIsConst AND cJSON_IsReference = 0"
  "cJSON_IsReference AND 0xFF = 0" "cJSON_StringIsConst AND 0xFF = 0"
  by (simp_all add: json_types)

section \<open>Ownership\<close>

fun json_blocks :: "cJSON \<Rightarrow> int" where
  "json_blocks (JItem t vs vi vd s cs) =
     1 + (if t AND cJSON_IsReference = 0
          then (if vs \<noteq> None then 1 else 0) + sum_list (map json_blocks cs) else 0)
       + (if t AND cJSON_StringIsConst = 0 \<and> s \<noteq> None then 1 else 0)"

definition owned :: "cJSON option \<Rightarrow> int" where
  "owned x = (case x of None \<Rightarrow> 0 | Some y \<Rightarrow> json_blocks y)"

definition text_block :: "cstring option \<Rightarrow> int" where
  "text_block s = (if s = None then 0 else 1)"

lemma owned_simps [simp]: "owned None = 0" "owned (Some y) = json_blocks y"
  by (simp_all add: owned_def)

lemma json_blocks_fields:
  "json_blocks x =
     1 + (if jtype x AND cJSON_IsReference = 0
          then text_block (valuestring x) + sum_list (map json_blocks (child x)) else 0)
       + (if jtype x AND cJSON_StringIsConst = 0 then text_block (jstring x) else 0)"
  by (cases x) (simp add: text_block_def)

lemma cJSON_Delete_live [ledger]:
  "live (cJSON_Delete xs m) = live m - sum_list (map json_blocks xs)"
  by (induction xs m rule: cJSON_Delete.induct) (auto simp: Let_def)

lemma delete_opt_live [ledger]: "live (delete_opt x m) = live m - owned x"
  by (cases x) (simp_all add: delete_opt_def cJSON_Delete_live)

lemma cJSON_New_Item_live:
  "cJSON_New_Item m = (x, m') \<Longrightarrow>
   live m' = live m + owned x \<and> (x = None \<or> x = Some zero_item)"
  by (auto simp: cJSON_New_Item_def json_blocks_fields text_block_def
      split: prod.splits bool.splits dest: malloc_live)

lemma cJSON_strdup_live:
  "cJSON_strdup s m = (r, m') \<Longrightarrow> live m' = live m + text_block r \<and> (r = None \<or> r = s)"
  by (auto simp: cJSON_strdup_def text_block_def
      split: prod.splits bool.splits option.splits dest: malloc_live)

section \<open>The contract of a creator\<close>

text \<open>
  Every function that creates an item owes its clients two things: the ledger grows by the
  blocks of the item it returns and not at all when it returns NULL, and the item has no key
  yet. Adding a created item to an object, and filling an array, then keep the ledger.
\<close>

definition fresh_item :: "cJSON \<Rightarrow> bool" where
  "fresh_item x \<longleftrightarrow> jstring x = None \<and> jtype x AND cJSON_StringIsConst = 0"

locale item_creator =
  fixes mk :: "mem \<Rightarrow> cJSON option \<times> mem"
  assumes mk_live: "mk m = (r, m') \<Longrightarrow> live m' = live m + owned r"
    and mk_fresh: "mk m = (Some x, m') \<Longrightarrow> fresh_item x"
begin

lemma add_created_live:
  assumes "add_created mk obj name m = (item, obj', m')"
    and "\<forall>x. obj = Some x \<longrightarrow> jtype x AND cJSON_IsReference = 0"
  shows "live m' - owned obj' = live m - owned obj"
proof -
  obtain y m1 where mk: "mk m = (y, m1)" by (cases "mk m")
  show ?thesis
  proof (cases "\<exists>x k z. obj = Some x \<and> name = Some k \<and> y = Some z")
    case False
    then have "add_item_to_object obj name y False m1 = ((False, obj), y, m1)"
      by (auto simp: add_item_to_object_def split: option.splits)
    with assms(1) mk have "obj' = obj" "m' = delete_opt y m1" by (auto simp: add_created_def)
    with mk_live [OF mk] show ?thesis by (simp add: delete_opt_live)
  next
    case True
    then obtain x k z where some: "obj = Some x" "name = Some k" "y = Some z" by blast
    have z: "jstring z = None" "jtype z AND cJSON_StringIsConst = 0"
      using mk_fresh mk some(3) by (auto simp: fresh_item_def)
    obtain k' m2 where k': "cJSON_strdup (Some k) m1 = (k', m2)" by (cases "cJSON_strdup (Some k) m1")
    with cJSON_strdup_live [OF this] assms mk some z mk_live [OF mk] show ?thesis
      by (cases k') (auto simp: add_created_def add_item_to_object_def add_item_to_array_def
          delete_opt_live json_blocks_fields text_block_def has_flag_def Let_def)
  qed
qed

end

text \<open>A family of creators, one per element, and the array built with it.\<close>

locale element_creator =
  fixes mk :: "'e \<Rightarrow> mem \<Rightarrow> cJSON option \<times> mem"
  assumes elem: "item_creator (mk e)"
begin

lemma array_loop_live:
  assumes "array_loop mk es a m = (r, m')" "jtype a AND cJSON_IsReference = 0"
  shows "live m' - owned r = live m - json_blocks a"
  using assms
proof (induction es arbitrary: a m)
  case (Cons e es)
  obtain n m1 where n: "mk e m = (n, m1)" by (cases "mk e m")
  have "live m1 = live m + owned n" using item_creator.mk_live [OF elem n] .
  with n Cons.prems Cons.IH [of "set_child (child a @ [the n]) a" m1] show ?case
    by (cases n) (auto simp: cJSON_Delete_live json_blocks_fields)
qed auto

end


lemma create_typed_creator: "t AND cJSON_StringIsConst = 0 \<Longrightarrow> item_creator (create_typed t)"
  by unfold_locales
    (auto simp: create_typed_def fresh_item_def json_blocks_fields text_block_def
      split: prod.splits dest!: cJSON_New_Item_live)

lemma create_number_creator: "item_creator (cJSON_CreateNumber d)"
  by unfold_locales
    (auto simp: cJSON_CreateNumber_def fresh_item_def json_blocks_fields text_block_def json_types
      split: prod.splits dest!: cJSON_New_Item_live)

lemma create_text_creator:
  assumes "t AND cJSON_StringIsConst = 0" "t AND cJSON_IsReference = 0"
  shows "item_creator (create_text t s)"
  using assms
  by unfold_locales
    (auto simp: create_text_def fresh_item_def json_blocks_fields text_block_def cJSON_Delete_live
      split: prod.splits option.splits dest!: cJSON_New_Item_live cJSON_strdup_live)

interpretation null_item: item_creator cJSON_CreateNull
  unfolding cJSON_CreateNull_def by (rule create_typed_creator) (simp add: json_types)
interpretation true_item: item_creator cJSON_CreateTrue
  unfolding cJSON_CreateTrue_def by (rule create_typed_creator) (simp add: json_types)
interpretation false_item: item_creator cJSON_CreateFalse
  unfolding cJSON_CreateFalse_def by (rule create_typed_creator) (simp add: json_types)
interpretation bool_item: item_creator "cJSON_CreateBool b" for b
  unfolding cJSON_CreateBool_def by (rule create_typed_creator) (simp add: json_types)
interpretation array_item: item_creator cJSON_CreateArray
  unfolding cJSON_CreateArray_def by (rule create_typed_creator) (simp add: json_types)
interpretation object_item: item_creator cJSON_CreateObject
  unfolding cJSON_CreateObject_def by (rule create_typed_creator) (simp add: json_types)
interpretation number_item: item_creator "cJSON_CreateNumber d" for d
  by (rule create_number_creator)
interpretation string_item: item_creator "cJSON_CreateString s" for s
  unfolding cJSON_CreateString_def by (rule create_text_creator) (simp_all add: json_types)
interpretation raw_item: item_creator "cJSON_CreateRaw s" for s
  unfolding cJSON_CreateRaw_def by (rule create_text_creator) (simp_all add: json_types)

interpretation number_elements: element_creator cJSON_CreateNumber
  by unfold_locales (rule number_item.mk_live, assumption, rule number_item.mk_fresh)
interpretation int_elements: element_creator "\<lambda>i. cJSON_CreateNumber (double_of_int i)"
  by unfold_locales (rule number_item.mk_live, assumption, rule number_item.mk_fresh)
interpretation string_elements: element_creator cJSON_CreateString
  by unfold_locales (rule string_item.mk_live, assumption, rule string_item.mk_fresh)

lemma create_array_live:
  assumes "element_creator mk" "create_array mk es count m = (r, m')"
  shows "live m' = live m + owned r"
proof (cases "\<exists>l. es = Some l \<and> \<not> count < 0")
  case True
  then obtain l where l: "es = Some l" "\<not> count < 0" by blast
  obtain a m1 where a: "cJSON_CreateArray m = (a, m1)" by (cases "cJSON_CreateArray m")
  with array_item.mk_live [OF a] assms(2) l show ?thesis
  proof (cases a)
    case (Some x)
    from a Some have "jtype x AND cJSON_IsReference = 0"
      by (auto simp: cJSON_CreateArray_def create_typed_def json_types split: prod.splits
          dest!: cJSON_New_Item_live)
    with element_creator.array_loop_live [OF assms(1), of "take (nat count) l" x m1 r m']
    show ?thesis using assms(2) l a Some array_item.mk_live [OF a] by (simp add: create_array_def)
  qed (simp add: create_array_def)
next
  case False
  with assms(2) show ?thesis by (auto simp: create_array_def split: option.splits if_splits)
qed

section \<open>Duplication lemmas\<close>

lemma duplicate_fields_live:
  assumes "duplicate_fields x zero_item m = (r, m')"
  shows "live m' = live m + (case r of Inl n \<Rightarrow> json_blocks n | Inr n \<Rightarrow> json_blocks n) - 1 \<and>
         (\<forall>n. r = Inr n \<longrightarrow> n = set_child [] (set_type (jtype x AND NOT cJSON_IsReference) x))"
proof -
  obtain vs m1 where vs: "cJSON_strdup (valuestring x) m = (vs, m1)"
    by (cases "cJSON_strdup (valuestring x) m")
  obtain s m2 where s: "cJSON_strdup (jstring x) m1 = (s, m2)" by (cases "cJSON_strdup (jstring x) m1")
  let ?n = "set_valuestring vs (set_number (valueint x) (valuedouble x)
      (set_type (jtype x AND NOT cJSON_IsReference) zero_item))"
  consider "valuestring x \<noteq> None" "vs = None" | "valuestring x = vs" "has_flag x cJSON_StringIsConst"
    | "valuestring x = vs" "\<not> has_flag x cJSON_StringIsConst" "jstring x \<noteq> None" "s = None"
    | "valuestring x = vs" "\<not> has_flag x cJSON_StringIsConst" "jstring x = s"
    using cJSON_strdup_live [OF vs] cJSON_strdup_live [OF s] by auto
  then have "(\<exists>n. r = Inl n \<and> json_blocks n = 1 \<and> m' = m1 \<and> vs = None) \<or>
      (r = Inl ?n \<and> m' = m2 \<and> s = None \<and> \<not> has_flag x cJSON_StringIsConst) \<or>
      (r = Inr (set_string (jstring x) ?n) \<and> valuestring x = vs \<and>
       (if has_flag x cJSON_StringIsConst then m' = m1 else m' = m2 \<and> s = jstring x))"
    by cases (use assms vs s in \<open>auto simp: duplicate_fields_def Let_def json_blocks_fields text_block_def
        split: prod.splits if_splits\<close>)
  with cJSON_strdup_live [OF vs] cJSON_strdup_live [OF s] show ?thesis
    by (auto simp: json_blocks_fields text_block_def has_flag_def intro!: item_eqI
        dest!: sym [of "Some _"] split: if_splits)
qed

lemma duplicate_live:
  "cJSON_Duplicate x recurse m = (r, m') \<Longrightarrow> live m' = live m + owned r"
  "duplicate_chain cs n m = (r, m') \<Longrightarrow> jtype n AND cJSON_IsReference = 0 \<Longrightarrow>
   live m' = live m + owned r - json_blocks n"
proof (induction x recurse m and cs n m arbitrary: r m' and r m' rule: cJSON_Duplicate_duplicate_chain.induct)
  case (2 x recurse m)
  obtain y m1 where new: "cJSON_New_Item m = (y, m1)" by (cases "cJSON_New_Item m")
  show ?case
  proof (cases y)
    case None
    with new 2 cJSON_New_Item_live [OF new] show ?thesis by simp
  next
    case (Some ni)
    with cJSON_New_Item_live [OF new] have ni: "ni = zero_item" "live m1 = live m + 1"
      by (auto simp: json_blocks_fields text_block_def)
    obtain d m2 where d: "duplicate_fields x ni m1 = (d, m2)" by (cases "duplicate_fields x ni m1")
    note dl = duplicate_fields_live [OF d [unfolded ni]]
    show ?thesis
    proof (cases d)
      case (Inl n)
      with new Some d dl ni "2.prems" show ?thesis by (auto simp: cJSON_Delete_live)
    next
      case (Inr n)
      with dl have n: "jtype n AND cJSON_IsReference = 0" "live m2 = live m + json_blocks n"
        using ni(2) by auto
      have chain: "live m' = live m2 + owned r - json_blocks n"
        if "recurse" "duplicate_chain (child x) n m2 = (r, m')"
        using "2.IH" [OF new [symmetric] Some d [symmetric] Inr] that n(1) by blast
      have "cJSON_Duplicate (Some x) recurse m =
          (if \<not> recurse then (Some n, m2) else duplicate_chain (child x) n m2)"
        by (simp add: new Some d Inr)
      with "2.prems" n(2) chain show ?thesis by (cases recurse) auto
    qed
  qed
next
  case (4 c cs n m)
  obtain y m1 where dup: "cJSON_Duplicate (Some c) True m = (y, m1)"
    by (cases "cJSON_Duplicate (Some c) True m")
  have y: "live m1 = live m + owned y" by (rule "4.IH"(1) [OF dup])
  show ?case
  proof (cases y)
    case None
    with dup y "4.prems"(1) show ?thesis by (auto simp: cJSON_Delete_live)
  next
    case (Some z)
    let ?n = "set_child (child n @ [z]) n"
    have "duplicate_chain cs ?n m1 = (r, m')" using "4.prems"(1) dup Some by simp
    then have "live m' = live m1 + owned r - json_blocks ?n"
      using "4.IH"(2) [OF dup [symmetric] Some] "4.prems"(2) by simp
    moreover have "json_blocks ?n = json_blocks n + json_blocks z"
      using "4.prems"(2) json_blocks_fields [of n] json_blocks_fields [of ?n] by simp
    ultimately show ?thesis using y Some by simp
  qed
qed auto

text \<open>The copy an unfailing allocator gives: the same tree with every reference flag cleared.\<close>

fun unref :: "cJSON \<Rightarrow> cJSON" where
  "unref (JItem t vs vi vd s cs) = JItem (t AND NOT cJSON_IsReference) vs vi vd s (map unref cs)"

lemma unref_fields [simp]:
  "jtype (unref x) = jtype x AND NOT cJSON_IsReference" "valuestring (unref x) = valuestring x"
  "valuedouble (unref x) = valuedouble x" "valueint (unref x) = valueint x"
  "jstring (unref x) = jstring x" "child (unref x) = map unref (child x)"
  by (cases x; simp)+

lemma unref_base_type [simp]: "base_type (unref x) = base_type x"
  by (simp add: base_type_def)

lemma json_strdup_plenty: "outcomes m = [] \<Longrightarrow> \<exists>m'. cJSON_strdup s m = (s, m') \<and> outcomes m' = []"
  by (auto simp: cJSON_strdup_def malloc_plenty split: option.splits)

lemma duplicate_fields_plenty:
  assumes "outcomes m = []"
  shows "\<exists>m'. duplicate_fields x zero_item m =
      (Inr (set_child [] (set_type (jtype x AND NOT cJSON_IsReference) x)), m') \<and> outcomes m' = []"
proof -
  obtain m2 where m2: "cJSON_strdup (valuestring x) m = (valuestring x, m2)" "outcomes m2 = []"
    using json_strdup_plenty assms by blast
  obtain m3 where m3: "cJSON_strdup (jstring x) m2 = (jstring x, m3)" "outcomes m3 = []"
    using json_strdup_plenty m2(2) by blast
  have "\<exists>n m4. duplicate_fields x zero_item m = (Inr n, m4) \<and> outcomes m4 = []"
    using m2 m3 by (auto simp: duplicate_fields_def Let_def split: prod.splits)
  with duplicate_fields_live show ?thesis by blast
qed

lemma duplicate_plenty:
  "outcomes m = [] \<Longrightarrow> recurse \<Longrightarrow>
   \<exists>m'. cJSON_Duplicate x recurse m = (map_option unref x, m') \<and> outcomes m' = []"
  "outcomes m = [] \<Longrightarrow>
   \<exists>m'. duplicate_chain cs n m = (Some (set_child (child n @ map unref cs) n), m') \<and> outcomes m' = []"
proof (induction x recurse m and cs n m rule: cJSON_Duplicate_duplicate_chain.induct)
  case (2 x recurse m)
  obtain m1 where m1: "cJSON_New_Item m = (Some zero_item, m1)" "outcomes m1 = []"
    using "2.prems" by (simp add: cJSON_New_Item_def malloc_plenty)
  let ?n = "set_child [] (set_type (jtype x AND NOT cJSON_IsReference) x)"
  obtain m4 where m4: "duplicate_fields x zero_item m1 = (Inr ?n, m4)" "outcomes m4 = []"
    using duplicate_fields_plenty [OF m1(2)] by blast
  have "set_child (map unref (child x)) ?n = unref x" by (cases x) simp
  with "2.IH" [OF m1(1) [symmetric] _ m4(1) [symmetric]] m1 m4 "2.prems"(2) show ?case by auto
next
  case (4 c cs n m)
  then obtain m1 where m1: "cJSON_Duplicate (Some c) True m = (Some (unref c), m1)" "outcomes m1 = []"
    by auto
  from "4.IH"(2) [OF m1(1) [symmetric] _ m1(2)] m1(1) show ?case
    by (cases n) simp
next
  case (3 n m)
  then show ?case by (cases n) simp
qed auto


section \<open>Comparison lemmas\<close>

lemma round_units_0: "round_units 0 d = 0"
  by (cases "d = 0") (simp_all add: round_units_def round_half_even_def bitlen.simps)

lemma compare_double_refl: "\<not> nan_or_inf d \<Longrightarrow> compare_double d d"
  by (cases d) (simp_all add: nan_or_inf_def compare_double_def round_units_0)

lemma compare_double_sym: "compare_double a b = compare_double b a"
  by (cases a; cases b) (simp_all add: compare_double_def abs_minus_commute)

lemma strncmp_zero_sym: "strncmp s t n = 0 \<longleftrightarrow> strncmp t s n = 0"
  by (induction s t n rule: strncmp.induct) auto

lemma strcmp_zero_sym: "strcmp s t = 0 \<longleftrightarrow> strcmp t s = 0"
  unfolding strcmp_def by (subst strncmp_zero_sym) (simp add: max.commute)

lemma ci_loop_same [simp]: "ci_loop s s = 0"
  by (induction s) auto

lemma case_found: "(case r of None \<Rightarrow> False | Some y \<Rightarrow> P y) \<longleftrightarrow> (\<exists>y. r = Some y \<and> P y)"
  by (cases r) auto

text \<open>What the comparison of two different items of one type comes to.\<close>

lemma compare_types:
  "cJSON_Compare same cs a b \<Longrightarrow> base_type a = base_type b"
  by (subst (asm) cJSON_Compare.simps) (simp split: if_splits)

definition valid_types :: "int set" where
  "valid_types = {cJSON_False, cJSON_True, cJSON_NULL, cJSON_Number, cJSON_String, cJSON_Raw,
                  cJSON_Array, cJSON_Object}"

lemma compare_identical:
  "cJSON_Compare True cs a b \<longleftrightarrow> base_type a = base_type b \<and> base_type a \<in> valid_types"
  by (subst cJSON_Compare.simps) (auto simp: valid_types_def json_types)

lemma compare_valid: "cJSON_Compare same cs a b \<Longrightarrow> base_type a \<in> valid_types"
  by (subst (asm) cJSON_Compare.simps) (simp add: valid_types_def split: if_splits)

lemma compare_by_type:
  assumes "base_type a = base_type b"
  shows "base_type a \<in> {cJSON_False, cJSON_True, cJSON_NULL} \<Longrightarrow> cJSON_Compare False cs a b = True"
    and "base_type a = cJSON_Number \<Longrightarrow>
         cJSON_Compare False cs a b = compare_double (valuedouble a) (valuedouble b)"
    and "base_type a \<in> {cJSON_String, cJSON_Raw} \<Longrightarrow>
         cJSON_Compare False cs a b \<longleftrightarrow>
           (\<exists>s t. valuestring a = Some s \<and> valuestring b = Some t \<and> strcmp s t = 0)"
    and "base_type a = cJSON_Array \<Longrightarrow>
         cJSON_Compare False cs a b \<longleftrightarrow> list_all2 (cJSON_Compare False cs) (child a) (child b)"
    and "base_type a = cJSON_Object \<Longrightarrow>
         cJSON_Compare False cs a b \<longleftrightarrow>
           (\<forall>x \<in> set (child a). \<exists>y. get_object_item (Some b) (jstring x) cs = Some y \<and> cJSON_Compare False cs x y) \<and>
           (\<forall>y \<in> set (child b). \<exists>x. get_object_item (Some a) (jstring y) cs = Some x \<and> cJSON_Compare False cs y x)"
proof goal_cases
  case 1
  with assms show ?case by (subst cJSON_Compare.simps) (auto simp: json_types)
next
  case 2
  with assms show ?case by (subst cJSON_Compare.simps) (simp add: json_types)
next
  case 3
  with assms show ?case by (subst cJSON_Compare.simps) (auto simp: json_types split: option.splits)
next
  case 4
  with assms show ?case
    by (subst cJSON_Compare.simps) (auto simp: json_types list_all_iff list_all2_iff)
next
  case 5
  with assms show ?case
    by (subst cJSON_Compare.simps) (simp add: json_types list_all_iff case_found)
qed

text \<open>The pairs of an array and the loops over the members of an object, by induction on the items.\<close>

lemma compare_sym: "cJSON_Compare same cs a b = cJSON_Compare same cs b a"
proof (induction same cs a b rule: cJSON_Compare.induct)
  case (1 same cs a b)
  consider "base_type a \<noteq> base_type b \<or> same \<or> base_type a \<notin> valid_types"
    | "base_type a = base_type b" "\<not> same" "base_type a = cJSON_Array"
    | "base_type a = base_type b" "\<not> same" "base_type a \<in> valid_types" "base_type a \<noteq> cJSON_Array" by blast
  then show ?case
  proof cases
    case 1
    then show ?thesis
      by (metis compare_identical compare_types compare_valid)
  next
    case 2
    have "list_all2 (cJSON_Compare False cs) (child a) (child b) =
          list_all2 (\<lambda>x y. cJSON_Compare False cs y x) (child a) (child b)"
    proof -
      have "cJSON_Compare False cs x y = cJSON_Compare False cs y x"
        if "(x, y) \<in> set (zip (child a) (child b))" for x y
        using "1.IH"(1) [OF _ _ _ _ _ _ _ that refl] 2 by (simp add: json_types)
      then show ?thesis by (auto simp: list_all2_iff split: prod.splits)
    qed
    with 2 compare_by_type(4) [of a b] compare_by_type(4) [of b a] show ?thesis
      by (simp add: list_all2_conv_all_nth) (metis nth_mem)
  next
    case 3
    then consider "base_type a \<in> {cJSON_False, cJSON_True, cJSON_NULL}" | "base_type a = cJSON_Number"
      | "base_type a \<in> {cJSON_String, cJSON_Raw}" | "base_type a = cJSON_Object"
      unfolding valid_types_def by blast
    then show ?thesis
    proof cases
      case 1
      with 3 compare_by_type(1) [of a b] compare_by_type(1) [of b a] show ?thesis by simp
    next
      case 2
      with 3 compare_by_type(2) [of a b] compare_by_type(2) [of b a] compare_double_sym
      show ?thesis by simp
    next
      case s: 3
      with 3 compare_by_type(3) [of a b] compare_by_type(3) [of b a] strcmp_zero_sym show ?thesis
        by auto
    next
      case 4
      with 3 compare_by_type(5) [of a b] compare_by_type(5) [of b a] show ?thesis
        by (simp add: conj_commute)
    qed
  qed
qed

text \<open>
  Items that compare equal to themselves: finite numbers, texts that are there, and objects in
  which every member is found under its own key.
\<close>

fun comparable :: "bool \<Rightarrow> cJSON \<Rightarrow> bool" where
  "comparable cs (JItem t vs vi vd s ch) \<longleftrightarrow>
     t AND 0xFF \<in> {cJSON_False, cJSON_True, cJSON_NULL, cJSON_Number, cJSON_String, cJSON_Raw,
                   cJSON_Array, cJSON_Object} \<and>
     (t AND 0xFF = cJSON_Number \<longrightarrow> \<not> nan_or_inf vd) \<and>
     (t AND 0xFF \<in> {cJSON_String, cJSON_Raw} \<longrightarrow> vs \<noteq> None) \<and>
     (t AND 0xFF = cJSON_Object \<longrightarrow>
        (\<forall>y \<in> set ch. get_object_item (Some (JItem t vs vi vd s ch)) (jstring y) cs = Some y)) \<and>
     list_all (comparable cs) ch"

lemma find_map_unref:
  "find_sensitive n (map unref xs) = map_option unref (find_sensitive n xs)"
  "find_insensitive n (map unref xs) = map_option unref (find_insensitive n xs)"
  by (induction xs) (auto split: option.splits)

lemma get_object_item_unref:
  "get_object_item (Some (unref x)) k cs = map_option unref (get_object_item (Some x) k cs)"
  by (auto simp: get_object_item_def find_map_unref split: option.splits)

lemma compare_unref: "comparable cs x \<Longrightarrow> cJSON_Compare False cs (unref x) x"
proof (induction x)
  case (JItem t vs vi vd s ch)
  define x where "x = JItem t vs vi vd s ch"
  have x: "base_type (unref x) = base_type x" "child x = ch" "valuedouble x = vd" "valuestring x = vs"
    by (simp_all add: x_def del: unref.simps)
  have ch: "\<And>y. y \<in> set ch \<Longrightarrow> cJSON_Compare False cs (unref y) y"
    using JItem by (auto simp: list_all_iff)
  have obj: "get_object_item (Some x) (jstring y) cs = Some y"
    if "base_type x = cJSON_Object" "y \<in> set ch" for y
    using JItem.prems that by (auto simp: base_type_def x_def)
  have rest: "base_type x \<in> {cJSON_False, cJSON_True, cJSON_NULL, cJSON_Number, cJSON_String, cJSON_Raw,
      cJSON_Array, cJSON_Object}" "base_type x = cJSON_Number \<longrightarrow> \<not> nan_or_inf vd"
      "base_type x \<in> {cJSON_String, cJSON_Raw} \<longrightarrow> vs \<noteq> None"
    using JItem.prems by (simp_all add: base_type_def x_def)
  then consider "base_type x \<in> {cJSON_False, cJSON_True, cJSON_NULL}" | "base_type x = cJSON_Number"
    | "base_type x \<in> {cJSON_String, cJSON_Raw}" | "base_type x = cJSON_Array" | "base_type x = cJSON_Object"
    by blast
  then have "cJSON_Compare False cs (unref x) x"
  proof cases
    case 4
    with ch compare_by_type(4) [OF x(1)] show ?thesis
      by (simp add: x list_all2_conv_all_nth del: unref.simps)
  next
    case 5
    with ch obj compare_by_type(5) [OF x(1)] compare_sym show ?thesis
      by (simp add: x get_object_item_unref del: unref.simps)
  next
    case 2
    with rest(2) compare_by_type(2) [OF x(1)] compare_double_refl show ?thesis by (simp add: x)
  next
    case 3
    with rest(3) compare_by_type(3) [OF x(1)] show ?thesis by (auto simp: x strcmp_def)
  qed (use compare_by_type(1) [OF x(1)] x(1) in simp)
  then show ?case by (simp add: x_def del: unref.simps)
qed


section \<open>Properties\<close>

text \<open>
  C33. Ownership in the JSON library: on every pattern of allocation failures, creating an item
  inside an object, creating an array and duplicating an item change the ledger exactly by the
  blocks that the object or the result owns afterwards; where they fail they leave nothing
  behind. Deleting the result gives everything back.
\<close>

theorem json_no_leak:
  assumes "jtype x AND cJSON_IsReference = 0"
  shows "(\<forall>i obj' m'. cJSON_AddNumberToObject (Some x) name d m = (i, obj', m') \<or>
            cJSON_AddStringToObject (Some x) name s m = (i, obj', m') \<or>
            cJSON_AddRawToObject (Some x) name s m = (i, obj', m') \<or>
            cJSON_AddBoolToObject (Some x) name b m = (i, obj', m') \<or>
            cJSON_AddObjectToObject (Some x) name m = (i, obj', m') \<or>
            cJSON_AddArrayToObject (Some x) name m = (i, obj', m') \<longrightarrow>
          live m' = live m - json_blocks x + owned obj') \<and>
         (\<forall>r m'. cJSON_CreateIntArray ns count m = (r, m') \<or>
            cJSON_CreateDoubleArray ds count m = (r, m') \<or>
            cJSON_CreateStringArray ss count m = (r, m') \<or>
            cJSON_Duplicate y recurse m = (r, m') \<longrightarrow>
          live m' = live m + owned r \<and> live (delete_opt r m') = live m)"
proof -
  have ref: "\<forall>z. Some x = Some z \<longrightarrow> jtype z AND cJSON_IsReference = 0" using assms by simp
  have "live m' = live m - json_blocks x + owned obj'"
    if "item_creator mk" "add_created mk (Some x) name m = (i, obj', m')" for mk i obj' m'
    using item_creator.add_created_live [OF that ref] by simp
  note add = this
  show ?thesis
    using add [OF number_item.item_creator_axioms] add [OF string_item.item_creator_axioms]
      add [OF raw_item.item_creator_axioms] add [OF bool_item.item_creator_axioms]
      add [OF object_item.item_creator_axioms] add [OF array_item.item_creator_axioms]
      create_array_live [OF int_elements.element_creator_axioms]
      create_array_live [OF number_elements.element_creator_axioms]
      create_array_live [OF string_elements.element_creator_axioms] duplicate_live(1)
    by (auto simp: cJSON_AddNumberToObject_def cJSON_AddStringToObject_def cJSON_AddRawToObject_def
        cJSON_AddBoolToObject_def cJSON_AddObjectToObject_def cJSON_AddArrayToObject_def
        cJSON_CreateIntArray_def cJSON_CreateDoubleArray_def cJSON_CreateStringArray_def delete_opt_live)
qed

text \<open>
  Copies are equal: with memory available \<open>cJSON_Duplicate\<close> gives an item that
  \<open>cJSON_Compare\<close> finds equal to the original, in either order, for every item whose numbers
  are finite, whose texts are there and whose objects find each member under its own key.
\<close>

theorem duplicate_compares_equal:
  assumes "comparable case_sensitive x" "outcomes m = []"
  shows "\<exists>d m'. cJSON_Duplicate (Some x) True m = (Some d, m') \<and>
           cJSON_Compare False case_sensitive d x \<and> cJSON_Compare False case_sensitive x d"
  using duplicate_plenty(1) [OF assms(2), of True "Some x"] compare_unref [OF assms(1)]
  by (auto simp: compare_sym [of False case_sensitive x])

definition demo_item :: cJSON where
  "demo_item = JItem 64 None 0 (Fin False 0) None
     [JItem 8 None 5 (Fin False (5 * UNITS)) (Some (str ''n'')) [],
      JItem 16 (Some (str ''v'')) 0 (Fin False 0) (Some (str ''s'')) []]"

lemma demo_item_facts:
  "comparable True demo_item" "jtype demo_item AND cJSON_IsReference = 0" "child demo_item \<noteq> []"
  by (simp_all add: demo_item_def json_types get_object_item_def str_def strcmp_def nan_or_inf_def)

theorem json_no_leak_witness:
  "\<exists>r m'. cJSON_Duplicate (Some demo_item) True \<lparr>outcomes = [True, True, False], live = 4\<rparr> = (r, m') \<and>
     live (delete_opt r m') = 4"
proof -
  let ?m = "\<lparr>outcomes = [True, True, False], live = 4\<rparr>"
  obtain r m' where "cJSON_Duplicate (Some demo_item) True ?m = (r, m')"
    by (cases "cJSON_Duplicate (Some demo_item) True ?m")
  with json_no_leak [OF demo_item_facts(2), of None NaN ?m None False None 0 None None "Some demo_item" True]
  show ?thesis by auto
qed

theorem duplicate_compares_equal_witness:
  "\<exists>d m'. cJSON_Duplicate (Some demo_item) True \<lparr>outcomes = [], live = 0\<rparr> = (Some d, m') \<and>
     cJSON_Compare False True d demo_item"
  using duplicate_compares_equal [OF demo_item_facts(1), of "\<lparr>outcomes = [], live = 0\<rparr>"] by auto

text \<open>
  Comparison is symmetric, on all items and in both modes, although it is written with an
  early exit, one sided loops and lookups by key.
\<close>

theorem compare_symmetric:
  "cJSON_Compare same case_sensitive a b = cJSON_Compare same case_sensitive b a"
  by (rule compare_sym)


text \<open>Keys that \<open>get_object_item\<close> takes for equal.\<close>

definition keys_equal :: "bool \<Rightarrow> cstring \<Rightarrow> cstring \<Rightarrow> bool" where
  "keys_equal case_sensitive n k \<longleftrightarrow>
     (if case_sensitive then n = k else map tolower n = map tolower k)"

lemma tolower_zero: "tolower c = 0 \<longleftrightarrow> c = 0"
  using uint_ge_0 [of c] by (auto simp: tolower_def word_le_def uint_0_iff)

lemma ci_loop_zero: "0 \<notin> set s \<Longrightarrow> 0 \<notin> set t \<Longrightarrow> ci_loop s t = 0 \<longleftrightarrow> map tolower s = map tolower t"
  by (induction s t rule: ci_loop.induct) (auto simp: tolower_zero)

lemma find_append:
  "\<forall>x \<in> set xs. jstring x \<noteq> None \<Longrightarrow>
   find_sensitive n (xs @ ys) = (case find_sensitive n xs of None \<Rightarrow> find_sensitive n ys | Some x \<Rightarrow> Some x)"
  "find_insensitive n (xs @ ys) =
     (case find_insensitive n xs of None \<Rightarrow> find_insensitive n ys | Some x \<Rightarrow> Some x)"
  by (induction xs) (auto split: option.splits)

lemma get_object_item_append:
  assumes "\<forall>c \<in> set (child x). jstring c \<noteq> None" "jstring y = Some k" "0 \<notin> set k" "0 \<notin> set n"
  shows "get_object_item (Some (set_child (child x @ [y]) x)) (Some n) case_sensitive =
           (case get_object_item (Some x) (Some n) case_sensitive of
              Some z \<Rightarrow> Some z
            | None \<Rightarrow> if keys_equal case_sensitive n k then Some y else None)"
proof -
  have "find_sensitive n (child x) = Some z \<Longrightarrow> jstring z \<noteq> None"
    "find_insensitive n (child x) = Some z \<Longrightarrow> jstring z \<noteq> None" for z
    using assms(1) find_sensitive_mem find_insensitive_mem by metis+
  then show ?thesis
    using assms(2-4) find_append(1) [OF assms(1)]
    by (auto simp: get_object_item_def find_append(2) keys_equal_def strcmp_zero_iff ci_loop_zero
        case_insensitive_strcmp_def split: option.splits)
qed

text \<open>
  Lookup after insertion: with memory available, an object to which an item was added under
  a key finds every key that it found before, as before; the new key finds the new item, with
  its key set, unless an older member shadows it; nothing else is found. Both modes agree up to
  the meaning of equal keys.
\<close>

theorem object_add_lookup:
  assumes "\<forall>c \<in> set (child x). jstring c \<noteq> None" "0 \<notin> set k" "0 \<notin> set n" "outcomes m = []"
  shows "\<exists>obj m'. cJSON_AddItemToObject (Some x) (Some k) (Some y) m = (Some obj, m') \<and>
           get_object_item (Some obj) (Some n) case_sensitive =
             (case get_object_item (Some x) (Some n) case_sensitive of
                Some z \<Rightarrow> Some z
              | None \<Rightarrow>
                  if keys_equal case_sensitive n k
                  then Some (set_type (jtype y AND NOT cJSON_StringIsConst) (set_string (Some k) y))
                  else None)"
proof -
  let ?y = "set_type (jtype y AND NOT cJSON_StringIsConst) (set_string (Some k) y)"
  obtain m1 where "cJSON_strdup (Some k) m = (Some k, m1)" using json_strdup_plenty [OF assms(4)] by blast
  then have "\<exists>m'. cJSON_AddItemToObject (Some x) (Some k) (Some y) m =
      (Some (set_child (child x @ [?y]) x), m')"
    by (simp add: cJSON_AddItemToObject_def add_item_to_object_def add_item_to_array_def Let_def)
  moreover have "jstring ?y = Some k" by simp
  ultimately show ?thesis using get_object_item_append [OF assms(1) _ assms(2,3)] by blast
qed

theorem object_add_lookup_witness:
  "\<exists>obj m'. cJSON_AddItemToObject (Some demo_item) (Some (str ''k'')) (Some zero_item)
       \<lparr>outcomes = [], live = 0\<rparr> = (Some obj, m') \<and>
     get_object_item (Some obj) (Some (str ''K'')) False =
       (case get_object_item (Some demo_item) (Some (str ''K'')) False of
          Some z \<Rightarrow> Some z
        | None \<Rightarrow>
            if keys_equal False (str ''K'') (str ''k'')
            then Some (set_type (jtype zero_item AND NOT cJSON_StringIsConst)
                        (set_string (Some (str ''k'')) zero_item))
            else None)"
proof (rule object_add_lookup)
  show "\<forall>c \<in> set (child demo_item). jstring c \<noteq> None" by (simp add: demo_item_def)
  show "0 \<notin> set (str ''k'')" "0 \<notin> set (str ''K'')" by (simp_all add: str_nul_free)
qed simp

end
