(* ===== verification/Json_Print.thy ===== *)
theory Json_Print
  imports Json
begin

text \<open>
  Printing of JSON items (\<open>print_value\<close> and what it calls, in \<open>cJSON.c\<close>) into a growing or a
  given buffer.

  The buffer is a list of cells, each uninitialised or a byte. Every store and every read
  checks its index: \<open>None\<close> as the result of a printing function is undefined behaviour (a store
  or a read outside the buffer, or \<open>strlen\<close> over uninitialised bytes). Otherwise the result is
  the function's return value, the buffer and the allocator.

  The reference is \<open>render\<close>, a pretty printer without a buffer. The theorems show that the
  printing functions never leave the buffer, that what they leave in it is \<open>render\<close>'s text, that
  they succeed whenever memory and the buffer's size allow, and that no block is lost.
\<close>

unbundle bit_operations_syntax

section \<open>The print buffer\<close>

record printbuffer =
  buffer :: "byte option list option"
  blength :: nat
  boffset :: nat
  bdepth :: nat
  noalloc :: bool
  bformat :: bool
  reallocate :: bool

definition INT_MAX :: nat where
  "INT_MAX = 2147483647"

text \<open>
  \<open>ensure\<close>: room for \<open>needed\<close> bytes and one more behind the offset. The pointer it returns is
  the offset, so the result is only whether it is NULL.
\<close>

definition ensure :: "nat \<Rightarrow> printbuffer \<Rightarrow> mem \<Rightarrow> (bool \<times> printbuffer \<times> mem) option" where
  "ensure needed p m =
     (case buffer p of
        None \<Rightarrow> Some (False, p, m)
      | Some cs \<Rightarrow>
          if 0 < blength p \<and> blength p \<le> boffset p then Some (False, p, m)
          else if INT_MAX < needed then Some (False, p, m)
          else
            (let needed = needed + boffset p + 1 in
             if needed \<le> blength p then Some (True, p, m)
             else if noalloc p then Some (False, p, m)
             else if INT_MAX div 2 < needed \<and> \<not> needed \<le> INT_MAX then Some (False, p, m)
             else
               (let newsize = (if INT_MAX div 2 < needed then INT_MAX else needed * 2) in
                if reallocate p then
                  (case mrealloc m of
                     (False, m) \<Rightarrow> Some (False, p\<lparr>buffer := None, blength := 0\<rparr>, mfree m)
                   | (True, m) \<Rightarrow>
                       Some (True, p\<lparr>buffer := Some (take newsize cs @ replicate (newsize - length cs) None),
                                     blength := newsize\<rparr>, m))
                else
                  (case malloc m of
                     (False, m) \<Rightarrow> Some (False, p\<lparr>buffer := None, blength := 0\<rparr>, mfree m)
                   | (True, m) \<Rightarrow>
                       if length cs < boffset p + 1 then None
                       else
                         Some (True, p\<lparr>buffer := Some (take (boffset p + 1) cs @
                                                   replicate (newsize - (boffset p + 1)) None),
                                       blength := newsize\<rparr>, mfree m)))))"

definition store :: "nat \<Rightarrow> byte \<Rightarrow> printbuffer \<Rightarrow> printbuffer option" where
  "store i b p =
     (case buffer p of
        None \<Rightarrow> None
      | Some cs \<Rightarrow> if i < length cs then Some (p\<lparr>buffer := Some (cs[i := Some b])\<rparr>) else None)"

fun store_all :: "nat \<Rightarrow> byte list \<Rightarrow> printbuffer \<Rightarrow> printbuffer option" where
  "store_all i [] p = Some p"
| "store_all i (b # bs) p = Option.bind (store i b p) (store_all (i + 1) bs)"

text \<open>\<open>strlen\<close> from a pointer into the cells.\<close>

fun cell_strlen :: "byte option list \<Rightarrow> nat option" where
  "cell_strlen [] = None"
| "cell_strlen (c # cs) =
     (case c of
        None \<Rightarrow> None
      | Some b \<Rightarrow> if b = 0 then Some 0 else map_option Suc (cell_strlen cs))"

definition update_offset :: "printbuffer \<Rightarrow> printbuffer option" where
  "update_offset p =
     (case buffer p of
        None \<Rightarrow> Some p
      | Some cs \<Rightarrow> map_option (\<lambda>n. p\<lparr>boffset := boffset p + n\<rparr>) (cell_strlen (drop (boffset p) cs)))"

text \<open>Sequencing: a step that returns false ends the function with false.\<close>

type_synonym printed = "(bool \<times> printbuffer \<times> mem) option"

definition then_print :: "printed \<Rightarrow> (printbuffer \<Rightarrow> mem \<Rightarrow> printed) \<Rightarrow> printed" where
  "then_print r f =
     (case r of
        None \<Rightarrow> None
      | Some (ok, p, m) \<Rightarrow> if ok then f p m else Some (False, p, m))"

lemma then_print_cong [fundef_cong]:
  "r = r' \<Longrightarrow> (\<And>p m. r' = Some (True, p, m) \<Longrightarrow> f p m = g p m) \<Longrightarrow> then_print r f = then_print r' g"
  by (auto simp: then_print_def split: option.splits)

text \<open>
  The recurring step of the printing functions: \<open>ensure\<close>, stores at the pointer it returns, and
  the offset moved.
\<close>

definition emit :: "nat \<Rightarrow> byte list \<Rightarrow> nat \<Rightarrow> printbuffer \<Rightarrow> mem \<Rightarrow> printed" where
  "emit needed bs advance p m =
     then_print (ensure needed p m) (\<lambda>p m.
       map_option (\<lambda>p. (True, p\<lparr>boffset := boffset p + advance\<rparr>, m)) (store_all (boffset p) bs p))"

definition sync :: "printbuffer \<Rightarrow> mem \<Rightarrow> printed" where
  "sync p m = map_option (\<lambda>p. (True, p, m)) (update_offset p)"

section \<open>Numbers\<close>

text \<open>\<open>sprintf\<close> into \<open>number_buffer[26]\<close>.\<close>

definition number_sprintf :: "byte list \<Rightarrow> byte list option" where
  "number_sprintf text = (if length text + 1 \<le> 26 then Some text else None)"

definition number_text :: "double \<Rightarrow> byte list option" where
  "number_text d =
     (if nan_or_inf d then number_sprintf (str ''null'')
      else
        Option.bind (number_sprintf (format_g 15 d)) (\<lambda>text.
          let (test, n) = strtod text in
          if n = 0 \<or> \<not> compare_double test d then number_sprintf (format_g 17 d) else Some text))"

definition print_number :: "cJSON \<Rightarrow> printbuffer \<Rightarrow> mem \<Rightarrow> printed" where
  "print_number item p m =
     (case number_text (valuedouble item) of
        None \<Rightarrow> None
      | Some number_buffer \<Rightarrow>
          if 25 < length number_buffer then Some (False, p, m)
          else
            emit (length number_buffer + 1)
              (map (\<lambda>c. if c = 46 then 46 else c) number_buffer @ [0]) (length number_buffer) p m)"

section \<open>Strings\<close>

definition escape_extra :: "byte \<Rightarrow> nat" where
  "escape_extra c = (if c \<in> {34, 92, 8, 12, 10, 13, 9} then 1 else if c < 32 then 5 else 0)"

definition hex_digit :: "nat \<Rightarrow> byte" where
  "hex_digit n = (if n < 10 then word_of_nat (48 + n) else word_of_nat (87 + n))"

text \<open>\<open>sprintf("u%04x")\<close> of a byte, with its terminating NUL.\<close>

definition sprintf_u :: "byte \<Rightarrow> byte list" where
  "sprintf_u c = [117, 48, 48, hex_digit (unat c div 16), hex_digit (unat c mod 16), 0]"

definition short_escape :: "byte \<Rightarrow> byte option" where
  "short_escape c =
     (if c = 92 then Some 92 else if c = 34 then Some 34 else if c = 8 then Some 98
      else if c = 12 then Some 102 else if c = 10 then Some 110 else if c = 13 then Some 114
      else if c = 9 then Some 116 else None)"

text \<open>The copying loop of \<open>print_string_ptr\<close>; \<open>i\<close> is the index \<open>output_pointer\<close> has reached.\<close>

fun escape_loop :: "cstring \<Rightarrow> nat \<Rightarrow> printbuffer \<Rightarrow> printbuffer option" where
  "escape_loop [] i p = Some p"
| "escape_loop (c # cs) i p =
     (if 31 < c \<and> c \<noteq> 34 \<and> c \<noteq> 92 then Option.bind (store i c p) (escape_loop cs (i + 1))
      else
        Option.bind (store i 92 p) (\<lambda>p.
          case short_escape c of
            Some e \<Rightarrow> Option.bind (store (i + 1) e p) (escape_loop cs (i + 2))
          | None \<Rightarrow> Option.bind (store_all (i + 1) (sprintf_u c) p) (escape_loop cs (i + 6))))"

definition print_string_ptr :: "cstring option \<Rightarrow> printbuffer \<Rightarrow> mem \<Rightarrow> printed" where
  "print_string_ptr input p m =
     (case input of
        None \<Rightarrow> emit 3 [34, 34, 0] 0 p m
      | Some s \<Rightarrow>
          (let escape_characters = sum_list (map escape_extra s);
               output_length = length s + escape_characters
           in if escape_characters = 0 then emit (output_length + 3) (34 # s @ [34, 0]) 0 p m
              else
                then_print (ensure (output_length + 3) p m) (\<lambda>p m.
                  map_option (\<lambda>p. (True, p, m))
                    (Option.bind (store (boffset p) 34 p) (\<lambda>p.
                     Option.bind (escape_loop s (boffset p + 1) p) (\<lambda>p.
                     store_all (boffset p + output_length + 1) [34, 0] p))))))"

definition print_string :: "cJSON \<Rightarrow> printbuffer \<Rightarrow> mem \<Rightarrow> printed" where
  "print_string item = print_string_ptr (valuestring item)"

section \<open>Values\<close>

text \<open>
  \<open>print_value\<close> with the loops of \<open>print_array\<close> and \<open>print_object\<close> over the remaining siblings.
\<close>

definition print_raw :: "cstring option \<Rightarrow> printbuffer \<Rightarrow> mem \<Rightarrow> printed" where
  "print_raw vs p m =
     (case vs of
        None \<Rightarrow> Some (False, p, m)
      | Some s \<Rightarrow> emit (length s + 1) (s @ [0]) 0 p m)"

definition open_array :: "printbuffer \<Rightarrow> mem \<Rightarrow> printed" where
  "open_array p m =
     then_print (emit 1 [91] 1 p m) (\<lambda>p m. Some (True, p\<lparr>bdepth := bdepth p + 1\<rparr>, m))"

definition array_comma :: "printbuffer \<Rightarrow> mem \<Rightarrow> printed" where
  "array_comma p m =
     (let n = (if bformat p then 2 else 1)
      in emit (n + 1) (44 # (if bformat p then [32] else []) @ [0]) n p m)"

definition close_array :: "printbuffer \<Rightarrow> mem \<Rightarrow> printed" where
  "close_array p m =
     then_print (emit 2 [93, 0] 0 p m) (\<lambda>p m. Some (True, p\<lparr>bdepth := bdepth p - 1\<rparr>, m))"

definition open_object :: "printbuffer \<Rightarrow> mem \<Rightarrow> printed" where
  "open_object p m =
     (let n = (if bformat p then 2 else 1)
      in then_print (emit (n + 1) (123 # (if bformat p then [10] else [])) n p m)
           (\<lambda>p m. Some (True, p\<lparr>bdepth := bdepth p + 1\<rparr>, m)))"

definition indent :: "printbuffer \<Rightarrow> mem \<Rightarrow> printed" where
  "indent p m =
     (if bformat p then emit (bdepth p) (replicate (bdepth p) 9) (bdepth p) p m else Some (True, p, m))"

definition key_colon :: "printbuffer \<Rightarrow> mem \<Rightarrow> printed" where
  "key_colon p m =
     (let n = (if bformat p then 2 else 1)
      in emit n (58 # (if bformat p then [9] else [])) n p m)"

definition member_end :: "bool \<Rightarrow> printbuffer \<Rightarrow> mem \<Rightarrow> printed" where
  "member_end has_next p m =
     (let bs = (if has_next then [44] else []) @ (if bformat p then [10] else [])
      in emit (length bs + 1) (bs @ [0]) (length bs) p m)"

definition close_object :: "printbuffer \<Rightarrow> mem \<Rightarrow> printed" where
  "close_object p m =
     then_print
       (emit (if bformat p then bdepth p + 1 else 2)
          ((if bformat p then replicate (bdepth p - 1) 9 else []) @ [125, 0]) 0 p m)
       (\<lambda>p m. Some (True, p\<lparr>bdepth := bdepth p - 1\<rparr>, m))"

fun print_value :: "cJSON \<Rightarrow> printbuffer \<Rightarrow> mem \<Rightarrow> printed"
  and print_elements :: "cJSON list \<Rightarrow> printbuffer \<Rightarrow> mem \<Rightarrow> printed"
  and print_members :: "cJSON list \<Rightarrow> printbuffer \<Rightarrow> mem \<Rightarrow> printed" where
  "print_value (JItem t vs vi vd s cs) p m =
     (let item = JItem t vs vi vd s cs; ty = t AND 0xFF in
      if ty = cJSON_NULL then emit 5 (str ''null'' @ [0]) 0 p m
      else if ty = cJSON_False then emit 6 (str ''false'' @ [0]) 0 p m
      else if ty = cJSON_True then emit 5 (str ''true'' @ [0]) 0 p m
      else if ty = cJSON_Number then print_number item p m
      else if ty = cJSON_Raw then print_raw vs p m
      else if ty = cJSON_String then print_string item p m
      else if ty = cJSON_Array then
        then_print (open_array p m) (\<lambda>p m. then_print (print_elements cs p m) close_array)
      else if ty = cJSON_Object then
        then_print (open_object p m) (\<lambda>p m. then_print (print_members cs p m) close_object)
      else Some (False, p, m))"
| "print_elements [] p m = Some (True, p, m)"
| "print_elements (x # xs) p m =
     then_print (print_value x p m) (\<lambda>p m.
     then_print (sync p m) (\<lambda>p m.
     then_print (if xs = [] then Some (True, p, m) else array_comma p m) (\<lambda>p m.
     print_elements xs p m)))"
| "print_members [] p m = Some (True, p, m)"
| "print_members (x # xs) p m =
     then_print (indent p m) (\<lambda>p m.
     then_print (print_string_ptr (jstring x) p m) (\<lambda>p m.
     then_print (sync p m) (\<lambda>p m.
     then_print (key_colon p m) (\<lambda>p m.
     then_print (print_value x p m) (\<lambda>p m.
     then_print (sync p m) (\<lambda>p m.
     then_print (member_end (xs \<noteq> []) p m) (\<lambda>p m.
     print_members xs p m)))))))"

declare print_value.simps [simp del]


section \<open>Entry points\<close>

text \<open>The result is the block returned, as its cells, or NULL.\<close>

definition print_item :: "cJSON option \<Rightarrow> printbuffer \<Rightarrow> mem \<Rightarrow> printed" where
  "print_item item p m = (case item of None \<Rightarrow> Some (False, p, m) | Some x \<Rightarrow> print_value x p m)"

definition free_buffer :: "printbuffer \<Rightarrow> mem \<Rightarrow> mem" where
  "free_buffer p m = (if buffer p = None then m else mfree m)"

definition finish_print :: "printbuffer \<Rightarrow> mem \<Rightarrow> (byte option list option \<times> mem) option" where
  "finish_print p m =
     (case buffer p of
        None \<Rightarrow> None
      | Some cs \<Rightarrow>
          (let n = boffset p + 1 in
           if reallocate p then
             (case mrealloc m of
                (False, m) \<Rightarrow> Some (None, mfree m)
              | (True, m) \<Rightarrow> Some (Some (take n cs @ replicate (n - length cs) None), m))
           else
             (case malloc m of
                (False, m) \<Rightarrow> Some (None, mfree m)
              | (True, m) \<Rightarrow>
                  if length cs < min (blength p) n then None
                  else
                    Some (Some ((take (min (blength p) n) cs @
                                 replicate (n - min (blength p) n) None)[boffset p := Some 0]), mfree m))))"

definition cjson_print :: "cJSON option \<Rightarrow> bool \<Rightarrow> bool \<Rightarrow> mem \<Rightarrow> (byte option list option \<times> mem) option" where
  "cjson_print item format hooks_reallocate m =
     (case malloc m of
        (False, m) \<Rightarrow> Some (None, m)
      | (True, m) \<Rightarrow>
          (case print_item item
                  \<lparr>buffer = Some (replicate 256 None), blength = 256, boffset = 0, bdepth = 0,
                   noalloc = False, bformat = format, reallocate = hooks_reallocate\<rparr> m of
             None \<Rightarrow> None
           | Some (False, p, m) \<Rightarrow> Some (None, free_buffer p m)
           | Some (True, p, m) \<Rightarrow>
               (case update_offset p of
                  None \<Rightarrow> None
                | Some p \<Rightarrow> finish_print p m)))"

text \<open>The global hooks are those of the C library, whose \<open>realloc\<close> is available.\<close>

definition cJSON_Print :: "cJSON option \<Rightarrow> mem \<Rightarrow> (byte option list option \<times> mem) option" where
  "cJSON_Print item m = cjson_print item True True m"

definition cJSON_PrintUnformatted :: "cJSON option \<Rightarrow> mem \<Rightarrow> (byte option list option \<times> mem) option" where
  "cJSON_PrintUnformatted item m = cjson_print item False True m"

definition cJSON_PrintBuffered ::
    "cJSON option \<Rightarrow> int \<Rightarrow> bool \<Rightarrow> mem \<Rightarrow> (byte option list option \<times> mem) option" where
  "cJSON_PrintBuffered item prebuffer fmt m =
     (if prebuffer < 0 then Some (None, m)
      else
        (case malloc m of
           (False, m) \<Rightarrow> Some (None, m)
         | (True, m) \<Rightarrow>
             (case print_item item
                     \<lparr>buffer = Some (replicate (nat prebuffer) None), blength = nat prebuffer, boffset = 0,
                      bdepth = 0, noalloc = False, bformat = fmt, reallocate = True\<rparr> m of
                None \<Rightarrow> None
              | Some (False, p, m) \<Rightarrow> Some (None, free_buffer p m)
              | Some (True, p, m) \<Rightarrow> Some (buffer p, m))))"

text \<open>The caller's buffer, of at least \<open>length\<close> cells, is changed in place.\<close>

definition cJSON_PrintPreallocated ::
    "cJSON option \<Rightarrow> byte option list option \<Rightarrow> int \<Rightarrow> bool \<Rightarrow> mem \<Rightarrow>
     (bool \<times> byte option list option \<times> mem) option" where
  "cJSON_PrintPreallocated item buf len fmt m =
     (if len < 0 \<or> buf = None then Some (False, buf, m)
      else
        map_option (\<lambda>(ok, p, m). (ok, buffer p, m))
          (print_item item
             \<lparr>buffer = buf, blength = nat len, boffset = 0, bdepth = 0, noalloc = True,
              bformat = fmt, reallocate = True\<rparr> m))"

section \<open>Reference\<close>

definition escape_byte :: "byte \<Rightarrow> byte list" where
  "escape_byte c =
     (case short_escape c of
        Some e \<Rightarrow> [92, e]
      | None \<Rightarrow>
          if c < 32 then [92, 117, 48, 48, hex_digit (unat c div 16), hex_digit (unat c mod 16)] else [c])"

definition quoted :: "cstring option \<Rightarrow> byte list" where
  "quoted s = 34 # concat (map escape_byte (case s of None \<Rightarrow> [] | Some t \<Rightarrow> t)) @ [34]"

fun join :: "'a list \<Rightarrow> 'a list list \<Rightarrow> 'a list" where
  "join sep [] = []"
| "join sep [t] = t"
| "join sep (t # u # ts) = t @ sep @ join sep (u # ts)"

definition array_text :: "bool \<Rightarrow> byte list list \<Rightarrow> byte list" where
  "array_text fmt ts = 91 # join (if fmt then [44, 32] else [44]) ts @ [93]"

definition member_text :: "bool \<Rightarrow> nat \<Rightarrow> cstring option \<Rightarrow> byte list \<Rightarrow> byte list" where
  "member_text fmt d key t =
     (if fmt then replicate d 9 else []) @ quoted key @ 58 # (if fmt then [9] else []) @ t"

definition members_text :: "bool \<Rightarrow> byte list list \<Rightarrow> byte list" where
  "members_text fmt ms =
     (let nl = (if fmt then [10] else [])
      in join (44 # nl) ms @ (if ms = [] then [] else nl))"

definition object_text :: "bool \<Rightarrow> nat \<Rightarrow> byte list list \<Rightarrow> byte list" where
  "object_text fmt d ms =
     123 # (if fmt then [10] else []) @ members_text fmt ms @
     (if fmt then replicate d 9 else []) @ [125]"

fun render :: "bool \<Rightarrow> nat \<Rightarrow> cJSON \<Rightarrow> byte list option" where
  "render fmt d (JItem t vs vi vd s cs) =
     (let ty = t AND 0xFF in
      if ty = cJSON_NULL then Some (str ''null'')
      else if ty = cJSON_False then Some (str ''false'')
      else if ty = cJSON_True then Some (str ''true'')
      else if ty = cJSON_Number then number_text vd
      else if ty = cJSON_Raw then vs
      else if ty = cJSON_String then Some (quoted vs)
      else if ty = cJSON_Array then map_option (array_text fmt) (those (map (render fmt (d + 1)) cs))
      else if ty = cJSON_Object then
        map_option (object_text fmt d)
          (those (map (\<lambda>x. map_option (member_text fmt (d + 1) (jstring x)) (render fmt (d + 1) x)) cs))
      else None)"

declare render.simps [simp del]

text \<open>Items as the library builds them: finite doubles are doubles, and texts are C strings.\<close>

fun c_text :: "cstring option \<Rightarrow> bool" where
  "c_text None \<longleftrightarrow> True"
| "c_text (Some s) \<longleftrightarrow> 0 \<notin> set s"

fun json_ok :: "cJSON \<Rightarrow> bool" where
  "json_ok (JItem t vs vi vd s cs) \<longleftrightarrow> double_ok vd \<and> c_text vs \<and> c_text s \<and> list_all json_ok cs"

lemma json_ok_fields:
  "json_ok x \<longleftrightarrow> double_ok (valuedouble x) \<and> c_text (valuestring x) \<and> c_text (jstring x) \<and> list_all json_ok (child x)"
  by (cases x) simp


section \<open>Contents of the buffer\<close>

definition holds :: "printbuffer \<Rightarrow> byte list \<Rightarrow> bool" where
  "holds p zs \<longleftrightarrow>
     (\<exists>cs. buffer p = Some cs \<and> blength p \<le> length cs \<and> length zs \<le> blength p \<and>
           take (length zs) cs = map Some zs)"

text \<open>\<open>pb_written\<close>: the text so far ends at the offset. \<open>ended\<close>: a text, NUL terminated, was added.\<close>

definition pb_written :: "printbuffer \<Rightarrow> byte list \<Rightarrow> bool" where
  "pb_written p bs \<longleftrightarrow>
     holds p bs \<and> boffset p = length bs \<and>
     (blength p = 0 \<and> reallocate p \<or> length bs < blength p)"

definition ended :: "printbuffer \<Rightarrow> byte list \<Rightarrow> byte list \<Rightarrow> bool" where
  "ended p bs t \<longleftrightarrow>
     holds p (bs @ t @ [0]) \<and> length bs \<le> boffset p \<and> boffset p \<le> length bs + length t"

definition room :: "printbuffer \<Rightarrow> nat \<Rightarrow> bool" where
  "room p n \<longleftrightarrow> n + 2 \<le> INT_MAX \<and> (noalloc p \<longrightarrow> n + 2 \<le> blength p)"

definition buffer_block :: "printbuffer \<Rightarrow> int" where
  "buffer_block p = (if buffer p = None then 0 else 1)"

definition pb_kept :: "printbuffer \<Rightarrow> mem \<Rightarrow> printbuffer \<Rightarrow> mem \<Rightarrow> bool" where
  "pb_kept p m p' m' \<longleftrightarrow>
     noalloc p' = noalloc p \<and> bformat p' = bformat p \<and> reallocate p' = reallocate p \<and>
     live m' - buffer_block p' = live m - buffer_block p \<and>
     (outcomes m = [] \<longrightarrow> outcomes m' = []) \<and>
     (noalloc p \<longrightarrow> blength p' = blength p \<and> m' = m \<and> (buffer p \<noteq> None \<longrightarrow> buffer p' \<noteq> None))"

text \<open>
  The contract of a printing step: it is defined, keeps the ledger and the settings, has the
  postcondition when it returns true, and does return true when memory and room suffice.
\<close>

definition steps :: "printed \<Rightarrow> printbuffer \<Rightarrow> mem \<Rightarrow> (printbuffer \<Rightarrow> bool) \<Rightarrow> bool \<Rightarrow> bool" where
  "steps r p m post enough \<longleftrightarrow>
     (\<exists>ok p' m'. r = Some (ok, p', m') \<and> pb_kept p m p' m' \<and> (ok \<longrightarrow> post p') \<and>
                 (outcomes m = [] \<and> enough \<longrightarrow> ok))"

lemma pb_kept_refl [simp]: "pb_kept p m p m"
  by (simp add: pb_kept_def)

lemma pb_kept_trans: "pb_kept p m p' m' \<Longrightarrow> pb_kept p' m' p'' m'' \<Longrightarrow> pb_kept p m p'' m''"
  by (simp add: pb_kept_def)

lemma pb_kept_format: "pb_kept p m p' m' \<Longrightarrow> bformat p' = bformat p"
  by (simp add: pb_kept_def)

lemma pb_kept_room: "pb_kept p m p' m' \<Longrightarrow> room p' n = room p n"
  by (auto simp: pb_kept_def room_def)

lemma steps_then:
  assumes "steps r p m Q E"
    and "\<And>p' m'. Q p' \<Longrightarrow> pb_kept p m p' m' \<Longrightarrow> steps (f p' m') p' m' Q' E"
  shows "steps (then_print r f) p m Q' E"
proof -
  from assms(1) obtain ok p' m' where r: "r = Some (ok, p', m')" "pb_kept p m p' m'" "ok \<longrightarrow> Q p'"
    "outcomes m = [] \<and> E \<longrightarrow> ok" unfolding steps_def by blast
  show ?thesis
  proof (cases ok)
    case True
    with assms(2) r have "steps (f p' m') p' m' Q' E" by blast
    then obtain ok2 p2 m2 where s: "f p' m' = Some (ok2, p2, m2)" "pb_kept p' m' p2 m2" "ok2 \<longrightarrow> Q' p2"
      "outcomes m' = [] \<and> E \<longrightarrow> ok2" unfolding steps_def by blast
    moreover have "then_print r f = Some (ok2, p2, m2)" using r(1) True s(1) by (simp add: then_print_def)
    moreover have "outcomes m = [] \<longrightarrow> outcomes m' = []" using r(2) by (simp add: pb_kept_def)
    ultimately show ?thesis unfolding steps_def using pb_kept_trans [OF r(2)] by blast
  next
    case False
    with r show ?thesis by (auto simp: steps_def then_print_def)
  qed
qed

lemma stepsI:
  "r = Some (ok, p', m') \<Longrightarrow> pb_kept p m p' m' \<Longrightarrow> (ok \<Longrightarrow> post p') \<Longrightarrow>
   (outcomes m = [] \<Longrightarrow> enough \<Longrightarrow> ok) \<Longrightarrow> steps r p m post enough"
  unfolding steps_def by blast

lemma steps_done: "Q p \<Longrightarrow> steps (Some (True, p, m)) p m Q E"
  by (rule stepsI) auto

lemma steps_weaken:
  "steps r p m Q E \<Longrightarrow> (\<And>p'. Q p' \<Longrightarrow> Q' p') \<Longrightarrow> (E' \<Longrightarrow> E) \<Longrightarrow> steps r p m Q' E'"
  unfolding steps_def by blast

lemma steps_pb_kept: "steps r p m Q E \<Longrightarrow> steps r p m (\<lambda>p'. Q p' \<and> (\<exists>m'. pb_kept p m p' m')) E"
  unfolding steps_def by blast

lemma holds_take: "holds p (xs @ ys) \<Longrightarrow> holds p xs"
  by (fastforce simp: holds_def dest: arg_cong [of _ _ "take (length xs)"])

section \<open>Growing and storing\<close>

lemma ensure_steps:
  assumes "pb_written p bs"
  shows "steps (ensure n p m) p m
           (\<lambda>p'. pb_written p' bs \<and> length bs + n + 1 \<le> blength p' \<and> bdepth p' = bdepth p)
           (room p k \<and> length bs + n \<le> k + 1)"
proof -
  from assms obtain cs where cs: "buffer p = Some cs" "blength p \<le> length cs" "length bs \<le> blength p"
    "take (length bs) cs = map Some bs" "boffset p = length bs"
    "blength p = 0 \<and> reallocate p \<or> length bs < blength p" by (auto simp: pb_written_def holds_def)
  then have off: "\<not> (0 < blength p \<and> blength p \<le> boffset p)" by auto
  show ?thesis
  proof (cases "INT_MAX < n \<or> n + boffset p + 1 \<le> blength p \<or> noalloc p \<or> INT_MAX < n + boffset p + 1")
    case True
    then have "ensure n p m = Some (n \<le> INT_MAX \<and> n + boffset p + 1 \<le> blength p, p, m)"
      using cs(1) off by (auto simp: ensure_def Let_def)
    then show ?thesis
      by (rule stepsI) (use assms True cs(5) in \<open>auto simp: room_def\<close>)
  next
    case False
    then have small: "\<not> INT_MAX < n" "\<not> n + boffset p + 1 \<le> blength p" "\<not> noalloc p"
      "\<not> INT_MAX < n + boffset p + 1" by auto
    define newsize where "newsize = (if INT_MAX div 2 < n + boffset p + 1 then INT_MAX else (n + boffset p + 1) * 2)"
    have ns: "length bs + n + 1 \<le> newsize" "0 < newsize" "length bs < newsize"
      using small cs(5) by (auto simp: newsize_def)
    show ?thesis
    proof (cases "reallocate p")
      case True
      obtain ok m1 where m1: "mrealloc m = (ok, m1)" by (cases "mrealloc m")
      have m1': "live m1 = live m" "outcomes m = [] \<longrightarrow> outcomes m1 = [] \<and> ok"
        using m1 by (auto simp: mrealloc_def split: list.splits)
      let ?cs = "take newsize cs @ replicate (newsize - length cs) None"
      have "take (length bs) ?cs = map Some bs" "length ?cs = newsize"
        using cs(2-4) ns(3) by (auto simp: min_def)
      moreover have "ensure n p m = Some (if ok then (True, p\<lparr>buffer := Some ?cs, blength := newsize\<rparr>, m1)
          else (False, p\<lparr>buffer := None, blength := 0\<rparr>, mfree m1))"
        using cs(1) off small True m1 by (cases ok) (auto simp: ensure_def newsize_def Let_def)
      ultimately show ?thesis
        using cs(1,5) ns m1' True small(3)
        by (cases ok) (auto simp: steps_def pb_kept_def pb_written_def holds_def buffer_block_def)
    next
      case False
      with cs(6) have pos: "length bs < blength p" by auto
      obtain ok m1 where m1: "malloc m = (ok, m1)" by (cases "malloc m")
      have m1': "live m1 = live m + (if ok then 1 else 0)" "outcomes m = [] \<longrightarrow> outcomes m1 = [] \<and> ok"
        using m1 by (auto simp: malloc_def split: list.splits if_splits)
      let ?cs = "take (boffset p + 1) cs @ replicate (newsize - (boffset p + 1)) None"
      have "take (length bs) ?cs = map Some bs" "length ?cs = newsize"
        using cs(2-5) ns(3) pos by (auto simp: min_def)
      moreover have "ensure n p m = Some (if ok then (True, p\<lparr>buffer := Some ?cs, blength := newsize\<rparr>, mfree m1)
          else (False, p\<lparr>buffer := None, blength := 0\<rparr>, mfree m1))"
        using cs(1,2,5) off small False m1 pos by (cases ok) (auto simp: ensure_def newsize_def Let_def)
      moreover have "outcomes (mfree m1) = outcomes m1" by (simp add: mfree_def)
      ultimately show ?thesis
        using cs(1,5) ns m1' False small(3)
        by (cases ok) (auto simp: steps_def pb_kept_def pb_written_def holds_def buffer_block_def)
    qed
  qed
qed

lemma store_holds:
  assumes "holds p zs" "length zs < blength p"
  shows "\<exists>p'. store (length zs) b p = Some p' \<and> holds p' (zs @ [b]) \<and>
           (\<exists>cs. p' = p\<lparr>buffer := Some cs\<rparr>)"
proof -
  from assms obtain cs where cs: "buffer p = Some cs" "blength p \<le> length cs"
    "take (length zs) cs = map Some zs" by (auto simp: holds_def)
  with assms(2) have "take (Suc (length zs)) (cs[length zs := Some b]) = map Some (zs @ [b])"
    by (simp add: take_Suc_conv_app_nth)
  with cs assms(2) show ?thesis
    by (intro exI [of _ "p\<lparr>buffer := Some (cs[length zs := Some b])\<rparr>"] conjI exI [of _ "cs[length zs := Some b]"])
      (simp_all add: store_def holds_def)
qed

lemma store_all_holds:
  assumes "holds p zs" "length zs + length xs \<le> blength p"
  shows "\<exists>p'. store_all (length zs) xs p = Some p' \<and> holds p' (zs @ xs) \<and>
           (\<exists>cs. p' = p\<lparr>buffer := Some cs\<rparr>)"
  using assms
proof (induction xs arbitrary: p zs)
  case Nil
  then show ?case by (auto simp: holds_def intro!: exI [of _ "the (buffer p)"])
next
  case (Cons x xs)
  from Cons.prems(2) have "length zs < blength p" by simp
  from store_holds [OF Cons.prems(1) this, of x] obtain p1 cs where p1: "store (length zs) x p = Some p1"
    "holds p1 (zs @ [x])" "p1 = p\<lparr>buffer := Some cs\<rparr>" by blast
  then have "length (zs @ [x]) + length xs \<le> blength p1" using Cons.prems(2) by simp
  from Cons.IH [OF p1(2) this] p1 show ?case by auto
qed

text \<open>The two ways \<open>emit\<close> is used: with the offset moved behind the text, or left for \<open>strlen\<close>.\<close>

lemma emit_holds:
  assumes "pb_written p bs" "length xs \<le> n + 1"
  shows "steps (emit n xs a p m) p m
           (\<lambda>p'. holds p' (bs @ xs) \<and> length bs + n + 1 \<le> blength p' \<and> boffset p' = length bs + a \<and>
                 bdepth p' = bdepth p)
           (room p k \<and> length bs + n \<le> k + 1)"
  unfolding emit_def
proof (rule steps_then [OF ensure_steps [OF assms(1)]])
  fix p' m'
  assume p': "pb_written p' bs \<and> length bs + n + 1 \<le> blength p' \<and> bdepth p' = bdepth p"
  then have "holds p' bs" "boffset p' = length bs" by (auto simp: pb_written_def)
  with store_all_holds [of p' bs xs] p' assms(2) obtain p2 cs where
    p2: "store_all (length bs) xs p' = Some p2" "holds p2 (bs @ xs)" "p2 = p'\<lparr>buffer := Some cs\<rparr>" by auto
  moreover have "buffer p' \<noteq> None" using \<open>holds p' bs\<close> by (auto simp: holds_def)
  ultimately show "steps (map_option (\<lambda>p. (True, p\<lparr>boffset := boffset p + a\<rparr>, m'))
      (store_all (boffset p') xs p')) p' m'
     (\<lambda>p'. holds p' (bs @ xs) \<and> length bs + n + 1 \<le> blength p' \<and> boffset p' = length bs + a \<and>
                 bdepth p' = bdepth p) (room p k \<and> length bs + n \<le> k + 1)"
    using p' \<open>boffset p' = length bs\<close>
    by (auto simp: steps_def pb_kept_def holds_def buffer_block_def)
qed


lemma emit_pb_written:
  assumes "pb_written p bs" "xs = t \<or> xs = t @ [0]" "length t \<le> n"
  shows "steps (emit n xs (length t) p m) p m (\<lambda>p'. pb_written p' (bs @ t) \<and> bdepth p' = bdepth p)
           (room p k \<and> length bs + n \<le> k + 1)"
  using assms(3)
  by (intro steps_weaken [OF emit_holds [OF assms(1), of xs n "length t" m k]])
    (use assms(2) in \<open>auto simp: pb_written_def intro: holds_take [of _ "bs @ t" "[0]"]\<close>)

lemma emit_ended:
  assumes "pb_written p bs" "length t \<le> n" "a \<le> length t"
  shows "steps (emit n (t @ [0]) a p m) p m (\<lambda>p'. ended p' bs t \<and> bdepth p' = bdepth p)
           (room p k \<and> length bs + n \<le> k + 1)"
  by (intro steps_weaken [OF emit_holds [OF assms(1), of "t @ [0]" n a m k]])
    (use assms(2,3) in \<open>auto simp: ended_def\<close>)

lemma cell_strlen_text: "0 \<notin> set t \<Longrightarrow> cell_strlen (map Some t @ Some 0 # cs) = Some (length t)"
  by (induction t) auto

lemma sync_steps:
  assumes "ended p bs t" "0 \<notin> set t"
  shows "steps (sync p m) p m (\<lambda>p'. pb_written p' (bs @ t) \<and> bdepth p' = bdepth p) E"
proof -
  from assms(1) obtain cs where cs: "buffer p = Some cs" "blength p \<le> length cs"
    "length bs + length t < blength p" "take (length bs + length t + 1) cs = map Some (bs @ t @ [0])"
    and off: "length bs \<le> boffset p" "boffset p \<le> length bs + length t"
    by (auto simp: ended_def holds_def)
  let ?n = "length bs + length t + 1"
  have rest: "cs = map Some bs @ map Some t @ Some 0 # drop ?n cs"
    using cs(4) append_take_drop_id [of ?n cs] by simp
  have "boffset p - length bs - length t = 0" using off by simp
  with off(1) have "drop (boffset p) cs = map Some (drop (boffset p - length bs) t) @ Some 0 # drop ?n cs"
    by (subst rest) (simp add: drop_map)
  moreover have "0 \<notin> set (drop (boffset p - length bs) t)" using assms(2) by (meson in_set_dropD)
  ultimately have "cell_strlen (drop (boffset p) cs) = Some (length bs + length t - boffset p)"
    using off by (simp add: cell_strlen_text)
  then have "sync p m = Some (True, p\<lparr>boffset := length bs + length t\<rparr>, m)"
    using cs(1) off by (simp add: sync_def update_offset_def)
  moreover have "holds p (bs @ t)" using assms(1) holds_take [of p "bs @ t" "[0]"] by (simp add: ended_def)
  ultimately show ?thesis
    by (intro stepsI) (use cs in \<open>auto simp: pb_kept_def buffer_block_def pb_written_def holds_def\<close>)
qed

section \<open>Strings\<close>

lemma escape_byte_length: "length (escape_byte c) = 1 + escape_extra c"
  by (simp add: escape_byte_def escape_extra_def short_escape_def)

lemma escaped_length: "length (concat (map escape_byte s)) = length s + sum_list (map escape_extra s)"
  by (induction s) (simp_all add: escape_byte_length)

lemma escaped_same: "sum_list (map escape_extra s) = 0 \<Longrightarrow> concat (map escape_byte s) = s"
  by (induction s) (auto simp: escape_byte_def escape_extra_def short_escape_def split: if_splits)

lemma not_less_32: "\<not> 31 < (c :: byte) \<longleftrightarrow> c < 32"
proof -
  have "unat c < 32 \<longleftrightarrow> unat c \<le> 31" by arith
  then show ?thesis by (simp add: word_less_nat_alt not_less)
qed

lemma escape_loop_holds:
  assumes "holds p zs" "length zs + length (concat (map escape_byte s)) + 1 \<le> blength p"
  shows "\<exists>p'. escape_loop s (length zs) p = Some p' \<and> holds p' (zs @ concat (map escape_byte s)) \<and>
           (\<exists>cs. p' = p\<lparr>buffer := Some cs\<rparr>)"
  using assms
proof (induction s arbitrary: p zs)
  case Nil
  then show ?case by (auto simp: holds_def intro!: exI [of _ "the (buffer p)"])
next
  case (Cons c s)
  let ?e = "escape_byte c"
  have "\<exists>p1 cs. escape_loop (c # s) (length zs) p = escape_loop s (length (zs @ ?e)) p1 \<and>
      holds p1 (zs @ ?e) \<and> p1 = p\<lparr>buffer := Some cs\<rparr>"
  proof (cases "31 < c \<and> c \<noteq> 34 \<and> c \<noteq> 92")
    case True
    then have e: "?e = [c]" using not_less_32 [of c] by (auto simp: escape_byte_def short_escape_def)
    then have "length zs < blength p" using Cons.prems(2) by simp
    from store_holds [OF Cons.prems(1) this, of c] True e show ?thesis by auto
  next
    case False
    have "length zs < blength p" using Cons.prems(2) by simp
    from store_holds [OF Cons.prems(1) this, of 92] obtain p0 cs0 where p0: "store (length zs) 92 p = Some p0"
      "holds p0 (zs @ [92])" "p0 = p\<lparr>buffer := Some cs0\<rparr>" by blast
    show ?thesis
    proof (cases "short_escape c")
      case (Some e)
      then have eb: "?e = [92, e]" by (simp add: escape_byte_def)
      then have "length (zs @ [92]) < blength p0" using Cons.prems(2) p0(3) by simp
      from store_holds [OF p0(2) this, of e] False Some eb p0 show ?thesis by auto
    next
      case None
      then have c: "c < 32" using False not_less_32 [of c] by (auto simp: short_escape_def split: if_splits)
      let ?u = "[117, 48, 48, hex_digit (unat c div 16), hex_digit (unat c mod 16)]"
      have eb: "?e = 92 # ?u" using None c by (simp add: escape_byte_def)
      then have "length (zs @ [92]) + length (?u @ [0]) \<le> blength p0" using Cons.prems(2) p0(3) by simp
      from store_all_holds [OF p0(2) this] obtain p1 cs1 where p1: "store_all (length zs + 1) (?u @ [0]) p0 = Some p1"
        "holds p1 ((zs @ [92]) @ ?u @ [0])" "p1 = p0\<lparr>buffer := Some cs1\<rparr>" by (auto simp del: store_all.simps)
      have "holds p1 (zs @ ?e)" using holds_take [of p1 "zs @ 92 # ?u" "[0]"] p1(2) eb by simp
      moreover have "length (zs @ ?e) = length zs + 6" by (simp add: eb)
      then have "escape_loop (c # s) (length zs) p = escape_loop s (length (zs @ ?e)) p1"
        using False None p0(1) p1(1)
        by (auto simp: sprintf_u_def simp del: store_all.simps length_append)
      ultimately show ?thesis using p0(3) p1(3) by auto
    qed
  qed
  then obtain p1 cs where p1: "escape_loop (c # s) (length zs) p = escape_loop s (length (zs @ ?e)) p1"
    "holds p1 (zs @ ?e)" "p1 = p\<lparr>buffer := Some cs\<rparr>" by blast
  then have "length (zs @ ?e) + length (concat (map escape_byte s)) + 1 \<le> blength p1"
    using Cons.prems(2) by simp
  from Cons.IH [OF p1(2) this] p1 show ?case by auto
qed

lemma quoted_length: "length (quoted (Some s)) = length s + sum_list (map escape_extra s) + 2"
  by (simp add: quoted_def escaped_length del: length_concat)

lemma escaped_print:
  assumes "pb_written p bs" "length bs + (length s + sum_list (map escape_extra s) + 3) + 1 \<le> blength p"
  shows "steps (map_option (\<lambda>p. (True, p, m))
           (Option.bind (store (boffset p) 34 p) (\<lambda>p.
            Option.bind (escape_loop s (boffset p + 1) p) (\<lambda>p.
            store_all (boffset p + (length s + sum_list (map escape_extra s)) + 1) [34, 0] p)))) p m
          (\<lambda>p'. ended p' bs (quoted (Some s)) \<and> bdepth p' = bdepth p) E"
proof -
  let ?es = "concat (map escape_byte s)"
  have off: "boffset p = length bs" and "holds p bs" using assms(1) by (auto simp: pb_written_def)
  moreover have "length bs < blength p" using assms(2) by simp
  ultimately obtain p1 c1 where p1: "store (length bs) 34 p = Some p1" "holds p1 (bs @ [34])"
    "p1 = p\<lparr>buffer := Some c1\<rparr>" using store_holds by blast
  have "length (bs @ [34]) + length ?es + 1 \<le> blength p1" using assms(2) p1(3) by (simp add: escaped_length del: length_concat)
  from escape_loop_holds [OF p1(2) this] obtain p2 c2 where p2: "escape_loop s (length bs + 1) p1 = Some p2"
    "holds p2 (bs @ 34 # ?es)" "p2 = p1\<lparr>buffer := Some c2\<rparr>" by auto
  have l: "length (bs @ 34 # ?es) = length bs + (length s + sum_list (map escape_extra s)) + 1"
    by (simp add: escaped_length del: length_concat)
  then have "length (bs @ 34 # ?es) + length [34, 0 :: byte] \<le> blength p2" using assms(2) p1(3) p2(3) by simp
  from store_all_holds [OF p2(2) this] obtain p3 c3 where
    p3: "store_all (length bs + (length s + sum_list (map escape_extra s)) + 1) [34, 0] p2 = Some p3"
    "holds p3 (bs @ quoted (Some s) @ [0])" "p3 = p2\<lparr>buffer := Some c3\<rparr>"
    unfolding l by (auto simp: quoted_def)
  have "buffer p \<noteq> None" using \<open>holds p bs\<close> by (auto simp: holds_def)
  have "(Option.bind (store (boffset p) 34 p) (\<lambda>p.
            Option.bind (escape_loop s (boffset p + 1) p) (\<lambda>p.
            store_all (boffset p + (length s + sum_list (map escape_extra s)) + 1) [34, 0] p))) = Some p3"
    using p1 p2 p3(1) off by (simp del: store_all.simps)
  then show ?thesis
    using p1(3) p2(3) p3 off \<open>buffer p \<noteq> None\<close>
    by (intro stepsI [of _ True p3 m]) (auto simp: pb_kept_def buffer_block_def ended_def)
qed

lemma print_string_ptr_steps:
  assumes "pb_written p bs"
  shows "steps (print_string_ptr s p m) p m (\<lambda>p'. ended p' bs (quoted s) \<and> bdepth p' = bdepth p)
           (room p k \<and> length bs + length (quoted s) \<le> k)"
proof (cases s)
  case None
  have "steps (emit 3 ([34, 34] @ [0]) 0 p m) p m (\<lambda>p'. ended p' bs [34, 34] \<and> bdepth p' = bdepth p)
      (room p k \<and> length bs + 3 \<le> k + 1)"
    by (rule emit_ended [OF assms]) simp_all
  then have "steps (print_string_ptr s p m) p m (\<lambda>p'. ended p' bs (quoted s) \<and> bdepth p' = bdepth p)
      (room p k \<and> length bs + 3 \<le> k + 1)"
    by (simp add: print_string_ptr_def quoted_def None)
  then show ?thesis by (rule steps_weaken) (simp_all add: quoted_def None)
next
  case (Some t)
  let ?ol = "length t + sum_list (map escape_extra t)"
  have len: "length (quoted s) = ?ol + 2" by (simp add: Some quoted_length)
  have "steps (print_string_ptr s p m) p m (\<lambda>p'. ended p' bs (quoted s) \<and> bdepth p' = bdepth p)
      (room p k \<and> length bs + (?ol + 3) \<le> k + 1)"
  proof (cases "sum_list (map escape_extra t) = 0")
    case True
    then have q: "quoted s = 34 # t @ [34]" by (simp add: Some quoted_def escaped_same)
    have "print_string_ptr s p m = emit (?ol + 3) (quoted s @ [0]) 0 p m"
      using True by (simp add: print_string_ptr_def Some q [unfolded Some] Let_def)
    moreover have "length (quoted s) \<le> ?ol + 3" by (simp add: len)
    ultimately show ?thesis using emit_ended [OF assms, of "quoted s" "?ol + 3" 0 m k] by (simp only: le0)
  next
    case False
    then have "print_string_ptr s p m =
        then_print (ensure (?ol + 3) p m) (\<lambda>p m.
          map_option (\<lambda>p. (True, p, m))
           (Option.bind (store (boffset p) 34 p) (\<lambda>p.
            Option.bind (escape_loop t (boffset p + 1) p) (\<lambda>p.
            store_all (boffset p + ?ol + 1) [34, 0] p))))"
      by (simp only: print_string_ptr_def Some option.case Let_def if_False)
    moreover have "steps (then_print (ensure (?ol + 3) p m) (\<lambda>p m.
          map_option (\<lambda>p. (True, p, m))
           (Option.bind (store (boffset p) 34 p) (\<lambda>p.
            Option.bind (escape_loop t (boffset p + 1) p) (\<lambda>p.
            store_all (boffset p + ?ol + 1) [34, 0] p))))) p m
        (\<lambda>p'. ended p' bs (quoted (Some t)) \<and> bdepth p' = bdepth p) (room p k \<and> length bs + (?ol + 3) \<le> k + 1)"
    proof (rule steps_then [OF ensure_steps [OF assms]])
      fix p' m'
      assume "pb_written p' bs \<and> length bs + (?ol + 3) + 1 \<le> blength p' \<and> bdepth p' = bdepth p"
      then show "steps (map_option (\<lambda>p. (True, p, m'))
           (Option.bind (store (boffset p') 34 p') (\<lambda>p.
            Option.bind (escape_loop t (boffset p + 1) p) (\<lambda>p.
            store_all (boffset p + ?ol + 1) [34, 0] p)))) p' m'
        (\<lambda>p'. ended p' bs (quoted (Some t)) \<and> bdepth p' = bdepth p) (room p k \<and> length bs + (?ol + 3) \<le> k + 1)"
        using escaped_print [of p' bs t m'] by auto
    qed
    ultimately show ?thesis unfolding Some by simp
  qed
  then show ?thesis by (rule steps_weaken) (simp_all add: len)
qed


section \<open>Numbers\<close>

lemma number_text_ok:
  assumes "double_ok d"
  shows "\<exists>t. number_text d = Some t \<and> length t \<le> 25 \<and> 0 \<notin> set t"
proof (cases "nan_or_inf d")
  case True
  then show ?thesis by (simp add: number_text_def number_sprintf_def str_def)
next
  case False
  have len: "length (format_g 15 d) \<le> 22" "length (format_g 17 d) \<le> 24"
    using format_g_length [OF assms False, of 15] format_g_length [OF assms False, of 17] by simp_all
  have chars: "0 \<notin> set (format_g 15 d)" "0 \<notin> set (format_g 17 d)"
    using format_g_chars [OF False, of 15] format_g_chars [OF False, of 17] number_char_nonzero by fastforce+
  obtain test n where "strtod (format_g 15 d) = (test, n)" by (cases "strtod (format_g 15 d)")
  with len chars False show ?thesis by (auto simp: number_text_def number_sprintf_def)
qed

lemma print_number_steps:
  assumes "pb_written p bs" "double_ok (valuedouble x)"
  shows "\<exists>t. number_text (valuedouble x) = Some t \<and> 0 \<notin> set t \<and>
           steps (print_number x p m) p m (\<lambda>p'. ended p' bs t \<and> bdepth p' = bdepth p)
             (room p k \<and> length bs + length t \<le> k)"
proof -
  obtain t where t: "number_text (valuedouble x) = Some t" "length t \<le> 25" "0 \<notin> set t"
    using number_text_ok [OF assms(2)] by blast
  have "(\<lambda>c :: byte. if c = 46 then 46 else c) = id" by auto
  then have "print_number x p m = emit (length t + 1) (t @ [0]) (length t) p m"
    using t by (simp add: print_number_def)
  with t emit_ended [OF assms(1), of t "length t + 1" "length t" m k] show ?thesis by auto
qed

section \<open>Texts without NUL\<close>

lemma those_Some: "those xs = Some ys \<longleftrightarrow> list_all2 (\<lambda>x y. x = Some y) xs ys"
  by (induction xs arbitrary: ys) (auto simp: list_all2_Cons1 split: option.splits)

lemma those_Cons:
  "those (x # xs) = Some zs \<longleftrightarrow> (\<exists>y ys. x = Some y \<and> those xs = Some ys \<and> zs = y # ys)"
  by (auto split: option.splits)

lemma those_Nil_iff: "those xs = Some ys \<Longrightarrow> ys = [] \<longleftrightarrow> xs = []"
  by (auto simp: those_Some)

lemma join_nul_free: "0 \<notin> set sep \<Longrightarrow> \<forall>t \<in> set ts. 0 \<notin> set t \<Longrightarrow> 0 \<notin> set (join sep ts)"
  by (induction sep ts rule: join.induct) auto

lemma hex_digit_nonzero: "n < 16 \<Longrightarrow> hex_digit n \<noteq> (0 :: byte)"
  by (auto simp: hex_digit_def word_unat_eq_iff unat_of_nat_byte simp del: of_nat_add)

lemma quoted_nul_free: "c_text s \<Longrightarrow> 0 \<notin> set (quoted s)"
proof -
  have "0 \<notin> set (escape_byte c)" if "c \<noteq> 0" for c
  proof -
    have "unat c div 16 < 16" using unat_byte [of c] by (simp add: div_less_iff_less_mult)
    with that hex_digit_nonzero [of "unat c div 16"] hex_digit_nonzero [of "unat c mod 16"]
    show ?thesis by (auto simp: escape_byte_def short_escape_def)
  qed
  then show "c_text s \<Longrightarrow> 0 \<notin> set (quoted s)" by (cases s) (auto simp: quoted_def, metis)
qed

lemma str_literals_nul_free [simp]: "0 \<notin> set (str ''null'')" "0 \<notin> set (str ''false'')" "0 \<notin> set (str ''true'')"
  by (simp_all add: str_nul_free)

lemma render_nul_free: "json_ok x \<Longrightarrow> render fmt d x = Some t \<Longrightarrow> 0 \<notin> set t"
proof (induction x arbitrary: fmt d t)
  case (JItem ty vs vi vd s cs)
  have ok: "double_ok vd" "c_text vs" "\<forall>c \<in> set cs. json_ok c" "\<forall>c \<in> set cs. c_text (jstring c)"
    using JItem.prems(1) by (auto simp: list_all_iff) (metis json_ok.simps cJSON.exhaust_sel)
  have arr: "0 \<notin> set (array_text fmt ts)" if "those (map (render fmt (d + 1)) cs) = Some ts" for ts
  proof -
    have "\<forall>u \<in> set ts. 0 \<notin> set u"
      using that JItem.IH ok(3) by (fastforce simp: those_Some list_all2_conv_all_nth in_set_conv_nth)
    then show ?thesis by (auto simp: array_text_def join_nul_free dest: join_nul_free [rotated])
  qed
  have obj: "0 \<notin> set (object_text fmt d ms)"
    if "those (map (\<lambda>x. map_option (member_text fmt (d + 1) (jstring x)) (render fmt (d + 1) x)) cs) = Some ms" for ms
  proof -
    have "0 \<notin> set u" if u: "u \<in> set ms" for u
    proof -
      from u \<open>those _ = Some ms\<close> obtain c v where "c \<in> set cs" "render fmt (d + 1) c = Some v"
        "u = member_text fmt (d + 1) (jstring c) v"
        by (fastforce simp: those_Some list_all2_conv_all_nth in_set_conv_nth)
      with JItem.IH [OF this(1) _ this(2)] ok(3,4) quoted_nul_free [of "jstring c"] show ?thesis
        by (auto simp: member_text_def)
    qed
    then have "0 \<notin> set (join (44 # (if fmt then [10] else [])) ms)" by (intro join_nul_free) auto
    then show ?thesis by (auto simp: object_text_def members_text_def Let_def)
  qed
  show ?case
    using JItem.prems(2) ok(1,2) number_text_ok [OF ok(1)] quoted_nul_free [OF ok(2)] arr obj
    by (cases vs) (auto simp: render.simps Let_def split: if_splits)
qed


section \<open>Values\<close>

text \<open>\<open>value_prints x\<close>: printing \<open>x\<close> adds its reference text to the buffer.\<close>

definition value_prints :: "cJSON \<Rightarrow> bool" where
  "value_prints x \<longleftrightarrow>
     (\<forall>p m bs k. pb_written p bs \<longrightarrow>
        steps (print_value x p m) p m
          (\<lambda>p'. \<exists>t. render (bformat p) (bdepth p) x = Some t \<and> ended p' bs t \<and> bdepth p' = bdepth p)
          (\<exists>t. render (bformat p) (bdepth p) x = Some t \<and> length bs + length t \<le> k \<and> room p k))"

definition comma :: "bool \<Rightarrow> byte list" where
  "comma fmt = (if fmt then [44, 32] else [44])"

lemma array_comma_steps:
  assumes "pb_written p bs"
  shows "steps (array_comma p m) p m (\<lambda>p'. pb_written p' (bs @ comma (bformat p)) \<and> bdepth p' = bdepth p)
           (room p k \<and> length bs + length (comma (bformat p)) \<le> k)"
proof -
  let ?c = "comma (bformat p)"
  have "array_comma p m = emit (length ?c + 1) (?c @ [0]) (length ?c) p m"
    by (cases "bformat p") (simp_all add: array_comma_def comma_def Let_def numeral_2_eq_2 numeral_3_eq_3)
  with emit_pb_written [OF assms, of "?c @ [0]" ?c "length ?c + 1" m k] show ?thesis
    by (simp add: steps_weaken)
qed

lemma value_then_sync:
  assumes "value_prints x" "json_ok x" "pb_written p bs"
  shows "steps (then_print (print_value x p m) sync) p m
          (\<lambda>p'. \<exists>t. render (bformat p) (bdepth p) x = Some t \<and> pb_written p' (bs @ t) \<and> bdepth p' = bdepth p)
          (\<exists>t. render (bformat p) (bdepth p) x = Some t \<and> length bs + length t \<le> k \<and> room p k)"
  (is "steps _ _ _ ?Q ?E")
proof (rule steps_then)
  show "steps (print_value x p m) p m (\<lambda>p'. \<exists>t. render (bformat p) (bdepth p) x = Some t \<and>
      ended p' bs t \<and> bdepth p' = bdepth p) ?E"
    using assms(1,3) by (simp add: value_prints_def)
next
  fix p' m'
  assume "\<exists>t. render (bformat p) (bdepth p) x = Some t \<and> ended p' bs t \<and> bdepth p' = bdepth p"
  then obtain t where t: "render (bformat p) (bdepth p) x = Some t" "ended p' bs t" "bdepth p' = bdepth p"
    by blast
  show "steps (sync p' m') p' m' ?Q ?E"
    by (rule steps_weaken [OF sync_steps [OF t(2) render_nul_free [OF assms(2) t(1)]]]) (use t in auto)
qed

lemma then_print_assoc:
  "then_print (then_print r f) g = then_print r (\<lambda>p m. then_print (f p m) g)"
  by (simp add: then_print_def split: option.splits)

lemma print_elements_steps:
  assumes "\<forall>x \<in> set xs. value_prints x \<and> json_ok x" "pb_written p bs"
  shows "steps (print_elements xs p m) p m
          (\<lambda>p'. \<exists>ts. those (map (render (bformat p) (bdepth p)) xs) = Some ts \<and>
                pb_written p' (bs @ join (comma (bformat p)) ts) \<and> bdepth p' = bdepth p)
          (\<exists>ts. those (map (render (bformat p) (bdepth p)) xs) = Some ts \<and>
                length bs + length (join (comma (bformat p)) ts) \<le> k \<and> room p k)"
  using assms
proof (induction xs arbitrary: p m bs)
  case Nil
  then show ?case by (auto intro: steps_done)
next
  case (Cons x xs)
  let ?fmt = "bformat p" and ?d = "bdepth p"
  let ?E = "\<exists>ts. those (map (render ?fmt ?d) (x # xs)) = Some ts \<and>
                length bs + length (join (comma ?fmt) ts) \<le> k \<and> room p k"
  let ?Q = "\<lambda>p'. \<exists>ts. those (map (render ?fmt ?d) (x # xs)) = Some ts \<and>
                pb_written p' (bs @ join (comma ?fmt) ts) \<and> bdepth p' = ?d"
  have E: "\<exists>t us. render ?fmt ?d x = Some t \<and> those (map (render ?fmt ?d) xs) = Some us \<and> room p k \<and>
      (xs = [] \<and> us = [] \<and> length bs + length t \<le> k \<or>
       length bs + length t + length (comma ?fmt) + length (join (comma ?fmt) us) \<le> k)" if ?E
    using that by (cases xs) (auto split: option.splits)
  have "steps (then_print (then_print (print_value x p m) sync) (\<lambda>p m.
      then_print (if xs = [] then Some (True, p, m) else array_comma p m) (print_elements xs))) p m ?Q ?E"
  proof (rule steps_then)
    show "steps (then_print (print_value x p m) sync) p m
       (\<lambda>p'. \<exists>t. render ?fmt ?d x = Some t \<and> pb_written p' (bs @ t) \<and> bdepth p' = ?d) ?E"
      by (rule steps_weaken [OF value_then_sync [of x p bs m k]]) (use Cons.prems E in fastforce)+
  next
    fix p1 m1
    assume "\<exists>t. render ?fmt ?d x = Some t \<and> pb_written p1 (bs @ t) \<and> bdepth p1 = ?d" "pb_kept p m p1 m1"
    then obtain t where t: "render ?fmt ?d x = Some t" "pb_written p1 (bs @ t)" "bdepth p1 = ?d"
      "bformat p1 = ?fmt" "room p1 k = room p k" by (auto simp: pb_kept_room pb_kept_format)
    show "steps (then_print (if xs = [] then Some (True, p1, m1) else array_comma p1 m1) (print_elements xs)) p1 m1 ?Q ?E"
    proof (cases "xs = []")
      case True
      with t show ?thesis by (auto simp: then_print_def intro: steps_done)
    next
      case False
      have "steps (then_print (array_comma p1 m1) (print_elements xs)) p1 m1 ?Q ?E"
      proof (rule steps_then)
        show "steps (array_comma p1 m1) p1 m1
            (\<lambda>p'. pb_written p' ((bs @ t) @ comma ?fmt) \<and> bdepth p' = ?d) ?E"
          by (rule steps_weaken [OF array_comma_steps [OF t(2), of m1 k]])
            (use t False E in \<open>auto\<close>)
      next
        fix p2 m2
        assume p2: "pb_written p2 ((bs @ t) @ comma ?fmt) \<and> bdepth p2 = ?d" "pb_kept p1 m1 p2 m2"
        then have k2: "bformat p2 = ?fmt" "room p2 k = room p k" using t(4,5) by (simp_all add: pb_kept_room pb_kept_format)
        have "steps (print_elements xs p2 m2) p2 m2
          (\<lambda>p'. \<exists>ts. those (map (render ?fmt ?d) xs) = Some ts \<and>
                pb_written p' (((bs @ t) @ comma ?fmt) @ join (comma ?fmt) ts) \<and> bdepth p' = ?d)
          (\<exists>ts. those (map (render ?fmt ?d) xs) = Some ts \<and>
                length ((bs @ t) @ comma ?fmt) + length (join (comma ?fmt) ts) \<le> k \<and> room p k)"
          using Cons.IH [of p2 "(bs @ t) @ comma ?fmt" m2] Cons.prems(1) p2(1) k2 by simp
        then show "steps (print_elements xs p2 m2) p2 m2 ?Q ?E"
        proof (rule steps_weaken)
          fix p'
          assume "\<exists>ts. those (map (render ?fmt ?d) xs) = Some ts \<and>
                pb_written p' (((bs @ t) @ comma ?fmt) @ join (comma ?fmt) ts) \<and> bdepth p' = ?d"
          then obtain ts where "those (map (render ?fmt ?d) xs) = Some ts"
            "pb_written p' (((bs @ t) @ comma ?fmt) @ join (comma ?fmt) ts)" "bdepth p' = ?d" by blast
          then show "?Q p'" using False t(1) by (cases ts) (auto simp: those_Some)
        qed (use E False t in auto)
      qed
      with False show ?thesis by simp
    qed
  qed
  then show ?case by (simp add: then_print_assoc)
qed


definition key_text :: "bool \<Rightarrow> nat \<Rightarrow> cstring option \<Rightarrow> byte list" where
  "key_text fmt d key = (if fmt then replicate d 9 else []) @ quoted key @ 58 # (if fmt then [9] else [])"

lemma member_text_key: "member_text fmt d key t = key_text fmt d key @ t"
  by (simp add: member_text_def key_text_def)

lemma members_text_Cons:
  "members_text fmt (t # ts) =
     t @ (if ts = [] then [] else [44]) @ (if fmt then [10] else []) @ members_text fmt ts"
  by (cases ts) (auto simp: members_text_def Let_def)

lemma indent_steps:
  assumes "pb_written p bs"
  shows "steps (indent p m) p m
           (\<lambda>p'. pb_written p' (bs @ (if bformat p then replicate (bdepth p) 9 else [])) \<and> bdepth p' = bdepth p)
           (room p k \<and> length bs + (if bformat p then bdepth p else 0) \<le> k)"
proof (cases "bformat p")
  case True
  have "steps (emit (bdepth p) (replicate (bdepth p) 9) (bdepth p) p m) p m
      (\<lambda>p'. pb_written p' (bs @ replicate (bdepth p) 9) \<and> bdepth p' = bdepth p)
      (room p k \<and> length bs + bdepth p \<le> k + 1)"
    using emit_pb_written [OF assms, of "replicate (bdepth p) 9" "replicate (bdepth p) 9" "bdepth p" m k] by simp
  then have "steps (emit (bdepth p) (replicate (bdepth p) 9) (bdepth p) p m) p m
      (\<lambda>p'. pb_written p' (bs @ replicate (bdepth p) 9) \<and> bdepth p' = bdepth p)
      (room p k \<and> length bs + bdepth p \<le> k)" by (rule steps_weaken) auto
  with True show ?thesis by (simp add: indent_def)
next
  case False
  with assms show ?thesis by (simp add: indent_def steps_done)
qed

lemma key_colon_steps:
  assumes "pb_written p bs"
  shows "steps (key_colon p m) p m
           (\<lambda>p'. pb_written p' (bs @ 58 # (if bformat p then [9] else [])) \<and> bdepth p' = bdepth p)
           (room p k \<and> length bs + 1 + (if bformat p then 1 else 0) \<le> k)"
proof -
  let ?t = "58 # (if bformat p then [9] else []) :: byte list"
  have "key_colon p m = emit (length ?t) ?t (length ?t) p m"
    by (cases "bformat p") (simp_all add: key_colon_def numeral_2_eq_2)
  moreover have "steps (emit (length ?t) ?t (length ?t) p m) p m
      (\<lambda>p'. pb_written p' (bs @ ?t) \<and> bdepth p' = bdepth p)
      (room p k \<and> length bs + 1 + (if bformat p then 1 else 0) \<le> k)"
    by (rule steps_weaken [OF emit_pb_written [OF assms, of ?t ?t "length ?t" m k]]) (auto split: if_splits)
  ultimately show ?thesis by simp
qed

lemma member_end_steps:
  assumes "pb_written p bs"
  shows "steps (member_end nx p m) p m
           (\<lambda>p'. pb_written p' (bs @ (if nx then [44] else []) @ (if bformat p then [10] else [])) \<and>
                 bdepth p' = bdepth p)
           (room p k \<and> length bs + (if nx then 1 else 0) + (if bformat p then 1 else 0) \<le> k)"
proof -
  let ?t = "(if nx then [44] else []) @ (if bformat p then [10] else []) :: byte list"
  have "steps (emit (length ?t + 1) (?t @ [0]) (length ?t) p m) p m
      (\<lambda>p'. pb_written p' (bs @ ?t) \<and> bdepth p' = bdepth p)
      (room p k \<and> length bs + (if nx then 1 else 0) + (if bformat p then 1 else 0) \<le> k)"
    by (rule steps_weaken [OF emit_pb_written [OF assms, of "?t @ [0]" ?t "length ?t + 1" m k]])
      (auto split: if_splits)
  then show ?thesis by (simp add: member_end_def Let_def)
qed

definition print_key :: "cstring option \<Rightarrow> printbuffer \<Rightarrow> mem \<Rightarrow> printed" where
  "print_key key p m =
     then_print (indent p m) (\<lambda>p m.
     then_print (print_string_ptr key p m) (\<lambda>p m.
     then_print (sync p m) key_colon))"

lemma print_key_steps:
  assumes "pb_written p bs" "c_text key"
  shows "steps (print_key key p m) p m
           (\<lambda>p'. pb_written p' (bs @ key_text (bformat p) (bdepth p) key) \<and> bdepth p' = bdepth p)
           (room p k \<and> length bs + length (key_text (bformat p) (bdepth p) key) \<le> k)"
  (is "steps _ _ _ ?Q ?E")
  unfolding print_key_def
proof (rule steps_then)
  show "steps (indent p m) p m
      (\<lambda>p'. pb_written p' (bs @ (if bformat p then replicate (bdepth p) 9 else [])) \<and> bdepth p' = bdepth p) ?E"
    by (rule steps_weaken [OF indent_steps [OF assms(1), of m k]]) (auto simp: key_text_def split: if_splits)
next
  fix p1 m1
  assume p1: "pb_written p1 (bs @ (if bformat p then replicate (bdepth p) 9 else [])) \<and> bdepth p1 = bdepth p"
    "pb_kept p m p1 m1"
  let ?b1 = "bs @ (if bformat p then replicate (bdepth p) 9 else [])"
  show "steps (then_print (print_string_ptr key p1 m1) (\<lambda>p m. then_print (sync p m) key_colon)) p1 m1 ?Q ?E"
  proof (rule steps_then)
    show "steps (print_string_ptr key p1 m1) p1 m1 (\<lambda>p'. ended p' ?b1 (quoted key) \<and> bdepth p' = bdepth p) ?E"
      by (rule steps_weaken [OF print_string_ptr_steps [of p1 ?b1 key m1 k]])
        (use p1 in \<open>auto simp: key_text_def pb_kept_room split: if_splits\<close>)
  next
    fix p2 m2
    assume p2: "ended p2 ?b1 (quoted key) \<and> bdepth p2 = bdepth p" "pb_kept p1 m1 p2 m2"
    show "steps (then_print (sync p2 m2) key_colon) p2 m2 ?Q ?E"
    proof (rule steps_then)
      show "steps (sync p2 m2) p2 m2 (\<lambda>p'. pb_written p' (?b1 @ quoted key) \<and> bdepth p' = bdepth p) ?E"
        using sync_steps [OF _ quoted_nul_free [OF assms(2)]] p2(1) by fastforce
    next
      fix p3 m3
      assume p3: "pb_written p3 (?b1 @ quoted key) \<and> bdepth p3 = bdepth p" "pb_kept p2 m2 p3 m3"
      have "pb_kept p m p3 m3" using p1(2) p2(2) p3(2) pb_kept_trans by blast
      then have "bformat p3 = bformat p" "room p3 k = room p k" by (simp_all add: pb_kept_format pb_kept_room)
      with p3 show "steps (key_colon p3 m3) p3 m3 ?Q ?E"
        by (intro steps_weaken [OF key_colon_steps [of p3 "?b1 @ quoted key" m3 k]])
          (auto simp: key_text_def split: if_splits)
    qed
  qed
qed

lemma print_members_Cons:
  "print_members (x # xs) p m =
     then_print (print_key (jstring x) p m) (\<lambda>p m.
     then_print (then_print (print_value x p m) sync) (\<lambda>p m.
     then_print (member_end (xs \<noteq> []) p m) (print_members xs)))"
  by (simp add: print_key_def then_print_assoc)


text \<open>The text of one member, given the settings of the buffer.\<close>

definition member_render :: "bool \<Rightarrow> nat \<Rightarrow> cJSON \<Rightarrow> byte list option" where
  "member_render fmt d x = map_option (member_text fmt d (jstring x)) (render fmt d x)"

lemma print_members_steps:
  assumes "\<forall>x \<in> set xs. value_prints x \<and> json_ok x" "pb_written p bs"
  shows "steps (print_members xs p m) p m
          (\<lambda>p'. \<exists>ms. those (map (member_render (bformat p) (bdepth p)) xs) = Some ms \<and>
                pb_written p' (bs @ members_text (bformat p) ms) \<and> bdepth p' = bdepth p)
          (\<exists>ms. those (map (member_render (bformat p) (bdepth p)) xs) = Some ms \<and>
                length bs + length (members_text (bformat p) ms) \<le> k \<and> room p k)"
  using assms
proof (induction xs arbitrary: p m bs)
  case Nil
  then show ?case by (auto simp: members_text_def intro: steps_done)
next
  case (Cons x xs)
  let ?f = "bformat p" and ?d = "bdepth p"
  let ?h = "key_text ?f ?d (jstring x)" and ?nl = "if ?f then [10] else [] :: byte list"
  let ?c = "if xs = [] then [] else [44] :: byte list"
  let ?E = "\<exists>ms. those (map (member_render ?f ?d) (x # xs)) = Some ms \<and>
                length bs + length (members_text ?f ms) \<le> k \<and> room p k"
  let ?Q = "\<lambda>p'. \<exists>ms. those (map (member_render ?f ?d) (x # xs)) = Some ms \<and>
                pb_written p' (bs @ members_text ?f ms) \<and> bdepth p' = ?d"
  have E: "\<exists>t us. render ?f ?d x = Some t \<and> those (map (member_render ?f ?d) xs) = Some us \<and> room p k \<and>
      length bs + length ?h + length t + length ?c + length ?nl + length (members_text ?f us) \<le> k" if ?E
  proof -
    from that obtain t us where tu: "render ?f ?d x = Some t" "those (map (member_render ?f ?d) xs) = Some us"
      "length bs + length (members_text ?f (member_text ?f ?d (jstring x) t # us)) \<le> k" "room p k"
      by (auto simp: those_Cons member_render_def simp del: those.simps)
    moreover have "us = [] \<longleftrightarrow> xs = []" using those_Nil_iff [OF tu(2)] by simp
    ultimately show ?thesis by (auto simp: members_text_Cons member_text_key)
  qed
  have x: "value_prints x" "json_ok x" "c_text (jstring x)"
    using Cons.prems(1) by (auto intro: c_text.simps(1) elim: json_ok.elims)
  show ?case
    unfolding print_members_Cons
  proof (rule steps_then)
    show "steps (print_key (jstring x) p m) p m (\<lambda>p'. pb_written p' (bs @ ?h) \<and> bdepth p' = ?d) ?E"
      by (rule steps_weaken [OF print_key_steps [OF Cons.prems(2) x(3), of m k]]) (use E in auto)
  next
    fix p1 m1
    assume p1: "pb_written p1 (bs @ ?h) \<and> bdepth p1 = ?d" "pb_kept p m p1 m1"
    then have k1: "bformat p1 = ?f" "room p1 k = room p k" by (simp_all add: pb_kept_format pb_kept_room)
    show "steps (then_print (then_print (print_value x p1 m1) sync) (\<lambda>p m.
        then_print (member_end (xs \<noteq> []) p m) (print_members xs))) p1 m1 ?Q ?E"
    proof (rule steps_then)
      show "steps (then_print (print_value x p1 m1) sync) p1 m1
          (\<lambda>p'. \<exists>t. render ?f ?d x = Some t \<and> pb_written p' ((bs @ ?h) @ t) \<and> bdepth p' = ?d) ?E"
        by (rule steps_weaken [OF value_then_sync [OF x(1,2), of p1 "bs @ ?h" m1 k]])
          (use p1 k1 E in fastforce)+
    next
      fix p2 m2
      assume "\<exists>t. render ?f ?d x = Some t \<and> pb_written p2 ((bs @ ?h) @ t) \<and> bdepth p2 = ?d" "pb_kept p1 m1 p2 m2"
      then obtain t where t: "render ?f ?d x = Some t" "pb_written p2 ((bs @ ?h) @ t)" "bdepth p2 = ?d"
        "bformat p2 = ?f" "room p2 k = room p k" using k1 by (auto simp: pb_kept_format pb_kept_room)
      let ?b3 = "((bs @ ?h) @ t) @ ?c @ ?nl"
      show "steps (then_print (member_end (xs \<noteq> []) p2 m2) (print_members xs)) p2 m2 ?Q ?E"
      proof (rule steps_then)
        show "steps (member_end (xs \<noteq> []) p2 m2) p2 m2 (\<lambda>p'. pb_written p' ?b3 \<and> bdepth p' = ?d) ?E"
          by (rule steps_weaken [OF member_end_steps [OF t(2), of "xs \<noteq> []" m2 k]])
            (use t E in \<open>auto split: if_splits\<close>)
      next
        fix p3 m3
        assume p3: "pb_written p3 ?b3 \<and> bdepth p3 = ?d" "pb_kept p2 m2 p3 m3"
        then have k3: "bformat p3 = ?f" "room p3 k = room p k" using t(4,5) by (simp_all add: pb_kept_format pb_kept_room)
        have "steps (print_members xs p3 m3) p3 m3
          (\<lambda>p'. \<exists>ms. those (map (member_render ?f ?d) xs) = Some ms \<and>
                pb_written p' (?b3 @ members_text ?f ms) \<and> bdepth p' = ?d)
          (\<exists>ms. those (map (member_render ?f ?d) xs) = Some ms \<and>
                length ?b3 + length (members_text ?f ms) \<le> k \<and> room p k)"
          using Cons.IH [of p3 ?b3 m3] Cons.prems(1) p3(1) k3 by simp
        then show "steps (print_members xs p3 m3) p3 m3 ?Q ?E"
        proof (rule steps_weaken)
          fix p'
          assume "\<exists>ms. those (map (member_render ?f ?d) xs) = Some ms \<and>
                pb_written p' (?b3 @ members_text ?f ms) \<and> bdepth p' = ?d"
          then obtain ms where ms: "those (map (member_render ?f ?d) xs) = Some ms"
            "pb_written p' (?b3 @ members_text ?f ms)" "bdepth p' = ?d" by blast
          moreover have "ms = [] \<longleftrightarrow> xs = []" using ms(1) by (auto simp: those_Some)
          ultimately show "?Q p'" using t(1)
            by (auto simp: member_render_def members_text_Cons member_text_key)
        qed (use E t in \<open>auto split: if_splits\<close>)
      qed
    qed
  qed
qed

lemma render_container:
  "base_type x = cJSON_Array \<Longrightarrow>
     render fmt d x = map_option (array_text fmt) (those (map (render fmt (d + 1)) (child x)))"
  "base_type x = cJSON_Object \<Longrightarrow>
     render fmt d x = map_option (object_text fmt d) (those (map (member_render fmt (d + 1)) (child x)))"
  by (cases x; simp add: render.simps base_type_def json_types member_render_def [abs_def])+

lemma print_container:
  "base_type x = cJSON_Array \<Longrightarrow>
     print_value x p m = then_print (open_array p m) (\<lambda>p m. then_print (print_elements (child x) p m) close_array)"
  "base_type x = cJSON_Object \<Longrightarrow>
     print_value x p m = then_print (open_object p m) (\<lambda>p m. then_print (print_members (child x) p m) close_object)"
  by (cases x; simp add: print_value.simps base_type_def json_types)+

lemma pb_written_depth [simp]: "pb_written (p\<lparr>bdepth := d\<rparr>) bs = pb_written p bs" "room (p\<lparr>bdepth := d\<rparr>) k = room p k"
  "ended (p\<lparr>bdepth := d\<rparr>) bs t = ended p bs t" "holds (p\<lparr>bdepth := d\<rparr>) bs = holds p bs"
  by (simp_all add: pb_written_def holds_def room_def ended_def)

lemma steps_depth:
  assumes "steps r p m Q E" "\<And>p'. Q p' \<Longrightarrow> Q' (p'\<lparr>bdepth := f (bdepth p')\<rparr>)"
  shows "steps (then_print r (\<lambda>p m. Some (True, p\<lparr>bdepth := f (bdepth p)\<rparr>, m))) p m Q' E"
  by (rule steps_then [OF assms(1)], rule stepsI [OF refl])
    (auto simp: assms(2) pb_kept_def buffer_block_def)

lemma array_prints:
  assumes "base_type x = cJSON_Array" "\<forall>c \<in> set (child x). value_prints c \<and> json_ok c"
  shows "value_prints x"
  unfolding value_prints_def
proof (intro allI impI)
  fix p m bs k
  assume w: "pb_written p bs"
  let ?f = "bformat p" and ?d = "bdepth p"
  let ?E = "\<exists>t. render ?f ?d x = Some t \<and> length bs + length t \<le> k \<and> room p k"
  let ?Q = "\<lambda>p'. \<exists>t. render ?f ?d x = Some t \<and> ended p' bs t \<and> bdepth p' = ?d"
  let ?ts = "those (map (render ?f (?d + 1)) (child x))"
  have E: "\<exists>ts. ?ts = Some ts \<and> length bs + length (join (comma ?f) ts) + 2 \<le> k \<and> room p k" if ?E
    using that by (auto simp: render_container(1) [OF assms(1)] array_text_def comma_def)
  show "steps (print_value x p m) p m ?Q ?E"
    unfolding print_container(1) [OF assms(1)]
  proof (rule steps_then)
    show "steps (open_array p m) p m (\<lambda>p'. pb_written p' (bs @ [91]) \<and> bdepth p' = ?d + 1) ?E"
      unfolding open_array_def
    proof (rule steps_depth)
      have "steps (emit 1 [91] 1 p m) p m (\<lambda>p'. pb_written p' (bs @ [91]) \<and> bdepth p' = ?d)
          (room p k \<and> length bs + 1 \<le> k + 1)"
        using emit_pb_written [OF w, of "[91]" "[91]" 1 m k] by simp
      then show "steps (emit 1 [91] 1 p m) p m (\<lambda>p'. pb_written p' (bs @ [91]) \<and> bdepth p' = ?d) ?E"
        by (rule steps_weaken) (use E in auto)
    qed simp
  next
    fix p1 m1
    assume p1: "pb_written p1 (bs @ [91]) \<and> bdepth p1 = ?d + 1" "pb_kept p m p1 m1"
    then have k1: "bformat p1 = ?f" "room p1 k = room p k" by (simp_all add: pb_kept_format pb_kept_room)
    show "steps (then_print (print_elements (child x) p1 m1) close_array) p1 m1 ?Q ?E"
    proof (rule steps_then)
      show "steps (print_elements (child x) p1 m1) p1 m1
          (\<lambda>p'. \<exists>ts. ?ts = Some ts \<and> pb_written p' ((bs @ [91]) @ join (comma ?f) ts) \<and> bdepth p' = ?d + 1) ?E"
        by (rule steps_weaken [OF print_elements_steps [OF assms(2), of p1 "bs @ [91]" m1 k]])
          (use p1 k1 E in auto)
    next
      fix p2 m2
      assume "\<exists>ts. ?ts = Some ts \<and> pb_written p2 ((bs @ [91]) @ join (comma ?f) ts) \<and> bdepth p2 = ?d + 1" "pb_kept p1 m1 p2 m2"
      then obtain ts where ts: "?ts = Some ts" "pb_written p2 ((bs @ [91]) @ join (comma ?f) ts)"
        "bdepth p2 = ?d + 1" "room p2 k = room p k" using k1 by (auto simp: pb_kept_room)
      show "steps (close_array p2 m2) p2 m2 ?Q ?E"
        unfolding close_array_def
      proof (rule steps_depth)
        show "steps (emit 2 [93, 0] 0 p2 m2) p2 m2
            (\<lambda>p'. ended p' ((bs @ [91]) @ join (comma ?f) ts) [93] \<and> bdepth p' = ?d + 1) ?E"
          by (rule steps_weaken [OF emit_ended [OF ts(2), of "[93]" 2 0 m2 k, unfolded append_Cons append_Nil]])
            (use ts E in auto)
      next
        fix p'
        assume "ended p' ((bs @ [91]) @ join (comma ?f) ts) [93] \<and> bdepth p' = ?d + 1"
        then show "?Q (p'\<lparr>bdepth := bdepth p' - 1\<rparr>)"
          using ts(1) by (auto simp: render_container(1) [OF assms(1)] array_text_def comma_def ended_def)
      qed
    qed
  qed
qed


lemma object_prints:
  assumes "base_type x = cJSON_Object" "\<forall>c \<in> set (child x). value_prints c \<and> json_ok c"
  shows "value_prints x"
  unfolding value_prints_def
proof (intro allI impI)
  fix p m bs k
  assume w: "pb_written p bs"
  let ?f = "bformat p" and ?d = "bdepth p"
  let ?E = "\<exists>t. render ?f ?d x = Some t \<and> length bs + length t \<le> k \<and> room p k"
  let ?Q = "\<lambda>p'. \<exists>t. render ?f ?d x = Some t \<and> ended p' bs t \<and> bdepth p' = ?d"
  let ?ms = "those (map (member_render ?f (?d + 1)) (child x))"
  let ?o = "123 # (if ?f then [10] else []) :: byte list"
  let ?c = "(if ?f then replicate ?d 9 else []) @ [125] :: byte list"
  have E: "\<exists>ms. ?ms = Some ms \<and> length bs + length ?o + length (members_text ?f ms) + length ?c \<le> k \<and> room p k" if ?E
    using that by (auto simp: render_container(2) [OF assms(1)] object_text_def split: if_splits)
  show "steps (print_value x p m) p m ?Q ?E"
    unfolding print_container(2) [OF assms(1)]
  proof (rule steps_then)
    have "open_object p m = then_print (emit (length ?o + 1) ?o (length ?o) p m)
        (\<lambda>p m. Some (True, p\<lparr>bdepth := bdepth p + 1\<rparr>, m))"
      by (simp add: open_object_def Let_def numeral_2_eq_2 numeral_3_eq_3)
    moreover have "steps (emit (length ?o + 1) ?o (length ?o) p m) p m
        (\<lambda>p'. pb_written p' (bs @ ?o) \<and> bdepth p' = ?d) ?E"
      by (rule steps_weaken [OF emit_pb_written [OF w, of ?o ?o "length ?o + 1" m k]])
        (use E in \<open>auto split: if_splits\<close>)
    ultimately show "steps (open_object p m) p m (\<lambda>p'. pb_written p' (bs @ ?o) \<and> bdepth p' = ?d + 1) ?E"
      by (simp only:) (rule steps_depth, auto)
  next
    fix p1 m1
    assume p1: "pb_written p1 (bs @ ?o) \<and> bdepth p1 = ?d + 1" "pb_kept p m p1 m1"
    then have k1: "bformat p1 = ?f" "room p1 k = room p k" by (simp_all add: pb_kept_format pb_kept_room)
    show "steps (then_print (print_members (child x) p1 m1) close_object) p1 m1 ?Q ?E"
    proof (rule steps_then)
      show "steps (print_members (child x) p1 m1) p1 m1
          (\<lambda>p'. \<exists>ms. ?ms = Some ms \<and> pb_written p' ((bs @ ?o) @ members_text ?f ms) \<and> bdepth p' = ?d + 1) ?E"
        by (rule steps_weaken [OF print_members_steps [OF assms(2), of p1 "bs @ ?o" m1 k]])
          (use p1 k1 E in \<open>auto split: if_splits\<close>)
    next
      fix p2 m2
      assume "\<exists>ms. ?ms = Some ms \<and> pb_written p2 ((bs @ ?o) @ members_text ?f ms) \<and> bdepth p2 = ?d + 1" "pb_kept p1 m1 p2 m2"
      then obtain ms where ms: "?ms = Some ms" "pb_written p2 ((bs @ ?o) @ members_text ?f ms)"
        "bdepth p2 = ?d + 1" "bformat p2 = ?f" "room p2 k = room p k" using k1 by (auto simp: pb_kept_format pb_kept_room)
      have close: "close_object p2 m2 =
          then_print (emit (length ?c + 1) (?c @ [0]) 0 p2 m2)
            (\<lambda>p m. Some (True, p\<lparr>bdepth := bdepth p - 1\<rparr>, m))"
        using ms(3,4) by (simp add: close_object_def numeral_2_eq_2)
      show "steps (close_object p2 m2) p2 m2 ?Q ?E"
        unfolding close
      proof (rule steps_depth)
        show "steps (emit (length ?c + 1) (?c @ [0]) 0 p2 m2) p2 m2
            (\<lambda>p'. ended p' ((bs @ ?o) @ members_text ?f ms) ?c \<and> bdepth p' = ?d + 1) ?E"
          by (rule steps_weaken [OF emit_ended [OF ms(2), of ?c "length ?c + 1" 0 m2 k]])
            (use ms E in \<open>auto split: if_splits\<close>)
      next
        fix p'
        assume "ended p' ((bs @ ?o) @ members_text ?f ms) ?c \<and> bdepth p' = ?d + 1"
        then show "?Q (p'\<lparr>bdepth := bdepth p' - 1\<rparr>)"
          using ms(1) by (auto simp: render_container(2) [OF assms(1)] object_text_def ended_def)
      qed
    qed
  qed
qed

lemma literal_prints:
  assumes "pb_written p bs" "length t + 1 = n"
  shows "steps (emit n (t @ [0]) 0 p m) p m (\<lambda>p'. ended p' bs t \<and> bdepth p' = bdepth p)
           (room p k \<and> length bs + length t \<le> k)"
  by (rule steps_weaken [OF emit_ended [OF assms(1), of t n 0 m k]]) (use assms(2) in auto)

lemma scalar_prints:
  assumes "json_ok x" "base_type x \<notin> {cJSON_Array, cJSON_Object}"
  shows "value_prints x"
  unfolding value_prints_def
proof (intro allI impI)
  fix p m bs k
  assume w: "pb_written p bs"
  obtain ty vs vi vd s cs where x: "x = JItem ty vs vi vd s cs" by (cases x)
  with assms have ok: "double_ok vd" "c_text vs" "ty AND 0xFF \<noteq> cJSON_Array" "ty AND 0xFF \<noteq> cJSON_Object"
    by (auto simp: base_type_def)
  define b where "b = ty AND 0xFF"
  let ?R = "render (bformat p) (bdepth p) x"
  let ?Q = "\<lambda>p'. \<exists>t. ?R = Some t \<and> ended p' bs t \<and> bdepth p' = bdepth p"
  let ?E = "\<exists>t. ?R = Some t \<and> length bs + length t \<le> k \<and> room p k"
  have known: "steps (print_value x p m) p m ?Q ?E" if "?R = Some t"
    "steps (print_value x p m) p m (\<lambda>p'. ended p' bs t \<and> bdepth p' = bdepth p)
       (room p k \<and> length bs + length t \<le> k)" for t
    by (rule steps_weaken [OF that(2)]) (simp_all add: that(1))
  have unknown: "steps (print_value x p m) p m ?Q ?E" if "?R = None" "print_value x p m = Some (False, p, m)"
    by (rule stepsI [OF that(2)]) (simp_all add: that(1))
  note defs = x b_def [symmetric] render.simps print_value.simps Let_def json_types
  consider (null) "b = 4" | (false) "b = 1" | (true) "b = 2" | (num) "b = 8" | (raw) "b = 128" | (quot) "b = 16"
    | (other) "b \<notin> {1, 2, 4, 8, 16, 128}" by blast
  then show "steps (print_value x p m) p m ?Q ?E"
  proof cases
    case null
    show ?thesis by (rule known [of "str ''null''"])
      (use literal_prints [OF w, of "str ''null''" 5 m k] in \<open>simp_all add: defs null str_def\<close>)
  next
    case false
    show ?thesis by (rule known [of "str ''false''"])
      (use literal_prints [OF w, of "str ''false''" 6 m k] in \<open>simp_all add: defs false str_def\<close>)
  next
    case true
    show ?thesis by (rule known [of "str ''true''"])
      (use literal_prints [OF w, of "str ''true''" 5 m k] in \<open>simp_all add: defs true str_def\<close>)
  next
    case num
    from print_number_steps [OF w, of x m k] ok(1) obtain t where "number_text vd = Some t"
      "steps (print_number x p m) p m (\<lambda>p'. ended p' bs t \<and> bdepth p' = bdepth p)
         (room p k \<and> length bs + length t \<le> k)" by (auto simp: x)
    then show ?thesis by (intro known [of t]) (simp_all add: defs num)
  next
    case raw
    show ?thesis
    proof (cases vs)
      case None
      then show ?thesis by (intro unknown) (simp_all add: defs raw print_raw_def)
    next
      case (Some t)
      show ?thesis by (rule known [of t])
        (use literal_prints [OF w, of t "length t + 1" m k] in \<open>simp_all add: defs raw Some print_raw_def\<close>)
    qed
  next
    case quot
    show ?thesis by (rule known [of "quoted vs"])
      (use print_string_ptr_steps [OF w, of vs m k] in \<open>simp_all add: defs quot print_string_def\<close>)
  next
    case other
    then show ?thesis using ok(3,4) by (intro unknown) (simp_all add: defs)
  qed
qed

lemma print_value_prints: "json_ok x \<Longrightarrow> value_prints x"
proof (induction x)
  case (JItem t vs vi vd s cs)
  then have "\<forall>c \<in> set cs. value_prints c \<and> json_ok c" by (auto simp: list_all_iff)
  with JItem.prems show ?case
    using array_prints [of "JItem t vs vi vd s cs"] object_prints [of "JItem t vs vi vd s cs"]
      scalar_prints [of "JItem t vs vi vd s cs"] by auto
qed


section \<open>Properties\<close>

lemma print_item_steps:
  assumes "json_ok x" "pb_written p []"
  shows "steps (print_item (Some x) p m) p m
           (\<lambda>p'. \<exists>t. render (bformat p) (bdepth p) x = Some t \<and> ended p' [] t)
           (\<exists>t. render (bformat p) (bdepth p) x = Some t \<and> length t \<le> k \<and> room p k)"
proof -
  have "steps (print_value x p m) p m
      (\<lambda>p'. \<exists>t. render (bformat p) (bdepth p) x = Some t \<and> ended p' [] t \<and> bdepth p' = bdepth p)
      (\<exists>t. render (bformat p) (bdepth p) x = Some t \<and> length ([] :: byte list) + length t \<le> k \<and> room p k)"
    using print_value_prints [OF assms(1)] assms(2) unfolding value_prints_def by blast
  then show ?thesis unfolding print_item_def option.case by (rule steps_weaken) auto
qed

lemma finish_print_text:
  assumes "pb_written p t" "holds p (t @ [0])" "finish_print p m = r" "0 < blength p"
  shows "\<exists>m' out. r = Some (out, m') \<and> (out = None \<and> live m' = live m - 1 \<or>
           out = Some (map Some (t @ [0])) \<and> live m' = live m) \<and> (outcomes m = [] \<longrightarrow> out \<noteq> None)"
proof -
  from assms(1,2) obtain cs where cs: "buffer p = Some cs" "length t < length cs" "boffset p = length t"
    "take (Suc (length t)) cs = map Some t @ [Some 0]" "length t < blength p" "blength p \<le> length cs"
    by (auto simp: pb_written_def holds_def)
  have "(take (Suc (length t)) cs)[length t := Some 0] = map Some t @ [Some 0]"
    by (simp add: cs(4) list_update_append)
  note upd = this
  show ?thesis
  proof (cases "reallocate p")
    case True
    obtain ok m1 where m1: "mrealloc m = (ok, m1)" by (cases "mrealloc m")
    then have "r = Some (if ok then (Some (map Some t @ [Some 0]), m1) else (None, mfree m1))"
      using cs assms(3) True by (cases ok) (auto simp: finish_print_def Let_def)
    moreover have "outcomes m = [] \<longrightarrow> ok" using m1 by (auto simp: mrealloc_def)
    ultimately show ?thesis using mrealloc_live [OF m1] by (cases ok) auto
  next
    case False
    obtain ok m1 where m1: "malloc m = (ok, m1)" by (cases "malloc m")
    have "min (blength p) (boffset p + 1) = Suc (length t)" using cs(3,5) by simp
    then have "r = Some (if ok then (Some (map Some t @ [Some 0]), mfree m1) else (None, mfree m1))"
      using cs(1,2,3) upd assms(3) False m1 by (cases ok) (auto simp: finish_print_def Let_def)
    moreover have "outcomes m = [] \<longrightarrow> ok" using m1 by (auto simp: malloc_def)
    moreover have "live m1 = live m + (if ok then 1 else 0)" using malloc_live [of m m1] m1 by (cases ok) auto
    ultimately show ?thesis by (cases ok) auto
  qed
qed

lemma cjson_print_text:
  assumes "json_ok x"
  shows "\<exists>out m'. cjson_print (Some x) format hooks_reallocate m = Some (out, m') \<and>
           (out = None \<and> live m' = live m \<or>
            (\<exists>t. render format 0 x = Some t \<and> out = Some (map Some (t @ [0])) \<and> live m' = live m + 1)) \<and>
           (outcomes m = [] \<and> (\<exists>t. render format 0 x = Some t \<and> length t + 2 \<le> 2147483647) \<longrightarrow> out \<noteq> None)"
proof -
  let ?p = "\<lparr>buffer = Some (replicate 256 None), blength = 256, boffset = 0, bdepth = 0,
             noalloc = False, bformat = format, reallocate = hooks_reallocate\<rparr>"
  obtain ok m1 where m1: "malloc m = (ok, m1)" by (cases "malloc m")
  show ?thesis
  proof (cases ok)
    case False
    with m1 show ?thesis
      using malloc_live(2) [of m m1] by (auto simp: cjson_print_def malloc_def split: list.splits if_splits)
  next
    case True
    have live1: "live m1 = live m + 1" "outcomes m = [] \<longrightarrow> outcomes m1 = []"
      using m1 True malloc_live(1) [of m m1] by (auto simp: malloc_def split: list.splits if_splits)
    have "pb_written ?p []" by (simp add: pb_written_def holds_def)
    moreover have "(\<exists>t. render format 0 x = Some t \<and> length t \<le> INT_MAX - 2 \<and> room ?p (INT_MAX - 2)) \<longleftrightarrow>
        (\<exists>t. render format 0 x = Some t \<and> length t + 2 \<le> 2147483647)"
      by (auto simp: room_def INT_MAX_def)
    ultimately obtain ok2 p2 m2 where
      r: "print_item (Some x) ?p m1 = Some (ok2, p2, m2)" "pb_kept ?p m1 p2 m2"
      "ok2 \<longrightarrow> (\<exists>t. render format 0 x = Some t \<and> ended p2 [] t)"
      "outcomes m1 = [] \<and> (\<exists>t. render format 0 x = Some t \<and> length t + 2 \<le> 2147483647) \<longrightarrow> ok2"
      using print_item_steps [OF assms, of ?p m1 "INT_MAX - 2"] unfolding steps_def by fastforce
    have kept2: "live m2 - buffer_block p2 = live m" "outcomes m1 = [] \<longrightarrow> outcomes m2 = []"
      using r(2) live1(1) by (simp_all add: pb_kept_def buffer_block_def)
    show ?thesis
    proof (cases ok2)
      case F: False
      then have "cjson_print (Some x) format hooks_reallocate m = Some (None, free_buffer p2 m2)"
        using m1 True r(1) by (simp add: cjson_print_def)
      moreover have "live (free_buffer p2 m2) = live m"
        using kept2(1) by (auto simp: free_buffer_def buffer_block_def split: if_splits)
      ultimately show ?thesis using F r(4) live1(2) by auto
    next
      case T: True
      with r(3) obtain t where t: "render format 0 x = Some t" "ended p2 [] t" by blast
      have "0 \<notin> set t" using render_nul_free [OF assms t(1)] .
      from sync_steps [OF t(2) this, of m2 True] obtain p3 where p3: "update_offset p2 = Some p3"
        "pb_written p3 t" by (auto simp: steps_def sync_def)
      have same: "buffer p3 = buffer p2" "blength p3 = blength p2"
        using p3(1) by (auto simp: update_offset_def split: option.splits)
      have h: "holds p3 (t @ [0])" using t(2) same by (simp add: ended_def holds_def)
      then have "0 < blength p3" by (auto simp: holds_def)
      from finish_print_text [OF p3(2) h refl this, of m2] obtain m' out where
        f: "finish_print p3 m2 = Some (out, m')" "out = None \<and> live m' = live m2 - 1 \<or>
           out = Some (map Some (t @ [0])) \<and> live m' = live m2" "outcomes m2 = [] \<longrightarrow> out \<noteq> None" by blast
      have "buffer_block p2 = 1" using h same by (auto simp: holds_def buffer_block_def)
      moreover have "cjson_print (Some x) format hooks_reallocate m = Some (out, m')"
        using m1 True r(1) T p3(1) f(1) by (simp add: cjson_print_def)
      ultimately show ?thesis using f(2,3) kept2 live1(2) t(1) by auto
    qed
  qed
qed

text \<open>
  C17. Printing is safe and exact: for every item the library can hold, formatted or not, with
  either kind of hooks and any allocation failures, printing never reads or writes outside its
  buffer. The block it returns holds exactly the reference text and a NUL; when it returns NULL
  it has freed what it allocated. With memory available, and a text that fits the \<open>int\<close> sizes
  the library supports, it does return the text.
\<close>

theorem print_reference:
  assumes "json_ok x"
  shows "\<exists>out m'. cjson_print (Some x) format hooks_reallocate m = Some (out, m') \<and>
           (out = None \<and> live m' = live m \<or>
            (\<exists>t. render format 0 x = Some t \<and> out = Some (map Some (t @ [0])) \<and> live m' = live m + 1)) \<and>
           (outcomes m = [] \<and> (\<exists>t. render format 0 x = Some t \<and> length t + 2 \<le> 2147483647) \<longrightarrow> out \<noteq> None)"
  by (rule cjson_print_text [OF assms])

theorem print_reference_witness:
  "\<exists>out m'. cjson_print (Some demo_item) True True \<lparr>outcomes = [True, False], live = 0\<rparr> = Some (out, m') \<and>
     (out = None \<and> live m' = 0 \<or>
      (\<exists>t. render True 0 demo_item = Some t \<and> out = Some (map Some (t @ [0])) \<and> live m' = 1))"
proof -
  have "double_ok (Fin False (5 * UNITS))" using double_of_nat_ok [of 5]
    by (simp add: double_of_nat_exact del: double_ok.simps)
  then have "json_ok demo_item"
    using double_of_nat_ok [of 0] by (simp add: demo_item_def str_def double_of_nat_exact del: double_ok.simps)
  from print_reference [OF this, of True True "\<lparr>outcomes = [True, False], live = 0\<rparr>"] show ?thesis by auto
qed

text \<open>
  C32. Printing into a given buffer: \<open>cJSON_PrintPreallocated\<close> never writes outside a buffer of
  the stated length and never allocates; when it reports success the buffer starts with the
  reference text and a NUL; and two bytes more than the text are always enough.
\<close>

theorem print_preallocated:
  assumes "json_ok x" "0 < len" "nat len \<le> length cs" "outcomes m = []"
  shows "\<exists>ok cs'. cJSON_PrintPreallocated (Some x) (Some cs) len format m = Some (ok, Some cs', m) \<and>
           (ok \<longrightarrow> (\<exists>t. render format 0 x = Some t \<and> length t < nat len \<and>
                        take (length t + 1) cs' = map Some (t @ [0]))) \<and>
           ((\<exists>t. render format 0 x = Some t \<and> int (length t) + 2 \<le> len \<and> len \<le> 2147483647) \<longrightarrow> ok)"
proof -
  let ?p = "\<lparr>buffer = Some cs, blength = nat len, boffset = 0, bdepth = 0, noalloc = True,
             bformat = format, reallocate = True\<rparr>"
  have "pb_written ?p []" using assms(2,3) by (simp add: pb_written_def holds_def)
  from print_item_steps [OF assms(1) this, of m "nat len - 2"] obtain ok p' m' where
    r: "print_item (Some x) ?p m = Some (ok, p', m')" "pb_kept ?p m p' m'"
    "ok \<longrightarrow> (\<exists>t. render format 0 x = Some t \<and> ended p' [] t)"
    "(\<exists>t. render format 0 x = Some t \<and> length t \<le> nat len - 2 \<and> room ?p (nat len - 2)) \<longrightarrow> ok"
    using assms(4) unfolding steps_def by fastforce
  from r(2) obtain cs' where k: "m' = m" "buffer p' = Some cs'" "blength p' = nat len"
    by (auto simp: pb_kept_def)
  have "(\<exists>t. render format 0 x = Some t \<and> int (length t) + 2 \<le> len \<and> len \<le> 2147483647) \<longrightarrow> ok"
    using r(4) by (auto simp: room_def INT_MAX_def)
  moreover have "ok \<longrightarrow> (\<exists>t. render format 0 x = Some t \<and> length t < nat len \<and>
      take (length t + 1) cs' = map Some (t @ [0]))"
    using r(3) k(2,3) by (auto simp: ended_def holds_def)
  moreover have "cJSON_PrintPreallocated (Some x) (Some cs) len format m = Some (ok, Some cs', m)"
    using r(1) k assms(2) by (simp add: cJSON_PrintPreallocated_def)
  ultimately show ?thesis by blast
qed

theorem print_preallocated_witness:
  "\<exists>ok cs'. cJSON_PrintPreallocated (Some zero_item) (Some (replicate 9 None)) 9 False
       \<lparr>outcomes = [], live = 0\<rparr> = Some (ok, Some cs', \<lparr>outcomes = [], live = 0\<rparr>) \<and>
     (ok \<longrightarrow> (\<exists>t. render False 0 zero_item = Some t \<and> length t < nat 9 \<and>
                  take (length t + 1) cs' = map Some (t @ [0])))"
proof -
  have "json_ok zero_item" using double_of_nat_ok [of 0] by (simp add: zero_item_def double_of_nat_exact del: double_ok.simps)
  from print_preallocated [OF this, of 9 "replicate 9 None" "\<lparr>outcomes = [], live = 0\<rparr>" False]
  show ?thesis by auto
qed

end
