(* ===== verification/Stats.thy ===== *)
theory Stats
  imports Prelude
begin

text \<open>
  Per-endpoint counters and the latency histogram of \<open>src/stats.c\<close>. Counters are 64 bit
  words, so the wrap-around is the machine's. The JSON rendering of the counters,
  \<open>create_stats_object\<close>, is modelled in \<open>Stats_Json\<close> on top of the JSON library.
  The lemmas show that an observation increments exactly one bucket, the one whose range
  holds the latency, and that the counters of a run of packets are the sums of its packets.
\<close>

unbundle bit_operations_syntax

section \<open>Data\<close>

definition LATENCY_BUCKETS :: nat where
  "LATENCY_BUCKETS = 18"

record query_stats =
  request_bytes :: u64
  response_bytes :: u64
  requests_cnt :: u64
  responses_cnt :: u64
  lat_buckets :: "u64 list"
  stats_ip :: u32
  stats_port :: u16

text \<open>Upper bound in microseconds, inclusive; the last bucket catches the rest.\<close>

definition latency_buckets :: "(int \<times> cstring) list" where
  "latency_buckets =
     [(     100, str ''<0.1ms''),
      (     200, str ''0.1ms~0.2ms''),
      (     500, str ''0.2~0.5ms''),
      (    1000, str ''0.5ms~1ms''),
      (    5000, str ''1ms~5ms''),
      (   10000, str ''5ms~10ms''),
      (   20000, str ''10ms~20ms''),
      (   50000, str ''20ms~50ms''),
      (  100000, str ''50ms~100ms''),
      (  200000, str ''100ms~200ms''),
      (  500000, str ''200ms~500ms''),
      ( 1000000, str ''0.5s~1s''),
      ( 2000000, str ''1s~2s''),
      ( 3000000, str ''2s~3s''),
      ( 5000000, str ''3s~5s''),
      (10000000, str ''5s~10s''),
      (20000000, str ''10s~20s''),
      (       0, str ''+inf'')]"

text \<open>\<open>calloc(1, sizeof(struct query_stats))\<close>: every counter is zero.\<close>

definition empty_stats :: query_stats where
  "empty_stats =
     \<lparr>request_bytes = 0, response_bytes = 0, requests_cnt = 0, responses_cnt = 0,
      lat_buckets = replicate LATENCY_BUCKETS 0, stats_ip = 0, stats_port = 0\<rparr>"

section \<open>Operations\<close>

text \<open>
  \<open>stats_incr(stats, is_request, int bytes)\<close>: the caller passes an unsigned 32 bit size
  as an \<open>int\<close>, which is then added to an unsigned 64 bit counter, so it is sign extended.
\<close>

definition stats_incr :: "query_stats \<Rightarrow> bool \<Rightarrow> u32 \<Rightarrow> query_stats" where
  "stats_incr st is_request bytes =
     (if is_request then
        st\<lparr>requests_cnt := requests_cnt st + 1,
           request_bytes := request_bytes st + word_of_int (sint bytes)\<rparr>
      else
        st\<lparr>responses_cnt := responses_cnt st + 1,
           response_bytes := response_bytes st + word_of_int (sint bytes)\<rparr>)"

definition bump_bucket :: "query_stats \<Rightarrow> nat \<Rightarrow> query_stats" where
  "bump_bucket st i = st\<lparr>lat_buckets := (lat_buckets st)[i := lat_buckets st ! i + 1]\<rparr>"

text \<open>The \<open>for\<close> loop of \<open>stats_observer_latency\<close>, from index \<open>i\<close> over the rest of the table.\<close>

fun observe_loop :: "query_stats \<Rightarrow> nat \<Rightarrow> (int \<times> cstring) list \<Rightarrow> int \<Rightarrow> query_stats" where
  "observe_loop st i [] latency = bump_bucket st (LATENCY_BUCKETS - 1)"
| "observe_loop st i ((upper_us, name) # rest) latency =
     (if upper_us \<ge> latency then bump_bucket st i
      else observe_loop st (i + 1) rest latency)"

definition stats_observer_latency :: "query_stats \<Rightarrow> int \<Rightarrow> query_stats" where
  "stats_observer_latency st latency =
     observe_loop st 0 (take (LATENCY_BUCKETS - 1) latency_buckets)
       (if latency < 0 then 0 else latency)"

section \<open>Specification\<close>

definition stats_ok :: "query_stats \<Rightarrow> bool" where
  "stats_ok st \<longleftrightarrow> length (lat_buckets st) = LATENCY_BUCKETS"

text \<open>The inclusive upper bounds of the buckets but the last, and the range of bucket \<open>i\<close>.\<close>

definition uppers :: "int list" where
  "uppers = map fst (take (LATENCY_BUCKETS - 1) latency_buckets)"

definition in_bucket :: "nat \<Rightarrow> int \<Rightarrow> bool" where
  "in_bucket i us \<longleftrightarrow>
     (i = 0 \<or> uppers ! (i - 1) < us) \<and> (i = LATENCY_BUCKETS - 1 \<or> us \<le> uppers ! i)"

section \<open>Lemmas\<close>

lemma uppers_eq:
  "uppers = [100, 200, 500, 1000, 5000, 10000, 20000, 50000, 100000, 200000, 500000, 1000000,
             2000000, 3000000, 5000000, 10000000, 20000000]"
  by (simp add: uppers_def latency_buckets_def LATENCY_BUCKETS_def)

lemma latency_table_length: "length latency_buckets = LATENCY_BUCKETS"
  by (simp add: latency_buckets_def LATENCY_BUCKETS_def)

lemma uppers_sorted: "sorted_wrt (<) uppers"
  by (simp add: uppers_eq)

lemma observe_loop_bumps:
  assumes "i + length tab = LATENCY_BUCKETS - 1"
  shows "\<exists>j. observe_loop st i tab us = bump_bucket st j \<and> i \<le> j \<and> j < LATENCY_BUCKETS \<and>
           (\<forall>k. i \<le> k \<and> k < j \<longrightarrow> fst (tab ! (k - i)) < us) \<and>
           (j < LATENCY_BUCKETS - 1 \<longrightarrow> us \<le> fst (tab ! (j - i)))"
  using assms
proof (induction st i tab us rule: observe_loop.induct)
  case (1 st i latency)
  then show ?case
    by (intro exI [of _ "LATENCY_BUCKETS - 1"]) (auto simp: LATENCY_BUCKETS_def)
next
  case (2 st i upper_us name rest latency)
  show ?case
  proof (cases "upper_us \<ge> latency")
    case True
    with "2.prems" show ?thesis by (intro exI [of _ i]) auto
  next
    case False
    with "2.IH" "2.prems" obtain j where j:
      "observe_loop st (i + 1) rest latency = bump_bucket st j" "i + 1 \<le> j" "j < LATENCY_BUCKETS"
      "\<forall>k. i + 1 \<le> k \<and> k < j \<longrightarrow> fst (rest ! (k - (i + 1))) < latency"
      "j < LATENCY_BUCKETS - 1 \<longrightarrow> latency \<le> fst (rest ! (j - (i + 1)))"
      by auto
    have "fst (((upper_us, name) # rest) ! (k - i)) < latency" if "i \<le> k" "k < j" for k
      using j(4) False that by (cases "k = i") (auto simp: nth_Cons' Suc_diff_le)
    with j False show ?thesis by (intro exI [of _ j]) (auto simp: nth_Cons')
  qed
qed

lemma observer_bumps:
  "\<exists>j < LATENCY_BUCKETS. stats_observer_latency st us = bump_bucket st j \<and> in_bucket j (max 0 us)"
proof -
  let ?tab = "take (LATENCY_BUCKETS - 1) latency_buckets"
  have len: "0 + length ?tab = LATENCY_BUCKETS - 1"
    by (simp add: latency_table_length)
  have up: "fst (?tab ! k) = uppers ! k" if "k < LATENCY_BUCKETS - 1" for k
    using that len by (simp add: uppers_def)
  from observe_loop_bumps [OF len, of st "max 0 us"] obtain j where j:
    "observe_loop st 0 ?tab (max 0 us) = bump_bucket st j" "j < LATENCY_BUCKETS"
    "\<forall>k < j. fst (?tab ! k) < max 0 us"
    "j < LATENCY_BUCKETS - 1 \<longrightarrow> max 0 us \<le> fst (?tab ! j)"
    by auto
  then have "in_bucket j (max 0 us)"
    using up [of "j - 1"] up [of j] by (cases j) (auto simp: in_bucket_def)
  with j show ?thesis
    by (auto simp: stats_observer_latency_def max_def)
qed

lemma stats_ok_step [simp]:
  "stats_ok empty_stats"
  "stats_ok st \<Longrightarrow> stats_ok (stats_incr st r b)"
  "stats_ok st \<Longrightarrow> stats_ok (bump_bucket st i)"
  by (auto simp: stats_ok_def empty_stats_def stats_incr_def bump_bucket_def)

lemma stats_ok_observer [simp]: "stats_ok st \<Longrightarrow> stats_ok (stats_observer_latency st us)"
  using observer_bumps [of st us] by auto

lemma sum_list_bump:
  "i < length xs \<Longrightarrow> sum_list (xs[i := xs ! i + 1]) = sum_list xs + (1 :: 'a :: len word)"
  by (induction xs arbitrary: i) (auto split: nat.splits simp: algebra_simps)

lemma in_bucket_unique:
  assumes "in_bucket i us" "in_bucket j us" "i < LATENCY_BUCKETS" "j < LATENCY_BUCKETS"
  shows "i = j"
proof (rule ccontr)
  assume "i \<noteq> j"
  have step: False if "in_bucket a us" "in_bucket b us" "a < b" "b < LATENCY_BUCKETS" for a b
  proof -
    from that have "us \<le> uppers ! a" "uppers ! (b - 1) < us"
      by (auto simp: in_bucket_def)
    moreover have "uppers ! a \<le> uppers ! (b - 1)"
    proof (cases "a = b - 1")
      case False
      with that have "a < b - 1" "b - 1 < length uppers"
        by (auto simp: uppers_eq LATENCY_BUCKETS_def)
      with uppers_sorted show ?thesis by (simp add: sorted_wrt_iff_nth_less less_imp_le)
    qed simp
    ultimately show False by simp
  qed
  from \<open>i \<noteq> j\<close> step [of i j] step [of j i] assms show False by fastforce
qed

lemma stats_incr_fields:
  assumes "b < 2 ^ 31"
  shows "requests_cnt (stats_incr st r b) = requests_cnt st + (if r then 1 else 0)"
    "responses_cnt (stats_incr st r b) = responses_cnt st + (if r then 0 else 1)"
    "request_bytes (stats_incr st r b) = request_bytes st + (if r then word_of_nat (unat b) else 0)"
    "response_bytes (stats_incr st r b) = response_bytes st + (if r then 0 else word_of_nat (unat b))"
    "lat_buckets (stats_incr st r b) = lat_buckets st"
proof -
  have "(word_of_int (sint b) :: u64) = word_of_nat (unat b)"
    by (simp only: sint_u32_small [OF assms] of_int_of_nat_eq)
  then show "requests_cnt (stats_incr st r b) = requests_cnt st + (if r then 1 else 0)"
    "responses_cnt (stats_incr st r b) = responses_cnt st + (if r then 0 else 1)"
    "request_bytes (stats_incr st r b) = request_bytes st + (if r then word_of_nat (unat b) else 0)"
    "response_bytes (stats_incr st r b) = response_bytes st + (if r then 0 else word_of_nat (unat b))"
    "lat_buckets (stats_incr st r b) = lat_buckets st"
    by (simp_all only: stats_incr_def split: if_split) simp_all
qed

section \<open>Properties\<close>

text \<open>
  C23. Histogram: observing a latency increments exactly one of the 18 buckets, by one modulo
  \<open>2^64\<close>, and no other field changes. It is the only bucket whose range (lower bound
  exclusive, upper bound inclusive, as the table documents) holds the latency, where a
  negative latency counts as zero.
\<close>

theorem observer_increments_one_bucket:
  assumes "stats_ok st"
  shows "\<exists>!j. j < LATENCY_BUCKETS \<and> in_bucket j (max 0 us) \<and>
           stats_observer_latency st us =
             st\<lparr>lat_buckets := (lat_buckets st)[j := lat_buckets st ! j + 1]\<rparr> \<and>
           sum_list (lat_buckets (stats_observer_latency st us)) = sum_list (lat_buckets st) + 1"
proof -
  from observer_bumps [of st us] obtain j where
    j: "j < LATENCY_BUCKETS" "stats_observer_latency st us = bump_bucket st j"
       "in_bucket j (max 0 us)" by blast
  have "sum_list (lat_buckets (bump_bucket st j)) = sum_list (lat_buckets st) + 1"
    using assms j(1) by (simp add: bump_bucket_def stats_ok_def sum_list_bump)
  with j in_bucket_unique show ?thesis
    by (intro ex1I [of _ j]) (auto simp: bump_bucket_def)
qed

theorem observer_increments_one_bucket_witness:
  "stats_ok empty_stats \<and>
   (\<exists>!j. j < LATENCY_BUCKETS \<and> in_bucket j 350 \<and>
      stats_observer_latency empty_stats 350 =
        empty_stats\<lparr>lat_buckets := (lat_buckets empty_stats)[j := lat_buckets empty_stats ! j + 1]\<rparr> \<and>
      sum_list (lat_buckets (stats_observer_latency empty_stats 350)) =
        sum_list (lat_buckets empty_stats) + 1)"
  using observer_increments_one_bucket [of empty_stats 350] by simp

text \<open>
  Counters: after any sequence of packets at an endpoint the request and response counters
  hold the number of packets of each direction modulo \<open>2^64\<close>, and the byte counters the sum of
  their sizes modulo \<open>2^64\<close>, where each size below \<open>2^31\<close> counts as itself; latencies are
  untouched.
\<close>

theorem stats_incr_totals:
  assumes "\<forall>(r, b) \<in> set pkts. b < 2 ^ 31"
    and "st' = fold (\<lambda>(r, b) st. stats_incr st r b) pkts st"
  shows "requests_cnt st' = requests_cnt st + word_of_nat (length (filter fst pkts)) \<and>
         responses_cnt st' = responses_cnt st + word_of_nat (length (filter (Not \<circ> fst) pkts)) \<and>
         request_bytes st' = request_bytes st +
           word_of_nat (\<Sum>(r, b) \<leftarrow> filter fst pkts. unat b) \<and>
         response_bytes st' = response_bytes st +
           word_of_nat (\<Sum>(r, b) \<leftarrow> filter (Not \<circ> fst) pkts. unat b) \<and>
         lat_buckets st' = lat_buckets st"
  using assms
proof (induction pkts arbitrary: st)
  case (Cons p pkts)
  obtain r b where p: "p = (r, b)" by (cases p)
  with Cons.prems(1) have b: "b < 2 ^ 31" by auto
  from Cons.IH [of "stats_incr st r b"] Cons.prems show ?case
    by (simp add: p stats_incr_fields [OF b] add.assoc)
qed simp

theorem stats_incr_totals_witness:
  "requests_cnt (fold (\<lambda>(r, b) st. stats_incr st r b) [(True, 60), (False, 74), (True, 1500)]
     empty_stats) = 2 \<and>
   request_bytes (fold (\<lambda>(r, b) st. stats_incr st r b) [(True, 60), (False, 74), (True, 1500)]
     empty_stats) = 1560"
  using stats_incr_totals [of "[(True, 60), (False, 74), (True, 1500)]" _ empty_stats]
  by (simp add: empty_stats_def)

end
