(* ===== verification/Stats_Json.thy ===== *)
theory Stats_Json
  imports Json_Print Stats
begin

text \<open>
  The JSON object of one endpoint's statistics, \<open>create_stats_object\<close> of \<open>src/stats.c\<close>, on
  top of the JSON library. The lemmas give the item it builds when memory is available, the
  text this item prints to, and what the function does to the ledger otherwise.
\<close>

unbundle bit_operations_syntax

section \<open>Construction\<close>

definition u64_double :: "u64 \<Rightarrow> double" where
  "u64_double w = double_of_nat (unat w)"

text \<open>The object under construction behind one \<open>cJSON_AddNumberToObject\<close>, whose result is unused.\<close>

definition add_number :: "string \<Rightarrow> u64 \<Rightarrow> cJSON option \<times> mem \<Rightarrow> cJSON option \<times> mem" where
  "add_number name w st =
     (let (item, obj, m) = cJSON_AddNumberToObject (fst st) (Some (str name)) (u64_double w) (snd st)
      in (obj, m))"

text \<open>The loop over the buckets: an object per bucket that is not empty.\<close>

fun bucket_loop :: "(cstring \<times> u64) list \<Rightarrow> cJSON option \<times> mem \<Rightarrow> cJSON option \<times> mem" where
  "bucket_loop [] (latency, m) = (latency, m)"
| "bucket_loop ((name, cnt) # rest) (latency, m) =
     (if cnt \<noteq> 0 then
        (let (b, m) = cJSON_CreateObject m;
             (item, b, m) = cJSON_AddNumberToObject b (Some name) (u64_double cnt) m
         in bucket_loop rest (cJSON_AddItemToArray latency b, m))
      else bucket_loop rest (latency, m))"

definition create_stats_object :: "query_stats \<Rightarrow> mem \<Rightarrow> cJSON option \<times> mem" where
  "create_stats_object stats m =
     (let st = cJSON_CreateObject m;
          st = add_number ''requests'' (requests_cnt stats) st;
          st = add_number ''request_bytes'' (request_bytes stats) st;
          st = add_number ''responses'' (responses_cnt stats) st;
          (obj, m) = add_number ''response_bytes'' (response_bytes stats) st;
          (latency, m) = cJSON_CreateArray m;
          (latency, m) = bucket_loop (zip (map snd latency_buckets) (lat_buckets stats)) (latency, m)
      in cJSON_AddItemToObject obj (Some (str ''latency'')) latency m)"

section \<open>The item it builds\<close>

definition number_item_of :: "cstring \<Rightarrow> u64 \<Rightarrow> cJSON" where
  "number_item_of name w =
     JItem cJSON_Number None (saturate (u64_double w)) (u64_double w) (Some name) []"

definition container :: "int \<Rightarrow> cstring option \<Rightarrow> cJSON list \<Rightarrow> cJSON" where
  "container t name cs = JItem t None 0 (Fin False 0) name cs"

definition filled_buckets :: "query_stats \<Rightarrow> (cstring \<times> u64) list" where
  "filled_buckets stats =
     filter (\<lambda>(name, cnt). cnt \<noteq> 0) (zip (map snd latency_buckets) (lat_buckets stats))"

definition latency_items :: "(cstring \<times> u64) list \<Rightarrow> cJSON list" where
  "latency_items bs = map (\<lambda>(name, cnt). container cJSON_Object None [number_item_of name cnt]) bs"

definition stats_members :: "query_stats \<Rightarrow> cJSON list" where
  "stats_members stats =
     [number_item_of (str ''requests'') (requests_cnt stats),
      number_item_of (str ''request_bytes'') (request_bytes stats),
      number_item_of (str ''responses'') (responses_cnt stats),
      number_item_of (str ''response_bytes'') (response_bytes stats),
      container cJSON_Array (Some (str ''latency'')) (latency_items (filled_buckets stats))]"

lemma create_typed_plenty:
  "outcomes m = [] \<Longrightarrow> \<exists>m'. create_typed t m = (Some (container t None []), m') \<and> outcomes m' = [] \<and> live m' = live m + 1"
  by (simp add: create_typed_def cJSON_New_Item_def malloc_plenty container_def zero_item_def)

lemma add_number_plenty:
  assumes "outcomes m = []"
  shows "\<exists>item m'. cJSON_AddNumberToObject (Some (container t n cs)) (Some k) (u64_double w) m =
           (item, Some (container t n (cs @ [number_item_of k w])), m') \<and> outcomes m' = [] \<and> live m' = live m + 2"
proof -
  obtain m1 where m1: "cJSON_New_Item m = (Some zero_item, m1)" "outcomes m1 = []" "live m1 = live m + 1"
    using assms that [of "m\<lparr>live := live m + 1\<rparr>"] by (simp add: cJSON_New_Item_def malloc_plenty)
  obtain m2 where m2: "cJSON_strdup (Some k) m1 = (Some k, m2)" "outcomes m2 = []"
    using json_strdup_plenty [OF m1(2)] by blast
  moreover from cJSON_strdup_live [OF m2(1)] have "live m2 = live m1 + 1" by (simp add: text_block_def)
  ultimately show ?thesis
    by (simp add: m1(3) cJSON_AddNumberToObject_def add_created_def cJSON_CreateNumber_def m1 add_item_to_object_def
        add_item_to_array_def Let_def number_item_of_def container_def zero_item_def json_types)
qed

lemma bucket_loop_plenty:
  "outcomes m = [] \<Longrightarrow>
   \<exists>m'. bucket_loop bs (Some (container t n cs), m) =
     (Some (container t n (cs @ latency_items (filter (\<lambda>(name, cnt). cnt \<noteq> 0) bs))), m') \<and> outcomes m' = [] \<and>
     live m' = live m + 3 * int (length (filter (\<lambda>(name, cnt). cnt \<noteq> 0) bs))"
proof (induction bs arbitrary: cs m)
  case Nil
  then show ?case by (simp add: latency_items_def)
next
  case (Cons b bs)
  obtain name cnt where b: "b = (name, cnt)" by (cases b)
  show ?case
  proof (cases "cnt = 0")
    case True
    with Cons b show ?thesis by simp
  next
    case False
    obtain m1 where m1: "cJSON_CreateObject m = (Some (container cJSON_Object None []), m1)" "outcomes m1 = []" "live m1 = live m + 1"
      using create_typed_plenty [OF Cons.prems] by (auto simp: cJSON_CreateObject_def)
    obtain item m2 where m2: "cJSON_AddNumberToObject (Some (container cJSON_Object None [])) (Some name) (u64_double cnt) m1 =
        (item, Some (container cJSON_Object None [number_item_of name cnt]), m2)" "outcomes m2 = []" "live m2 = live m1 + 2"
      using add_number_plenty [OF m1(2), of cJSON_Object None "[]" name cnt] by auto
    let ?o = "container cJSON_Object None [number_item_of name cnt]"
    have "cJSON_AddItemToArray (Some (container t n cs)) (Some ?o) = Some (container t n (cs @ [?o]))"
      by (simp add: cJSON_AddItemToArray_def add_item_to_array_def container_def)
    with Cons.IH [OF m2(2), of "cs @ [?o]"] False b m1(1,3) m2(1,3) show ?thesis
      by (auto simp: latency_items_def)
  qed
qed

lemma create_stats_plenty:
  assumes "outcomes m = []"
  shows "\<exists>m'. create_stats_object stats m = (Some (container cJSON_Object None (stats_members stats)), m') \<and>
           outcomes m' = [] \<and> live m' = live m + 11 + 3 * int (length (filled_buckets stats))"
proof -
  have step: "\<exists>m'. add_number name w (Some (container t n cs), m) =
      (Some (container t n (cs @ [number_item_of (str name) w])), m') \<and> outcomes m' = [] \<and> live m' = live m + 2"
    if "outcomes m = []" for name w t n cs m
    using add_number_plenty [OF that, of t n cs "str name" w] by (auto simp: add_number_def)
  obtain m1 where m1: "cJSON_CreateObject m = (Some (container cJSON_Object None []), m1)" "outcomes m1 = []" "live m1 = live m + 1"
    using create_typed_plenty [OF assms] by (auto simp: cJSON_CreateObject_def)
  obtain m2 where m2: "add_number ''requests'' (requests_cnt stats) (Some (container cJSON_Object None []), m1) =
      (Some (container cJSON_Object None (take 1 (stats_members stats))), m2)" "outcomes m2 = []" "live m2 = live m1 + 2"
    using step [OF m1(2), of "''requests''" "requests_cnt stats" cJSON_Object None "[]"]
    by (auto simp: stats_members_def)
  obtain m3 where m3: "add_number ''request_bytes'' (request_bytes stats)
        (Some (container cJSON_Object None (take 1 (stats_members stats))), m2) =
      (Some (container cJSON_Object None (take 2 (stats_members stats))), m3)" "outcomes m3 = []" "live m3 = live m2 + 2"
    using step [OF m2(2), of "''request_bytes''" "request_bytes stats" cJSON_Object None "take 1 (stats_members stats)"]
    by (auto simp: stats_members_def)
  obtain m4 where m4: "add_number ''responses'' (responses_cnt stats)
        (Some (container cJSON_Object None (take 2 (stats_members stats))), m3) =
      (Some (container cJSON_Object None (take 3 (stats_members stats))), m4)" "outcomes m4 = []" "live m4 = live m3 + 2"
    using step [OF m3(2), of "''responses''" "responses_cnt stats" cJSON_Object None "take 2 (stats_members stats)"]
    by (auto simp: stats_members_def)
  obtain m5 where m5: "add_number ''response_bytes'' (response_bytes stats)
        (Some (container cJSON_Object None (take 3 (stats_members stats))), m4) =
      (Some (container cJSON_Object None (take 4 (stats_members stats))), m5)" "outcomes m5 = []" "live m5 = live m4 + 2"
    using step [OF m4(2), of "''response_bytes''" "response_bytes stats" cJSON_Object None "take 3 (stats_members stats)"]
    by (auto simp: stats_members_def)
  obtain m6 where m6: "cJSON_CreateArray m5 = (Some (container cJSON_Array None []), m6)" "outcomes m6 = []" "live m6 = live m5 + 1"
    using create_typed_plenty [OF m5(2)] by (auto simp: cJSON_CreateArray_def)
  let ?l = "container cJSON_Array None (latency_items (filled_buckets stats))"
  obtain m7 where m7: "bucket_loop (zip (map snd latency_buckets) (lat_buckets stats))
      (Some (container cJSON_Array None []), m6) = (Some ?l, m7)" "outcomes m7 = []"
    "live m7 = live m6 + 3 * int (length (filled_buckets stats))"
    using bucket_loop_plenty [OF m6(2), of "zip (map snd latency_buckets) (lat_buckets stats)" cJSON_Array None "[]"]
    by (auto simp: filled_buckets_def)
  obtain m8 where m8: "cJSON_strdup (Some (str ''latency'')) m7 = (Some (str ''latency''), m8)" "outcomes m8 = []"
    using json_strdup_plenty [OF m7(2)] by blast
  have "cJSON_AddItemToObject (Some (container cJSON_Object None (take 4 (stats_members stats))))
      (Some (str ''latency'')) (Some ?l) m7 = (Some (container cJSON_Object None (stats_members stats)), m8)"
    using m8(1) by (simp add: cJSON_AddItemToObject_def add_item_to_object_def add_item_to_array_def Let_def
        container_def json_types stats_members_def)
  moreover from cJSON_strdup_live [OF m8(1)] have "live m8 = live m7 + 1" by (simp add: text_block_def)
  then have "live m8 = live m + 11 + 3 * int (length (filled_buckets stats))"
    using m1(3) m2(3) m3(3) m4(3) m5(3) m6(3) m7(3) by simp
  ultimately show ?thesis using m8(2)
    unfolding create_stats_object_def Let_def m1(1) m2(1) m3(1) m4(1) m5(1) prod.case m6(1) m7(1) by blast
qed


section \<open>The text it prints to\<close>

definition small :: "u64 \<Rightarrow> bool" where
  "small w \<longleftrightarrow> unat w < 10 ^ 15"

definition small_stats :: "query_stats \<Rightarrow> bool" where
  "small_stats stats \<longleftrightarrow>
     small (requests_cnt stats) \<and> small (request_bytes stats) \<and> small (responses_cnt stats) \<and>
     small (response_bytes stats) \<and> (\<forall>c \<in> set (lat_buckets stats). small c)"

definition u64_text :: "u64 \<Rightarrow> byte list" where
  "u64_text w = show_nat (unat w)"

definition stats_text :: "bool \<Rightarrow> nat \<Rightarrow> query_stats \<Rightarrow> byte list" where
  "stats_text fmt d stats =
     object_text fmt d
       [member_text fmt (d + 1) (Some (str ''requests'')) (u64_text (requests_cnt stats)),
        member_text fmt (d + 1) (Some (str ''request_bytes'')) (u64_text (request_bytes stats)),
        member_text fmt (d + 1) (Some (str ''responses'')) (u64_text (responses_cnt stats)),
        member_text fmt (d + 1) (Some (str ''response_bytes'')) (u64_text (response_bytes stats)),
        member_text fmt (d + 1) (Some (str ''latency''))
          (array_text fmt
             (map (\<lambda>(name, cnt). object_text fmt (d + 2) [member_text fmt (d + 3) (Some name) (u64_text cnt)])
                (filled_buckets stats)))]"

lemma small_double:
  assumes "small w"
  shows "number_text (u64_double w) = Some (u64_text w)" "double_ok (u64_double w)"
proof -
  have n: "unat w < 10 ^ 15" "unat w < 2 ^ 53" using assms by (simp_all add: small_def)
  then show "double_ok (u64_double w)" by (simp add: u64_double_def double_of_nat_ok del: double_ok.simps)
  have g: "format_g 15 (u64_double w) = show_nat (unat w)"
    using format_g_int [OF n] by (simp add: u64_double_def)
  have "length (show_nat (unat w)) \<le> 15" using n(1) by (intro show_nat_length) simp_all
  moreover have "strtod (show_nat (unat w)) = (u64_double w, length (show_nat (unat w)))"
    using strtod_nat [OF n(2), of "[]"] by (simp add: number_end_def u64_double_def)
  moreover have "\<not> nan_or_inf (u64_double w)"
    by (simp add: u64_double_def double_of_nat_exact [OF n(2)] nan_or_inf_def)
  ultimately show "number_text (u64_double w) = Some (u64_text w)"
    by (simp add: number_text_def g number_sprintf_def compare_double_refl u64_text_def)
qed

lemma render_number: "small w \<Longrightarrow> render fmt d (number_item_of name w) = Some (u64_text w)"
  by (simp add: number_item_of_def render.simps json_types small_double)

lemma render_bucket:
  "small cnt \<Longrightarrow>
   render fmt d (container cJSON_Object None [number_item_of name cnt]) =
     Some (object_text fmt d [member_text fmt (d + 1) (Some name) (u64_text cnt)])"
  by (simp add: container_def render.simps json_types render_number) (simp add: number_item_of_def)

lemma those_map: "(\<And>x. x \<in> set xs \<Longrightarrow> f x = Some (g x)) \<Longrightarrow> those (map f xs) = Some (map g xs)"
  by (induction xs) auto

lemma filled_small: "small_stats stats \<Longrightarrow> (name, cnt) \<in> set (filled_buckets stats) \<Longrightarrow> small cnt"
  by (auto simp: small_stats_def filled_buckets_def dest!: set_zip_rightD)

lemma render_latency:
  assumes "small_stats stats"
  shows "render fmt d (container cJSON_Array name (latency_items (filled_buckets stats))) =
    Some (array_text fmt
      (map (\<lambda>(name, cnt). object_text fmt (d + 1) [member_text fmt (d + 2) (Some name) (u64_text cnt)])
        (filled_buckets stats)))"
proof -
  have "those (map (render fmt (d + 1)) (latency_items (filled_buckets stats))) =
      Some (map (\<lambda>(name, cnt). object_text fmt (d + 1) [member_text fmt (d + 2) (Some name) (u64_text cnt)])
        (filled_buckets stats))"
    unfolding latency_items_def map_map o_def
    by (rule those_map) (use filled_small [OF assms] in \<open>auto simp: render_bucket\<close>)
  then show ?thesis by (simp add: container_def render.simps json_types)
qed

lemma render_stats:
  assumes "small_stats stats"
  shows "render fmt d (container cJSON_Object name (stats_members stats)) = Some (stats_text fmt d stats)"
proof -
  let ?r = "\<lambda>x. map_option (member_text fmt (d + 1) (jstring x)) (render fmt (d + 1) x)"
  have "map ?r (stats_members stats) = map Some
       [member_text fmt (d + 1) (Some (str ''requests'')) (u64_text (requests_cnt stats)),
        member_text fmt (d + 1) (Some (str ''request_bytes'')) (u64_text (request_bytes stats)),
        member_text fmt (d + 1) (Some (str ''responses'')) (u64_text (responses_cnt stats)),
        member_text fmt (d + 1) (Some (str ''response_bytes'')) (u64_text (response_bytes stats)),
        member_text fmt (d + 1) (Some (str ''latency''))
          (array_text fmt
             (map (\<lambda>(name, cnt). object_text fmt (d + 2) [member_text fmt (d + 3) (Some name) (u64_text cnt)])
                (filled_buckets stats)))]"
    using assms render_latency [OF assms, of fmt "d + 1"]
    by (simp add: stats_members_def small_stats_def render_number)
      (simp add: number_item_of_def container_def numeral_3_eq_3 numeral_2_eq_2)
  then have "those (map ?r (stats_members stats)) = Some
       [member_text fmt (d + 1) (Some (str ''requests'')) (u64_text (requests_cnt stats)),
        member_text fmt (d + 1) (Some (str ''request_bytes'')) (u64_text (request_bytes stats)),
        member_text fmt (d + 1) (Some (str ''responses'')) (u64_text (responses_cnt stats)),
        member_text fmt (d + 1) (Some (str ''response_bytes'')) (u64_text (response_bytes stats)),
        member_text fmt (d + 1) (Some (str ''latency''))
          (array_text fmt
             (map (\<lambda>(name, cnt). object_text fmt (d + 2) [member_text fmt (d + 3) (Some name) (u64_text cnt)])
                (filled_buckets stats)))]"
    by (simp only: those.simps list.map option.case option.map)
  then show ?thesis by (simp add: container_def render.simps json_types stats_text_def)
qed

lemma zero_double_ok: "double_ok (Fin False 0)"
  using double_of_nat_ok [of 0] by (simp add: double_of_nat_exact del: double_ok.simps)

lemma latency_names_text: "(name, cnt) \<in> set (filled_buckets stats) \<Longrightarrow> 0 \<notin> set name"
proof -
  have "\<forall>n \<in> set (map snd latency_buckets). 0 \<notin> set n"
    by (simp add: latency_buckets_def str_nul_free)
  then show "(name, cnt) \<in> set (filled_buckets stats) \<Longrightarrow> 0 \<notin> set name"
    by (auto simp: filled_buckets_def dest!: set_zip_leftD)
qed

lemma stats_item_ok:
  assumes "small_stats stats" "c_text name"
  shows "json_ok (container cJSON_Object name (stats_members stats))"
  using assms filled_small [OF assms(1)] latency_names_text
  by (auto simp: container_def stats_members_def number_item_of_def latency_items_def list_all_iff
      small_stats_def small_double zero_double_ok str_nul_free simp del: double_ok.simps)

section \<open>Any outcome of the allocator\<close>

text \<open>
  Whatever allocations fail, the item under construction is absent or one that can be printed.
\<close>

definition printable_item :: "cJSON option \<Rightarrow> bool" where
  "printable_item x \<longleftrightarrow> (case x of None \<Rightarrow> True | Some y \<Rightarrow> json_ok y)"

lemma printable_simps [simp]: "printable_item None" "printable_item (Some y) = json_ok y"
  by (simp_all add: printable_item_def)

lemma create_typed_printable: "create_typed t m = (x, m') \<Longrightarrow> printable_item x"
  using zero_double_ok
  by (auto simp: create_typed_def cJSON_New_Item_def json_ok_fields split: prod.splits bool.splits
      simp del: double_ok.simps)

lemma create_number_printable: "double_ok d \<Longrightarrow> cJSON_CreateNumber d m = (x, m') \<Longrightarrow> printable_item x"
  by (auto simp: cJSON_CreateNumber_def cJSON_New_Item_def json_ok_fields split: prod.splits bool.splits
      simp del: double_ok.simps)

lemma add_to_array_printable:
  "printable_item a \<Longrightarrow> printable_item x \<Longrightarrow> printable_item (cJSON_AddItemToArray a x)"
  by (cases a; cases x) (simp_all add: cJSON_AddItemToArray_def add_item_to_array_def json_ok_fields)

lemma add_item_printable:
  assumes "printable_item a" "printable_item x" "c_text k"
    and "add_item_to_object a k x cst m = ((ok, a'), x', m')"
  shows "printable_item a'"
proof (cases "a = None \<or> k = None \<or> x = None")
  case True
  with assms(1,4) show ?thesis by (auto simp: add_item_to_object_def split: option.splits)
next
  case False
  then obtain b n y where s: "a = Some b" "k = Some n" "x = Some y" by auto
  with assms show ?thesis
    by (auto simp: add_item_to_object_def add_item_to_array_def cJSON_strdup_def json_ok_fields Let_def
        simp del: double_ok.simps split: prod.splits bool.splits if_splits option.splits)
qed

lemma add_created_printable:
  assumes "add_created mk a k m = (r, a', m')" "printable_item a" "c_text k"
    and "\<And>x m1. mk m = (x, m1) \<Longrightarrow> printable_item x"
  shows "printable_item a'"
  using assms add_item_printable [OF assms(2) _ assms(3)]
  by (auto simp: add_created_def Let_def split: prod.splits if_splits)

lemma u64_double_ok: "double_ok (u64_double w)"
  unfolding u64_double_def by (rule double_of_nat_ok)

lemma add_number_printable:
  assumes "printable_item a" "c_text k" "cJSON_AddNumberToObject a k (u64_double w) m = (r, a', m')"
  shows "printable_item a'"
  using add_created_printable [OF assms(3) [unfolded cJSON_AddNumberToObject_def] assms(1,2)]
    create_number_printable [OF u64_double_ok] by blast

lemma bucket_loop_printable:
  "printable_item a \<Longrightarrow> \<forall>(k, c) \<in> set bs. 0 \<notin> set k \<Longrightarrow> bucket_loop bs (a, m) = (a', m') \<Longrightarrow> printable_item a'"
proof (induction bs arbitrary: a m)
  case (Cons b bs)
  obtain k c where b: "b = (k, c)" by (cases b)
  show ?case
  proof (cases "c = 0")
    case True
    with Cons b show ?thesis by auto
  next
    case False
    obtain o1 m1 where o1: "cJSON_CreateObject m = (o1, m1)" by fastforce
    obtain i o2 m2 where o2: "cJSON_AddNumberToObject o1 (Some k) (u64_double c) m1 = (i, o2, m2)"
      by (metis prod_cases3)
    have "printable_item o1" using create_typed_printable o1 by (auto simp: cJSON_CreateObject_def)
    from add_number_printable [OF this _ o2] Cons.prems(2) b have "printable_item o2" by simp
    with Cons.prems(1) have "printable_item (cJSON_AddItemToArray a o2)" by (rule add_to_array_printable)
    from Cons.IH [OF this] Cons.prems(2,3) b False o1 o2 show ?thesis by simp
  qed
qed simp

lemma create_stats_printable:
  assumes "create_stats_object stats m = (x, m')"
  shows "printable_item x"
proof -
  have step: "printable_item (fst (add_number name w st))"
    if "printable_item (fst st)" "CHR 0x00 \<notin> set name" for name w st
    using that(2) add_number_printable [OF that(1), of "Some (str name)"]
    by (auto simp: add_number_def str_nul_free split: prod.splits)
  obtain o1 m1 where o1: "cJSON_CreateObject m = (o1, m1)" by fastforce
  then have "printable_item o1" using create_typed_printable by (auto simp: cJSON_CreateObject_def)
  then have o5: "printable_item (fst (add_number ''response_bytes'' (response_bytes stats)
      (add_number ''responses'' (responses_cnt stats) (add_number ''request_bytes'' (request_bytes stats)
      (add_number ''requests'' (requests_cnt stats) (o1, m1))))))" (is "printable_item (fst ?s)")
    by (intro step) simp_all
  obtain o5 m5 where s: "?s = (o5, m5)" by fastforce
  obtain l m6 where l: "cJSON_CreateArray m5 = (l, m6)" by fastforce
  then have lp: "printable_item l" using create_typed_printable by (auto simp: cJSON_CreateArray_def)
  let ?bs = "zip (map snd latency_buckets) (lat_buckets stats)"
  obtain l' m7 where l': "bucket_loop ?bs (l, m6) = (l', m7)" by fastforce
  have "\<forall>n \<in> set (map snd latency_buckets). 0 \<notin> set n"
    by (simp add: latency_buckets_def str_nul_free)
  then have "\<forall>(k, c) \<in> set ?bs. 0 \<notin> set k" by (auto dest!: set_zip_leftD)
  from bucket_loop_printable [OF lp this l'] have lp': "printable_item l'" .
  obtain ok a y m8 where a: "add_item_to_object o5 (Some (str ''latency'')) l' False m7 = ((ok, a), y, m8)"
    by (metis prod.exhaust)
  from assms have "x = a" unfolding create_stats_object_def Let_def o1 s
    by (simp add: l l' a cJSON_AddItemToObject_def)
  with add_item_printable [OF _ lp' _ a] o5 s show ?thesis by (simp add: str_nul_free)
qed

end
