(* ===== verification/Table_Spec.thy ===== *)
theory Table_Spec
  imports Prelude
begin

text \<open>
  The interface between the packet tracker and the hash table, as a locale: what the
  tracker may rely on of a keyed table. A table abstracts to a finite map (\<open>lookup\<close>), an
  insertion never overwrites and may fail for lack of memory without a trace, a deletion
  removes one key, a change through the pointer a lookup returned touches one entry, and a
  sweep drops exactly the entries its predicate accepts. The client lemmas below are proved
  once from these laws.
\<close>

locale keyed_table =
  fixes invar :: "'t \<Rightarrow> bool"
    and lookup :: "'t \<Rightarrow> 'k \<Rightarrow> 'v option"
    and count :: "'t \<Rightarrow> int"
    and add :: "'t \<Rightarrow> 'k \<Rightarrow> 'v \<Rightarrow> 'm \<Rightarrow> 'v option \<times> 't \<times> 'm"
    and del :: "'t \<Rightarrow> 'k \<Rightarrow> 'm \<Rightarrow> int \<times> 't \<times> 'm"
    and modify :: "'t \<Rightarrow> 'k \<Rightarrow> ('v \<Rightarrow> 'v) \<Rightarrow> 't"
    and sweep :: "('v \<Rightarrow> bool) \<Rightarrow> 't \<Rightarrow> 'm \<Rightarrow> int \<times> 't \<times> 'm"
  assumes finite_dom: "invar t \<Longrightarrow> finite (dom (lookup t))"
    and count_card: "invar t \<Longrightarrow> count t = int (card (dom (lookup t)))"
    and add_present: "lookup t k = Some w \<Longrightarrow> add t k v m = (Some w, t, m)"
    and add_absent:
      "\<lbrakk> invar t; lookup t k = None; add t k v m = (r, t', m') \<rbrakk> \<Longrightarrow>
       r = None \<and> (t' = t \<or> invar t' \<and> lookup t' = (lookup t)(k \<mapsto> v))"
    and del_law:
      "\<lbrakk> invar t; del t k m = (n, t', m') \<rbrakk> \<Longrightarrow>
       invar t' \<and> lookup t' = (lookup t)(k := None) \<and>
       n = (if lookup t k = None then 0 else 1)"
    and modify_law:
      "invar t \<Longrightarrow>
       invar (modify t k f) \<and> lookup (modify t k f) = (lookup t)(k := map_option f (lookup t k))"
    and sweep_law:
      "\<lbrakk> invar t; sweep P t m = (n, t', m') \<rbrakk> \<Longrightarrow>
       invar t' \<and> n = count t - count t' \<and>
       lookup t' = (\<lambda>k. Option.bind (lookup t k) (\<lambda>v. if P v then None else Some v))"
begin

lemma add_invar:
  "invar t \<Longrightarrow> add t k v m = (r, t', m') \<Longrightarrow> invar t'"
  using add_absent [of t k v m r t' m'] add_present by (cases "lookup t k") auto

lemma count_nonneg: "invar t \<Longrightarrow> 0 \<le> count t"
  by (simp add: count_card)

text \<open>An insertion adds at most one entry, so a guard on the count caps the table.\<close>

lemma add_count_le:
  assumes "invar t" and "add t k v m = (r, t', m')"
  shows "count t' \<le> count t + 1"
proof (cases "lookup t k")
  case None
  from add_absent [OF assms(1) None assms(2)] consider
      "t' = t" | "invar t'" "lookup t' = (lookup t)(k \<mapsto> v)" by blast
  then show ?thesis
  proof cases
    case 2
    then show ?thesis
      using assms(1) None by (simp add: count_card finite_dom card_insert_if)
  qed simp
next
  case (Some w)
  with assms(2) add_present [OF Some] show ?thesis by auto
qed

lemma add_capped:
  "\<lbrakk> invar t; count t < limit; add t k v m = (r, t', m') \<rbrakk> \<Longrightarrow> count t' \<le> limit"
  using add_count_le by fastforce

lemma add_never_overwrites:
  "\<lbrakk> invar t; add t k v m = (r, t', m'); lookup t j = Some w \<rbrakk> \<Longrightarrow> lookup t' j = Some w"
  using add_absent [of t k v m r t' m'] add_present by (cases "lookup t k") auto

lemma add_other:
  "\<lbrakk> invar t; add t k v m = (r, t', m'); j \<noteq> k \<rbrakk> \<Longrightarrow> lookup t' j = lookup t j"
  using add_absent [of t k v m r t' m'] add_present by (cases "lookup t k") auto

text \<open>Deleting what was just inserted gives the former map back.\<close>

lemma del_add_restores:
  "\<lbrakk> invar t; lookup t k = None; add t k v m = (r, t', m'); del t' k m' = (n, t'', m'') \<rbrakk> \<Longrightarrow>
   lookup t'' = lookup t"
  using add_absent [of t k v m r t' m'] del_law [of t' k m' n t'' m'']
  by (auto simp: fun_upd_idem_iff)

lemma del_count_le:
  assumes "invar t" and "del t k m = (n, t', m')"
  shows "count t' \<le> count t"
proof -
  from del_law [OF assms] have d: "dom (lookup t') = dom (lookup t) - {k}" and t': "invar t'"
    by auto
  have "card (dom (lookup t) - {k}) \<le> card (dom (lookup t))"
    by (simp add: card_Diff1_le)
  with d t' assms(1) show ?thesis by (simp add: count_card)
qed

lemma modify_count: "invar t \<Longrightarrow> count (modify t k f) = count t"
proof -
  assume t: "invar t"
  then have "dom (lookup (modify t k f)) = dom (lookup t)"
    by (auto simp: modify_law split: if_splits)
  with t show ?thesis by (simp add: count_card modify_law)
qed

text \<open>After a sweep no accepted entry is left and every other entry is as before.\<close>

lemma sweep_clears:
  "\<lbrakk> invar t; sweep P t m = (n, t', m'); lookup t' k = Some v \<rbrakk> \<Longrightarrow> \<not> P v \<and> lookup t k = Some v"
  using sweep_law [of t P m n t' m'] by (auto simp: bind_eq_Some_conv split: if_splits)

lemma sweep_keeps:
  "\<lbrakk> invar t; sweep P t m = (n, t', m'); lookup t k = Some v; \<not> P v \<rbrakk> \<Longrightarrow> lookup t' k = Some v"
  using sweep_law [of t P m n t' m'] by simp

lemma sweep_count_le:
  assumes "invar t" and "sweep P t m = (n, t', m')"
  shows "count t' \<le> count t"
proof -
  from sweep_law [OF assms] have t': "invar t'"
    and "dom (lookup t') \<subseteq> dom (lookup t)"
    by (auto simp: bind_eq_Some_conv)
  then have "card (dom (lookup t')) \<le> card (dom (lookup t))"
    using assms(1) by (simp add: card_mono finite_dom)
  with t' assms(1) show ?thesis by (simp add: count_card)
qed

lemma sweep_again:
  assumes "invar t" and "sweep P t m = (n, t', m')" and "sweep P t' m1 = (n2, t2, m2)"
  shows "n2 = 0 \<and> lookup t2 = lookup t'"
proof -
  note l1 = sweep_law [OF assms(1,2)]
  then have t': "invar t'" by simp
  note l2 = sweep_law [OF t' assms(3)]
  have eq: "lookup t2 = lookup t'"
  proof
    fix k
    show "lookup t2 k = lookup t' k"
      using l2 sweep_clears [OF assms(1,2)] by (cases "lookup t' k") auto
  qed
  with l2 t' show ?thesis by (simp add: count_card)
qed

end

end
