(* ===== verification/Hashtable.thy ===== *)
theory Hashtable
  imports Libc Table_Spec
begin

text \<open>
  The chained hash table of \<open>src/hashtable.c\<close>: the MurmurHash2 variant that picks a bucket,
  and every operation of the table. A chain is the list of its entries from the bucket's head
  along \<open>next\<close>. The table's \<open>free\<close> callback is a field of the record, as in the struct, and
  acts on the allocator. The lemmas show that the table is a finite map with unique keys
  whose \<open>size\<close> counts them, that every operation keeps the invariant on every allocation
  outcome, that no block is leaked or freed twice, and interpret the locale
  \<open>keyed_table\<close>.
\<close>

unbundle bit_operations_syntax

section \<open>Hash function\<close>

text \<open>One round of the mixing loop over the four byte block \<open>k\<close>.\<close>

definition hash_mix :: "u32 \<Rightarrow> u32 \<Rightarrow> u32" where
  "hash_mix h k =
     (let k1 = k * 0x5bd1e995;
          k2 = k1 XOR drop_bit 24 k1;
          k3 = k2 * 0x5bd1e995
      in (h * 0x5bd1e995) XOR k3)"

fun hash_blocks :: "u32 \<Rightarrow> byte list \<Rightarrow> u32 \<times> byte list" where
  "hash_blocks h (a # b # c # d # rest) = hash_blocks (hash_mix h (le32 a b c d)) rest"
| "hash_blocks h rest = (h, rest)"

text \<open>The \<open>switch\<close> on the last bytes falls through from case 3 to case 1.\<close>

fun hash_tail :: "u32 \<Rightarrow> byte list \<Rightarrow> u32" where
  "hash_tail h [a] = (h XOR ucast a) * 0x5bd1e995"
| "hash_tail h [a, b] = hash_tail (h XOR push_bit 8 (ucast b)) [a]"
| "hash_tail h [a, b, c] = hash_tail (h XOR push_bit 16 (ucast c)) [a, b]"
| "hash_tail h _ = h"

definition hash_function :: "byte list \<Rightarrow> int \<Rightarrow> u32" where
  "hash_function key len =
     (let h0 = 5381 XOR word_of_int len;
          (h1, rest) = hash_blocks h0 (take (nat len) key);
          h2 = hash_tail h1 rest;
          h3 = h2 XOR drop_bit 13 h2;
          h4 = h3 * 0x5bd1e995
      in h4 XOR drop_bit 15 h4)"

section \<open>Data\<close>

record 'v entry =
  entry_key :: cstring
  entry_value :: 'v

record 'v hashtable =
  nbucket :: int
  ht_size :: int
  buckets :: "'v entry list list"
  free_fn :: "('v \<Rightarrow> mem \<Rightarrow> mem) option"

text \<open>\<open>ht->free ? ht->free(value) : free(value)\<close>\<close>

definition free_value :: "'v hashtable \<Rightarrow> 'v \<Rightarrow> mem \<Rightarrow> mem" where
  "free_value ht v m = (case free_fn ht of Some f \<Rightarrow> f v m | None \<Rightarrow> mfree m)"

text \<open>\<open>free(entry->key); ht->free ? ... ; free(entry)\<close>\<close>

definition free_entry :: "'v hashtable \<Rightarrow> 'v entry \<Rightarrow> mem \<Rightarrow> mem" where
  "free_entry ht e m = mfree (free_value ht (entry_value e) (mfree m))"

text \<open>\<open>hash_function(key, (int)key_size) % ht->nbucket\<close>\<close>

definition bucket_of :: "'v hashtable \<Rightarrow> cstring \<Rightarrow> nat" where
  "bucket_of ht key =
     nat (uint (hash_function key (to_int32 (int (length key)))) mod nbucket ht)"

definition key_match :: "cstring \<Rightarrow> cstring \<Rightarrow> bool" where
  "key_match key cur \<longleftrightarrow> length key = length cur \<and> strncmp key cur (length key) = 0"

section \<open>Operations\<close>

definition hashtable_create :: "int \<Rightarrow> mem \<Rightarrow> 'v hashtable option \<times> mem" where
  "hashtable_create n m =
     (if n \<le> 0 then (None, m)
      else case malloc m of
        (False, m1) \<Rightarrow> (None, m1)
      | (True, m1) \<Rightarrow>
          (case malloc m1 of
             (False, m2) \<Rightarrow> (None, mfree m2)
           | (True, m2) \<Rightarrow>
               (Some \<lparr>nbucket = n, ht_size = 0, buckets = replicate (nat n) [], free_fn = None\<rparr>,
                m2)))"

fun free_chain :: "'v hashtable \<Rightarrow> 'v entry list \<Rightarrow> mem \<Rightarrow> mem" where
  "free_chain ht [] m = m"
| "free_chain ht (e # es) m = free_chain ht es (free_entry ht e m)"

fun free_buckets :: "'v hashtable \<Rightarrow> 'v entry list list \<Rightarrow> mem \<Rightarrow> mem" where
  "free_buckets ht [] m = m"
| "free_buckets ht (b # bs) m = free_buckets ht bs (free_chain ht b m)"

definition hashtable_destroy :: "'v hashtable option \<Rightarrow> mem \<Rightarrow> mem" where
  "hashtable_destroy h m =
     (case h of
        None \<Rightarrow> m
      | Some ht \<Rightarrow> mfree (mfree (free_buckets ht (buckets ht) m)))"

fun chain_find :: "cstring \<Rightarrow> 'v entry list \<Rightarrow> 'v option" where
  "chain_find key [] = None"
| "chain_find key (e # es) =
     (if key_match key (entry_key e) then Some (entry_value e) else chain_find key es)"

definition hashtable_get :: "'v hashtable \<Rightarrow> cstring \<Rightarrow> 'v option" where
  "hashtable_get ht key = chain_find key (buckets ht ! bucket_of ht key)"

definition hashtable_add ::
    "'v hashtable \<Rightarrow> cstring \<Rightarrow> 'v \<Rightarrow> mem \<Rightarrow> 'v option \<times> 'v hashtable \<times> mem" where
  "hashtable_add ht key v m =
     (let b = bucket_of ht key; chain = buckets ht ! b in
      case chain_find key chain of
        Some w \<Rightarrow> (Some w, ht, m)
      | None \<Rightarrow>
          (case malloc m of
             (False, m1) \<Rightarrow> (None, ht, m1)
           | (True, m1) \<Rightarrow>
               (case malloc m1 of
                  (False, m2) \<Rightarrow> (None, ht, mfree m2)
                | (True, m2) \<Rightarrow>
                    (None,
                     ht\<lparr>buckets := (buckets ht)[b := \<lparr>entry_key = key, entry_value = v\<rparr> # chain],
                        ht_size := ht_size ht + 1\<rparr>,
                     m2))))"

text \<open>The value freed and the chain with its entry unlinked.\<close>

fun chain_del :: "cstring \<Rightarrow> 'v entry list \<Rightarrow> ('v entry \<times> 'v entry list) option" where
  "chain_del key [] = None"
| "chain_del key (e # es) =
     (if key_match key (entry_key e) then Some (e, es)
      else case chain_del key es of None \<Rightarrow> None | Some (d, rest) \<Rightarrow> Some (d, e # rest))"

definition hashtable_del ::
    "'v hashtable \<Rightarrow> cstring \<Rightarrow> mem \<Rightarrow> int \<times> 'v hashtable \<times> mem" where
  "hashtable_del ht key m =
     (let b = bucket_of ht key in
      case chain_del key (buckets ht ! b) of
        None \<Rightarrow> (0, ht, m)
      | Some (e, rest) \<Rightarrow>
          (1, ht\<lparr>buckets := (buckets ht)[b := rest], ht_size := ht_size ht - 1\<rparr>,
           free_entry ht e m))"

text \<open>
  A caller writes through the pointer \<open>hashtable_get\<close> returned: the value of the first
  matching entry changes in place, everything else stays.
\<close>

fun chain_modify :: "cstring \<Rightarrow> ('v \<Rightarrow> 'v) \<Rightarrow> 'v entry list \<Rightarrow> 'v entry list" where
  "chain_modify key f [] = []"
| "chain_modify key f (e # es) =
     (if key_match key (entry_key e) then e\<lparr>entry_value := f (entry_value e)\<rparr> # es
      else e # chain_modify key f es)"

definition hashtable_modify :: "'v hashtable \<Rightarrow> cstring \<Rightarrow> ('v \<Rightarrow> 'v) \<Rightarrow> 'v hashtable" where
  "hashtable_modify ht key f =
     (let b = bucket_of ht key
      in ht\<lparr>buckets := (buckets ht)[b := chain_modify key f (buckets ht ! b)]\<rparr>)"

text \<open>One chain of the sweep: the entries kept, how many went, the allocator.\<close>

fun chain_sweep ::
    "'v hashtable \<Rightarrow> ('v \<Rightarrow> bool) \<Rightarrow> 'v entry list \<Rightarrow> mem \<Rightarrow> 'v entry list \<times> int \<times> mem" where
  "chain_sweep ht P [] m = ([], 0, m)"
| "chain_sweep ht P (e # es) m =
     (if P (entry_value e) then
        (let (kept, n, m') = chain_sweep ht P es (free_entry ht e m) in (kept, n + 1, m'))
      else
        (let (kept, n, m') = chain_sweep ht P es m in (e # kept, n, m')))"

fun buckets_sweep ::
    "'v hashtable \<Rightarrow> ('v \<Rightarrow> bool) \<Rightarrow> 'v entry list list \<Rightarrow> mem \<Rightarrow>
     'v entry list list \<times> int \<times> mem" where
  "buckets_sweep ht P [] m = ([], 0, m)"
| "buckets_sweep ht P (b # bs) m =
     (let (b', n, m1) = chain_sweep ht P b m;
          (bs', k, m2) = buckets_sweep ht P bs m1
      in (b' # bs', n + k, m2))"

definition sweep_table ::
    "('v \<Rightarrow> bool) \<Rightarrow> 'v hashtable \<Rightarrow> mem \<Rightarrow> int \<times> 'v hashtable \<times> mem" where
  "sweep_table P ht m =
     (let (bs, removed, m') = buckets_sweep ht P (buckets ht) m
      in (removed, ht\<lparr>buckets := bs, ht_size := ht_size ht - removed\<rparr>, m'))"

definition hashtable_sweep ::
    "'v hashtable option \<Rightarrow> ('v \<Rightarrow> 'a \<Rightarrow> bool) option \<Rightarrow> 'a \<Rightarrow> mem \<Rightarrow>
     int \<times> 'v hashtable option \<times> mem" where
  "hashtable_sweep h expired arg m =
     (case (h, expired) of
        (Some ht, Some p) \<Rightarrow>
          (let (n, ht', m') = sweep_table (\<lambda>v. p v arg) ht m in (n, Some ht', m'))
      | _ \<Rightarrow> (0, h, m))"

text \<open>
  \<open>hashtable_values\<close>: the buffer is \<open>None\<close> while NULL, then the values stored so far, with
  the capacity \<open>cap\<close> it was allocated for. The outer \<open>None\<close> is a store past the buffer.
\<close>

definition values_store :: "'v list \<Rightarrow> nat \<Rightarrow> 'v \<Rightarrow> 'v list option" where
  "values_store xs cap v = (if length xs < cap then Some (xs @ [v]) else None)"

fun collect_values ::
    "'v entry list \<Rightarrow> 'v list option \<Rightarrow> nat \<Rightarrow> mem \<Rightarrow> ('v list option \<times> mem) option" where
  "collect_values [] vs cap m = Some (vs, m)"
| "collect_values (e # es) None cap m =
     (case malloc m of
        (False, m1) \<Rightarrow> Some (None, m1)
      | (True, m1) \<Rightarrow>
          (case values_store [] 1 (entry_value e) of
             None \<Rightarrow> None
           | Some xs \<Rightarrow> collect_values es (Some xs) 1 m1))"
| "collect_values (e # es) (Some xs) cap m =
     (if length xs = cap then
        (case mrealloc m of
           (False, m1) \<Rightarrow> Some (Some xs, m1)
         | (True, m1) \<Rightarrow>
             (case values_store xs (cap * 2) (entry_value e) of
                None \<Rightarrow> None
              | Some xs' \<Rightarrow> collect_values es (Some xs') (cap * 2) m1))
      else
        (case values_store xs cap (entry_value e) of
           None \<Rightarrow> None
         | Some xs' \<Rightarrow> collect_values es (Some xs') cap m))"

definition hashtable_values ::
    "'v hashtable \<Rightarrow> mem \<Rightarrow> ('v list option \<times> int \<times> mem) option" where
  "hashtable_values ht m =
     (case collect_values (concat (buckets ht)) None 0 m of
        None \<Rightarrow> None
      | Some (vs, m') \<Rightarrow>
          Some (vs, (case vs of None \<Rightarrow> 0 | Some xs \<Rightarrow> int (length xs)), m'))"

section \<open>Invariant\<close>

definition chains_hashed :: "'v hashtable \<Rightarrow> bool" where
  "chains_hashed ht \<longleftrightarrow>
     (\<forall>i < length (buckets ht). \<forall>e \<in> set (buckets ht ! i). bucket_of ht (entry_key e) = i)"

definition chains_distinct :: "'v hashtable \<Rightarrow> bool" where
  "chains_distinct ht \<longleftrightarrow>
     (\<forall>i < length (buckets ht). distinct (map entry_key (buckets ht ! i)))"

definition ht_invar :: "'v hashtable \<Rightarrow> bool" where
  "ht_invar ht \<longleftrightarrow>
     0 < nbucket ht \<and> length (buckets ht) = nat (nbucket ht) \<and>
     chains_hashed ht \<and> chains_distinct ht \<and>
     ht_size ht = int (length (concat (buckets ht)))"

text \<open>
  The blocks a table owns, when its callback frees \<open>w v\<close> blocks for a value \<open>v\<close>: the
  struct, the bucket array, and for each entry the entry, its key and its value.
\<close>

definition ht_blocks :: "('v \<Rightarrow> int) \<Rightarrow> 'v hashtable \<Rightarrow> int" where
  "ht_blocks w ht = 2 + (\<Sum>e \<leftarrow> concat (buckets ht). 2 + w (entry_value e))"

definition frees :: "('v \<Rightarrow> int) \<Rightarrow> 'v hashtable \<Rightarrow> bool" where
  "frees w ht \<longleftrightarrow> (\<forall>v m. live (free_value ht v m) = live m - w v)"

section \<open>Chains as maps\<close>

lemma key_match_iff [simp]: "key_match a b \<longleftrightarrow> a = b"
  unfolding key_match_def by (rule strncmp_eq_iff)

lemma bucket_of_cong: "nbucket ht' = nbucket ht \<Longrightarrow> bucket_of ht' = bucket_of ht"
  by (simp add: bucket_of_def fun_eq_iff)

lemma bucket_of_simps [simp]:
  "bucket_of (ht\<lparr>buckets := bs\<rparr>) = bucket_of ht"
  "bucket_of (ht\<lparr>ht_size := n\<rparr>) = bucket_of ht"
  by (rule bucket_of_cong, simp)+

lemma bucket_of_less: "ht_invar ht \<Longrightarrow> bucket_of ht k < length (buckets ht)"
  by (simp add: ht_invar_def bucket_of_def nat_less_iff)

lemma chain_find_Some:
  "distinct (map entry_key c) \<Longrightarrow>
   chain_find k c = Some v \<longleftrightarrow> (\<exists>e \<in> set c. entry_key e = k \<and> entry_value e = v)"
  by (induction c) (auto simp: image_iff)

lemma chain_find_None: "chain_find k c = None \<longleftrightarrow> k \<notin> entry_key ` set c"
  by (induction c) auto

lemma chain_del_None: "chain_del k c = None \<longleftrightarrow> chain_find k c = None"
  by (induction c) (auto split: option.splits)

lemma chain_del_Some:
  "chain_del k c = Some (e, rest) \<Longrightarrow>
   \<exists>pre post. c = pre @ e # post \<and> rest = pre @ post \<and> entry_key e = k"
proof (induction c arbitrary: rest)
  case (Cons d c)
  show ?case
  proof (cases "k = entry_key d")
    case True
    with Cons.prems show ?thesis by (auto intro: exI [of _ "[]"])
  next
    case False
    with Cons.prems obtain r where "chain_del k c = Some (e, r)" and rest: "rest = d # r"
      by (auto split: option.splits)
    with Cons.IH obtain pre post where "c = pre @ e # post" "r = pre @ post" "entry_key e = k"
      by blast
    with rest show ?thesis by (auto intro: exI [of _ "d # pre"])
  qed
qed simp

lemma chain_modify_keys [simp]: "map entry_key (chain_modify k f c) = map entry_key c"
  by (induction c) auto

lemma chain_modify_length [simp]: "length (chain_modify k f c) = length c"
  by (induction c) auto

lemma chain_find_modify:
  "chain_find j (chain_modify k f c) =
   (if j = k then map_option f (chain_find j c) else chain_find j c)"
  by (induction c) auto

lemma chain_find_filter:
  "distinct (map entry_key c) \<Longrightarrow>
   chain_find k (filter (\<lambda>e. \<not> P (entry_value e)) c) =
   Option.bind (chain_find k c) (\<lambda>v. if P v then None else Some v)"
proof (induction c)
  case (Cons e c)
  then show ?case by (cases "entry_key e = k") (auto simp: chain_find_None [THEN iffD2])
qed simp

section \<open>One bucket replaced\<close>

text \<open>
  Insertion, deletion and the change of a value all replace one chain; the invariant and the
  map of the result are proved once for such a step.
\<close>

definition set_chain :: "'v hashtable \<Rightarrow> nat \<Rightarrow> 'v entry list \<Rightarrow> 'v hashtable" where
  "set_chain ht b c =
     ht\<lparr>buckets := (buckets ht)[b := c],
        ht_size := ht_size ht + int (length c) - int (length (buckets ht ! b))\<rparr>"

lemma chain_key_bucket:
  "\<lbrakk> ht_invar ht; b < length (buckets ht); e \<in> set (buckets ht ! b) \<rbrakk> \<Longrightarrow>
   bucket_of ht (entry_key e) = b"
  by (auto simp: ht_invar_def chains_hashed_def)

lemma chain_keys_distinct:
  "\<lbrakk> ht_invar ht; b < length (buckets ht) \<rbrakk> \<Longrightarrow> distinct (map entry_key (buckets ht ! b))"
  by (simp add: ht_invar_def chains_distinct_def)

lemma set_chain_invar:
  assumes "ht_invar ht" and b: "b < length (buckets ht)"
    and keys: "\<forall>k \<in> entry_key ` set c. bucket_of ht k = b"
    and dist: "distinct (map entry_key c)"
  shows "ht_invar (set_chain ht b c)"
proof -
  have hashed: "chains_hashed (set_chain ht b c)"
    using assms by (auto simp: chains_hashed_def set_chain_def nth_list_update ht_invar_def)
  have distinct: "chains_distinct (set_chain ht b c)"
    using assms by (auto simp: chains_distinct_def set_chain_def nth_list_update ht_invar_def)
  from list_update_concat_mset [OF b, of c] assms(1)
  have "ht_size (set_chain ht b c) = int (length (concat (buckets (set_chain ht b c))))"
    by (simp add: set_chain_def ht_invar_def)
  with hashed distinct assms(1) show ?thesis
    by (simp add: ht_invar_def set_chain_def)
qed

lemma set_chain_get:
  assumes "ht_invar ht" and "b < length (buckets ht)"
  shows "hashtable_get (set_chain ht b c) k =
         (if bucket_of ht k = b then chain_find k c else hashtable_get ht k)"
  using bucket_of_less [OF assms(1)] assms(2)
  by (auto simp: hashtable_get_def set_chain_def)

lemma set_chain_blocks:
  assumes "b < length (buckets ht)"
  shows "ht_blocks w (set_chain ht b c) =
         ht_blocks w ht + (\<Sum>e \<leftarrow> c. 2 + w (entry_value e))
                        - (\<Sum>e \<leftarrow> buckets ht ! b. 2 + w (entry_value e))"
  using concat_update_split [OF assms, of c] by (auto simp: ht_blocks_def set_chain_def)

section \<open>The operations as changes of a chain\<close>

lemma hashtable_add_cases:
  assumes "ht_invar ht" and "hashtable_add ht k v m = (r, ht', m')"
  obtains (present) w where "hashtable_get ht k = Some w" "r = Some w" "ht' = ht" "m' = m"
  | (failed) "hashtable_get ht k = None" "r = None" "ht' = ht" "live m' = live m"
  | (stored) "hashtable_get ht k = None" "r = None" "live m' = live m + 2"
      "ht' = set_chain ht (bucket_of ht k)
               (\<lparr>entry_key = k, entry_value = v\<rparr> # buckets ht ! bucket_of ht k)"
  using assms malloc_live
  by (auto simp: hashtable_add_def hashtable_get_def Let_def set_chain_def
           split: option.splits prod.splits bool.splits)

lemma hashtable_add_unchanged:
  assumes "ht_invar ht" and "hashtable_add ht k v m = (r, ht', m')"
  shows "ht' = ht \<longleftrightarrow> ht_size ht' = ht_size ht"
  using assms
proof (cases rule: hashtable_add_cases)
  case stored
  then have "ht_size ht' = ht_size ht + 1" by (simp add: set_chain_def)
  then show ?thesis by auto
qed simp_all

lemma hashtable_del_cases:
  assumes "hashtable_del ht k m = (n, ht', m')"
  obtains (absent) "hashtable_get ht k = None" "n = 0" "ht' = ht" "m' = m"
  | (found) pre e post where "buckets ht ! bucket_of ht k = pre @ e # post"
      "entry_key e = k" "hashtable_get ht k \<noteq> None" "n = 1" "m' = free_entry ht e m"
      "ht' = set_chain ht (bucket_of ht k) (pre @ post)"
proof (cases "chain_del k (buckets ht ! bucket_of ht k)")
  case None
  with assms show ?thesis
    by (intro absent) (auto simp: hashtable_del_def hashtable_get_def Let_def chain_del_None)
next
  case (Some p)
  then obtain e rest where p: "chain_del k (buckets ht ! bucket_of ht k) = Some (e, rest)"
    by (cases p) auto
  from chain_del_Some [OF p] obtain pre post where
    c: "buckets ht ! bucket_of ht k = pre @ e # post" "rest = pre @ post" "entry_key e = k"
    by blast
  have "chain_find k (buckets ht ! bucket_of ht k) \<noteq> None"
    using p by (simp flip: chain_del_None)
  with assms p c show ?thesis
    by (intro found [of pre e post])
       (auto simp: hashtable_del_def hashtable_get_def Let_def set_chain_def)
qed

lemma hashtable_modify_set_chain:
  "hashtable_modify ht k f =
   set_chain ht (bucket_of ht k) (chain_modify k f (buckets ht ! bucket_of ht k))"
  by (simp add: hashtable_modify_def set_chain_def Let_def)

section \<open>Every operation keeps the invariant\<close>

lemma hashtable_create_invar:
  "hashtable_create n m = (Some ht, m') \<Longrightarrow> ht_invar ht \<and> (\<forall>k. hashtable_get ht k = None)"
proof -
  assume "hashtable_create n m = (Some ht, m')"
  then have n: "0 < n"
    and ht: "ht = \<lparr>nbucket = n, ht_size = 0, buckets = replicate (nat n) [], free_fn = None\<rparr>"
    by (auto simp: hashtable_create_def split: if_splits prod.splits bool.splits)
  then have "ht_invar ht"
    by (auto simp: ht_invar_def chains_hashed_def chains_distinct_def)
  moreover have "hashtable_get ht k = None" for k
    using bucket_of_less [OF \<open>ht_invar ht\<close>, of k] ht by (simp add: hashtable_get_def)
  ultimately show ?thesis by simp
qed

lemma hashtable_add_invar:
  assumes "ht_invar ht" and "hashtable_add ht k v m = (r, ht', m')"
  shows "ht_invar ht'"
  using assms
proof (cases rule: hashtable_add_cases)
  case stored
  let ?b = "bucket_of ht k"
  have b: "?b < length (buckets ht)" by (rule bucket_of_less [OF assms(1)])
  with stored(1) have "k \<notin> entry_key ` set (buckets ht ! ?b)"
    by (simp add: hashtable_get_def chain_find_None)
  with stored(4) b assms(1) show ?thesis
    by (auto intro!: set_chain_invar simp: chain_key_bucket chain_keys_distinct)
qed (use assms in auto)

lemma hashtable_del_invar:
  assumes "ht_invar ht" and "hashtable_del ht k m = (n, ht', m')"
  shows "ht_invar ht'"
  using assms(2)
proof (cases rule: hashtable_del_cases)
  case (found pre e post)
  have b: "bucket_of ht k < length (buckets ht)" by (rule bucket_of_less [OF assms(1)])
  from found(1) chain_keys_distinct [OF assms(1) b]
  have "distinct (map entry_key (pre @ post))" by auto
  moreover have "\<forall>j \<in> entry_key ` set (pre @ post). bucket_of ht j = bucket_of ht k"
    using found(1) chain_key_bucket [OF assms(1) b] by auto
  ultimately show ?thesis
    using found(6) set_chain_invar [OF assms(1) b] by simp
qed (use assms in auto)

lemma hashtable_modify_invar:
  assumes "ht_invar ht"
  shows "ht_invar (hashtable_modify ht k f)"
proof -
  have b: "bucket_of ht k < length (buckets ht)" by (rule bucket_of_less [OF assms])
  have "entry_key ` set (chain_modify k f c) = entry_key ` set c" for c :: "'a entry list"
    by (metis chain_modify_keys list.set_map)
  then have "\<forall>j \<in> entry_key ` set (chain_modify k f (buckets ht ! bucket_of ht k)).
               bucket_of ht j = bucket_of ht k"
    using chain_key_bucket [OF assms b] by auto
  moreover have "distinct (map entry_key (chain_modify k f (buckets ht ! bucket_of ht k)))"
    using chain_keys_distinct [OF assms b] by simp
  ultimately show ?thesis
    unfolding hashtable_modify_set_chain by (rule set_chain_invar [OF assms b])
qed

section \<open>The table as a finite map\<close>

lemma hashtable_add_get:
  assumes "ht_invar ht" and "hashtable_get ht k = None"
    and "hashtable_add ht k v m = (r, ht', m')"
  shows "r = None \<and> (ht' = ht \<or> hashtable_get ht' = (hashtable_get ht)(k \<mapsto> v))"
  using assms(1,3)
proof (cases rule: hashtable_add_cases)
  case stored
  have b: "bucket_of ht k < length (buckets ht)" by (rule bucket_of_less [OF assms(1)])
  show ?thesis
    using stored set_chain_get [OF assms(1) b]
    by (auto simp: fun_eq_iff hashtable_get_def)
qed (use assms in auto)

lemma hashtable_del_get:
  assumes "ht_invar ht" and "hashtable_del ht k m = (n, ht', m')"
  shows "hashtable_get ht' = (hashtable_get ht)(k := None)"
  using assms(2)
proof (cases rule: hashtable_del_cases)
  case (found pre e post)
  have b: "bucket_of ht k < length (buckets ht)" by (rule bucket_of_less [OF assms(1)])
  have d: "distinct (map entry_key (pre @ e # post))"
    using chain_keys_distinct [OF assms(1) b] found(1) by simp
  have "chain_find j (pre @ post) = (if j = k then None else chain_find j (pre @ e # post))" for j
    using d found(2) by (induction pre) (auto simp: chain_find_None)
  with found show ?thesis
    by (auto simp: fun_eq_iff set_chain_get [OF assms(1) b] hashtable_get_def [of ht])
qed (use assms in auto)

lemma hashtable_modify_get:
  assumes "ht_invar ht"
  shows "hashtable_get (hashtable_modify ht k f) =
         (hashtable_get ht)(k := map_option f (hashtable_get ht k))"
  using bucket_of_less [OF assms, of k]
  by (auto simp: hashtable_modify_set_chain fun_eq_iff set_chain_get [OF assms] chain_find_modify
        hashtable_get_def [of ht])

lemma entries_in_bucket:
  assumes "ht_invar ht"
  shows "e \<in> set (concat (buckets ht)) \<longleftrightarrow> e \<in> set (buckets ht ! bucket_of ht (entry_key e))"
proof
  assume "e \<in> set (concat (buckets ht))"
  then obtain i where i: "i < length (buckets ht)" and e: "e \<in> set (buckets ht ! i)"
    by (auto simp: in_set_conv_nth [of _ "buckets ht"])
  with chain_key_bucket [OF assms i e] show "e \<in> set (buckets ht ! bucket_of ht (entry_key e))"
    by simp
next
  assume "e \<in> set (buckets ht ! bucket_of ht (entry_key e))"
  with bucket_of_less [OF assms] show "e \<in> set (concat (buckets ht))"
    unfolding set_concat by (blast intro: nth_mem)
qed

lemma hashtable_get_Some:
  assumes "ht_invar ht"
  shows "hashtable_get ht k = Some v \<longleftrightarrow>
         (\<exists>e \<in> set (concat (buckets ht)). entry_key e = k \<and> entry_value e = v)"
proof -
  have "distinct (map entry_key (buckets ht ! bucket_of ht k))"
    by (rule chain_keys_distinct [OF assms bucket_of_less [OF assms]])
  then have "hashtable_get ht k = Some v \<longleftrightarrow>
      (\<exists>e \<in> set (buckets ht ! bucket_of ht k). entry_key e = k \<and> entry_value e = v)"
    by (simp add: hashtable_get_def chain_find_Some)
  also have "\<dots> \<longleftrightarrow> (\<exists>e \<in> set (concat (buckets ht)). entry_key e = k \<and> entry_value e = v)"
    using entries_in_bucket [OF assms] by blast
  finally show ?thesis .
qed

lemma distinct_concat_keys:
  assumes "\<And>i. i < length bs \<Longrightarrow> distinct (map entry_key (bs ! i))"
    and "\<And>i e. i < length bs \<Longrightarrow> e \<in> set (bs ! i) \<Longrightarrow> h (entry_key e) = i + d"
  shows "distinct (map entry_key (concat bs))"
  using assms
proof (induction bs arbitrary: d)
  case (Cons b bs)
  have "distinct (map entry_key (concat bs))"
  proof (rule Cons.IH [where d = "Suc d"])
    fix i assume "i < length bs"
    then show "distinct (map entry_key (bs ! i))"
      using Cons.prems(1) [of "Suc i"] by simp
  next
    fix i e assume "i < length bs" "e \<in> set (bs ! i)"
    then show "h (entry_key e) = i + Suc d"
      using Cons.prems(2) [of "Suc i" e] by simp
  qed
  moreover have "distinct (map entry_key b)" using Cons.prems(1) [of 0] by simp
  moreover have "entry_key ` set b \<inter> entry_key ` set (concat bs) = {}"
    using Cons.prems(2) [of 0] Cons.prems(2) [of "Suc _"]
    by (fastforce simp: in_set_conv_nth)
  ultimately show ?case by simp
qed simp

lemma keys_distinct:
  assumes "ht_invar ht"
  shows "distinct (map entry_key (concat (buckets ht)))"
proof (rule distinct_concat_keys [where h = "bucket_of ht" and d = 0])
  fix i assume "i < length (buckets ht)"
  then show "distinct (map entry_key (buckets ht ! i))"
    using assms by (simp add: chain_keys_distinct)
next
  fix i e assume "i < length (buckets ht)" "e \<in> set (buckets ht ! i)"
  then show "bucket_of ht (entry_key e) = i + 0"
    using assms by (simp add: chain_key_bucket)
qed

lemma hashtable_dom:
  "ht_invar ht \<Longrightarrow> dom (hashtable_get ht) = entry_key ` set (concat (buckets ht))"
  by (auto simp: dom_def hashtable_get_Some)

lemma ht_size_card:
  assumes "ht_invar ht"
  shows "ht_size ht = int (card (dom (hashtable_get ht)))"
proof -
  have "card (dom (hashtable_get ht)) = length (map entry_key (concat (buckets ht)))"
    using distinct_card [OF keys_distinct [OF assms]] by (simp add: hashtable_dom [OF assms])
  then show ?thesis using assms by (simp add: ht_invar_def)
qed

section \<open>Sweeping\<close>

abbreviation kept :: "('v \<Rightarrow> bool) \<Rightarrow> 'v entry list \<Rightarrow> 'v entry list" where
  "kept P c \<equiv> filter (\<lambda>e. \<not> P (entry_value e)) c"

abbreviation dropped :: "('v \<Rightarrow> bool) \<Rightarrow> 'v entry list \<Rightarrow> 'v entry list" where
  "dropped P c \<equiv> filter (\<lambda>e. P (entry_value e)) c"

lemma chain_sweep_eq:
  "chain_sweep ht P c m =
   (kept P c, int (length (dropped P c)), fold (free_entry ht) (dropped P c) m)"
  by (induction ht P c m rule: chain_sweep.induct) auto

lemma buckets_sweep_eq:
  "buckets_sweep ht P bs m =
   (map (kept P) bs, int (length (dropped P (concat bs))),
    fold (free_entry ht) (dropped P (concat bs)) m)"
  by (induction ht P bs m rule: buckets_sweep.induct) (auto simp: chain_sweep_eq)

lemma sweep_table_eq:
  "sweep_table P ht m =
   (int (length (dropped P (concat (buckets ht)))),
    ht\<lparr>buckets := map (kept P) (buckets ht),
       ht_size := ht_size ht - int (length (dropped P (concat (buckets ht))))\<rparr>,
    fold (free_entry ht) (dropped P (concat (buckets ht))) m)"
  by (simp add: sweep_table_def buckets_sweep_eq)

lemma concat_map_filter: "concat (map (filter P) xss) = filter P (concat xss)"
  by (induction xss) auto

lemma length_kept_dropped:
  "length (kept P c) + length (dropped P c) = length c"
  by (induction c) auto

lemma sweep_table_invar:
  assumes "ht_invar ht" and "sweep_table P ht m = (n, ht', m')"
  shows "ht_invar ht'"
proof -
  from assms(2) have ht': "ht' = ht\<lparr>buckets := map (kept P) (buckets ht), ht_size :=
      ht_size ht - int (length (dropped P (concat (buckets ht))))\<rparr>"
    by (auto simp: sweep_table_eq)
  have "chains_hashed ht'"
    using assms(1) by (auto simp: ht' chains_hashed_def ht_invar_def)
  moreover have "chains_distinct ht'"
    using assms(1) by (auto simp: ht' chains_distinct_def ht_invar_def distinct_map_filter)
  moreover have "ht_size ht' = int (length (concat (buckets ht')))"
    using assms(1) length_kept_dropped [of P "concat (buckets ht)"]
    by (simp add: ht' ht_invar_def concat_map_filter)
  ultimately show ?thesis
    using assms(1) by (simp add: ht' ht_invar_def)
qed

lemma sweep_table_get:
  assumes "ht_invar ht" and "sweep_table P ht m = (n, ht', m')"
  shows "hashtable_get ht' =
         (\<lambda>k. Option.bind (hashtable_get ht k) (\<lambda>v. if P v then None else Some v))"
proof
  fix k
  from assms(2) have "hashtable_get ht' k = chain_find k (kept P (buckets ht ! bucket_of ht k))"
    using bucket_of_less [OF assms(1), of k] by (auto simp: sweep_table_eq hashtable_get_def)
  also have "\<dots> = Option.bind (hashtable_get ht k) (\<lambda>v. if P v then None else Some v)"
    unfolding hashtable_get_def
    by (rule chain_find_filter [OF chain_keys_distinct [OF assms(1) bucket_of_less [OF assms(1)]]])
  finally show "hashtable_get ht' k =
      Option.bind (hashtable_get ht k) (\<lambda>v. if P v then None else Some v)" .
qed

lemma sweep_table_count: "sweep_table P ht m = (n, ht', m') \<Longrightarrow> n = ht_size ht - ht_size ht'"
  by (auto simp: sweep_table_eq)

section \<open>The table implements the interface\<close>

interpretation ht: keyed_table ht_invar hashtable_get ht_size
  hashtable_add hashtable_del hashtable_modify sweep_table
proof
  show "ht_invar t \<Longrightarrow> finite (dom (hashtable_get t))" for t :: "'a hashtable"
    by (simp add: hashtable_dom)
  show "ht_invar t \<Longrightarrow> ht_size t = int (card (dom (hashtable_get t)))" for t :: "'a hashtable"
    by (rule ht_size_card)
  show "hashtable_get t k = Some w \<Longrightarrow> hashtable_add t k v m = (Some w, t, m)"
    for t :: "'a hashtable" and k v w m
    by (simp add: hashtable_add_def hashtable_get_def Let_def)
  show "r = None \<and> (t' = t \<or> ht_invar t' \<and> hashtable_get t' = (hashtable_get t)(k \<mapsto> v))"
    if "ht_invar t" "hashtable_get t k = None" "hashtable_add t k v m = (r, t', m')"
    for t :: "'a hashtable" and k v m r t' m'
    using hashtable_add_get [OF that] hashtable_add_invar [OF that(1,3)] by blast
  show "ht_invar t' \<and> hashtable_get t' = (hashtable_get t)(k := None) \<and>
      n = (if hashtable_get t k = None then 0 else 1)"
    if "ht_invar t" "hashtable_del t k m = (n, t', m')" for t :: "'a hashtable" and k m n t' m'
    using hashtable_del_invar [OF that] hashtable_del_get [OF that]
      hashtable_del_cases [OF that(2), of "n = (if hashtable_get t k = None then 0 else 1)"]
    by auto
  show "ht_invar (hashtable_modify t k f) \<and>
      hashtable_get (hashtable_modify t k f) =
      (hashtable_get t)(k := map_option f (hashtable_get t k))"
    if "ht_invar t" for t :: "'a hashtable" and k f
    using hashtable_modify_invar [OF that] hashtable_modify_get [OF that] by blast
  show "ht_invar t' \<and> n = ht_size t - ht_size t' \<and>
      hashtable_get t' =
      (\<lambda>k. Option.bind (hashtable_get t k) (\<lambda>v. if P v then None else Some v))"
    if "ht_invar t" "sweep_table P t m = (n, t', m')" for t :: "'a hashtable" and P m n t' m'
    using sweep_table_invar [OF that] sweep_table_get [OF that] sweep_table_count [OF that(2)]
    by blast
qed

section \<open>Ledger\<close>

lemma free_entry_live [ledger]:
  "frees w ht \<Longrightarrow> live (free_entry ht e m) = live m - (2 + w (entry_value e))"
  by (simp add: free_entry_def frees_def)

lemma fold_free_live:
  "frees w ht \<Longrightarrow>
   live (fold (free_entry ht) es m) = live m - (\<Sum>e \<leftarrow> es. 2 + w (entry_value e))"
  by (induction es arbitrary: m) (auto simp: free_entry_live)

lemma free_chain_fold: "free_chain ht c = fold (free_entry ht) c"
  by (induction c) (auto simp: fun_eq_iff)

lemma free_buckets_fold: "free_buckets ht bs = fold (free_entry ht) (concat bs)"
  by (induction bs) (auto simp: fun_eq_iff free_chain_fold)

lemma hashtable_destroy_live:
  "frees w ht \<Longrightarrow> live (hashtable_destroy (Some ht) m) = live m - ht_blocks w ht"
  by (simp add: hashtable_destroy_def free_buckets_fold fold_free_live ht_blocks_def)

lemma frees_update [simp]:
  "frees w (ht\<lparr>buckets := bs\<rparr>) = frees w ht" "frees w (ht\<lparr>ht_size := n\<rparr>) = frees w ht"
  by (simp_all add: frees_def free_value_def)

lemma set_chain_frees [simp]: "frees w (set_chain ht b c) = frees w ht"
  by (simp add: set_chain_def)

lemma hashtable_create_live:
  "hashtable_create n m = (r, m') \<Longrightarrow>
   live m' = live m + (case r of None \<Rightarrow> 0 | Some ht \<Rightarrow> ht_blocks w ht)"
  by (auto simp: hashtable_create_def ht_blocks_def malloc_live
           split: if_splits prod.splits bool.splits)

lemma hashtable_add_live:
  assumes "ht_invar ht" and "hashtable_add ht k v m = (r, ht', m')"
  shows "live m' - ht_blocks w ht' =
         live m - ht_blocks w ht - (if ht' = ht then 0 else w v)"
  using assms
proof (cases rule: hashtable_add_cases)
  case stored
  have b: "bucket_of ht k < length (buckets ht)" by (rule bucket_of_less [OF assms(1)])
  have "ht' \<noteq> ht"
    using hashtable_add_unchanged [OF assms] stored(4) by (simp add: set_chain_def)
  with stored b show ?thesis by (simp add: set_chain_blocks)
qed simp_all

lemma hashtable_del_live:
  assumes "ht_invar ht" and "frees w ht" and "hashtable_del ht k m = (n, ht', m')"
  shows "live m' - ht_blocks w ht' = live m - ht_blocks w ht"
  using assms(3)
proof (cases rule: hashtable_del_cases)
  case (found pre e post)
  with bucket_of_less [OF assms(1)] assms(2) show ?thesis
    by (simp add: set_chain_blocks free_entry_live)
qed simp

lemma sum_list_kept_dropped:
  "(\<Sum>e \<leftarrow> kept P c. g e) + (\<Sum>e \<leftarrow> dropped P c. g e) = (\<Sum>e \<leftarrow> c. g e :: int)"
  by (induction c) auto

lemma sweep_table_live:
  assumes "frees w ht" and "sweep_table P ht m = (n, ht', m')"
  shows "live m' - ht_blocks w ht' = live m - ht_blocks w ht"
  using assms sum_list_kept_dropped [of "\<lambda>e. 2 + w (entry_value e)" P "concat (buckets ht)"]
  by (auto simp: sweep_table_eq fold_free_live ht_blocks_def concat_map_filter)

section \<open>Snapshot of the values\<close>

lemma collect_values_safe:
  "\<lbrakk> \<And>xs. vs = Some xs \<Longrightarrow> xs \<noteq> [] \<and> length xs \<le> cap \<rbrakk> \<Longrightarrow>
   \<exists>vs' m'. collect_values es vs cap m = Some (vs', m') \<and>
     live m' = live m + (if vs = None \<and> vs' \<noteq> None then 1 else 0) \<and>
     (vs \<noteq> None \<longrightarrow> vs' \<noteq> None) \<and>
     (\<exists>n \<le> length es. case_option [] id vs' = case_option [] id vs @ map entry_value (take n es))"
proof (induction es vs cap m rule: collect_values.induct)
  case (1 vs cap m)
  then show ?case by auto
next
  case (2 e es cap m)
  show ?case
  proof (cases "malloc m")
    case (Pair ok m1)
    show ?thesis
    proof (cases ok)
      case True
      with Pair have mal: "malloc m = (True, m1)" by simp
      have st: "values_store [] 1 (entry_value e) = Some [entry_value e]"
        by (simp add: values_store_def)
      from "2.IH" [OF mal [symmetric] _ st] obtain vs' m' n where
        "collect_values es (Some [entry_value e]) 1 m1 = Some (vs', m')"
        "live m' = live m1" "vs' \<noteq> None" "n \<le> length es"
        "case_option [] id vs' = [entry_value e] @ map entry_value (take n es)"
        by auto
      with mal st show ?thesis
        by (auto simp: malloc_live(1) [OF mal] intro!: exI [of _ "Suc n"])
    next
      case False
      with Pair malloc_live(2) [of m m1] show ?thesis by (auto intro: exI [of _ 0])
    qed
  qed
next
  case (3 e es xs cap m)
  from "3.prems" have xs: "xs \<noteq> []" "length xs \<le> cap" by auto
  show ?case
  proof (cases "length xs = cap")
    case True
    show ?thesis
    proof (cases "mrealloc m")
      case (Pair ok m1)
      note re = mrealloc_live [OF Pair]
      show ?thesis
      proof (cases ok)
        case ok: True
        have st: "values_store xs (cap * 2) (entry_value e) = Some (xs @ [entry_value e])"
          using xs True by (cases xs) (auto simp: values_store_def)
        from Pair ok have eq: "(True, m1) = mrealloc m" by simp
        from xs True have le: "length xs + 1 \<le> cap * 2" by (cases xs) auto
        from "3.IH"(1) [OF True eq _ st] le obtain vs' m' n where
          "collect_values es (Some (xs @ [entry_value e])) (cap * 2) m1 = Some (vs', m')"
          "live m' = live m1" "vs' \<noteq> None" "n \<le> length es"
          "case_option [] id vs' = (xs @ [entry_value e]) @ map entry_value (take n es)"
          by auto
        with True eq [symmetric] st re show ?thesis by (auto intro!: exI [of _ "Suc n"])
      next
        case False
        with True Pair re show ?thesis by (auto intro: exI [of _ 0])
      qed
    qed
  next
    case False
    then have st: "values_store xs cap (entry_value e) = Some (xs @ [entry_value e])"
      using xs by (simp add: values_store_def)
    from "3.IH"(2) [OF False st] xs False obtain vs' m' n where
      "collect_values es (Some (xs @ [entry_value e])) cap m = Some (vs', m')"
      "live m' = live m" "vs' \<noteq> None" "n \<le> length es"
      "case_option [] id vs' = (xs @ [entry_value e]) @ map entry_value (take n es)"
      by auto
    with False st show ?thesis by (auto intro!: exI [of _ "Suc n"])
  qed
qed

lemma collect_values_plenty:
  "\<lbrakk> outcomes m = []; \<And>xs. vs = Some xs \<Longrightarrow> xs \<noteq> [] \<and> length xs \<le> cap; es = [] \<longrightarrow> vs \<noteq> None \<rbrakk> \<Longrightarrow>
   \<exists>m'. collect_values es vs cap m =
     Some (Some (case_option [] id vs @ map entry_value es), m')"
proof (induction es vs cap m rule: collect_values.induct)
  case (2 e es cap m)
  then show ?case
    using "2.IH" [of True "m\<lparr>live := live m + 1\<rparr>" "[entry_value e]"]
    by (cases "es = []") (auto simp: malloc_def values_store_def)
next
  case (3 e es xs cap m)
  then show ?case
    using "3.IH"(1) [of True m "xs @ [entry_value e]"]
    by (cases xs) (auto simp: mrealloc_def values_store_def)
qed auto

section \<open>Runs of operations\<close>

text \<open>
  A run is any sequence of insertions, deletions, changes and sweeps. It reports the values
  the table took over (an insertion that finds the key or runs out of memory takes none).
\<close>

datatype 'v ht_op =
    OpAdd cstring 'v
  | OpDel cstring
  | OpModify cstring "'v \<Rightarrow> 'v"
  | OpSweep "'v \<Rightarrow> bool"

fun ht_step :: "'v ht_op \<Rightarrow> 'v hashtable \<Rightarrow> mem \<Rightarrow> 'v list \<times> 'v hashtable \<times> mem" where
  "ht_step (OpAdd k v) ht m =
     (let (r, ht', m') = hashtable_add ht k v m
      in (if ht_size ht' = ht_size ht then [] else [v], ht', m'))"
| "ht_step (OpDel k) ht m = (let (n, ht', m') = hashtable_del ht k m in ([], ht', m'))"
| "ht_step (OpModify k f) ht m = ([], hashtable_modify ht k f, m)"
| "ht_step (OpSweep P) ht m = (let (n, ht', m') = sweep_table P ht m in ([], ht', m'))"

fun ht_run :: "'v ht_op list \<Rightarrow> 'v hashtable \<Rightarrow> mem \<Rightarrow> 'v list \<times> 'v hashtable \<times> mem" where
  "ht_run [] ht m = ([], ht, m)"
| "ht_run (x # xs) ht m =
     (let (taken, ht', m') = ht_step x ht m;
          (rest, ht'', m'') = ht_run xs ht' m'
      in (taken @ rest, ht'', m''))"

text \<open>The same operations on the abstract map.\<close>

fun map_step :: "'v ht_op \<Rightarrow> (cstring \<rightharpoonup> 'v) \<Rightarrow> (cstring \<rightharpoonup> 'v)" where
  "map_step (OpAdd k v) M = (if M k = None then M(k \<mapsto> v) else M)"
| "map_step (OpDel k) M = M(k := None)"
| "map_step (OpModify k f) M = M(k := map_option f (M k))"
| "map_step (OpSweep P) M = (\<lambda>k. Option.bind (M k) (\<lambda>v. if P v then None else Some v))"

text \<open>A free callback never touches the outcomes of later allocations.\<close>

definition frees_quietly :: "'v hashtable \<Rightarrow> bool" where
  "frees_quietly ht \<longleftrightarrow> (\<forall>v m. outcomes (free_value ht v m) = outcomes m)"

lemma ht_step_invar: "ht_invar ht \<Longrightarrow> ht_step x ht m = (t, ht', m') \<Longrightarrow> ht_invar ht'"
  by (cases x) (auto split: prod.splits dest: ht.add_invar ht.del_law ht.modify_law ht.sweep_law)

lemma ht_run_invar: "ht_invar ht \<Longrightarrow> ht_run xs ht m = (t, ht', m') \<Longrightarrow> ht_invar ht'"
  by (induction xs arbitrary: ht m t) (auto split: prod.splits dest: ht_step_invar)

lemma ht_step_free_fn: "ht_step x ht m = (t, ht', m') \<Longrightarrow> free_fn ht' = free_fn ht"
  by (cases x) (auto split: prod.splits option.splits bool.splits
      simp: hashtable_add_def hashtable_del_def hashtable_modify_def sweep_table_def Let_def)

lemma frees_cong: "free_fn ht' = free_fn ht \<Longrightarrow> frees w ht' = frees w ht"
  by (simp add: frees_def free_value_def)

lemma frees_quietly_cong: "free_fn ht' = free_fn ht \<Longrightarrow> frees_quietly ht' = frees_quietly ht"
  by (simp add: frees_quietly_def free_value_def)

lemma fold_free_outcomes:
  "frees_quietly ht \<Longrightarrow> outcomes (fold (free_entry ht) es m) = outcomes m"
  by (induction es arbitrary: m) (auto simp: free_entry_def frees_quietly_def mfree_def)

lemma hashtable_add_plenty:
  assumes "ht_invar ht" and "outcomes m = []" and "hashtable_get ht k = None"
    and "hashtable_add ht k v m = (r, ht', m')"
  shows "hashtable_get ht' = (hashtable_get ht)(k \<mapsto> v) \<and> outcomes m' = []"
proof -
  from assms(2-4) have "ht_size ht' = ht_size ht + 1" and o: "outcomes m' = []"
    by (auto simp: hashtable_add_def hashtable_get_def Let_def malloc_def)
  then have "ht' \<noteq> ht" by auto
  with o hashtable_add_get [OF assms(1,3,4)] show ?thesis by blast
qed

lemma ht_step_map:
  assumes "ht_invar ht" and "frees_quietly ht" and "outcomes m = []"
    and "ht_step x ht m = (t, ht', m')"
  shows "hashtable_get ht' = map_step x (hashtable_get ht) \<and> outcomes m' = []"
proof (cases x)
  case (OpAdd k v)
  with assms(4) obtain r where a: "hashtable_add ht k v m = (r, ht', m')"
    by (auto split: prod.splits)
  show ?thesis
  proof (cases "hashtable_get ht k")
    case None
    with hashtable_add_plenty [OF assms(1,3) None a] OpAdd show ?thesis by simp
  next
    case (Some w)
    with a ht.add_present [OF Some] OpAdd assms(3) show ?thesis by auto
  qed
next
  case (OpDel k)
  with assms(4) obtain n where d: "hashtable_del ht k m = (n, ht', m')"
    by (auto split: prod.splits)
  then have "outcomes m' = outcomes m"
    using assms(2) by (cases rule: hashtable_del_cases)
      (auto simp: free_entry_def frees_quietly_def mfree_def)
  with OpDel assms(3) hashtable_del_get [OF assms(1) d] show ?thesis by simp
next
  case (OpModify k f)
  with assms hashtable_modify_get [OF assms(1)] show ?thesis by auto
next
  case (OpSweep P)
  with assms(4) obtain n where sw: "sweep_table P ht m = (n, ht', m')"
    by (auto split: prod.splits)
  then have "outcomes m' = outcomes m"
    using fold_free_outcomes [OF assms(2)] by (auto simp: sweep_table_eq)
  with OpSweep assms(3) sweep_table_get [OF assms(1) sw] show ?thesis by simp
qed

lemma ht_run_map:
  "\<lbrakk> ht_invar ht; frees_quietly ht; outcomes m = []; ht_run xs ht m = (t, ht', m') \<rbrakk> \<Longrightarrow>
   hashtable_get ht' = fold map_step xs (hashtable_get ht)"
proof (induction xs arbitrary: ht m t)
  case (Cons x xs)
  obtain t1 ht1 m1 where s: "ht_step x ht m = (t1, ht1, m1)" by (cases "ht_step x ht m")
  with Cons.prems(4) obtain t2 where r: "ht_run xs ht1 m1 = (t2, ht', m')"
    by (auto split: prod.splits)
  from ht_step_map [OF Cons.prems(1-3) s]
  have m: "hashtable_get ht1 = map_step x (hashtable_get ht)" "outcomes m1 = []" by auto
  from Cons.IH [OF ht_step_invar [OF Cons.prems(1) s] _ m(2) r] m(1)
  show ?case
    using Cons.prems(2) frees_quietly_cong [OF ht_step_free_fn [OF s]] by simp
qed simp

lemma ht_step_live:
  assumes "ht_invar ht" and "frees w ht" and "ht_step x ht m = (t, ht', m')"
    and "\<And>k f v. x = OpModify k f \<Longrightarrow> w (f v) = w v"
  shows "live m' - ht_blocks w ht' = live m - ht_blocks w ht - (\<Sum>v \<leftarrow> t. w v)"
proof (cases x)
  case (OpAdd k v)
  with assms(3) obtain r where a: "hashtable_add ht k v m = (r, ht', m')"
    and t: "t = (if ht_size ht' = ht_size ht then [] else [v])"
    by (auto split: prod.splits)
  with hashtable_add_live [OF assms(1) a, of w] hashtable_add_unchanged [OF assms(1) a]
  show ?thesis by auto
next
  case (OpDel k)
  with assms show ?thesis by (auto split: prod.splits dest: hashtable_del_live)
next
  case (OpModify k f)
  have sum: "(\<Sum>e \<leftarrow> chain_modify k f c. 2 + w (entry_value e)) = (\<Sum>e \<leftarrow> c. 2 + w (entry_value e))"
    for c using assms(4) [OF OpModify] by (induction c) auto
  have b: "bucket_of ht k < length (buckets ht)" by (rule bucket_of_less [OF assms(1)])
  have "ht_blocks w (hashtable_modify ht k f) = ht_blocks w ht"
    by (simp add: hashtable_modify_set_chain set_chain_blocks [OF b] sum)
  with assms(3) OpModify show ?thesis by auto
next
  case (OpSweep P)
  with assms show ?thesis by (auto split: prod.splits dest: sweep_table_live)
qed

lemma ht_run_live:
  assumes "ht_invar ht" and "frees w ht" and "ht_run xs ht m = (t, ht', m')"
    and "\<And>k f v. OpModify k f \<in> set xs \<Longrightarrow> w (f v) = w v"
  shows "live m' - ht_blocks w ht' = live m - ht_blocks w ht - (\<Sum>v \<leftarrow> t. w v) \<and> frees w ht'"
  using assms
proof (induction xs arbitrary: ht m t)
  case (Cons x xs)
  obtain t1 ht1 m1 where s: "ht_step x ht m = (t1, ht1, m1)" by (cases "ht_step x ht m")
  with Cons.prems(3) obtain t2 where r: "ht_run xs ht1 m1 = (t2, ht', m')" and t: "t = t1 @ t2"
    by (auto split: prod.splits)
  have f1: "frees w ht1"
    using Cons.prems(2) frees_cong [OF ht_step_free_fn [OF s]] by simp
  have "live m1 - ht_blocks w ht1 = live m - ht_blocks w ht - (\<Sum>v \<leftarrow> t1. w v)"
    by (rule ht_step_live [OF Cons.prems(1,2) s]) (use Cons.prems(4) in auto)
  moreover have "live m' - ht_blocks w ht' = live m1 - ht_blocks w ht1 - (\<Sum>v \<leftarrow> t2. w v)
      \<and> frees w ht'"
    by (rule Cons.IH [OF ht_step_invar [OF Cons.prems(1) s] f1 r]) (use Cons.prems(4) in auto)
  ultimately show ?case using t by simp
qed simp

lemma ht_invar_free_fn [simp]: "ht_invar (ht\<lparr>free_fn := f\<rparr>) = ht_invar ht"
proof -
  have "bucket_of (ht\<lparr>free_fn := f\<rparr>) = bucket_of ht" by (rule bucket_of_cong) simp
  then show ?thesis by (simp add: ht_invar_def chains_hashed_def chains_distinct_def)
qed

lemma hashtable_get_free_fn [simp]: "hashtable_get (ht\<lparr>free_fn := f\<rparr>) = hashtable_get ht"
proof -
  have "bucket_of (ht\<lparr>free_fn := f\<rparr>) = bucket_of ht" by (rule bucket_of_cong) simp
  then show ?thesis by (simp add: hashtable_get_def fun_eq_iff)
qed

section \<open>Properties\<close>

text \<open>
  C11. Refinement: a table created with any positive bucket count and any quiet free callback
  behaves as a finite map from C strings. After any sequence of insertions, deletions, changes
  through a looked-up pointer and sweeps, with memory available, a lookup returns what the same
  sequence gives on the abstract map, where an insertion never overwrites.
\<close>

theorem hashtable_refines_map:
  assumes "hashtable_create n m0 = (Some ht, m)" and "outcomes m = []"
    and "frees_quietly (ht\<lparr>free_fn := f\<rparr>)"
    and "ht_run ops (ht\<lparr>free_fn := f\<rparr>) m = (taken, ht', m')"
  shows "hashtable_get ht' = fold map_step ops Map.empty"
proof -
  from hashtable_create_invar [OF assms(1)]
  have "ht_invar (ht\<lparr>free_fn := f\<rparr>)" and "hashtable_get (ht\<lparr>free_fn := f\<rparr>) = Map.empty"
    by auto
  with ht_run_map [OF _ assms(3,2,4)] show ?thesis by simp
qed

theorem hashtable_refines_map_witness:
  "\<exists>ht m taken ht' m'.
     hashtable_create 4 \<lparr>outcomes = [], live = 0\<rparr> = (Some ht, m) \<and>
     ht_run [OpAdd (str ''a'') 1, OpAdd (str ''a'') 2, OpAdd (str ''b'') (3 :: nat), OpDel (str ''a'')]
       ht m = (taken, ht', m') \<and>
     hashtable_get ht' (str ''b'') = Some 3 \<and> hashtable_get ht' (str ''a'') = None"
proof -
  let ?ops = "[OpAdd (str ''a'') 1, OpAdd (str ''a'') 2, OpAdd (str ''b'') (3 :: nat),
               OpDel (str ''a'')]"
  let ?ht = "\<lparr>nbucket = 4, ht_size = 0, buckets = replicate 4 [], free_fn = None\<rparr> :: nat hashtable"
  have c: "hashtable_create 4 \<lparr>outcomes = [], live = 0\<rparr> = (Some ?ht, \<lparr>outcomes = [], live = 2\<rparr>)"
    by (simp add: hashtable_create_def malloc_def)
  obtain taken ht' m' where r: "ht_run ?ops ?ht \<lparr>outcomes = [], live = 2\<rparr> = (taken, ht', m')"
    by (cases "ht_run ?ops ?ht \<lparr>outcomes = [], live = 2\<rparr>")
  have q: "frees_quietly (?ht\<lparr>free_fn := None\<rparr>)"
    by (simp add: frees_quietly_def free_value_def mfree_def)
  have "hashtable_get ht' = fold map_step ?ops Map.empty"
    using hashtable_refines_map [OF c _ q, of ?ops taken ht' m'] r by simp
  with c r show ?thesis by (auto simp: str_def)
qed

text \<open>
  C19. Invariant: whatever allocations fail, in every state reached from a created table the
  bucket chains hold unique keys in the bucket their hash selects, and \<open>size\<close> is the number
  of keys a lookup finds.
\<close>

theorem hashtable_size_counts_keys:
  assumes "hashtable_create n m0 = (Some ht, m)"
    and "ht_run ops (ht\<lparr>free_fn := f\<rparr>) m = (taken, ht', m')"
  shows "ht_invar ht' \<and> ht_size ht' = int (card (dom (hashtable_get ht')))"
proof -
  from hashtable_create_invar [OF assms(1)] have "ht_invar (ht\<lparr>free_fn := f\<rparr>)" by simp
  from ht_run_invar [OF this assms(2)] show ?thesis by (simp add: ht_size_card)
qed

theorem hashtable_size_counts_keys_witness:
  "\<exists>ht m taken ht' m'.
     hashtable_create 2 \<lparr>outcomes = [True, True, False, True, True, True, False], live = 0\<rparr>
       = (Some ht, m) \<and>
     ht_run [OpAdd (str ''a'') (1 :: nat), OpAdd (str ''b'') 2, OpAdd (str ''c'') 3] ht m
       = (taken, ht', m') \<and>
     ht_invar ht' \<and> ht_size ht' = int (card (dom (hashtable_get ht'))) \<and> ht_size ht' = 1"
proof -
  let ?ops = "[OpAdd (str ''a'') (1 :: nat), OpAdd (str ''b'') 2, OpAdd (str ''c'') 3]"
  let ?ht = "\<lparr>nbucket = 2, ht_size = 0, buckets = replicate 2 [], free_fn = None\<rparr> :: nat hashtable"
  let ?m = "\<lparr>outcomes = [False, True, True, True, False], live = 2\<rparr>"
  have c: "hashtable_create 2 \<lparr>outcomes = [True, True, False, True, True, True, False], live = 0\<rparr>
      = (Some ?ht, ?m)"
    by (simp add: hashtable_create_def malloc_def)
  obtain taken ht' m' where r: "ht_run ?ops ?ht ?m = (taken, ht', m')"
    by (cases "ht_run ?ops ?ht ?m")
  have "ht_size (fst (snd (ht_run ?ops ?ht ?m))) = 1" by code_simp
  with hashtable_size_counts_keys [OF c, of ?ops None taken ht' m'] c r show ?thesis by auto
qed

text \<open>
  C15. Ledger: from creation to \<open>hashtable_destroy\<close>, whatever allocations fail in between,
  the table gives back every block it allocated and frees exactly once each value it took over
  (\<open>w v\<close> blocks for a value \<open>v\<close>, as the free callback counts them): no leak, no double free.
\<close>

theorem hashtable_no_leak:
  assumes "hashtable_create n m0 = (Some ht, m)" and "frees w (ht\<lparr>free_fn := f\<rparr>)"
    and "ht_run ops (ht\<lparr>free_fn := f\<rparr>) m = (taken, ht', m')"
    and "\<And>k g v. OpModify k g \<in> set ops \<Longrightarrow> w (g v) = w v"
  shows "live (hashtable_destroy (Some ht') m') = live m0 - (\<Sum>v \<leftarrow> taken. w v)"
proof -
  from hashtable_create_invar [OF assms(1)] have inv: "ht_invar (ht\<lparr>free_fn := f\<rparr>)" by simp
  have "ht_blocks w (ht\<lparr>free_fn := f\<rparr>) = ht_blocks w ht" by (simp add: ht_blocks_def)
  moreover have "live m' - ht_blocks w ht' =
      live m - ht_blocks w (ht\<lparr>free_fn := f\<rparr>) - (\<Sum>v \<leftarrow> taken. w v) \<and> frees w ht'"
    by (rule ht_run_live [OF inv assms(2,3)]) (rule assms(4))
  ultimately have "live m' - ht_blocks w ht' = live m0 - (\<Sum>v \<leftarrow> taken. w v)"
    and "frees w ht'"
    using hashtable_create_live [OF assms(1), of w] by auto
  then show ?thesis by (simp add: hashtable_destroy_live)
qed

theorem hashtable_no_leak_witness:
  "\<exists>ht m taken ht' m'.
     hashtable_create 2 \<lparr>outcomes = [], live = 7\<rparr> = (Some ht, m) \<and>
     ht_run [OpAdd (str ''a'') (1 :: nat), OpAdd (str ''a'') 2] ht m = (taken, ht', m') \<and>
     taken = [1] \<and> live (hashtable_destroy (Some ht') m') = 6"
proof -
  let ?ops = "[OpAdd (str ''a'') (1 :: nat), OpAdd (str ''a'') 2]"
  let ?ht = "\<lparr>nbucket = 2, ht_size = 0, buckets = replicate 2 [], free_fn = None\<rparr> :: nat hashtable"
  let ?m = "\<lparr>outcomes = [], live = 9\<rparr>"
  have c: "hashtable_create 2 \<lparr>outcomes = [], live = 7\<rparr> = (Some ?ht, ?m)"
    by (simp add: hashtable_create_def malloc_def)
  obtain taken ht' m' where r: "ht_run ?ops ?ht ?m = (taken, ht', m')"
    by (cases "ht_run ?ops ?ht ?m")
  have "fst (ht_run ?ops ?ht ?m) = [1]" by code_simp
  with r have t: "taken = [1]" by simp
  have "frees (\<lambda>_. 1) (?ht\<lparr>free_fn := None\<rparr>)" by (simp add: frees_def free_value_def)
  with hashtable_no_leak [OF c, of "\<lambda>_. 1" None ?ops taken ht' m'] r t
  have "live (hashtable_destroy (Some ht') m') = 6" by simp
  with c r t show ?thesis by auto
qed

text \<open>
  C22. Snapshot: \<open>hashtable_values\<close> never stores past the buffer it allocated, whatever
  allocations fail, and the count it reports is the number of values it returns. With memory
  available it returns the value of every key, \<open>size\<close> of them.
\<close>

theorem hashtable_values_snapshot:
  assumes "ht_invar ht"
  shows "\<exists>vs cnt m'. hashtable_values ht m = Some (vs, cnt, m') \<and>
           live m' = live m + (if vs = None then 0 else 1) \<and>
           cnt = int (length (case_option [] id vs)) \<and>
           set (case_option [] id vs) \<subseteq> ran (hashtable_get ht) \<and>
           (outcomes m = [] \<longrightarrow>
              cnt = ht_size ht \<and> set (case_option [] id vs) = ran (hashtable_get ht))"
proof -
  let ?es = "concat (buckets ht)"
  have ran: "ran (hashtable_get ht) = entry_value ` set ?es"
    by (auto simp: ran_def hashtable_get_Some [OF assms])
  from collect_values_safe [of None 0 ?es m] obtain vs m' k where
    c: "collect_values ?es None 0 m = Some (vs, m')"
    and l: "live m' = live m + (if vs = None then 0 else 1)"
    and v: "case_option [] id vs = map entry_value (take k ?es)"
    by auto
  have sub: "set (case_option [] id vs) \<subseteq> ran (hashtable_get ht)"
    using v set_take_subset [of k ?es] ran by auto
  have all: "case_option [] id vs = map entry_value ?es" if "outcomes m = []"
  proof (cases "?es = []")
    case True
    with v show ?thesis by simp
  next
    case False
    with collect_values_plenty [of m None 0 ?es] that c show ?thesis by auto
  qed
  have "hashtable_values ht m = Some (vs, int (length (case_option [] id vs)), m')"
    using c by (cases vs) (simp_all add: hashtable_values_def)
  moreover have "int (length (case_option [] id vs)) = ht_size ht \<and>
      set (case_option [] id vs) = ran (hashtable_get ht)" if "outcomes m = []"
    using all [OF that] ran assms by (simp add: ht_invar_def)
  ultimately show ?thesis using l sub by blast
qed

theorem hashtable_values_snapshot_witness:
  "\<exists>vs cnt m'. hashtable_values
       \<lparr>nbucket = 1, ht_size = 1, buckets = [[\<lparr>entry_key = str ''k'', entry_value = (5 :: nat)\<rparr>]],
        free_fn = None\<rparr> \<lparr>outcomes = [], live = 0\<rparr> = Some (vs, cnt, m') \<and> cnt = 1"
proof -
  let ?ht = "\<lparr>nbucket = 1, ht_size = 1,
      buckets = [[\<lparr>entry_key = str ''k'', entry_value = (5 :: nat)\<rparr>]], free_fn = None\<rparr>"
  have "ht_invar ?ht"
    by (simp add: ht_invar_def chains_hashed_def chains_distinct_def bucket_of_def)
  from hashtable_values_snapshot [OF this, of "\<lparr>outcomes = [], live = 0\<rparr>"]
  show ?thesis by auto
qed

end
