(* ===== verification/Protocol.thy ===== *)
theory Protocol
  imports Libc
begin

text \<open>
  The one-line summaries of a request, \<open>src/protocol.c\<close>: RESP arrays, line protocols
  (memcached, HTTP) and raw bytes. The payload points into the capture buffer, so every read
  goes through \<open>get8\<close> and every store through \<open>buf_store\<close>; the outer \<open>None\<close> of a result
  is a read or store outside its buffer, the inner one the NULL of a failed allocation.

  The lemmas show that for every payload and every reported size within it no access leaves
  its buffer, that a summary is at most \<open>MAX_BUF_SIZE\<close> printable characters, and that the
  loops compute a reference definition over the CRLF terminated lines of the payload.
\<close>

unbundle bit_operations_syntax

section \<open>Summary buffer\<close>

definition MAX_BUF_SIZE :: int where
  "MAX_BUF_SIZE = 127"

text \<open>The bytes stored so far (\<open>len\<close> of them) and the capacity without the final NUL.\<close>

record buf =
  buf_data :: "byte list"
  buf_cap :: int

abbreviation buf_len :: "buf \<Rightarrow> int" where
  "buf_len b \<equiv> int (length (buf_data b))"

definition buf_init :: "int \<Rightarrow> mem \<Rightarrow> buf option \<times> mem" where
  "buf_init sz m =
     (let cap = (if sz > MAX_BUF_SIZE then MAX_BUF_SIZE else sz);
          cap = (if cap < 0 then 0 else cap);
          (ok, m') = malloc m
      in (if ok then Some \<lparr>buf_data = [], buf_cap = cap\<rparr> else None, m'))"

text \<open>\<open>b->data[b->len++] = c\<close> into an allocation of \<open>cap + 1\<close> bytes.\<close>

definition buf_store :: "buf \<Rightarrow> byte \<Rightarrow> buf option" where
  "buf_store b c =
     (if buf_len b < buf_cap b + 1 then Some (b\<lparr>buf_data := buf_data b @ [c]\<rparr>) else None)"

definition printable :: "byte \<Rightarrow> byte" where
  "printable c = (if c \<ge> 0x20 \<and> c < 0x7f then c else 46)"

text \<open>The loop of \<open>buf_append\<close>: \<open>n\<close> more bytes from \<open>src[i]\<close> on.\<close>

fun append_loop :: "buf \<Rightarrow> byte list \<Rightarrow> nat \<Rightarrow> nat \<Rightarrow> buf option" where
  "append_loop b src i 0 = Some b"
| "append_loop b src i (Suc n) = do {
     c \<leftarrow> get8 src i;
     b' \<leftarrow> buf_store b (printable c);
     append_loop b' src (i + 1) n
   }"

definition buf_append :: "buf \<Rightarrow> byte list \<Rightarrow> int \<Rightarrow> buf option" where
  "buf_append b src n =
     (let room = buf_cap b - buf_len b;
          n' = (if n > room then room else n)
      in append_loop b src 0 (nat n'))"

text \<open>\<open>b.data[b.len] = 0\<close>, which must stay inside the allocation.\<close>

definition buf_finish :: "buf \<Rightarrow> cstring option" where
  "buf_finish b = (if buf_len b < buf_cap b + 1 then Some (buf_data b) else None)"

section \<open>Line scan\<close>

text \<open>Positions are indices into the payload; \<open>fin\<close> is the pointer \<open>end\<close>.\<close>

function find_crlf :: "byte list \<Rightarrow> nat \<Rightarrow> nat \<Rightarrow> nat option option" where
  "find_crlf p start fin =
     (if start + 1 < fin then do {
        a \<leftarrow> get8 p start;
        if a = 13 then do {
          b \<leftarrow> get8 p (start + 1);
          if b = 10 then Some (Some start) else find_crlf p (start + 1) fin
        } else find_crlf p (start + 1) fin
      } else Some None)"
  by pat_completeness auto
termination
  by (relation "measure (\<lambda>(p, start, fin). fin - start)") auto

declare find_crlf.simps [simp del]

lemma find_crlf_bounds:
  "find_crlf p start fin = Some (Some pos) \<Longrightarrow> start \<le> pos \<and> pos + 1 < fin"
proof (induction p start fin rule: find_crlf.induct)
  case (1 p start fin)
  note unfold = find_crlf.simps [of p start fin]
  show ?case
  proof (cases "start + 1 < fin")
    case True
    with "1.prems" unfold obtain a where a: "get8 p start = Some a"
      by (auto simp: bind_eq_Some_conv)
    show ?thesis
    proof (cases "a = 13")
      case a13: True
      with "1.prems" unfold True a obtain b where b: "get8 p (start + 1) = Some b"
        by (auto simp: bind_eq_Some_conv)
      with "1.prems" unfold True a a13 "1.IH"(1) [OF True a a13 b] show ?thesis
        by (auto split: if_splits)
    next
      case False
      with "1.prems" unfold True a "1.IH"(2) [OF True a False] show ?thesis by auto
    qed
  next
    case False
    with "1.prems" unfold show ?thesis by simp
  qed
qed

section \<open>Formats\<close>

function redis_loop :: "byte list \<Rightarrow> nat \<Rightarrow> buf \<Rightarrow> nat \<Rightarrow> nat \<Rightarrow> buf option" where
  "redis_loop p fin b start nfields = do {
     r \<leftarrow> find_crlf p start fin;
     case r of
       None \<Rightarrow> Some b
     | Some pos \<Rightarrow>
         if nfields \<noteq> 0 \<and> nfields mod 2 = 0 then do {
           b1 \<leftarrow> (if buf_len b > 0 then buf_append b [32] 1 else Some b);
           b2 \<leftarrow> buf_append b1 (drop start p) (int (pos - start));
           if buf_len b2 \<ge> buf_cap b2 then Some b2
           else redis_loop p fin b2 (pos + 2) (nfields + 1)
         } else redis_loop p fin b (pos + 2) (nfields + 1)
   }"
  by pat_completeness auto
termination
  by (relation "measure (\<lambda>(p, fin, b, start, nfields). fin - start)")
     (auto dest!: find_crlf_bounds)

function memcached_loop :: "byte list \<Rightarrow> nat \<Rightarrow> buf \<Rightarrow> nat \<Rightarrow> buf option" where
  "memcached_loop p fin b start = do {
     r \<leftarrow> find_crlf p start fin;
     case r of
       None \<Rightarrow> Some b
     | Some pos \<Rightarrow> do {
         b1 \<leftarrow> (if buf_len b > 0 then buf_append b [32] 1 else Some b);
         b2 \<leftarrow> buf_append b1 (drop start p) (int (pos - start));
         if buf_len b2 \<ge> buf_cap b2 then Some b2
         else memcached_loop p fin b2 (pos + 2)
       }
   }"
  by pat_completeness auto
termination
  by (relation "measure (\<lambda>(p, fin, b, start). fin - start)")
     (auto dest!: find_crlf_bounds)

declare redis_loop.simps [simp del] memcached_loop.simps [simp del]

type_synonym summary = "(cstring option \<times> mem) option"

definition format_raw :: "byte list \<Rightarrow> int \<Rightarrow> mem \<Rightarrow> summary" where
  "format_raw payload sz m =
     (case buf_init sz m of
        (None, m') \<Rightarrow> Some (None, m')
      | (Some b, m') \<Rightarrow> do {
          b1 \<leftarrow> buf_append b payload sz;
          s \<leftarrow> buf_finish b1;
          Some (Some s, m')
        })"

definition format_memcached :: "byte list \<Rightarrow> int \<Rightarrow> mem \<Rightarrow> summary" where
  "format_memcached payload sz m =
     (case buf_init sz m of
        (None, m') \<Rightarrow> Some (None, m')
      | (Some b, m') \<Rightarrow> do {
          b1 \<leftarrow> memcached_loop payload (nat sz) b 0;
          b2 \<leftarrow> (if buf_len b1 = 0 then buf_append b1 payload sz else Some b1);
          s \<leftarrow> buf_finish b2;
          Some (Some s, m')
        })"

definition format_http :: "byte list \<Rightarrow> int \<Rightarrow> mem \<Rightarrow> summary" where
  "format_http payload sz m = format_memcached payload sz m"

definition format_redis :: "byte list \<Rightarrow> int \<Rightarrow> mem \<Rightarrow> summary" where
  "format_redis payload sz m =
     (if sz \<le> 0 then format_raw payload sz m
      else do {
        c \<leftarrow> get8 payload 0;
        if c \<noteq> 42 then format_memcached payload sz m
        else case buf_init sz m of
          (None, m') \<Rightarrow> Some (None, m')
        | (Some b, m') \<Rightarrow> do {
            b1 \<leftarrow> redis_loop payload (nat sz) b 0 0;
            b2 \<leftarrow> (if buf_len b1 = 0 then buf_append b1 payload sz else Some b1);
            s \<leftarrow> buf_finish b2;
            Some (Some s, m')
          }
      })"

section \<open>Reference definitions\<close>

text \<open>The position of the first CRLF, and the lines a text's CRLFs terminate.\<close>

fun crlf_pos :: "byte list \<Rightarrow> nat option" where
  "crlf_pos (a # b # r) =
     (if a = 13 \<and> b = 10 then Some 0 else map_option Suc (crlf_pos (b # r)))"
| "crlf_pos _ = None"

lemma crlf_pos_bound: "crlf_pos bs = Some n \<Longrightarrow> n + 1 < length bs"
  by (induction bs arbitrary: n rule: crlf_pos.induct) (auto split: if_splits)

function crlf_lines :: "byte list \<Rightarrow> byte list list" where
  "crlf_lines bs =
     (case crlf_pos bs of
        None \<Rightarrow> []
      | Some n \<Rightarrow> take n bs # crlf_lines (drop (n + 2) bs))"
  by pat_completeness auto
termination
  by (relation "measure length") (auto dest: crlf_pos_bound)

declare crlf_lines.simps [simp del]

text \<open>Lines joined by a blank, no blank before the first text; the arguments of a RESP array.\<close>

definition join_step :: "byte list \<Rightarrow> byte list \<Rightarrow> byte list" where
  "join_step acc l = (if acc = [] then map printable l else acc @ 32 # map printable l)"

fun resp_args :: "byte list list \<Rightarrow> byte list list" where
  "resp_args (len # arg # rest) = arg # resp_args rest"
| "resp_args _ = []"

definition summary_cap :: "int \<Rightarrow> nat" where
  "summary_cap sz = nat (min MAX_BUF_SIZE (max 0 sz))"

text \<open>What the formats promise: the joined text cut at the capacity, or the raw bytes.\<close>

definition summary_of :: "int \<Rightarrow> byte list list \<Rightarrow> byte list \<Rightarrow> cstring" where
  "summary_of sz ls payload =
     (let t = take (summary_cap sz) (foldl join_step [] ls)
      in if t = [] then map printable (take (summary_cap sz) payload) else t)"

text \<open>The lines the RESP loop takes when it stands at line number \<open>f\<close>.\<close>

fun pick_args :: "nat \<Rightarrow> byte list list \<Rightarrow> byte list list" where
  "pick_args f [] = []"
| "pick_args f (l # ls) =
     (if f \<noteq> 0 \<and> f mod 2 = 0 then l # pick_args (f + 1) ls else pick_args (f + 1) ls)"

section \<open>Lemmas\<close>

definition buf_ok :: "buf \<Rightarrow> bool" where
  "buf_ok b \<longleftrightarrow> buf_len b \<le> buf_cap b"

abbreviation filled :: "buf \<Rightarrow> byte list \<Rightarrow> buf" where
  "filled b acc \<equiv> b\<lparr>buf_data := take (nat (buf_cap b)) acc\<rparr>"

lemma printable_range: "0x20 \<le> printable c \<and> printable c < 0x7f"
  by (simp add: printable_def)

lemma printable_blank [simp]: "printable 32 = 32"
  by (simp add: printable_def)

lemma append_loop_eq:
  "\<lbrakk> i + n \<le> length src; buf_len b + int n \<le> buf_cap b \<rbrakk> \<Longrightarrow>
   append_loop b src i n = Some (b\<lparr>buf_data := buf_data b @ map printable (take n (drop i src))\<rparr>)"
proof (induction b src i n rule: append_loop.induct)
  case (2 b src i n)
  then have "take (Suc n) (drop i src) = src ! i # take n (drop (i + 1) src)"
    by (simp add: Cons_nth_drop_Suc [symmetric])
  with 2 show ?case by (simp add: get8_def buf_store_def)
qed simp

lemma buf_append_eq:
  assumes "buf_ok b" and "0 \<le> n" and "n \<le> int (length src)"
  shows "buf_append b src n = Some (filled b (buf_data b @ map printable (take (nat n) src)))"
proof -
  let ?room = "buf_cap b - buf_len b"
  let ?k = "nat (if n > ?room then ?room else n)"
  have k: "?k = min (nat n) (nat ?room)" by (auto simp: nat_mono min_def)
  have "buf_append b src n = append_loop b src 0 ?k" by (simp add: buf_append_def Let_def)
  also have "\<dots> = Some (b\<lparr>buf_data := buf_data b @ map printable (take ?k (drop 0 src))\<rparr>)"
    by (rule append_loop_eq) (use assms in \<open>auto simp: buf_ok_def\<close>)
  also have "buf_data b @ map printable (take ?k (drop 0 src)) =
      take (nat (buf_cap b)) (buf_data b @ map printable (take (nat n) src))"
    using assms(1) unfolding k buf_ok_def
    by (auto simp: take_map min.commute nat_diff_distrib' take_all)
  finally show ?thesis .
qed

lemma find_crlf_eq:
  "fin \<le> length p \<Longrightarrow>
   find_crlf p start fin = Some (map_option ((+) start) (crlf_pos (drop start (take fin p))))"
proof (induction p start fin rule: find_crlf.induct)
  case (1 p start fin)
  show ?case
  proof (cases "start + 1 < fin")
    case True
    with "1.prems" have d: "drop start (take fin p) =
        p ! start # p ! (start + 1) # drop (start + 2) (take fin p)"
      by (simp add: Cons_nth_drop_Suc [symmetric] flip: Suc_eq_plus1)
    have d1: "drop (start + 1) (take fin p) = p ! (start + 1) # drop (start + 2) (take fin p)"
      using True "1.prems" by (simp add: Cons_nth_drop_Suc [symmetric] flip: Suc_eq_plus1)
    have r: "get8 p start = Some (p ! start)" "get8 p (start + 1) = Some (p ! (start + 1))"
      using True "1.prems" by (simp_all add: get8_def)
    have suc: "map_option ((+) start) (map_option Suc x) = map_option (\<lambda>a. Suc (start + a)) x" for x
      by (cases x) auto
    show ?thesis
    proof (cases "p ! start = 13")
      case a13: True
      from "1.IH"(1) [OF True r(1) a13 r(2) _ "1.prems"] True r a13 suc show ?thesis
        unfolding find_crlf.simps [of p start fin] d by (auto simp: d1 [simplified])
    next
      case False
      from "1.IH"(2) [OF True r(1) False "1.prems"] True r False suc show ?thesis
        unfolding find_crlf.simps [of p start fin] d by (auto simp: d1 [simplified])
    qed
  next
    case False
    then have "length (drop start (take fin p)) \<le> 1" by auto
    then have "crlf_pos (drop start (take fin p)) = None"
      by (cases "drop start (take fin p)" rule: crlf_pos.cases) auto
    with False show ?thesis by (simp add: find_crlf.simps [of p start fin])
  qed
qed

lemma foldl_join_grows: "acc \<noteq> [] \<Longrightarrow> \<exists>s. foldl join_step acc ls = acc @ s"
proof (induction ls arbitrary: acc)
  case (Cons l ls)
  from Cons.prems have "join_step acc l = acc @ 32 # map printable l" by (simp add: join_step_def)
  with Cons.IH [of "join_step acc l"] show ?case by auto
qed simp

lemma take_foldl_join:
  assumes "k \<le> length acc" and "0 < k"
  shows "take k (foldl join_step acc ls) = take k acc"
proof -
  from assms have "acc \<noteq> []" by auto
  with foldl_join_grows [of acc ls] assms(1) show ?thesis by auto
qed

lemma join_append:
  assumes "buf_ok b" and "0 < buf_cap b" and "l \<le> int (length src)" and "0 \<le> l"
  shows "do {
           b1 \<leftarrow> (if buf_len b > 0 then buf_append b [32] 1 else Some b);
           buf_append b1 src l
         } = Some (filled b (join_step (buf_data b) (take (nat l) src)))"
proof (cases "buf_data b = []")
  case True
  with assms show ?thesis by (simp add: buf_append_eq join_step_def)
next
  case False
  have a: "buf_append b [32] 1 = Some (filled b (buf_data b @ [32]))"
    using assms(1) by (simp add: buf_append_eq)
  have ok: "buf_ok (filled b (buf_data b @ [32]))"
    using assms(2) by (auto simp: buf_ok_def)
  have "take n (take n (xs @ [32]) @ ys) = take n (xs @ 32 # ys)" for n and xs ys :: "byte list"
    by (simp add: take_append take_Cons' min_def)
  with False a buf_append_eq [OF ok assms(4,3)] show ?thesis
    by (simp add: join_step_def)
qed

lemma drop_after_crlf:
  "crlf_pos (drop start xs) = Some n \<Longrightarrow>
   crlf_lines (drop start xs) = take n (drop start xs) # crlf_lines (drop (start + n + 2) xs)"
  by (subst crlf_lines.simps) (simp add: add.commute add.left_commute)

lemma filled_full:
  assumes "\<not> length (take (nat cap) acc) < nat cap" and "0 < cap"
  shows "take (nat cap) (foldl join_step acc ls) = take (nat cap) acc"
  using assms by (intro take_foldl_join) auto

lemma line_appended:
  assumes "fin \<le> length p" and "buf_len b < buf_cap b"
    and "crlf_pos (drop start (take fin p)) = Some n"
  obtains b1 where "(if buf_len b > 0 then buf_append b [32] 1 else Some b) = Some b1"
    and "buf_append b1 (drop start p) (int n) =
         Some (filled b (join_step (buf_data b) (take n (drop start (take fin p)))))"
proof -
  from crlf_pos_bound [OF assms(3)] have n: "start + n + 1 < fin" by auto
  then have "take n (drop start p) = take n (drop start (take fin p))"
    by (simp add: take_drop min_def)
  with join_append [of b "int n" "drop start p"] assms n
  have "do {
      b1 \<leftarrow> (if buf_len b > 0 then buf_append b [32] 1 else Some b);
      buf_append b1 (drop start p) (int n)} =
      Some (filled b (join_step (buf_data b) (take n (drop start (take fin p)))))"
    by (simp add: buf_ok_def)
  then show thesis by (auto simp: bind_eq_Some_conv intro: that)
qed

text \<open>
  Both loops fold \<open>join_step\<close> over the lines they take, cut at the capacity: the early exit
  on a full buffer loses nothing.
\<close>

lemma memcached_loop_eq:
  "\<lbrakk> fin \<le> length p; buf_len b < buf_cap b \<rbrakk> \<Longrightarrow>
   memcached_loop p fin b start =
   Some (filled b (foldl join_step (buf_data b) (crlf_lines (drop start (take fin p)))))"
proof (induction p fin b start rule: memcached_loop.induct)
  case (1 p fin b start)
  let ?t = "drop start (take fin p)"
  note find = find_crlf_eq [OF "1.prems"(1), of start]
  show ?case
  proof (cases "crlf_pos ?t")
    case None
    with "1.prems"(2) find show ?thesis
      by (subst memcached_loop.simps) (simp add: crlf_lines.simps [of ?t])
  next
    case (Some n)
    let ?acc = "join_step (buf_data b) (take n ?t)"
    let ?b2 = "filled b ?acc"
    from line_appended [OF "1.prems" Some] obtain b1 where
      b1: "(if buf_len b > 0 then buf_append b [32] 1 else Some b) = Some b1"
      "buf_append b1 (drop start p) (int n) = Some ?b2" .
    have step: "memcached_loop p fin b start =
        (if buf_len ?b2 \<ge> buf_cap ?b2 then Some ?b2 else memcached_loop p fin ?b2 (start + n + 2))"
      by (subst memcached_loop.simps) (cases "buf_data b = []"; use find Some b1 in simp)
    show ?thesis
    proof (cases "buf_len ?b2 \<ge> buf_cap ?b2")
      case True
      with step filled_full [of "buf_cap b" ?acc] "1.prems"(2) show ?thesis
        by (simp add: drop_after_crlf [OF Some])
    next
      case False
      then have short: "take (nat (buf_cap b)) ?acc = ?acc" by auto
      with "1.IH" [of "Some (start + n)" "start + n" b1 ?b2] find Some b1 False "1.prems" step
      show ?thesis by (simp add: drop_after_crlf [OF Some])
    qed
  qed
qed

lemma redis_loop_eq:
  "\<lbrakk> fin \<le> length p; buf_len b < buf_cap b \<rbrakk> \<Longrightarrow>
   redis_loop p fin b start f =
   Some (filled b (foldl join_step (buf_data b)
     (pick_args f (crlf_lines (drop start (take fin p))))))"
proof (induction p fin b start f rule: redis_loop.induct)
  case (1 p fin b start f)
  let ?t = "drop start (take fin p)"
  note find = find_crlf_eq [OF "1.prems"(1), of start]
  show ?case
  proof (cases "crlf_pos ?t")
    case None
    with "1.prems"(2) find show ?thesis
      by (subst redis_loop.simps) (simp add: crlf_lines.simps [of ?t])
  next
    case (Some n)
    let ?acc = "join_step (buf_data b) (take n ?t)"
    let ?b2 = "filled b ?acc"
    from line_appended [OF "1.prems" Some] obtain b1 where
      b1: "(if buf_len b > 0 then buf_append b [32] 1 else Some b) = Some b1"
      "buf_append b1 (drop start p) (int n) = Some ?b2" .
    show ?thesis
    proof (cases "f \<noteq> 0 \<and> f mod 2 = 0")
      case odd: False
      then have "redis_loop p fin b start f = redis_loop p fin b (start + n + 2) (f + 1)"
        using find Some by (subst redis_loop.simps) auto
      with "1.IH"(2) [of "Some (start + n)" "start + n"] find Some odd "1.prems"
      show ?thesis by (auto simp: drop_after_crlf [OF Some])
    next
      case even: True
      have step: "redis_loop p fin b start f =
          (if buf_len ?b2 \<ge> buf_cap ?b2 then Some ?b2
           else redis_loop p fin ?b2 (start + n + 2) (f + 1))"
        by (subst redis_loop.simps) (cases "buf_data b = []"; use find Some b1 even in simp)
      show ?thesis
      proof (cases "buf_len ?b2 \<ge> buf_cap ?b2")
        case True
        with step filled_full [of "buf_cap b" ?acc] "1.prems"(2) even show ?thesis
          by (simp add: drop_after_crlf [OF Some])
      next
        case False
        then have short: "take (nat (buf_cap b)) ?acc = ?acc" by auto
        with "1.IH"(1) [of "Some (start + n)" "start + n" b1 ?b2] find Some b1 False even
          "1.prems" step
        show ?thesis by (simp add: drop_after_crlf [OF Some])
      qed
    qed
  qed
qed

lemma pick_args_odd: "f mod 2 = 1 \<Longrightarrow> pick_args f ls = resp_args ls"
proof (induction ls arbitrary: f rule: resp_args.induct)
  case (1 len arg rest)
  then have "Suc f mod 2 = 0" "(f + 2) mod 2 = 1" by presburger+
  with 1 show ?case by simp
qed auto

lemma pick_args_zero: "pick_args 0 ls = resp_args (tl ls)"
  by (cases ls) (auto simp: pick_args_odd)

text \<open>A request as a Redis client sends it: a RESP array of bulk strings.\<close>

definition resp_encode :: "byte list list \<Rightarrow> byte list" where
  "resp_encode args =
     42 # show_nat (length args) @ [13, 10] @
     concat (map (\<lambda>a. 36 # show_nat (length a) @ [13, 10] @ a @ [13, 10]) args)"

lemma buf_init_eq:
  "buf_init sz m =
   (if fst (malloc m) then Some \<lparr>buf_data = [], buf_cap = int (summary_cap sz)\<rparr> else None,
    snd (malloc m))"
  by (auto simp: buf_init_def summary_cap_def MAX_BUF_SIZE_def Let_def split: prod.splits)

lemma summary_cap_le: "summary_cap sz \<le> nat sz" "summary_cap sz \<le> 127"
  by (auto simp: summary_cap_def MAX_BUF_SIZE_def)

lemma summary_cap_zero: "summary_cap sz = 0 \<longleftrightarrow> sz \<le> 0"
  by (auto simp: summary_cap_def MAX_BUF_SIZE_def)

text \<open>The common tail of the formats: the raw bytes when nothing was taken, then the NUL.\<close>

abbreviation line_buf :: "int \<Rightarrow> byte list list \<Rightarrow> buf" where
  "line_buf sz ls \<equiv> \<lparr>buf_data = take (summary_cap sz) (foldl join_step [] ls),
                      buf_cap = int (summary_cap sz)\<rparr>"

lemma raw_append:
  assumes "sz \<le> int (length p)"
  shows "buf_append \<lparr>buf_data = [], buf_cap = int (summary_cap sz)\<rparr> p sz =
         Some \<lparr>buf_data = map printable (take (summary_cap sz) (take (nat sz) p)),
               buf_cap = int (summary_cap sz)\<rparr>"
proof (cases "0 \<le> sz")
  case True
  then show ?thesis
    using assms by (simp add: buf_append_eq buf_ok_def take_map)
next
  case False
  then have "summary_cap sz = 0" by (simp add: summary_cap_zero)
  with False show ?thesis by (simp add: buf_append_def Let_def)
qed

lemma finish_summary:
  assumes "sz \<le> int (length p)"
  shows "do {
           b2 \<leftarrow> (if buf_len (line_buf sz ls) = 0 then buf_append (line_buf sz ls) p sz
                 else Some (line_buf sz ls));
           s \<leftarrow> buf_finish b2;
           Some (Some s, m')
         } = Some (Some (summary_of sz ls (take (nat sz) p)), m')"
proof (cases "take (summary_cap sz) (foldl join_step [] ls) = []")
  case True
  then show ?thesis
    by (simp only: raw_append [OF assms] buf.simps summary_of_def Let_def)
       (simp add: buf_finish_def)
next
  case False
  then show ?thesis
    by (auto simp: buf_finish_def summary_of_def Let_def min_def split: if_splits)
qed

lemma format_raw_eq:
  assumes "sz \<le> int (length p)"
  shows "format_raw p sz m =
         Some (if fst (malloc m) then Some (summary_of sz [] (take (nat sz) p)) else None,
               snd (malloc m))"
  using raw_append [OF assms]
  by (simp add: format_raw_def buf_init_eq buf_finish_def summary_of_def Let_def min_le_iff_disj)

lemma format_memcached_eq:
  assumes "sz \<le> int (length p)"
  shows "format_memcached p sz m =
         Some (if fst (malloc m)
               then Some (summary_of sz (crlf_lines (take (nat sz) p)) (take (nat sz) p)) else None,
               snd (malloc m))"
proof -
  let ?b = "\<lparr>buf_data = [], buf_cap = int (summary_cap sz)\<rparr>"
  have loop: "memcached_loop p (nat sz) ?b 0 = Some (line_buf sz (crlf_lines (take (nat sz) p)))"
  proof (cases "0 < sz")
    case True
    with assms memcached_loop_eq [of "nat sz" p ?b 0] show ?thesis
      using summary_cap_zero [of sz] by simp
  next
    case False
    then show ?thesis
      by (subst memcached_loop.simps) (simp add: find_crlf_eq crlf_lines.simps)
  qed
  show ?thesis
    by (cases "fst (malloc m)")
       (simp_all only: format_memcached_def buf_init_eq if_True if_False prod.case option.case loop
          Option.bind.bind_lunit finish_summary [OF assms])
qed

lemma format_redis_eq:
  assumes "sz \<le> int (length p)"
  shows "format_redis p sz m =
         (let t = take (nat sz) p;
              ls = (if sz \<le> 0 then [] else if hd t = 42 then resp_args (tl (crlf_lines t))
                    else crlf_lines t)
          in Some (if fst (malloc m) then Some (summary_of sz ls t) else None, snd (malloc m)))"
proof (cases "0 < sz")
  case False
  then show ?thesis by (simp add: format_redis_def format_raw_eq assms Let_def)
next
  case True
  let ?t = "take (nat sz) p"
  let ?b = "\<lparr>buf_data = [], buf_cap = int (summary_cap sz)\<rparr>"
  from True assms have p0: "get8 p 0 = Some (hd ?t)"
    by (cases p) (auto simp: get8_def)
  have loop: "redis_loop p (nat sz) ?b 0 0 = Some (line_buf sz (resp_args (tl (crlf_lines ?t))))"
    using True assms redis_loop_eq [of "nat sz" p ?b 0 0] summary_cap_zero [of sz]
    by (simp add: pick_args_zero)
  show ?thesis
  proof (cases "hd ?t = 42")
    case star: True
    have "\<not> sz \<le> 0" using True by simp
    with p0 star show ?thesis
      by (cases "fst (malloc m)")
         (simp_all only: format_redis_def buf_init_eq if_True if_False prod.case option.case loop
            Option.bind.bind_lunit finish_summary [OF assms] Let_def simp_thms)
  next
    case False
    with True p0 show ?thesis
      by (simp add: format_redis_def format_memcached_eq [OF assms] Let_def)
  qed
qed

lemma format_http_eq: "format_http p sz m = format_memcached p sz m"
  by (simp add: format_http_def)

lemma foldl_join_printable:
  "\<forall>c \<in> set acc. 0x20 \<le> c \<and> c < 0x7f \<Longrightarrow>
   \<forall>c \<in> set (foldl join_step acc ls). 0x20 \<le> c \<and> c < (0x7f :: byte)"
proof (induction ls arbitrary: acc)
  case (Cons l ls)
  from Cons.prems have "\<forall>c \<in> set (join_step acc l). 0x20 \<le> c \<and> c < 0x7f"
    using printable_range by (auto simp: join_step_def)
  from Cons.IH [OF this] show ?case by simp
qed simp

lemma summary_of_bounds:
  "length (summary_of sz ls p) \<le> 127" "length (summary_of sz ls p) \<le> nat sz"
  "\<forall>c \<in> set (summary_of sz ls p). 0x20 \<le> c \<and> c < 0x7f"
proof -
  show "length (summary_of sz ls p) \<le> 127" "length (summary_of sz ls p) \<le> nat sz"
    using summary_cap_le [of sz] by (auto simp: summary_of_def Let_def)
  show "\<forall>c \<in> set (summary_of sz ls p). 0x20 \<le> c \<and> c < 0x7f"
    using foldl_join_printable [of "[]" ls] printable_range
    by (auto simp: summary_of_def Let_def dest: in_set_takeD)
qed

lemma crlf_pos_no_cr: "13 \<notin> set l \<Longrightarrow> crlf_pos l = None"
  by (induction l rule: crlf_pos.induct) auto

lemma crlf_pos_append: "crlf_pos l = None \<Longrightarrow> crlf_pos (l @ 13 # 10 # r) = Some (length l)"
  by (induction l rule: crlf_pos.induct) (auto split: if_splits)

lemma crlf_lines_append:
  "crlf_pos l = None \<Longrightarrow> crlf_lines (l @ 13 # 10 # r) = l # crlf_lines r"
  by (subst crlf_lines.simps) (simp add: crlf_pos_append)

lemma show_nat_no_cr: "13 \<notin> set (show_nat n)"
  using show_nat_digits [of n] by (auto simp: is_digit_def)

lemma crlf_lines_bulk:
  "\<forall>a \<in> set args. crlf_pos a = None \<Longrightarrow>
   resp_args (crlf_lines
     (concat (map (\<lambda>a. 36 # show_nat (length a) @ [13, 10] @ a @ [13, 10]) args))) = args"
proof (induction args)
  case (Cons a args)
  let ?rest = "concat (map (\<lambda>a. 36 # show_nat (length a) @ [13, 10] @ a @ [13, 10]) args)"
  have "crlf_pos (36 # show_nat (length a)) = None"
    using show_nat_no_cr by (intro crlf_pos_no_cr) auto
  from crlf_lines_append [OF this, of "a @ 13 # 10 # ?rest"]
  have "crlf_lines ((36 # show_nat (length a)) @ 13 # 10 # a @ 13 # 10 # ?rest) =
      (36 # show_nat (length a)) # a # crlf_lines ?rest"
    using Cons.prems by (simp add: crlf_lines_append)
  with Cons show ?case by simp
qed (simp add: crlf_lines.simps)

lemma resp_encode_args:
  "\<forall>a \<in> set args. crlf_pos a = None \<Longrightarrow> resp_args (tl (crlf_lines (resp_encode args))) = args"
proof -
  assume a: "\<forall>a \<in> set args. crlf_pos a = None"
  let ?rest = "concat (map (\<lambda>a. 36 # show_nat (length a) @ [13, 10] @ a @ [13, 10]) args)"
  have "crlf_pos (42 # show_nat (length args)) = None"
    using show_nat_no_cr by (intro crlf_pos_no_cr) auto
  from crlf_lines_append [OF this, of ?rest]
  have "crlf_lines (resp_encode args) = (42 # show_nat (length args)) # crlf_lines ?rest"
    by (simp add: resp_encode_def)
  with crlf_lines_bulk [OF a] show ?thesis by simp
qed

lemma length_foldl_join:
  "length (foldl join_step acc ls) \<le> length acc + (\<Sum>l \<leftarrow> ls. length l + 1)"
proof (induction ls arbitrary: acc)
  case (Cons l ls)
  have "length (join_step acc l) \<le> length acc + length l + 1" by (simp add: join_step_def)
  with Cons.IH [of "join_step acc l"] show ?case by simp
qed simp

lemma length_resp_encode: "(\<Sum>l \<leftarrow> args. length l + 1) \<le> length (resp_encode args)"
proof -
  have "(\<Sum>l \<leftarrow> args. length l + 1) \<le>
      length (concat (map (\<lambda>a. 36 # show_nat (length a) @ [13, 10] @ a @ [13, 10]) args))"
    by (induction args) auto
  then show ?thesis by (simp add: resp_encode_def)
qed

text \<open>Every format allocates one buffer and fills it with a summary.\<close>

lemma format_shape:
  assumes "sz \<le> int (length payload)"
    and "fmt \<in> {format_redis, format_memcached, format_http, format_raw}"
  shows "\<exists>ls p. \<forall>m. fmt payload sz m =
      Some (if fst (malloc m) then Some (summary_of sz ls p) else None, snd (malloc m))"
proof -
  from assms(2) consider "fmt = format_redis" | "fmt = format_memcached" | "fmt = format_http"
    | "fmt = format_raw" by auto
  then show ?thesis
    by cases (simp_all only: format_redis_eq [OF assms(1)] format_memcached_eq [OF assms(1)]
        format_raw_eq [OF assms(1)] format_http_eq Let_def, blast+)
qed

section \<open>Properties\<close>

text \<open>
  C24. Memory safety and shape: for every payload and every size that does not exceed it, on
  every allocation outcome, none of the four formats reads outside the payload or stores
  outside its buffer. The result is NULL exactly when the allocation fails; otherwise it is a
  line of at most \<open>MAX_BUF_SIZE\<close> = 127 characters and at most the payload's size, all
  printable ASCII, so it holds no NUL and no line break.
\<close>

theorem format_safe:
  assumes "sz \<le> int (length payload)"
    and "fmt \<in> {format_redis, format_memcached, format_http, format_raw}"
  shows "\<exists>r. fmt payload sz m = Some (r, snd (malloc m)) \<and> (r = None \<longleftrightarrow> \<not> fst (malloc m)) \<and>
           (\<forall>s. r = Some s \<longrightarrow> length s \<le> 127 \<and> length s \<le> nat sz \<and>
                  (\<forall>c \<in> set s. 0x20 \<le> c \<and> c < 0x7f))"
proof -
  from format_shape [OF assms] obtain ls p where "fmt payload sz m =
      Some (if fst (malloc m) then Some (summary_of sz ls p) else None, snd (malloc m))"
    by blast
  with summary_of_bounds [of sz ls p] show ?thesis by simp
qed

theorem format_safe_witness:
  "\<exists>r. format_redis (str ''*1'' @ [13, 10, 0, 255]) 6 \<lparr>outcomes = [], live = 0\<rparr> =
     Some (r, snd (malloc \<lparr>outcomes = [], live = 0\<rparr>)) \<and>
     (\<forall>s. r = Some s \<longrightarrow> length s \<le> 127)"
  using format_safe [of 6 "str ''*1'' @ [13, 10, 0, 255]" format_redis "\<lparr>outcomes = [], live = 0\<rparr>"]
  by (auto simp: str_def)

text \<open>
  C25. Equivalence: the scanning loops, which stop as soon as the buffer is full, compute the
  reference definition. The memcached and HTTP summary is the CRLF terminated lines of the
  payload joined by blanks and cut at the capacity, the Redis summary of a RESP array the same
  over every second line after the header; the raw bytes stand in when that text is empty.
\<close>

theorem format_reference:
  assumes "sz \<le> int (length payload)" and "malloc m = (True, m')"
  shows "format_memcached payload sz m =
           Some (Some (summary_of sz (crlf_lines (take (nat sz) payload)) (take (nat sz) payload)), m') \<and>
         (0 < sz \<and> hd payload = 42 \<longrightarrow>
          format_redis payload sz m =
           Some (Some (summary_of sz (resp_args (tl (crlf_lines (take (nat sz) payload))))
                         (take (nat sz) payload)), m'))"
  using format_memcached_eq [OF assms(1), of m] format_redis_eq [OF assms(1), of m] assms(2)
  by (cases payload) (auto simp: Let_def)

theorem format_reference_witness:
  "format_memcached (str ''get a'' @ [13, 10]) 7 \<lparr>outcomes = [True], live = 0\<rparr> =
   Some (Some (str ''get a''), \<lparr>outcomes = [], live = 1\<rparr>)"
proof -
  have "malloc \<lparr>outcomes = [True], live = 0\<rparr> = (True, \<lparr>outcomes = [], live = 1\<rparr>)"
    by (simp add: malloc_def)
  from format_reference [OF _ this, of 7 "str ''get a'' @ [13, 10]"] show ?thesis
    by (simp add: str_def crlf_lines.simps summary_of_def summary_cap_def MAX_BUF_SIZE_def
          join_step_def printable_def)
qed

text \<open>
  C26. Round trip: the Redis summary of a RESP array, as a client encodes it, is its arguments
  in order, non-printable bytes as dots, joined by blanks and cut at 127 characters, for
  arguments that hold no CRLF and are not all empty.
\<close>

theorem format_redis_shows_args:
  assumes "\<forall>a \<in> set args. crlf_pos a = None" and "foldl join_step [] args \<noteq> []"
    and "malloc m = (True, m')"
  shows "format_redis (resp_encode args) (int (length (resp_encode args))) m =
         Some (Some (take 127 (foldl join_step [] args)), m')"
proof -
  let ?p = "resp_encode args"
  let ?n = "int (length ?p)"
  have hd: "0 < ?n" "hd ?p = 42" by (simp_all add: resp_encode_def)
  have "length (foldl join_step [] args) \<le> length ?p"
    using length_foldl_join [of "[]" args] length_resp_encode [of args] by simp
  then have cut: "take (summary_cap ?n) (foldl join_step [] args) = take 127 (foldl join_step [] args)"
    by (auto simp: summary_cap_def MAX_BUF_SIZE_def min_def)
  have "0 < summary_cap ?n" using hd(1) summary_cap_zero [of ?n] by simp
  with assms(2) have "summary_of ?n args ?p = take 127 (foldl join_step [] args)"
    by (simp add: summary_of_def Let_def cut)
  with format_redis_eq [of ?n ?p m] hd assms(3) resp_encode_args [OF assms(1)] show ?thesis
    by (simp add: Let_def)
qed

theorem format_redis_shows_args_witness:
  "format_redis (resp_encode [str ''SET'', str ''k'', [3, 2]])
     (int (length (resp_encode [str ''SET'', str ''k'', [3, 2]]))) \<lparr>outcomes = [], live = 0\<rparr> =
   Some (Some (str ''SET k ..''), \<lparr>outcomes = [], live = 1\<rparr>)"
proof -
  have "malloc \<lparr>outcomes = [], live = 0\<rparr> = (True, \<lparr>outcomes = [], live = 1\<rparr>)"
    by (simp add: malloc_def)
  from format_redis_shows_args [OF _ _ this, of "[str ''SET'', str ''k'', [3, 2]]"]
  show ?thesis by (simp add: str_def join_step_def printable_def)
qed

end
