(* ===== verification/Log.thy ===== *)
theory Log
  imports Libc
begin

text \<open>
  The console output of \<open>src/log.c\<close>. The module's static variables \<open>log_fp\<close> and
  \<open>log_level\<close> are fields of \<open>logger\<close>, together with what has been written so far and
  whether standard output is a terminal (\<open>isatty\<close>). A formatted message arrives as its
  text: \<open>vsnprintf\<close> then keeps what fits the 4096 byte buffer. The time stamp that
  \<open>strftime\<close> renders is an argument. Stream buffering (\<open>fflush\<close>) is not visible in the
  sequence of bytes written.
\<close>

unbundle bit_operations_syntax

section \<open>Data\<close>

datatype LEVEL = DEBUG | INFO | WARN | ERROR | FATAL

fun level_num :: "LEVEL \<Rightarrow> nat" where
  "level_num DEBUG = 1"
| "level_num INFO = 2"
| "level_num WARN = 3"
| "level_num ERROR = 4"
| "level_num FATAL = 5"

instantiation LEVEL :: linorder
begin

definition less_eq_LEVEL :: "LEVEL \<Rightarrow> LEVEL \<Rightarrow> bool" where
  "less_eq_LEVEL a b \<longleftrightarrow> level_num a \<le> level_num b"

definition less_LEVEL :: "LEVEL \<Rightarrow> LEVEL \<Rightarrow> bool" where
  "less_LEVEL a b \<longleftrightarrow> level_num a < level_num b"

instance
proof
  fix a b c :: LEVEL
  show "(a < b) = (a \<le> b \<and> \<not> b \<le> a)" by (auto simp: less_LEVEL_def less_eq_LEVEL_def)
  show "a \<le> a" by (simp add: less_eq_LEVEL_def)
  show "a \<le> b \<Longrightarrow> b \<le> c \<Longrightarrow> a \<le> c" by (simp add: less_eq_LEVEL_def)
  show "a \<le> b \<Longrightarrow> b \<le> a \<Longrightarrow> a = b" by (cases a; cases b) (auto simp: less_eq_LEVEL_def)
  show "a \<le> b \<or> b \<le> a" by (auto simp: less_eq_LEVEL_def)
qed

end

text \<open>A \<open>FILE *\<close> is standard output or another open stream.\<close>

datatype stream = Stdout | Stream nat

record logger =
  log_fp :: "stream option"
  log_level :: LEVEL
  stdout_tty :: bool
  written :: "(stream \<times> byte list) list"

text \<open>The escape sequences of \<open>log.h\<close>: \<open>ESC [ n m\<close>.\<close>

definition RED :: cstring where "RED = 27 # str ''[31m''"
definition GREEN :: cstring where "GREEN = 27 # str ''[32m''"
definition YELLOW :: cstring where "YELLOW = 27 # str ''[33m''"
definition NONE :: cstring where "NONE = 27 # str ''[0m''"

section \<open>Operations\<close>

definition print_redirect :: "stream option \<Rightarrow> logger \<Rightarrow> logger" where
  "print_redirect fp lg = lg\<lparr>log_fp := fp\<rparr>"

text \<open>\<open>fprintf\<close> to the log stream; printing to NULL is undefined.\<close>

definition log_print :: "byte list \<Rightarrow> logger \<Rightarrow> logger outcome" where
  "log_print txt lg =
     (case log_fp lg of
        None \<Rightarrow> Undefined
      | Some fp \<Rightarrow> Done (lg\<lparr>written := written lg @ [(fp, txt)]\<rparr>))"

text \<open>\<open>printf\<close>: always to standard output.\<close>

definition out_print :: "byte list \<Rightarrow> logger \<Rightarrow> logger" where
  "out_print txt lg = lg\<lparr>written := written lg @ [(Stdout, txt)]\<rparr>"

definition use_color :: "logger \<Rightarrow> bool" where
  "use_color lg \<longleftrightarrow> log_fp lg = Some Stdout \<and> stdout_tty lg"

definition color_printf :: "cstring option \<Rightarrow> byte list \<Rightarrow> logger \<Rightarrow> logger outcome" where
  "color_printf color txt lg =
     (let buf = snprintf 4096 txt in
      case color of
        None \<Rightarrow> log_print buf lg
      | Some c \<Rightarrow> if \<not> use_color lg then log_print buf lg else log_print (c @ buf @ NONE) lg)"

fun level_name :: "LEVEL \<Rightarrow> cstring" where
  "level_name DEBUG = str ''DEBUG''"
| "level_name INFO = str ''INFO''"
| "level_name WARN = str ''WARN''"
| "level_name ERROR = str ''ERROR''"
| "level_name FATAL = str ''FATAL''"

fun level_color :: "LEVEL \<Rightarrow> cstring" where
  "level_color DEBUG = []"
| "level_color INFO = GREEN"
| "level_color WARN = YELLOW"
| "level_color ERROR = RED"
| "level_color FATAL = RED"

text \<open>A message above \<open>ERROR\<close> ends the process with status 1 after it was written.\<close>

definition log_line :: "cstring \<Rightarrow> LEVEL \<Rightarrow> byte list \<Rightarrow> byte list" where
  "log_line t_buf loglevel buf =
     91 # t_buf @ 93 # 32 # 91 # level_name loglevel @ 93 # 32 # buf"

definition log_message :: "cstring \<Rightarrow> LEVEL \<Rightarrow> byte list \<Rightarrow> logger \<Rightarrow> logger outcome" where
  "log_message t_buf loglevel txt lg =
     (if loglevel < log_level lg then Done lg
      else
        let buf = snprintf 4096 txt;
            line = log_line t_buf loglevel buf
        in and_then
             (if \<not> use_color lg then log_print (line @ [10]) lg
              else log_print (level_color loglevel @ line @ NONE @ [10]) lg)
             (\<lambda>lg'. if loglevel > ERROR then Exited 1 else Done lg'))"

section \<open>Runs of output calls\<close>

datatype log_call = Print "cstring option" "byte list" | Message LEVEL "byte list"

text \<open>Calls at given times, and the text of a call.\<close>

fun log_run :: "(cstring \<times> log_call) list \<Rightarrow> logger \<Rightarrow> logger outcome" where
  "log_run [] lg = Done lg"
| "log_run ((t, Print c txt) # xs) lg = and_then (color_printf c txt lg) (log_run xs)"
| "log_run ((t, Message l txt) # xs) lg = and_then (log_message t l txt lg) (log_run xs)"

fun call_text :: "log_call \<Rightarrow> byte list" where
  "call_text (Print c txt) = txt"
| "call_text (Message l txt) = txt"

definition plain :: "byte list \<Rightarrow> bool" where
  "plain bs \<longleftrightarrow> 27 \<notin> set bs"

definition quiet :: "logger \<Rightarrow> (cstring \<times> log_call) \<Rightarrow> bool" where
  "quiet lg x = (case snd x of Print c txt \<Rightarrow> False | Message l txt \<Rightarrow> l < log_level lg)"

section \<open>Lemmas\<close>

lemma plain_simps [simp]:
  "plain []" "plain (b # bs) \<longleftrightarrow> b \<noteq> 27 \<and> plain bs" "plain (xs @ ys) \<longleftrightarrow> plain xs \<and> plain ys"
  "plain xs \<Longrightarrow> plain (snprintf n xs)"
  by (auto simp: plain_def snprintf_def dest: in_set_takeD)

lemma plain_level_name [simp]: "plain (level_name l)"
  by (cases l) (simp_all add: str_def plain_def)

lemma log_print_Done:
  "log_print txt lg = Done lg' \<longleftrightarrow>
   (\<exists>fp. log_fp lg = Some fp \<and> lg' = lg\<lparr>written := written lg @ [(fp, txt)]\<rparr>)"
  by (auto simp: log_print_def split: option.splits)

lemma use_color_written [simp]: "use_color (lg\<lparr>written := w\<rparr>) = use_color lg"
  by (simp add: use_color_def)

lemma color_printf_plain:
  assumes "log_fp lg = Some fp" "\<not> use_color lg"
  shows "color_printf c txt lg = Done (lg\<lparr>written := written lg @ [(fp, snprintf 4096 txt)]\<rparr>)"
  using assms by (auto simp: color_printf_def log_print_def Let_def split: option.splits)

lemma log_message_plain:
  assumes "log_fp lg = Some fp" "\<not> use_color lg"
  shows "log_message t l txt lg =
     (if l < log_level lg then Done lg
      else if l = FATAL then Exited 1
      else Done (lg\<lparr>written := written lg @ [(fp, log_line t l (snprintf 4096 txt) @ [10])]\<rparr>))"
proof -
  have "l > ERROR \<longleftrightarrow> l = FATAL" by (cases l) (simp_all add: less_LEVEL_def)
  with assms show ?thesis by (auto simp: log_message_def log_print_def Let_def)
qed

section \<open>Properties\<close>

text \<open>
  Output to a file or a pipe stays plain and complete: when colours are not in use and the
  messages themselves hold no escape byte, any run of \<open>color_printf\<close> and \<open>log_message\<close> calls
  without a FATAL message returns, writes exactly one record for every call that is not below
  the log level, all to the log stream and free of escape bytes, and leaves the other state
  alone.
\<close>

theorem piped_output_plain:
  assumes "log_fp lg = Some fp" "\<not> use_color lg"
    and "\<forall>(t, x) \<in> set calls. plain t \<and> plain (call_text x) \<and> (\<forall>txt. x \<noteq> Message FATAL txt)"
  shows "\<exists>out. log_run calls lg = Done (lg\<lparr>written := written lg @ map (Pair fp) out\<rparr>) \<and>
               (\<forall>txt \<in> set out. plain txt) \<and>
               length out = length (filter (\<lambda>x. \<not> quiet lg x) calls)"
  using assms
proof (induction calls arbitrary: lg)
  case (Cons tx calls)
  obtain t x where tx: "tx = (t, x)" by (cases tx)
  have rest: "\<forall>(t, x) \<in> set calls. plain t \<and> plain (call_text x) \<and> (\<forall>txt. x \<noteq> Message FATAL txt)"
    using Cons.prems(3) by auto
  have step: ?case
    if run: "log_run (tx # calls) lg = log_run calls (lg\<lparr>written := written lg @ [(fp, o1)]\<rparr>)"
      and o1: "plain o1" and loud: "\<not> quiet lg tx" for o1
  proof -
    have q: "quiet (lg\<lparr>written := w\<rparr>) = quiet lg" for w
      by (auto simp: quiet_def fun_eq_iff split: log_call.splits)
    from Cons.IH [of "lg\<lparr>written := written lg @ [(fp, o1)]\<rparr>"] Cons.prems(1,2) rest
    obtain out where "log_run calls (lg\<lparr>written := written lg @ [(fp, o1)]\<rparr>) =
        Done (lg\<lparr>written := written lg @ map (Pair fp) (o1 # out)\<rparr>)"
      "\<forall>txt \<in> set out. plain txt" "length out = length (filter (\<lambda>x. \<not> quiet lg x) calls)"
      by (auto simp: q)
    with run o1 loud show ?thesis by (intro exI [of _ "o1 # out"]) simp
  qed
  show ?case
  proof (cases x)
    case (Print c s)
    with Cons.prems tx show ?thesis
      by (intro step [of "snprintf 4096 s"]) (simp_all add: color_printf_plain quiet_def)
  next
    case (Message l s)
    show ?thesis
    proof (cases "l < log_level lg")
      case True
      with Message tx Cons.prems Cons.IH [of lg] rest show ?thesis
        by (simp add: log_message_plain quiet_def)
    next
      case False
      with Message tx Cons.prems show ?thesis
        by (intro step [of "log_line t l (snprintf 4096 s) @ [10]"])
           (auto simp: log_message_plain quiet_def log_line_def)
    qed
  qed
qed simp

definition demo_logger :: logger where
  "demo_logger = \<lparr>log_fp = Some Stdout, log_level = INFO, stdout_tty = False, written = []\<rparr>"

theorem piped_output_plain_witness:
  "\<exists>out. log_run [(str ''now'', Print (Some GREEN) (str ''x'')), (str ''now'', Message DEBUG (str ''y'')),
               (str ''now'', Message WARN (str ''z''))] demo_logger =
     Done (demo_logger\<lparr>written := written demo_logger @ map (Pair Stdout) out\<rparr>) \<and>
     (\<forall>txt \<in> set out. plain txt) \<and> length out = 2"
proof -
  let ?calls = "[(str ''now'', Print (Some GREEN) (str ''x'')), (str ''now'', Message DEBUG (str ''y'')),
               (str ''now'', Message WARN (str ''z''))]"
  have "length (filter (\<lambda>x. \<not> quiet demo_logger x) ?calls) = 2"
    by (simp add: quiet_def demo_logger_def less_LEVEL_def)
  then show ?thesis
    using piped_output_plain [of demo_logger Stdout ?calls]
    by (simp add: demo_logger_def use_color_def str_def plain_def)
qed

end
