(* ===== verification/Packet.thy ===== *)
theory Packet
  imports Libc
begin

text \<open>
  The header parsers of \<open>src/packet.c\<close>: \<open>process_tcp_packet\<close> and \<open>process_udp_packet\<close> on the
  captured bytes from the IP header on. A read outside these bytes makes the result \<open>None\<close>;
  otherwise it is the C return code and the packet as far as it was filled in. The pointer
  \<open>payload\<close> is the suffix of the capture it points to. The fields of the Linux headers are
  used (the branch taken when \<open>__FAVOR_BSD\<close> is not defined), on a little-endian host.

  What both parsers promise to their caller is the locale \<open>frame_parser\<close>, interpreted for
  each. The round trips run the parsers on encoded packets, whole or cut by a short snaplen.
\<close>

unbundle bit_operations_syntax

section \<open>Data\<close>

text \<open>\<open>struct timeval\<close>: seconds and microseconds.\<close>

record timeval =
  tv_sec :: int
  tv_usec :: int

record user_packet =
  flags :: byte
  is_tcp :: int
  is_request :: int
  tv :: timeval
  ip_src :: u32
  ip_dst :: u32
  port_src :: u16
  port_dst :: u16
  window :: u16
  seq :: u32
  ack :: u32
  up_size :: u32
  payload_size :: int
  wire_payload_size :: int
  payload :: "byte list"

text \<open>\<open>memset(&upacket, 0, sizeof(upacket))\<close>; a NULL payload can be read nowhere.\<close>

definition zero_packet :: user_packet where
  "zero_packet =
     \<lparr>flags = 0, is_tcp = 0, is_request = 0, tv = \<lparr>tv_sec = 0, tv_usec = 0\<rparr>, ip_src = 0, ip_dst = 0,
      port_src = 0, port_dst = 0, window = 0, seq = 0, ack = 0, up_size = 0,
      payload_size = 0, wire_payload_size = 0, payload = []\<rparr>"

section \<open>Operations\<close>

definition IP_HL :: "byte \<Rightarrow> int" where
  "IP_HL vhl = int (unat (vhl AND 0x0f))"

definition IP_V :: "byte \<Rightarrow> int" where
  "IP_V vhl = int (unat (drop_bit 4 vhl))"

definition TH_OFF :: "byte \<Rightarrow> int" where
  "TH_OFF off = int (unat (drop_bit 4 off))"

text \<open>A 16 bit field, in host order, widened to \<open>int\<close>.\<close>

definition int_of_u16 :: "u16 \<Rightarrow> int" where
  "int_of_u16 w = int (unat w)"

text \<open>The bit fields \<open>fin, syn, rst, psh, ack\<close> of the byte after the data offset.\<close>

definition tcp_flags :: "byte \<Rightarrow> byte" where
  "tcp_flags b =
     (let fin = of_bool (bit b 0); syn = of_bool (bit b 1); rst = of_bool (bit b 2);
          psh = of_bool (bit b 3);
          f = fin OR push_bit 1 syn OR push_bit 2 rst OR push_bit 3 psh
      in if bit b 4 then f OR 0x10 else f)"

definition process_tcp_packet ::
    "timeval \<Rightarrow> byte list \<Rightarrow> int \<Rightarrow> int \<Rightarrow> user_packet \<Rightarrow> (int \<times> user_packet) option" where
  "process_tcp_packet t ip caplen wirelen packet = do {
     vhl \<leftarrow> get8 ip 0;
     let iphdr_size = IP_HL vhl * 4;
     if iphdr_size < 20 then Some (-1, packet)
     else if caplen < iphdr_size + 20 then Some (-1, packet)
     else do {
       let h = nat iphdr_size;
       src \<leftarrow> get_le32 ip 12;
       dst \<leftarrow> get_le32 ip 16;
       th_seq \<leftarrow> get_be32 ip (h + 4);
       ack_seq \<leftarrow> get_be32 ip (h + 8);
       bits \<leftarrow> get8 ip (h + 13);
       source \<leftarrow> get_be16 ip h;
       dest \<leftarrow> get_be16 ip (h + 2);
       win \<leftarrow> get_be16 ip (h + 14);
       off \<leftarrow> get8 ip (h + 12);
       let packet = packet\<lparr>tv := t, ip_src := src, ip_dst := dst, seq := th_seq, ack := ack_seq,
                           flags := tcp_flags bits, port_src := source, port_dst := dest,
                           window := win\<rparr>;
       let tcphdr_size = TH_OFF off * 4;
       if tcphdr_size < 20 then Some (-1, packet)
       else if caplen < iphdr_size + tcphdr_size then Some (-1, packet)
       else do {
         ip_len \<leftarrow> get_be16 ip 2;
         let iplen = int_of_u16 ip_len;
         if iplen < iphdr_size + tcphdr_size \<or> iplen > wirelen then Some (-1, packet)
         else do {
           let wps = iplen - iphdr_size - tcphdr_size;
           let captured = caplen - iphdr_size - tcphdr_size;
           Some (0, packet\<lparr>wire_payload_size := wps,
                           payload := drop (h + nat tcphdr_size) ip,
                           payload_size := (if wps < captured then wps else captured),
                           is_tcp := 1\<rparr>)
         }
       }
     }
   }"

definition process_udp_packet ::
    "timeval \<Rightarrow> byte list \<Rightarrow> int \<Rightarrow> int \<Rightarrow> user_packet \<Rightarrow> (int \<times> user_packet) option" where
  "process_udp_packet t ip caplen wirelen packet = do {
     vhl \<leftarrow> get8 ip 0;
     let iphdr_size = IP_HL vhl * 4;
     if iphdr_size < 20 then Some (-1, packet)
     else if caplen < iphdr_size + 8 then Some (-1, packet)
     else do {
       let h = nat iphdr_size;
       src \<leftarrow> get_le32 ip 12;
       dst \<leftarrow> get_le32 ip 16;
       source \<leftarrow> get_be16 ip h;
       dest \<leftarrow> get_be16 ip (h + 2);
       len \<leftarrow> get_be16 ip (h + 4);
       let packet = packet\<lparr>tv := t, ip_src := src, ip_dst := dst, port_src := source,
                           port_dst := dest\<rparr>;
       let udp_len = int_of_u16 len;
       if udp_len < 8 then Some (-1, packet)
       else if iphdr_size + udp_len > wirelen then Some (-1, packet)
       else do {
         let wps = udp_len - 8;
         let captured = caplen - iphdr_size - 8;
         Some (0, packet\<lparr>wire_payload_size := wps,
                         payload := drop (h + 8) ip,
                         payload_size := (if wps < captured then wps else captured),
                         is_tcp := 0\<rparr>)
       }
     }
   }"

section \<open>Contract of a parser\<close>

text \<open>A packet whose payload can be read as far as \<open>payload_size\<close> says.\<close>

definition packet_ok :: "user_packet \<Rightarrow> bool" where
  "packet_ok p \<longleftrightarrow>
     0 \<le> payload_size p \<and> payload_size p \<le> wire_payload_size p \<and> wire_payload_size p < 65536 \<and>
     payload_size p \<le> int (length (payload p))"

locale frame_parser =
  fixes parse :: "timeval \<Rightarrow> byte list \<Rightarrow> int \<Rightarrow> int \<Rightarrow> user_packet \<Rightarrow> (int \<times> user_packet) option"
  assumes in_bounds:
      "\<lbrakk> 0 < caplen; caplen \<le> int (length ip) \<rbrakk> \<Longrightarrow>
       \<exists>r q. parse t ip caplen wirelen p = Some (r, q)"
    and code: "parse t ip caplen wirelen p = Some (r, q) \<Longrightarrow> r = 0 \<or> r = -1"
    and accepted:
      "parse t ip caplen wirelen p = Some (0, q) \<Longrightarrow>
       \<exists>h \<ge> 0. payload q = drop (nat h) ip \<and> h + payload_size q \<le> caplen \<and>
         0 \<le> payload_size q \<and> payload_size q \<le> wire_payload_size q \<and>
         h + wire_payload_size q \<le> wirelen \<and> wire_payload_size q < 65536 \<and>
         payload_size q = min (wire_payload_size q) (caplen - h) \<and> tv q = t \<and>
         up_size q = up_size p"
begin

lemma accepted_ok:
  assumes "caplen \<le> int (length ip)" and "parse t ip caplen wirelen p = Some (0, q)"
  shows "packet_ok q"
  using accepted [OF assms(2)] assms(1) by (auto simp: packet_ok_def)

lemma accepted_wire: "parse t ip caplen wirelen p = Some (0, q) \<Longrightarrow> wire_payload_size q \<le> wirelen"
  using accepted [of t ip caplen wirelen p q] by auto

text \<open>A payload comes short of the wire only when the capture ends inside it.\<close>

lemma accepted_complete:
  assumes "wirelen \<le> caplen" and "parse t ip caplen wirelen p = Some (0, q)"
  shows "payload_size q = wire_payload_size q"
  using accepted [OF assms(2)] assms(1) by auto

end

section \<open>Lemmas\<close>

lemma IP_HL_range: "0 \<le> IP_HL b" "IP_HL b < 16"
  by (simp_all add: IP_HL_def unat_low_nibble)

lemma tcp_flags_mask: "tcp_flags b = b AND 0x1f"
  by (rule bit_word_eqI)
     (auto simp: tcp_flags_def bit_simps Let_def less_Suc_eq numeral_eq_Suc bit_0)

text \<open>Every read of a parser lies below the captured length its guards establish.\<close>

lemma tcp_in_bounds:
  assumes "0 < caplen" "caplen \<le> int (length ip)"
  shows "\<exists>r q. process_tcp_packet t ip caplen wirelen p = Some (r, q)"
proof -
  let ?h = "nat (IP_HL (ip ! 0) * 4)"
  from assms have ip0: "get8 ip 0 = Some (ip ! 0)" by (cases ip) (simp_all add: get8_def)
  show ?thesis
  proof (cases "IP_HL (ip ! 0) * 4 < 20 \<or> caplen < IP_HL (ip ! 0) * 4 + 20")
    case True
    then show ?thesis by (auto simp: process_tcp_packet_def ip0 Let_def)
  next
    case False
    with assms have "?h + 20 \<le> length ip" "20 \<le> ?h" by linarith+
    with ip0 show ?thesis
      by (simp add: process_tcp_packet_def reads Let_def)
  qed
qed

lemma udp_in_bounds:
  assumes "0 < caplen" "caplen \<le> int (length ip)"
  shows "\<exists>r q. process_udp_packet t ip caplen wirelen p = Some (r, q)"
proof -
  let ?h = "nat (IP_HL (ip ! 0) * 4)"
  from assms have ip0: "get8 ip 0 = Some (ip ! 0)" by (cases ip) (simp_all add: get8_def)
  show ?thesis
  proof (cases "IP_HL (ip ! 0) * 4 < 20 \<or> caplen < IP_HL (ip ! 0) * 4 + 8")
    case True
    then show ?thesis by (auto simp: process_udp_packet_def ip0 Let_def)
  next
    case False
    with assms have "?h + 8 \<le> length ip" "20 \<le> ?h" by linarith+
    with ip0 show ?thesis
      by (simp add: process_udp_packet_def reads Let_def)
  qed
qed

lemma int_of_u16_less: "int_of_u16 w < 65536"
  using unat_u16 [of w] unfolding int_of_u16_def by linarith

text \<open>What an accepted packet holds, in terms of the header lengths and the length field.\<close>

definition accepted_as ::
    "byte list \<Rightarrow> int \<Rightarrow> int \<Rightarrow> timeval \<Rightarrow> u32 \<Rightarrow> int \<Rightarrow> int \<Rightarrow> user_packet \<Rightarrow> bool" where
  "accepted_as ip caplen wirelen t sz h len q \<longleftrightarrow>
     20 \<le> h \<and> h \<le> caplen \<and> 0 \<le> len \<and> h + len \<le> wirelen \<and> len < 65536 \<and>
     payload q = drop (nat h) ip \<and> wire_payload_size q = len \<and>
     payload_size q = min len (caplen - h) \<and> tv q = t \<and> up_size q = sz"

lemma accepted_as_law:
  "accepted_as ip caplen wirelen t sz h len q \<Longrightarrow>
   \<exists>h \<ge> 0. payload q = drop (nat h) ip \<and> h + payload_size q \<le> caplen \<and>
     0 \<le> payload_size q \<and> payload_size q \<le> wire_payload_size q \<and>
     h + wire_payload_size q \<le> wirelen \<and> wire_payload_size q < 65536 \<and>
     payload_size q = min (wire_payload_size q) (caplen - h) \<and> tv q = t \<and> up_size q = sz"
  unfolding accepted_as_def by (intro exI [of _ h]) auto

lemma accepted_asI:
  assumes "payload q = drop (nat a + nat b) ip" "wire_payload_size q = l - a - b" "tv q = t"
      "up_size q = sz"
    and "payload_size q = (if l - a - b < caplen - a - b then l - a - b else caplen - a - b)"
    and "\<not> a < 20" "\<not> b < 8" "\<not> caplen < a + b" "\<not> l < a + b" "\<not> wirelen < l" "l - a - b < 65536"
  shows "\<exists>h len. accepted_as ip caplen wirelen t sz h len q"
proof -
  have "nat a + nat b = nat (a + b)" using assms by (simp add: nat_add_distrib)
  with assms show ?thesis
    by (intro exI [of _ "a + b"] exI [of _ "l - a - b"]) (auto simp: accepted_as_def)
qed

lemma tcp_accepted:
  assumes "process_tcp_packet t ip caplen wirelen p = Some (0, q)"
  shows "\<exists>h len. accepted_as ip caplen wirelen t (up_size p) h len q"
proof -
  obtain vhl where "get8 ip 0 = Some vhl"
    using assms by (auto simp: process_tcp_packet_def bind_eq_Some_conv)
  moreover obtain off where "get8 ip (nat (IP_HL vhl * 4) + 12) = Some off"
    using assms calculation
    by (auto simp: process_tcp_packet_def bind_eq_Some_conv Let_def split: if_splits)
  moreover obtain ip_len where "get_be16 ip 2 = Some ip_len"
    using assms calculation
    by (auto simp: process_tcp_packet_def bind_eq_Some_conv Let_def split: if_splits)
  ultimately show ?thesis
    using assms int_of_u16_less [of ip_len] IP_HL_range [of vhl]
    by (intro accepted_asI [of q "IP_HL vhl * 4" "TH_OFF off * 4" ip "int_of_u16 ip_len" t "up_size p" caplen])
       (auto simp: process_tcp_packet_def bind_eq_Some_conv Let_def split: if_splits)
qed

lemma udp_accepted:
  assumes "process_udp_packet t ip caplen wirelen p = Some (0, q)"
  shows "\<exists>h len. accepted_as ip caplen wirelen t (up_size p) h len q"
proof -
  obtain vhl where "get8 ip 0 = Some vhl"
    using assms by (auto simp: process_udp_packet_def bind_eq_Some_conv)
  moreover obtain len where "get_be16 ip (nat (IP_HL vhl * 4) + 4) = Some len"
    using assms calculation
    by (auto simp: process_udp_packet_def bind_eq_Some_conv Let_def split: if_splits)
  ultimately show ?thesis
    using assms int_of_u16_less [of len] IP_HL_range [of vhl]
    by (intro accepted_asI [of q "IP_HL vhl * 4" 8 ip "IP_HL vhl * 4 + int_of_u16 len" t "up_size p"
         caplen])
       (auto simp: process_udp_packet_def bind_eq_Some_conv Let_def split: if_splits)
qed

interpretation tcp: frame_parser process_tcp_packet
proof
  fix t ip caplen wirelen p r q
  show "process_tcp_packet t ip caplen wirelen p = Some (r, q) \<Longrightarrow> r = 0 \<or> r = -1"
    by (auto simp: process_tcp_packet_def bind_eq_Some_conv Let_def split: if_splits)
qed (use tcp_in_bounds tcp_accepted accepted_as_law in blast)+

interpretation udp: frame_parser process_udp_packet
proof
  fix t ip caplen wirelen p r q
  show "process_udp_packet t ip caplen wirelen p = Some (r, q) \<Longrightarrow> r = 0 \<or> r = -1"
    by (auto simp: process_udp_packet_def bind_eq_Some_conv Let_def split: if_splits)
qed (use udp_in_bounds udp_accepted accepted_as_law in blast)+

section \<open>Encoders\<close>

text \<open>
  An IPv4 header with its options, and TCP and UDP segments, byte by byte. The fields the
  parsers do not read are arbitrary bytes.
\<close>

record ip_misc =
  tos :: byte
  ident_frag :: "byte \<times> byte \<times> byte \<times> byte"
  ttl :: byte
  checksum :: u16
  ip_options :: "byte list"

definition ip_header :: "ip_misc \<Rightarrow> u16 \<Rightarrow> byte \<Rightarrow> u32 \<Rightarrow> u32 \<Rightarrow> byte list" where
  "ip_header x tot proto src dst =
     [word_of_nat (64 + (5 + length (ip_options x) div 4)), tos x] @ put_be16 tot @
     (case ident_frag x of (a, b, c, d) \<Rightarrow> [a, b, c, d]) @ [ttl x, proto] @
     put_be16 (checksum x) @ put_le32 src @ put_le32 dst @ ip_options x"

record tcp_fields =
  tf_source :: u16
  tf_dest :: u16
  tf_seq :: u32
  tf_ack :: u32
  tf_bits :: byte
  tf_window :: u16
  tf_rest :: "byte \<times> byte \<times> byte \<times> byte"
  tf_options :: "byte list"

definition tcp_header :: "tcp_fields \<Rightarrow> byte list" where
  "tcp_header f =
     put_be16 (tf_source f) @ put_be16 (tf_dest f) @ put_be32 (tf_seq f) @ put_be32 (tf_ack f) @
     [word_of_nat (16 * (5 + length (tf_options f) div 4)), tf_bits f] @ put_be16 (tf_window f) @
     (case tf_rest f of (a, b, c, d) \<Rightarrow> [a, b, c, d]) @ tf_options f"

definition udp_header :: "u16 \<Rightarrow> u16 \<Rightarrow> u16 \<Rightarrow> u16 \<Rightarrow> byte list" where
  "udp_header source dest len ck = put_be16 source @ put_be16 dest @ put_be16 len @ put_be16 ck"

definition options_ok :: "byte list \<Rightarrow> bool" where
  "options_ok os \<longleftrightarrow> length os mod 4 = 0 \<and> length os \<le> 40"

lemma nibble_split: "(a :: nat) < 16 \<Longrightarrow> (16 * b + a) mod 16 = a \<and> (16 * b + a) div 16 = b"
  by simp

lemma read_put:
  "length xs = n \<Longrightarrow> get_be16 (xs @ put_be16 v @ ys) n = Some v"
  "length xs = n \<Longrightarrow> get_be32 (xs @ put_be32 w @ ys) n = Some w"
  "length xs = n \<Longrightarrow> get_le32 (xs @ put_le32 w @ ys) n = Some w"
  using reads_append0 by (auto simp: get_be16_put get_be32_put get_le32_put)

lemma ip_header_length:
  "length (ip_header x tot proto src dst) = 20 + length (ip_options x)"
  by (simp add: ip_header_def split: prod.splits)

lemma ip_header_reads:
  assumes "options_ok (ip_options x)"
  shows "\<exists>vhl. get8 (ip_header x tot proto src dst @ rest) 0 = Some vhl \<and>
           IP_HL vhl * 4 = 20 + int (length (ip_options x)) \<and> IP_V vhl = 4"
    "get_be16 (ip_header x tot proto src dst @ rest) 2 = Some tot"
    "get8 (ip_header x tot proto src dst @ rest) 9 = Some proto"
    "get_le32 (ip_header x tot proto src dst @ rest) 12 = Some src"
    "get_le32 (ip_header x tot proto src dst @ rest) 16 = Some dst"
proof -
  obtain a b c d where id: "ident_frag x = (a, b, c, d)" by (cases "ident_frag x")
  let ?v = "64 + (5 + length (ip_options x) div 4)"
  let ?vhl = "word_of_nat ?v :: byte"
  have hdr: "ip_header x tot proto src dst @ rest =
     [?vhl, tos x] @ put_be16 tot @ [a, b, c, d, ttl x, proto] @ put_be16 (checksum x) @
     put_le32 src @ put_le32 dst @ ip_options x @ rest"
    by (simp add: ip_header_def id)
  from assms have "?v mod 256 = ?v"
    and "int (5 + length (ip_options x) div 4) * 4 = 20 + int (length (ip_options x))"
    by (auto simp: options_ok_def)
  moreover have "?v mod 16 = 5 + length (ip_options x) div 4" "?v div 16 = 4"
    using nibble_split [of "5 + length (ip_options x) div 4" 4] assms
    by (auto simp: options_ok_def)
  ultimately show "\<exists>vhl. get8 (ip_header x tot proto src dst @ rest) 0 = Some vhl \<and>
           IP_HL vhl * 4 = 20 + int (length (ip_options x)) \<and> IP_V vhl = 4"
    by (intro exI [of _ ?vhl])
       (auto simp: hdr get8_def IP_HL_def IP_V_def unat_low_nibble unat_high_nibble
          unat_of_nat_byte simp del: of_nat_add)
  show "get_be16 (ip_header x tot proto src dst @ rest) 2 = Some tot"
    using read_put(1) [of "[?vhl, tos x]" 2 tot] by (simp add: hdr)
  show "get8 (ip_header x tot proto src dst @ rest) 9 = Some proto"
    by (simp add: hdr get8_def put_be16_def)
  let ?pre = "[?vhl, tos x] @ put_be16 tot @ [a, b, c, d, ttl x, proto] @ put_be16 (checksum x)"
  show "get_le32 (ip_header x tot proto src dst @ rest) 12 = Some src"
    using read_put(3) [of ?pre 12 src] by (simp add: hdr)
  show "get_le32 (ip_header x tot proto src dst @ rest) 16 = Some dst"
    using read_put(3) [of "?pre @ put_le32 src" 16 dst] by (simp add: hdr)
qed

lemma tcp_header_length: "length (tcp_header f) = 20 + length (tf_options f)"
  by (simp add: tcp_header_def split: prod.splits)

lemma tcp_header_reads:
  assumes "options_ok (tf_options f)"
  shows "get_be16 (tcp_header f @ rest) 0 = Some (tf_source f)"
    "get_be16 (tcp_header f @ rest) 2 = Some (tf_dest f)"
    "get_be32 (tcp_header f @ rest) 4 = Some (tf_seq f)"
    "get_be32 (tcp_header f @ rest) 8 = Some (tf_ack f)"
    "get8 (tcp_header f @ rest) 13 = Some (tf_bits f)"
    "get_be16 (tcp_header f @ rest) 14 = Some (tf_window f)"
    "\<exists>off. get8 (tcp_header f @ rest) 12 = Some off \<and>
       TH_OFF off * 4 = 20 + int (length (tf_options f))"
proof -
  obtain a b c d where r: "tf_rest f = (a, b, c, d)" by (cases "tf_rest f")
  let ?v = "16 * (5 + length (tf_options f) div 4)"
  let ?off = "word_of_nat ?v :: byte"
  have hdr: "tcp_header f @ rest =
     put_be16 (tf_source f) @ put_be16 (tf_dest f) @ put_be32 (tf_seq f) @ put_be32 (tf_ack f) @
     [?off, tf_bits f] @ put_be16 (tf_window f) @ [a, b, c, d] @ tf_options f @ rest"
    by (simp add: tcp_header_def r)
  note sd = read_put(1) [of "put_be16 (tf_source f)" 2 "tf_dest f"]
  let ?ports = "put_be16 (tf_source f) @ put_be16 (tf_dest f)"
  let ?nums = "put_be32 (tf_seq f) @ put_be32 (tf_ack f)"
  show "get_be16 (tcp_header f @ rest) 0 = Some (tf_source f)"
    by (simp add: hdr get_be16_put)
  show "get_be16 (tcp_header f @ rest) 2 = Some (tf_dest f)"
    using sd by (simp add: hdr)
  show "get_be32 (tcp_header f @ rest) 4 = Some (tf_seq f)"
    using read_put(2) [of ?ports 4 "tf_seq f"] by (simp add: hdr)
  show "get_be32 (tcp_header f @ rest) 8 = Some (tf_ack f)"
    using read_put(2) [of "?ports @ put_be32 (tf_seq f)" 8 "tf_ack f"] by (simp add: hdr)
  show "get_be16 (tcp_header f @ rest) 14 = Some (tf_window f)"
    using read_put(1) [of "?ports @ ?nums @ [?off, tf_bits f]" 14 "tf_window f"] by (simp add: hdr)
  show "get8 (tcp_header f @ rest) 13 = Some (tf_bits f)"
    by (simp add: hdr get8_def put_be16_def put_be32_def)
  from assms have "?v mod 256 = ?v"
    and "int (5 + length (tf_options f) div 4) * 4 = 20 + int (length (tf_options f))"
    by (auto simp: options_ok_def)
  then show "\<exists>off. get8 (tcp_header f @ rest) 12 = Some off \<and>
       TH_OFF off * 4 = 20 + int (length (tf_options f))"
    by (intro exI [of _ ?off])
       (auto simp: hdr get8_def TH_OFF_def unat_high_nibble put_be16_def put_be32_def
          unat_of_nat_byte simp del: of_nat_add of_nat_mult)
qed

lemma udp_header_reads:
  "get_be16 (udp_header source dest len ck @ rest) 0 = Some source"
  "get_be16 (udp_header source dest len ck @ rest) 2 = Some dest"
  "get_be16 (udp_header source dest len ck @ rest) 4 = Some len"
  using read_put(1) [of "put_be16 source" 2 dest]
    read_put(1) [of "put_be16 source @ put_be16 dest" 4 len]
  by (simp_all add: udp_header_def get_be16_put)

lemma udp_header_length: "length (udp_header source dest len ck) = 8"
  by (simp add: udp_header_def)

text \<open>Reads at an offset into the transport header, behind the IP header and inside the capture.\<close>

lemma captured_reads:
  assumes "options_ok (ip_options x)" "frame = ip_header x tot proto src dst @ seg"
    and "h = 20 + length (ip_options x)" "h + 8 \<le> n"
  obtains vhl where "get8 (take n frame) 0 = Some vhl" "IP_HL vhl * 4 = int h"
    "get_be16 (take n frame) 2 = Some tot" "get_le32 (take n frame) 12 = Some src"
    "get_le32 (take n frame) 16 = Some dst"
    "\<And>k. h + k < n \<Longrightarrow> get8 (take n frame) (h + k) = get8 seg k"
    "\<And>k. h + k + 1 < n \<Longrightarrow> get_be16 (take n frame) (h + k) = get_be16 seg k"
    "\<And>k. h + k + 3 < n \<Longrightarrow> get_be32 (take n frame) (h + k) = get_be32 seg k"
proof -
  note ipr = ip_header_reads [OF assms(1), of tot proto src dst seg, folded assms(2)]
  from ipr(1) obtain vhl where "get8 frame 0 = Some vhl" "IP_HL vhl * 4 = int h"
    using assms(3) by auto
  moreover have "get8 frame (h + k) = get8 seg k" "get_be16 frame (h + k) = get_be16 seg k"
    "get_be32 frame (h + k) = get_be32 seg k" for k
    using reads_append(1-3) [of "ip_header x tot proto src dst" seg k]
    by (simp_all add: assms(2,3) ip_header_length)
  ultimately show thesis
    using ipr(2,4,5) assms(3,4) by (intro that [of vhl]) (simp_all add: reads_take)
qed

lemma captured_payload:
  assumes "frame = hdr @ data @ padding" "length hdr = k"
  shows "take (nat (if int (length data) < int n - int k then int (length data) else int n - int k))
           (drop k (take n frame)) = take (n - k) data"
proof -
  have "drop k (take n frame) = take (n - k) (data @ padding)"
    by (simp only: drop_take assms(1)) (simp add: assms(2)[symmetric])
  moreover have "nat (if int (length data) < int n - int k then int (length data)
      else int n - int k) = min (length data) (n - k)"
    by (cases "length data < n - k"; cases "k \<le> n") (auto simp: nat_diff_distrib' not_less)
  ultimately show ?thesis by (simp only: take_take) (simp add: min_def)
qed

section \<open>Properties\<close>

text \<open>
  C18. Parser safety: on any captured bytes, however malformed, neither parser reads outside
  the \<open>caplen\<close> bytes it was given; it returns 0 or -1, and when it returns 0 the payload it
  points to is readable for \<open>payload_size\<close> bytes, which is the payload on the wire cut at
  the end of the capture, and the wire payload fits the frame's length on the wire.
\<close>

theorem parsers_safe:
  assumes "parse = process_tcp_packet \<or> parse = process_udp_packet"
    and "0 < caplen" "caplen \<le> int (length ip)"
  shows "\<exists>r q. parse t ip caplen wirelen p = Some (r, q) \<and> (r = 0 \<or> r = -1) \<and>
           (r = 0 \<longrightarrow> packet_ok q \<and> wire_payload_size q \<le> wirelen \<and>
              (wirelen \<le> caplen \<longrightarrow> payload_size q = wire_payload_size q))"
  using assms(1)
proof
  assume tcp: "parse = process_tcp_packet"
  from tcp.in_bounds [OF assms(2,3)] obtain r q where
    r: "process_tcp_packet t ip caplen wirelen p = Some (r, q)" by blast
  with tcp.code [OF r] show ?thesis
    using tcp.accepted_ok [OF assms(3), of t wirelen p q] tcp.accepted_wire [of t ip caplen wirelen p q]
      tcp.accepted_complete [of wirelen caplen t ip p q] unfolding tcp by auto
next
  assume udp: "parse = process_udp_packet"
  from udp.in_bounds [OF assms(2,3)] obtain r q where
    r: "process_udp_packet t ip caplen wirelen p = Some (r, q)" by blast
  with udp.code [OF r] show ?thesis
    using udp.accepted_ok [OF assms(3), of t wirelen p q] udp.accepted_wire [of t ip caplen wirelen p q]
      udp.accepted_complete [of wirelen caplen t ip p q] unfolding udp by auto
qed

definition demo_tv :: timeval where
  "demo_tv = \<lparr>tv_sec = 10, tv_usec = 20\<rparr>"

theorem parsers_safe_witness:
  "\<exists>r q. process_tcp_packet demo_tv (replicate 24 0x45) 24 60 zero_packet = Some (r, q) \<and>
     (r = 0 \<or> r = -1) \<and>
     (r = 0 \<longrightarrow> packet_ok q \<and> wire_payload_size q \<le> 60 \<and>
        ((60::int) \<le> 24 \<longrightarrow> payload_size q = wire_payload_size q))"
  using parsers_safe [of process_tcp_packet 24 "replicate 24 0x45" demo_tv 60 zero_packet] by simp

text \<open>
  C28. TCP round trip: parsing the encoding of any TCP packet, with any IP and TCP options, any
  bytes in the fields the parser ignores and any trailing link-layer padding, captured whole or
  cut anywhere behind the headers, succeeds and gives back the addresses, ports, sequence and
  acknowledgement numbers, window, the flags FIN, SYN, RST, PSH and ACK, the payload length on
  the wire, and the captured part of the payload.
\<close>

theorem tcp_roundtrip:
  assumes "options_ok (ip_options x)" "options_ok (tf_options f)"
    and "unat tot = 40 + length (ip_options x) + length (tf_options f) + length data"
    and "40 + length (ip_options x) + length (tf_options f) \<le> n" "int (unat tot) \<le> wirelen"
    and "frame = ip_header x tot proto src dst @ tcp_header f @ data @ padding" "n \<le> length frame"
  shows "\<exists>q. process_tcp_packet t (take n frame) (int n) wirelen p = Some (0, q) \<and>
           ip_src q = src \<and> ip_dst q = dst \<and> port_src q = tf_source f \<and> port_dst q = tf_dest f \<and>
           seq q = tf_seq f \<and> ack q = tf_ack f \<and> window q = tf_window f \<and>
           flags q = tf_bits f AND 0x1f \<and> tv q = t \<and> is_tcp q = 1 \<and>
           wire_payload_size q = int (length data) \<and>
           take (nat (payload_size q)) (payload q) =
             take (n - (40 + length (ip_options x) + length (tf_options f))) data"
proof -
  define h tl where "h = 20 + length (ip_options x)" and "tl = 20 + length (tf_options f)"
  note sizes = this
  from assms(3-5) have len: "unat tot = h + tl + length data" "h + tl \<le> n"
    "int (h + tl + length data) \<le> wirelen" "20 \<le> h" "20 \<le> tl"
    by (simp_all add: sizes)
  let ?seg = "tcp_header f @ data @ padding"
  from len have "h + 8 \<le> n" by simp
  from captured_reads [OF assms(1,6) sizes(1) this] obtain vhl where ip:
    "get8 (take n frame) 0 = Some vhl" "IP_HL vhl * 4 = int h"
    "get_be16 (take n frame) 2 = Some tot" "get_le32 (take n frame) 12 = Some src"
    "get_le32 (take n frame) 16 = Some dst"
    and seg: "\<And>k. h + k < n \<Longrightarrow> get8 (take n frame) (h + k) = get8 ?seg k"
    "\<And>k. h + k + 1 < n \<Longrightarrow> get_be16 (take n frame) (h + k) = get_be16 ?seg k"
    "\<And>k. h + k + 3 < n \<Longrightarrow> get_be32 (take n frame) (h + k) = get_be32 ?seg k"
    by metis
  note tr = tcp_header_reads [OF assms(2), of "data @ padding"]
  from tr(7) obtain off where off: "get8 ?seg 12 = Some off" "TH_OFF off * 4 = int tl"
    by (auto simp: sizes)
  have room: "h + 20 \<le> n" using len by simp
  have reads: "get_be32 (take n frame) (h + 4) = Some (tf_seq f)"
    "get_be32 (take n frame) (h + 8) = Some (tf_ack f)"
    "get8 (take n frame) (h + 13) = Some (tf_bits f)"
    "get_be16 (take n frame) h = Some (tf_source f)"
    "get_be16 (take n frame) (h + 2) = Some (tf_dest f)"
    "get_be16 (take n frame) (h + 14) = Some (tf_window f)"
    "get8 (take n frame) (h + 12) = Some off"
    using room seg(1) [of 13] seg(1) [of 12] seg(2) [of 0] seg(2) [of 2] seg(2) [of 14]
      seg(3) [of 4] seg(3) [of 8] tr(1-6) off(1) by simp_all
  have pay: "take (nat (if int (length data) < int n - int (h + tl) then int (length data)
                    else int n - int (h + tl))) (drop (h + tl) (take n frame)) =
      take (n - (h + tl)) data"
    by (rule captured_payload [of _ "ip_header x tot proto src dst @ tcp_header f" _ padding])
       (simp_all only: assms(6) append_assoc length_append ip_header_length tcp_header_length
         sizes)
  have "process_tcp_packet t (take n frame) (int n) wirelen p =
    Some (0, p\<lparr>tv := t, ip_src := src, ip_dst := dst, seq := tf_seq f, ack := tf_ack f,
         flags := tf_bits f AND 0x1f, port_src := tf_source f, port_dst := tf_dest f,
         window := tf_window f, wire_payload_size := int (length data),
         payload := drop (h + tl) (take n frame),
         payload_size := (if int (length data) < int n - int (h + tl) then int (length data)
                    else int n - int (h + tl)), is_tcp := 1\<rparr>)"
    using len unfolding process_tcp_packet_def Let_def ip nat_int reads off(2) Option.bind.bind_lunit
    by (simp add: tcp_flags_mask int_of_u16_def)
  moreover have "h + tl = 40 + length (ip_options x) + length (tf_options f)"
    by (simp add: sizes)
  ultimately show ?thesis using pay by simp
qed

definition demo_misc :: ip_misc where
  "demo_misc = \<lparr>tos = 0, ident_frag = (1, 2, 3, 4), ttl = 64, checksum = 0xbeef, ip_options = []\<rparr>"

definition demo_tcp :: tcp_fields where
  "demo_tcp =
     \<lparr>tf_source = 50000, tf_dest = 6379, tf_seq = 7, tf_ack = 9, tf_bits = 0x38, tf_window = 512,
      tf_rest = (0, 0, 0, 0), tf_options = [1, 1, 1, 0]\<rparr>"

theorem tcp_roundtrip_witness:
  "\<exists>q. process_tcp_packet demo_tv
         (take 46 (ip_header demo_misc 48 6 1 2 @ tcp_header demo_tcp @ str ''PING'' @ [0]))
         (int 46) 49 zero_packet = Some (0, q) \<and>
       port_dst q = 6379 \<and> flags q = 0x18 \<and> wire_payload_size q = 4 \<and>
       take (nat (payload_size q)) (payload q) = str ''PI''"
  using tcp_roundtrip [of demo_misc demo_tcp 48 "str ''PING''" 46 49
      "ip_header demo_misc 48 6 1 2 @ tcp_header demo_tcp @ str ''PING'' @ [0]" 6 1 2 "[0]" demo_tv
      zero_packet]
  by (auto simp: demo_misc_def demo_tcp_def options_ok_def str_def ip_header_length tcp_header_length)

text \<open>
  UDP round trip: parsing the encoding of any UDP datagram, with any IP options and any
  trailing padding, captured whole or cut anywhere behind the headers, succeeds and gives back
  the addresses and ports, the payload length on the wire, and the captured part of the
  payload.
\<close>

theorem udp_roundtrip:
  assumes "options_ok (ip_options x)" "unat len = 8 + length data"
    and "28 + length (ip_options x) \<le> n" "int (28 + length (ip_options x) + length data) \<le> wirelen"
    and "frame = ip_header x tot proto src dst @ udp_header source dest len ck @ data @ padding"
    and "n \<le> length frame"
  shows "\<exists>q. process_udp_packet t (take n frame) (int n) wirelen p = Some (0, q) \<and>
           ip_src q = src \<and> ip_dst q = dst \<and> port_src q = source \<and> port_dst q = dest \<and>
           flags q = flags p \<and> tv q = t \<and> is_tcp q = 0 \<and>
           wire_payload_size q = int (length data) \<and>
           take (nat (payload_size q)) (payload q) = take (n - (28 + length (ip_options x))) data"
proof -
  define h where "h = 20 + length (ip_options x)"
  from assms(3,4) have len: "h + 8 \<le> n" "int (h + 8 + length data) \<le> wirelen" "20 \<le> h"
    by (simp_all add: h_def)
  let ?seg = "udp_header source dest len ck @ data @ padding"
  from captured_reads [OF assms(1,5) h_def len(1)] obtain vhl where ip:
    "get8 (take n frame) 0 = Some vhl" "IP_HL vhl * 4 = int h"
    "get_le32 (take n frame) 12 = Some src" "get_le32 (take n frame) 16 = Some dst"
    and seg: "\<And>k. h + k + 1 < n \<Longrightarrow> get_be16 (take n frame) (h + k) = get_be16 ?seg k"
    by metis
  have reads: "get_be16 (take n frame) h = Some source"
    "get_be16 (take n frame) (h + 2) = Some dest" "get_be16 (take n frame) (h + 4) = Some len"
    using len seg [of 0] seg [of 2] seg [of 4] by (simp_all add: udp_header_reads)
  have pay: "take (nat (if int (length data) < int n - int (h + 8) then int (length data)
                    else int n - int (h + 8))) (drop (h + 8) (take n frame)) =
      take (n - (h + 8)) data"
    by (rule captured_payload
          [of _ "ip_header x tot proto src dst @ udp_header source dest len ck" _ padding])
       (simp_all only: assms(5) append_assoc length_append ip_header_length udp_header_length h_def)
  have "process_udp_packet t (take n frame) (int n) wirelen p =
    Some (0, p\<lparr>tv := t, ip_src := src, ip_dst := dst, port_src := source, port_dst := dest,
         wire_payload_size := int (length data), payload := drop (h + 8) (take n frame),
         payload_size := (if int (length data) < int n - int (h + 8) then int (length data)
                    else int n - int (h + 8)), is_tcp := 0\<rparr>)"
    using len assms(2)
    unfolding process_udp_packet_def Let_def ip nat_int reads Option.bind.bind_lunit
    by (simp add: int_of_u16_def)
  moreover have "h + 8 = 28 + length (ip_options x)" by (simp add: h_def)
  ultimately show ?thesis using pay by simp
qed

theorem udp_roundtrip_witness:
  "\<exists>q. process_udp_packet demo_tv
         (take 30 (ip_header demo_misc 32 17 1 2 @ udp_header 53 5353 12 0 @ str ''ping'' @ []))
         (int 30) 40 zero_packet = Some (0, q) \<and>
       port_src q = 53 \<and> wire_payload_size q = 4 \<and>
       take (nat (payload_size q)) (payload q) = str ''pi''"
  using udp_roundtrip [of demo_misc 12 "str ''ping''" 30 40
      "ip_header demo_misc 32 17 1 2 @ udp_header 53 5353 12 0 @ str ''ping'' @ []" 32 17 1 2 53 5353 0
      "[]" demo_tv zero_packet]
  by (auto simp: demo_misc_def options_ok_def str_def ip_header_length udp_header_length)

end
