(* ===== verification/Lua.thy ===== *)
theory Lua
  imports Log Packet
begin

text \<open>
  The glue to the Lua interpreter of \<open>src/lua.c\<close>, and \<open>push_packet_to_lua_state\<close> of
  \<open>src/packet.c\<close>. The interpreter itself is a library the program calls: the API functions
  the glue uses are the fields of \<open>lua_api\<close>, arguments of the model over an arbitrary type of
  interpreter states. The static counter of \<open>lua_need_gc\<close> is part of the state it returns.

  The lemmas show that a packet leaves the depth of the interpreter's stack as it found it, and
  that a garbage collection step is asked for once every 500 packets.
\<close>

unbundle bit_operations_syntax

section \<open>The API of the interpreter\<close>

record 'l lua_api =
  luaL_newstate :: "'l option"
  luaL_openlibs :: "'l \<Rightarrow> 'l"
  access_error :: "cstring \<Rightarrow> cstring option"
  luaL_dofile :: "cstring \<Rightarrow> 'l \<Rightarrow> int \<times> 'l"
  lua_getglobal :: "cstring \<Rightarrow> 'l \<Rightarrow> 'l"
  lua_isfunction :: "int \<Rightarrow> 'l \<Rightarrow> bool"
  lua_gettop :: "'l \<Rightarrow> int"
  lua_pop :: "int \<Rightarrow> 'l \<Rightarrow> 'l"
  lua_newtable :: "'l \<Rightarrow> 'l"
  lua_pushstring :: "cstring \<Rightarrow> 'l \<Rightarrow> 'l"
  lua_pushboolean :: "int \<Rightarrow> 'l \<Rightarrow> 'l"
  lua_pushinteger :: "int \<Rightarrow> 'l \<Rightarrow> 'l"
  lua_pushlstring :: "byte list \<Rightarrow> 'l \<Rightarrow> 'l"
  lua_settable :: "int \<Rightarrow> 'l \<Rightarrow> 'l"
  lua_pcall :: "int \<Rightarrow> int \<Rightarrow> int \<Rightarrow> 'l \<Rightarrow> int \<times> 'l"
  lua_tostring :: "int \<Rightarrow> 'l \<Rightarrow> cstring option"
  lua_tonumber :: "int \<Rightarrow> 'l \<Rightarrow> int \<times> 'l"
  lua_gc_step :: "int \<Rightarrow> 'l \<Rightarrow> 'l"

definition MAX_ERR_BUFF_SIZE :: nat where
  "MAX_ERR_BUFF_SIZE = 256"

section \<open>Operations\<close>

text \<open>
  \<open>lua_state_create\<close>: the error text left in the caller's buffer, or the state. A failed
  \<open>luaL_newstate\<close> is not checked, and the libraries are opened on NULL.
\<close>

definition lua_state_create :: "'l lua_api \<Rightarrow> cstring \<Rightarrow> (cstring + 'l) outcome" where
  "lua_state_create L file =
     (case luaL_newstate L of
        None \<Rightarrow> Undefined
      | Some state0 \<Rightarrow>
          (let state = luaL_openlibs L state0 in
           case access_error L file of
             Some e \<Rightarrow>
               Done (Inl (snprintf MAX_ERR_BUFF_SIZE
                 (str ''open lua file('' @ file @ str ''): '' @ e @ str '' '')))
           | None \<Rightarrow>
               (case luaL_dofile L file state of
                  (rc, state) \<Rightarrow>
                    if rc \<noteq> 0 then
                      Done (Inl (snprintf MAX_ERR_BUFF_SIZE (show_s (lua_tostring L (-1) state))))
                    else
                      (let state = lua_getglobal L (str ''process'') state in
                       if \<not> lua_isfunction L (lua_gettop L state) state then
                         Done (Inl (snprintf MAX_ERR_BUFF_SIZE (39 # str ''process'' @ 39 #
                           str '' function was not found'')))
                       else Done (Inr (lua_pop L 1 state))))))"

definition lua_table_push_boolean :: "'l lua_api \<Rightarrow> cstring \<Rightarrow> int \<Rightarrow> 'l \<Rightarrow> 'l" where
  "lua_table_push_boolean L key b state =
     lua_settable L (-3) (lua_pushboolean L b (lua_pushstring L key state))"

definition lua_table_push_int :: "'l lua_api \<Rightarrow> cstring \<Rightarrow> int \<Rightarrow> 'l \<Rightarrow> 'l" where
  "lua_table_push_int L key v state =
     lua_settable L (-3) (lua_pushinteger L v (lua_pushstring L key state))"

definition lua_table_push_string :: "'l lua_api \<Rightarrow> cstring \<Rightarrow> cstring \<Rightarrow> 'l \<Rightarrow> 'l" where
  "lua_table_push_string L key v state =
     lua_settable L (-3) (lua_pushlstring L v (lua_pushstring L key state))"

text \<open>\<open>lua_pushlstring\<close> copies \<open>sz\<close> bytes from the buffer: more than it holds is undefined.\<close>

definition lua_table_push_cstring ::
    "'l lua_api \<Rightarrow> cstring \<Rightarrow> byte list \<Rightarrow> int \<Rightarrow> 'l \<Rightarrow> 'l outcome" where
  "lua_table_push_cstring L key v sz state =
     (if 0 \<le> sz \<and> nat sz \<le> length v then
        Done (lua_settable L (-3) (lua_pushlstring L (take (nat sz) v) (lua_pushstring L key state)))
      else Undefined)"

definition LUA_GC_CYCLE_PERIOD :: int where
  "LUA_GC_CYCLE_PERIOD = 500"

text \<open>The state is paired with the static \<open>gc_count\<close>.\<close>

definition lua_need_gc :: "'l lua_api \<Rightarrow> 'l \<times> int \<Rightarrow> 'l \<times> int" where
  "lua_need_gc L s =
     (let (state, gc_count) = s; gc_count = gc_count + 1 in
      if gc_count = LUA_GC_CYCLE_PERIOD then (lua_gc_step L LUA_GC_CYCLE_PERIOD state, 0)
      else (state, gc_count))"

text \<open>\<open>push_packet_to_lua_state\<close>: \<open>t_now\<close> is the time stamp of a log message.\<close>

definition push_packet_to_lua_state ::
    "'l lua_api \<Rightarrow> cstring \<Rightarrow> user_packet \<Rightarrow> 'l \<times> int \<Rightarrow> logger \<Rightarrow> (('l \<times> int) \<times> logger) outcome" where
  "push_packet_to_lua_state L t_now p s lg =
     (let (state, gc_count) = s;
          state = lua_newtable L (lua_getglobal L (str ''process'') state);
          state = lua_table_push_int L (str ''tv_sec'') (tv_sec (tv p)) state;
          state = lua_table_push_int L (str ''tv_usec'') (tv_usec (tv p)) state;
          state = lua_table_push_string L (str ''sip'') (inet_ntoa (ip_src p)) state;
          state = lua_table_push_int L (str ''sport'') (uint (port_src p)) state;
          state = lua_table_push_string L (str ''dip'') (inet_ntoa (ip_dst p)) state;
          state = lua_table_push_int L (str ''dport'') (uint (port_dst p)) state;
          state =
            (if is_tcp p \<noteq> 0 then
               lua_table_push_int L (str ''window'') (uint (window p))
                 (lua_table_push_int L (str ''flags'') (uint (flags p))
                   (lua_table_push_int L (str ''ack'') (uint (ack p))
                     (lua_table_push_int L (str ''seq'') (uint (seq p)) state)))
             else state)
      in and_then (lua_table_push_cstring L (str ''payload'') (payload p) (payload_size p) state)
           (\<lambda>state.
              let state = lua_table_push_int L (str ''size'') (payload_size p) state;
                  (rc, state) = lua_pcall L 1 1 0 state
              in and_then
                   (if rc \<noteq> 0 then
                      log_message t_now FATAL (show_s (lua_tostring L (-1) state)) lg
                    else Done lg)
                   (\<lambda>lg. let state = lua_pop L 1 (snd (lua_tonumber L (-1) state))
                         in Done (lua_need_gc L (state, gc_count), lg))))"

section \<open>Specification\<close>

text \<open>
  The documented effect of the API on the number of stack elements (\<open>[-o, +p]\<close> in the Lua
  reference manual), for a measure \<open>depth\<close> of the stack.
\<close>

definition stack_effects :: "'l lua_api \<Rightarrow> ('l \<Rightarrow> int) \<Rightarrow> bool" where
  "stack_effects L depth \<longleftrightarrow>
     (\<forall>s l. depth (lua_getglobal L s l) = depth l + 1) \<and>
     (\<forall>l. depth (lua_newtable L l) = depth l + 1) \<and>
     (\<forall>s l. depth (lua_pushstring L s l) = depth l + 1) \<and>
     (\<forall>b l. depth (lua_pushboolean L b l) = depth l + 1) \<and>
     (\<forall>i l. depth (lua_pushinteger L i l) = depth l + 1) \<and>
     (\<forall>s l. depth (lua_pushlstring L s l) = depth l + 1) \<and>
     (\<forall>i l. depth (lua_settable L i l) = depth l - 2) \<and>
     (\<forall>a r e l. depth (snd (lua_pcall L a r e l)) =
        depth l - (a + 1) + (if fst (lua_pcall L a r e l) = 0 then r else 1)) \<and>
     (\<forall>i l. depth (snd (lua_tonumber L i l)) = depth l) \<and>
     (\<forall>n l. depth (lua_pop L n l) = depth l - n) \<and>
     (\<forall>n l. depth (lua_gc_step L n l) = depth l)"

text \<open>
  A measure \<open>steps\<close> that counts the collection steps of the period's size the glue asks for: no other function of the
  API changes it.
\<close>

definition counts_gc :: "'l lua_api \<Rightarrow> ('l \<Rightarrow> int) \<Rightarrow> bool" where
  "counts_gc L steps \<longleftrightarrow>
     (\<forall>s l. steps (lua_getglobal L s l) = steps l) \<and> (\<forall>l. steps (lua_newtable L l) = steps l) \<and>
     (\<forall>s l. steps (lua_pushstring L s l) = steps l) \<and> (\<forall>b l. steps (lua_pushboolean L b l) = steps l) \<and>
     (\<forall>i l. steps (lua_pushinteger L i l) = steps l) \<and> (\<forall>s l. steps (lua_pushlstring L s l) = steps l) \<and>
     (\<forall>i l. steps (lua_settable L i l) = steps l) \<and> (\<forall>a r e l. steps (snd (lua_pcall L a r e l)) = steps l) \<and>
     (\<forall>i l. steps (snd (lua_tonumber L i l)) = steps l) \<and> (\<forall>n l. steps (lua_pop L n l) = steps l) \<and>
     (\<forall>l. steps (lua_gc_step L LUA_GC_CYCLE_PERIOD l) = steps l + 1)"

text \<open>Packets pushed one after the other.\<close>

fun push_packets ::
    "'l lua_api \<Rightarrow> cstring \<Rightarrow> user_packet list \<Rightarrow> 'l \<times> int \<Rightarrow> logger \<Rightarrow> (('l \<times> int) \<times> logger) outcome"
  where
  "push_packets L t_now [] s lg = Done (s, lg)"
| "push_packets L t_now (p # ps) s lg =
     and_then (push_packet_to_lua_state L t_now p s lg)
       (\<lambda>(s, lg). push_packets L t_now ps s lg)"

section \<open>Lemmas\<close>

lemma table_push_depth:
  assumes "stack_effects L depth"
  shows "depth (lua_table_push_boolean L k b l) = depth l"
    "depth (lua_table_push_int L k i l) = depth l"
    "depth (lua_table_push_string L k s l) = depth l"
    "lua_table_push_cstring L k bs n l = Done l' \<Longrightarrow> depth l' = depth l"
  using assms
  by (auto simp: stack_effects_def lua_table_push_boolean_def lua_table_push_int_def
        lua_table_push_string_def lua_table_push_cstring_def split: if_splits)

lemma need_gc_depth:
  "stack_effects L depth \<Longrightarrow> depth (fst (lua_need_gc L (l, n))) = depth l"
  by (simp add: lua_need_gc_def stack_effects_def Let_def)

lemma need_gc_count:
  "0 \<le> n \<Longrightarrow> n < LUA_GC_CYCLE_PERIOD \<Longrightarrow>
   snd (lua_need_gc L (l, n)) = (n + 1) mod LUA_GC_CYCLE_PERIOD"
  by (auto simp: lua_need_gc_def LUA_GC_CYCLE_PERIOD_def)

lemma log_fatal: "log_message t FATAL msg lg \<noteq> Done lg'"
  by (cases "log_level lg")
     (auto simp: log_message_def log_print_def less_LEVEL_def Let_def split: option.splits)

lemma push_packet_effect:
  assumes "stack_effects L depth"
    and "push_packet_to_lua_state L t p (l, n) lg = Done ((l', n'), lg')"
  shows "depth l' = depth l \<and> lg' = lg \<and> (\<exists>l0. n' = snd (lua_need_gc L (l0, n)))"
proof -
  have eff: "\<And>s l. depth (lua_getglobal L s l) = depth l + 1"
    "\<And>l. depth (lua_newtable L l) = depth l + 1"
    "\<And>l. fst (lua_pcall L 1 1 0 l) = 0 \<Longrightarrow> depth (snd (lua_pcall L 1 1 0 l)) = depth l - 1"
    "\<And>i l. depth (snd (lua_tonumber L i l)) = depth l" "\<And>l. depth (lua_pop L 1 l) = depth l - 1"
    using assms(1) by (auto simp: stack_effects_def)
  let ?call = "\<lambda>s. lua_pcall L 1 1 0 (lua_table_push_int L (str ''size'') (payload_size p) s)"
  from assms(2) obtain s where s: "depth s = 2 + depth l" "fst (?call s) = 0" "lg' = lg"
    "lua_need_gc L (lua_pop L 1 (snd (lua_tonumber L (-1) (snd (?call s)))), n) = (l', n')"
    by (auto simp: push_packet_to_lua_state_def Let_def and_then_Done_iff split_beta log_fatal eff
          table_push_depth [OF assms(1)] split: if_splits
          dest!: table_push_depth(4) [OF assms(1)])
  define l0 where "l0 = lua_pop L 1 (snd (lua_tonumber L (-1) (snd (?call s))))"
  from s have "depth l0 = depth l"
    by (simp add: l0_def eff table_push_depth [OF assms(1)])
  with s(3,4) need_gc_depth [OF assms(1), of l0 n] show ?thesis
    by (fold l0_def) (auto intro!: exI [of _ l0])
qed

lemma push_packet_steps:
  assumes "counts_gc L steps" "0 \<le> n" "n < LUA_GC_CYCLE_PERIOD"
    and "push_packet_to_lua_state L t p (l, n) lg = Done ((l', n'), lg')"
  shows "steps l' = steps l + (n + 1) div LUA_GC_CYCLE_PERIOD"
proof -
  have eff: "\<And>s l. steps (lua_getglobal L s l) = steps l" "\<And>l. steps (lua_newtable L l) = steps l"
    "\<And>a r e l. steps (snd (lua_pcall L a r e l)) = steps l" "\<And>i l. steps (snd (lua_tonumber L i l)) = steps l"
    "\<And>n l. steps (lua_pop L n l) = steps l" "\<And>k i l. steps (lua_table_push_int L k i l) = steps l"
    "\<And>k s l. steps (lua_table_push_string L k s l) = steps l"
    "\<And>k bs n l l'. lua_table_push_cstring L k bs n l = Done l' \<Longrightarrow> steps l' = steps l"
    using assms(1) by (auto simp: counts_gc_def lua_table_push_int_def lua_table_push_string_def
        lua_table_push_cstring_def split: if_splits)
  let ?call = "\<lambda>s. lua_pcall L 1 1 0 (lua_table_push_int L (str ''size'') (payload_size p) s)"
  from assms(4) obtain s where s: "steps s = steps l"
    "lua_need_gc L (lua_pop L 1 (snd (lua_tonumber L (-1) (snd (?call s)))), n) = (l', n')"
    by (auto simp: push_packet_to_lua_state_def Let_def and_then_Done_iff split_beta log_fatal eff split: if_splits
        dest!: eff(8))
  define l0 where "l0 = lua_pop L 1 (snd (lua_tonumber L (-1) (snd (?call s))))"
  have l0: "steps l0 = steps l" "lua_need_gc L (l0, n) = (l', n')" using s by (simp_all add: l0_def eff)
  have "(n + 1) div LUA_GC_CYCLE_PERIOD = (if n + 1 = LUA_GC_CYCLE_PERIOD then 1 else 0)"
    using assms(2,3) by (auto simp: LUA_GC_CYCLE_PERIOD_def)
  with l0 assms(1) show ?thesis by (auto simp: lua_need_gc_def counts_gc_def split: if_splits)
qed

section \<open>Properties\<close>

text \<open>
  C29. Script calls are balanced and collection runs: for an interpreter whose API has the documented stack effects,
  and any count of the collection steps that no other call changes, after any number of packets handed to the script that returned, the depth of the stack is what
  it was before the first, nothing was logged, and the glue has asked for one collection step of size 500 at every 500th
  packet, counted from the value of the static counter of \<open>lua_need_gc\<close>, which holds the number of packets modulo 500.
\<close>

theorem lua_packets_balanced:
  assumes "stack_effects L depth" "counts_gc L steps" "0 \<le> n" "n < LUA_GC_CYCLE_PERIOD"
    and "push_packets L t ps (l, n) lg = Done ((l', n'), lg')"
  shows "depth l' = depth l \<and> lg' = lg \<and> n' = (n + int (length ps)) mod LUA_GC_CYCLE_PERIOD \<and>
    steps l' = steps l + (n + int (length ps)) div LUA_GC_CYCLE_PERIOD"
  using assms(3-5)
proof (induction ps arbitrary: l n lg)
  case Nil
  then show ?case by simp
next
  case (Cons p ps)
  from Cons.prems(3) obtain l1 n1 lg1 where
    one: "push_packet_to_lua_state L t p (l, n) lg = Done ((l1, n1), lg1)"
    and rest: "push_packets L t ps (l1, n1) lg1 = Done ((l', n'), lg')"
    by (auto simp: and_then_Done_iff)
  let ?P = LUA_GC_CYCLE_PERIOD
  from push_packet_effect [OF assms(1) one] need_gc_count [OF Cons.prems(1,2)]
  have step: "depth l1 = depth l" "lg1 = lg" "n1 = (n + 1) mod ?P" by auto
  then have n1: "0 \<le> n1" "n1 < ?P" by (simp_all add: LUA_GC_CYCLE_PERIOD_def)
  have "(n1 + int (length ps)) div ?P + (n + 1) div ?P = (n + 1 + int (length ps)) div ?P"
  proof -
    have "n + 1 + int (length ps) = n1 + int (length ps) + ?P * ((n + 1) div ?P)" using step(3) by simp
    then show ?thesis
      using div_mult_self2 [of ?P "n1 + int (length ps)" "(n + 1) div ?P"] by (simp add: LUA_GC_CYCLE_PERIOD_def)
  qed
  with Cons.IH [OF n1 rest] step push_packet_steps [OF assms(2) Cons.prems(1,2) one] show ?case
    by (simp add: mod_add_left_eq add.assoc add.commute [of 1])
qed

text \<open>An interpreter reduced to the depth of its stack, on which every call succeeds.\<close>

definition depth_api :: "int lua_api" where
  "depth_api =
     \<lparr>luaL_newstate = Some 0, luaL_openlibs = id, access_error = (\<lambda>f. None),
      luaL_dofile = (\<lambda>f l. (0, l)), lua_getglobal = (\<lambda>s l. l + 1), lua_isfunction = (\<lambda>i l. True),
      lua_gettop = id, lua_pop = (\<lambda>n l. l - n), lua_newtable = (\<lambda>l. l + 1),
      lua_pushstring = (\<lambda>s l. l + 1), lua_pushboolean = (\<lambda>b l. l + 1),
      lua_pushinteger = (\<lambda>i l. l + 1), lua_pushlstring = (\<lambda>s l. l + 1),
      lua_settable = (\<lambda>i l. l - 2), lua_pcall = (\<lambda>a r e l. (0, l - (a + 1) + r)),
      lua_tostring = (\<lambda>i l. None), lua_tonumber = (\<lambda>i l. (0, l)), lua_gc_step = (\<lambda>n l. l)\<rparr>"

text \<open>One that also counts its collection steps.\<close>

definition counting_api :: "(int \<times> int) lua_api" where
  "counting_api =
     \<lparr>luaL_newstate = Some (0, 0), luaL_openlibs = id, access_error = (\<lambda>f. None),
      luaL_dofile = (\<lambda>f l. (0, l)), lua_getglobal = (\<lambda>s (d, g). (d + 1, g)), lua_isfunction = (\<lambda>i l. True),
      lua_gettop = fst, lua_pop = (\<lambda>n (d, g). (d - n, g)), lua_newtable = (\<lambda>(d, g). (d + 1, g)),
      lua_pushstring = (\<lambda>s (d, g). (d + 1, g)), lua_pushboolean = (\<lambda>b (d, g). (d + 1, g)),
      lua_pushinteger = (\<lambda>i (d, g). (d + 1, g)), lua_pushlstring = (\<lambda>s (d, g). (d + 1, g)),
      lua_settable = (\<lambda>i (d, g). (d - 2, g)), lua_pcall = (\<lambda>a r e (d, g). (0, (d - (a + 1) + r, g))),
      lua_tostring = (\<lambda>i l. None), lua_tonumber = (\<lambda>i l. (0, l)), lua_gc_step = (\<lambda>n (d, g). (d, g + 1))\<rparr>"

theorem lua_packets_balanced_witness:
  "push_packets counting_api (str ''now'') [zero_packet, zero_packet] ((5, 0), 499) demo_logger =
     Done (((5, 1), 1), demo_logger) \<and> (1 :: int) = 0 + (499 + int (length [zero_packet, zero_packet])) div LUA_GC_CYCLE_PERIOD"
proof -
  have "push_packets counting_api (str ''now'') [zero_packet, zero_packet] ((5, 0), 499) demo_logger =
     Done (((5, 1), 1), demo_logger)"
    by (simp add: push_packet_to_lua_state_def counting_api_def lua_table_push_int_def
        lua_table_push_string_def lua_table_push_cstring_def lua_need_gc_def zero_packet_def
        LUA_GC_CYCLE_PERIOD_def Let_def)
  moreover have "stack_effects counting_api fst" "counts_gc counting_api snd"
    by (simp_all add: stack_effects_def counts_gc_def counting_api_def split_beta)
  ultimately show ?thesis
    using lua_packets_balanced [of counting_api fst snd 499 "str ''now''" "[zero_packet, zero_packet]" "(5, 0)"
        demo_logger "(5, 1)" 1 demo_logger]
    by (simp add: LUA_GC_CYCLE_PERIOD_def)
qed

end
