(* ===== verification/Tracker.thy ===== *)
theory Tracker
  imports Hashtable Stats Protocol Lua
begin

text \<open>
  The packet tracker of \<open>src/packet.c\<close>: the state of \<open>struct sniffer\<close> (\<open>src/sniffer.h\<close>) and
  everything \<open>process_user_packet\<close> does with a parsed packet: registering servers from SYN
  packets, pairing requests with responses, the latency statistics, the expiry of requests that
  never got a response, the limit on pending requests, and the printed lines.

  The capture thread's state is \<open>capture\<close>: the sniffer, the allocator, the console and the
  static counter of the Lua glue. \<open>stats_lock\<close> records whether the mutex is held; locking it
  again would block for ever and is undefined here. The handles of libraries (\<open>pcap_t\<close>,
  \<open>lua_State\<close>, compiled filter, dump file) are of arbitrary types. The environment supplies the
  time and what \<open>strftime\<close> renders.
\<close>

unbundle bit_operations_syntax

section \<open>Data\<close>

datatype ProtocolType = ProtocolRaw | ProtocolRedis | ProtocolMemcached | ProtocolHTTP

record request =
  req_tv :: timeval
  req_seq :: int
  req_size :: int
  req_payload :: "cstring option"

record ('p, 'l, 'b, 'd) sniffer =
  pcap :: "'p option"
  dev :: "cstring option"
  filter_expr :: "cstring option"
  protocol :: ProtocolType
  threshold :: int
  ascii :: int
  stats_lock :: bool
  lock_ready :: int
  syn_tab :: "query_stats hashtable option"
  requests :: "request hashtable option"
  last_expire :: timeval
  expire_primed :: int
  lua_state :: "'l option"
  bpf :: "'b option"
  dumper :: "'d option"

record ('p, 'l, 'b, 'd) capture =
  sniffer :: "('p, 'l, 'b, 'd) sniffer"
  heap :: mem
  console :: logger
  gc_count :: int

text \<open>
  \<open>strftime n fmt sec\<close> is the text \<open>strftime\<close> leaves in a buffer of \<open>n\<close> bytes for
  \<open>localtime\<close> of \<open>sec\<close>.
\<close>

record 'l env =
  strftime :: "nat \<Rightarrow> string \<Rightarrow> int \<Rightarrow> cstring"
  time_now :: int
  lua :: "'l lua_api"

definition log_time :: "'l env \<Rightarrow> cstring" where
  "log_time E = strftime E 64 ''%Y-%m-%d %H:%M:%S'' (time_now E)"

section \<open>Helpers\<close>

definition free_stats :: "query_stats \<Rightarrow> mem \<Rightarrow> mem" where
  "free_stats v m = mfree m"

definition free_request :: "request \<Rightarrow> mem \<Rightarrow> mem" where
  "free_request req m = (let m = (if req_payload req \<noteq> None then mfree m else m) in mfree m)"

definition sniffer_stats_lock :: "('p, 'l, 'b, 'd) sniffer \<Rightarrow> ('p, 'l, 'b, 'd) sniffer outcome" where
  "sniffer_stats_lock s = (if stats_lock s then Undefined else Done (s\<lparr>stats_lock := True\<rparr>))"

definition sniffer_stats_unlock :: "('p, 'l, 'b, 'd) sniffer \<Rightarrow> ('p, 'l, 'b, 'd) sniffer" where
  "sniffer_stats_unlock s = s\<lparr>stats_lock := False\<rparr>"

text \<open>\<open>"%u:%d"\<close> into 32 bytes and \<open>"%u:%d %u:%d"\<close> into 64 bytes.\<close>

definition endpoint_key :: "u32 \<Rightarrow> u16 \<Rightarrow> cstring" where
  "endpoint_key ip port = snprintf 32 (show_u32 ip @ 58 # show_u16 port)"

definition connection_key :: "u32 \<Rightarrow> u16 \<Rightarrow> u32 \<Rightarrow> u16 \<Rightarrow> cstring" where
  "connection_key cip cport sip sport =
     snprintf 64 (show_u32 cip @ 58 # show_u16 cport @ 32 # show_u32 sip @ 58 # show_u16 sport)"

section \<open>Expiry\<close>

definition REQUEST_TIMEOUT_US :: int where
  "REQUEST_TIMEOUT_US = 60000000"

definition EXPIRE_INTERVAL_US :: int where
  "EXPIRE_INTERVAL_US = 1000000"

definition MAX_PENDING_REQUESTS :: int where
  "MAX_PENDING_REQUESTS = 100000"

record request_expiry =
  exp_now :: timeval
  timeout_us :: int

definition tv_delta_us :: "timeval \<Rightarrow> timeval \<Rightarrow> int" where
  "tv_delta_us later earlier =
     to_int64 ((tv_sec later - tv_sec earlier) * 1000000 + (tv_usec later - tv_usec earlier))"

definition request_expired :: "request \<Rightarrow> request_expiry \<Rightarrow> bool" where
  "request_expired req expiry \<longleftrightarrow> tv_delta_us (exp_now expiry) (req_tv req) > timeout_us expiry"

definition requests_expire ::
    "request hashtable option \<Rightarrow> timeval \<Rightarrow> int \<Rightarrow> mem \<Rightarrow> int \<times> request hashtable option \<times> mem" where
  "requests_expire reqs now timeout m =
     hashtable_sweep reqs (Some request_expired) \<lparr>exp_now = now, timeout_us = timeout\<rparr> m"

definition expire_stale_requests ::
    "timeval \<Rightarrow> ('p, 'l, 'b, 'd) capture \<Rightarrow> ('p, 'l, 'b, 'd) capture" where
  "expire_stale_requests now c =
     (let s = sniffer c in
      if expire_primed s = 0 then c\<lparr>sniffer := s\<lparr>expire_primed := 1, last_expire := now\<rparr>\<rparr>
      else if tv_delta_us now (last_expire s) < EXPIRE_INTERVAL_US then c
      else
        (let (n, reqs, m) = requests_expire (requests s) now REQUEST_TIMEOUT_US (heap c)
         in c\<lparr>sniffer := s\<lparr>last_expire := now, requests := reqs\<rparr>, heap := m\<rparr>))"

section \<open>Requests and responses\<close>

text \<open>
  \<open>packet_direction\<close>: 0 for a packet from a known server, 1 for one to a known server, -1
  otherwise; the endpoint's counters change through the pointer the lookup returned.
\<close>

definition packet_direction ::
    "user_packet \<Rightarrow> ('p, 'l, 'b, 'd) capture \<Rightarrow> (int \<times> ('p, 'l, 'b, 'd) capture) outcome" where
  "packet_direction p c =
     and_then (sniffer_stats_lock (sniffer c)) (\<lambda>s.
       case syn_tab s of
         None \<Rightarrow> Undefined
       | Some t \<Rightarrow>
           (let key = endpoint_key (ip_src p) (port_src p) in
            case hashtable_get t key of
              Some st \<Rightarrow>
                (let t' = hashtable_modify t key (\<lambda>st. stats_incr st False (up_size p))
                 in Done (0, c\<lparr>sniffer := sniffer_stats_unlock (s\<lparr>syn_tab := Some t'\<rparr>)\<rparr>))
            | None \<Rightarrow>
                (let key = endpoint_key (ip_dst p) (port_dst p) in
                 case hashtable_get t key of
                   Some st \<Rightarrow>
                     (let t' = hashtable_modify t key (\<lambda>st. stats_incr st True (up_size p))
                      in Done (1, c\<lparr>sniffer := sniffer_stats_unlock (s\<lparr>syn_tab := Some t'\<rparr>)\<rparr>))
                 | None \<Rightarrow> Done (-1, c\<lparr>sniffer := sniffer_stats_unlock s\<rparr>))))"

fun format_for :: "ProtocolType \<Rightarrow> byte list \<Rightarrow> int \<Rightarrow> mem \<Rightarrow> summary" where
  "format_for ProtocolRedis = format_redis"
| "format_for ProtocolMemcached = format_memcached"
| "format_for ProtocolHTTP = format_http"
| "format_for ProtocolRaw = format_raw"

definition process_request_packet ::
    "user_packet \<Rightarrow> ('p, 'l, 'b, 'd) capture \<Rightarrow> ('p, 'l, 'b, 'd) capture outcome" where
  "process_request_packet p c =
     (let s = sniffer c; key = connection_key (ip_src p) (port_src p) (ip_dst p) (port_dst p) in
      case requests s of
        None \<Rightarrow> Undefined
      | Some t \<Rightarrow>
          if hashtable_get t key \<noteq> None then Done c
          else if ht_size t \<ge> MAX_PENDING_REQUESTS then Done c
          else
            (case malloc (heap c) of
               (False, m1) \<Rightarrow> Done (c\<lparr>heap := m1\<rparr>)
             | (True, m1) \<Rightarrow>
                 (case format_for (protocol s) (payload p) (payload_size p) m1 of
                    None \<Rightarrow> Undefined
                  | Some (None, m2) \<Rightarrow> Done (c\<lparr>heap := mfree m2\<rparr>)
                  | Some (Some txt, m2) \<Rightarrow>
                      (let req = \<lparr>req_tv = tv p, req_seq = sint (seq p),
                                  req_size = int (length txt), req_payload = Some txt\<rparr>;
                           (w, t', m3) = hashtable_add t key req m2
                       in Done (c\<lparr>sniffer := s\<lparr>requests := Some t'\<rparr>, heap := m3\<rparr>)))))"

text \<open>
  \<open>%.3f\<close> of \<open>delta/1000.0\<close>: microseconds as milliseconds with three decimals. Below \<open>2^52\<close>
  microseconds the double nearest to \<open>delta/1000\<close> rounds back to exactly these digits, and
  the difference of two capture times with 32 bit seconds is below that.
\<close>

definition show_ms :: "int \<Rightarrow> byte list" where
  "show_ms delta =
     (if delta < 0 then [45] else []) @ show_nat (nat (\<bar>delta\<bar> div 1000)) @ 46 #
     show_pad 3 (\<bar>delta\<bar> mod 1000)"

definition latency_line :: "'l env \<Rightarrow> user_packet \<Rightarrow> int \<Rightarrow> cstring option \<Rightarrow> byte list" where
  "latency_line E p delta pay =
     strftime E 64 ''%Y-%m-%d %H:%M:%S'' (tv_sec (tv p)) @ 46 #
     show_pad 6 (to_int32 (tv_usec (tv p))) @ 32 #
     snprintf 64 (inet_ntoa (ip_dst p)) @ 58 # show_u16 (port_dst p) @ str '' => '' @
     snprintf 64 (inet_ntoa (ip_src p)) @ 58 # show_u16 (port_src p) @ str '' | '' @
     show_ms delta @ str '' ms | '' @ show_s pay @ [10]"

definition process_response_packet ::
    "'l env \<Rightarrow> user_packet \<Rightarrow> ('p, 'l, 'b, 'd) capture \<Rightarrow> ('p, 'l, 'b, 'd) capture outcome" where
  "process_response_packet E p c =
     (let key = connection_key (ip_dst p) (port_dst p) (ip_src p) (port_src p) in
      case requests (sniffer c) of
        None \<Rightarrow> Undefined
      | Some t \<Rightarrow>
          (case hashtable_get t key of
             None \<Rightarrow> Done c
           | Some req \<Rightarrow>
               (let delta = tv_delta_us (tv p) (req_tv req);
                    target = endpoint_key (ip_src p) (port_src p)
                in and_then (sniffer_stats_lock (sniffer c)) (\<lambda>s.
                     case syn_tab s of
                       None \<Rightarrow> Undefined
                     | Some syn \<Rightarrow>
                         (let syn' = (if hashtable_get syn target \<noteq> None then
                                        hashtable_modify syn target
                                          (\<lambda>st. stats_observer_latency st delta)
                                      else syn);
                              s = sniffer_stats_unlock (s\<lparr>syn_tab := Some syn'\<rparr>);
                              (n, t', m) = hashtable_del t key (heap c);
                              c' = c\<lparr>sniffer := s\<lparr>requests := Some t'\<rparr>, heap := m\<rparr>
                          in if threshold s \<noteq> 0 \<and> delta < to_int32 (threshold s * 1000) then Done c'
                             else
                               and_then
                                 (color_printf (Some GREEN) (latency_line E p delta (req_payload req))
                                    (console c))
                                 (\<lambda>lg. Done (c'\<lparr>console := lg\<rparr>)))))))"

section \<open>Raw output\<close>

text \<open>
  \<open>append_fmt\<close>: the buffer's text and the count \<open>*n\<close>, which \<open>vsnprintf\<close>'s return value (the
  length it would have written) advances up to the capacity.
\<close>

definition append_fmt :: "int \<Rightarrow> byte list \<Rightarrow> cstring \<times> int \<Rightarrow> cstring \<times> int" where
  "append_fmt cap txt b =
     (let (buf, n) = b in
      if n \<ge> cap - 1 then (buf, n)
      else
        (let written = int (length txt)
         in (take (nat n) buf @ snprintf (nat (cap - n)) txt,
             if n + written > cap - 1 then cap - 1 else n + written)))"

fun append_all :: "int \<Rightarrow> byte list list \<Rightarrow> cstring \<times> int \<Rightarrow> cstring \<times> int" where
  "append_all cap [] b = b"
| "append_all cap (txt # rest) b = append_all cap rest (append_fmt cap txt b)"

text \<open>The texts \<open>print_user_packet\<close> appends, in order.\<close>

definition flag_texts :: "byte \<Rightarrow> byte list list" where
  "flag_texts fl =
     (if fl AND 0x01 \<noteq> 0 then [str ''F''] else []) @ (if fl AND 0x02 \<noteq> 0 then [str ''S''] else []) @
     (if fl AND 0x04 \<noteq> 0 then [str ''R''] else []) @ (if fl AND 0x08 \<noteq> 0 then [str ''P''] else []) @
     (if fl AND 0x10 \<noteq> 0 then [str ''.''] else [])"

definition packet_texts :: "'l env \<Rightarrow> user_packet \<Rightarrow> byte list list" where
  "packet_texts E p =
     (let len = wire_payload_size p in
      [strftime E 32 ''%H:%M:%S'' (tv_sec (tv p)),
       46 # show_pad 6 (to_int32 (tv_usec (tv p))),
       str '' IP '' @ inet_ntoa (ip_src p) @ 46 # show_u16 (port_src p),
       str '' > '' @ inet_ntoa (ip_dst p) @ 46 # show_u16 (port_dst p) @ [58]] @
      (if is_tcp p \<noteq> 0 then
         [str '' Flags [''] @ flag_texts (flags p) @ [str ''],''] @
         (if len > 0 then
            [str '' seq '' @ show_u32 (seq p) @ 58 # show_u32 (seq p + word_of_int len) @ [44]]
          else []) @
         (if flags p AND 0x10 \<noteq> 0 then [str '' ack '' @ show_u32 (ack p) @ [44]] else []) @
         [str '' window '' @ show_u16 (window p) @ [44]]
       else []) @
      [str '' length '' @ show_int len])"

definition print_user_packet ::
    "'l env \<Rightarrow> user_packet \<Rightarrow> ('p, 'l, 'b, 'd) capture \<Rightarrow> ('p, 'l, 'b, 'd) capture outcome" where
  "print_user_packet E p c =
     (let (buf, n) = append_all 512 (packet_texts E p) ([], 0) in
      if ascii (sniffer c) = 0 then Done (c\<lparr>console := out_print (buf @ [10]) (console c)\<rparr>)
      else
        case read_prec_s (payload_size p) (payload p) of
          None \<Rightarrow> Undefined
        | Some pay \<Rightarrow> Done (c\<lparr>console := out_print (buf @ 32 # pay @ [10]) (console c)\<rparr>))"

section \<open>The handler\<close>

text \<open>A SYN registers its destination as a server, a SYN with ACK its source.\<close>

definition register_server ::
    "user_packet \<Rightarrow> ('p, 'l, 'b, 'd) capture \<Rightarrow> ('p, 'l, 'b, 'd) capture outcome" where
  "register_server p c =
     (let src = flags p AND 0x10 \<noteq> 0;
          ip = (if src then ip_src p else ip_dst p);
          port = (if src then port_src p else port_dst p);
          key = endpoint_key ip port
      in and_then (sniffer_stats_lock (sniffer c)) (\<lambda>s.
           case syn_tab s of
             None \<Rightarrow> Undefined
           | Some t \<Rightarrow>
               if hashtable_get t key \<noteq> None then Done (c\<lparr>sniffer := sniffer_stats_unlock s\<rparr>)
               else
                 (case malloc (heap c) of
                    (False, m1) \<Rightarrow> Done (c\<lparr>sniffer := sniffer_stats_unlock s, heap := m1\<rparr>)
                  | (True, m1) \<Rightarrow>
                      (let st = empty_stats\<lparr>stats_ip := ip, stats_port := port\<rparr>;
                           (w, t', m2) = hashtable_add t key st m1
                       in Done (c\<lparr>sniffer := sniffer_stats_unlock (s\<lparr>syn_tab := Some t'\<rparr>),
                                  heap := m2\<rparr>)))))"

definition process_user_packet ::
    "'l env \<Rightarrow> user_packet \<Rightarrow> ('p, 'l, 'b, 'd) capture \<Rightarrow> ('p, 'l, 'b, 'd) capture outcome" where
  "process_user_packet E p c =
     (case lua_state (sniffer c) of
        Some l \<Rightarrow>
          and_then (push_packet_to_lua_state (lua E) (log_time E) p (l, gc_count c) (console c))
            (\<lambda>((l', n), lg). Done (c\<lparr>sniffer := (sniffer c)\<lparr>lua_state := Some l'\<rparr>,
                                   gc_count := n, console := lg\<rparr>))
      | None \<Rightarrow>
          if protocol (sniffer c) = ProtocolRaw then print_user_packet E p c
          else
            (let c = expire_stale_requests (tv p) c in
             if payload_size p = 0 then
               (if flags p AND 0x02 \<noteq> 0 then register_server p c else Done c)
             else
               and_then (packet_direction p c) (\<lambda>(direction, c).
                 if direction = 0 then process_response_packet E p c
                 else if direction = 1 then process_request_packet p c
                 else Done c)))"

section \<open>Keys\<close>

lemma endpoint_key_eq: "endpoint_key ip port = show_u32 ip @ 58 # show_u16 port"
  using show_u32_length [of ip] show_u16_length [of port]
  by (simp add: endpoint_key_def snprintf_def)

lemma connection_key_eq:
  "connection_key a b c d = show_u32 a @ 58 # show_u16 b @ 32 # show_u32 c @ 58 # show_u16 d"
  using show_u32_length [of a] show_u16_length [of b] show_u32_length [of c] show_u16_length [of d]
  by (simp add: connection_key_def snprintf_def)

lemma not_digit [simp]: "\<not> is_digit 58" "\<not> is_digit 32"
  by (simp_all add: is_digit_def word_le_nat_alt)

lemma show_word_inject [simp]:
  "show_u32 a = show_u32 b \<longleftrightarrow> a = b" "show_u16 c = show_u16 d \<longleftrightarrow> c = d"
  by (simp_all add: show_u32_def show_u16_def word_unat_eq_iff)

lemma endpoint_key_inject [simp]:
  "endpoint_key a b = endpoint_key a' b' \<longleftrightarrow> a = a' \<and> b = b'"
proof
  assume "endpoint_key a b = endpoint_key a' b'"
  then show "a = a' \<and> b = b'"
    unfolding endpoint_key_eq show_u32_def
    by (auto dest!: show_nat_stop_inject simp: word_unat_eq_iff)
qed simp

lemma connection_key_inject [simp]:
  "connection_key a b c d = connection_key a' b' c' d' \<longleftrightarrow> a = a' \<and> b = b' \<and> c = c' \<and> d = d'"
proof
  assume "connection_key a b c d = connection_key a' b' c' d'"
  then have "show_nat (unat a) @ 58 # show_nat (unat b) @ 32 # show_nat (unat c) @ 58 # show_u16 d =
      show_nat (unat a') @ 58 # show_nat (unat b') @ 32 # show_nat (unat c') @ 58 # show_u16 d'"
    by (simp add: connection_key_eq show_u32_def show_u16_def)
  then show "a = a' \<and> b = b' \<and> c = c' \<and> d = d'"
    by (auto dest!: show_nat_stop_inject simp: word_unat_eq_iff)
qed simp

section \<open>Invariant\<close>

definition table_ok ::
    "(cstring \<Rightarrow> 'v \<Rightarrow> bool) \<Rightarrow> ('v \<Rightarrow> mem \<Rightarrow> mem) \<Rightarrow> 'v hashtable option \<Rightarrow> bool" where
  "table_ok P f t \<longleftrightarrow>
     (\<exists>ht. t = Some ht \<and> ht_invar ht \<and> free_fn ht = Some f \<and>
           (\<forall>k v. hashtable_get ht k = Some v \<longrightarrow> P k v))"

definition server_ok :: "cstring \<Rightarrow> query_stats \<Rightarrow> bool" where
  "server_ok k st \<longleftrightarrow> stats_ok st \<and> k = endpoint_key (stats_ip st) (stats_port st)"

definition request_ok :: "cstring \<Rightarrow> request \<Rightarrow> bool" where
  "request_ok k r \<longleftrightarrow> (\<exists>a b c d. k = connection_key a b c d) \<and> req_payload r \<noteq> None"

text \<open>
  Between two packets: both tables are well-formed, own their values and hold well-formed
  values under the right keys, at most \<open>MAX_PENDING_REQUESTS\<close> requests are pending, the lock is
  free and the console is open.
\<close>

definition capture_ok :: "('p, 'l, 'b, 'd) capture \<Rightarrow> bool" where
  "capture_ok c \<longleftrightarrow>
     table_ok server_ok free_stats (syn_tab (sniffer c)) \<and>
     table_ok request_ok free_request (requests (sniffer c)) \<and>
     ht_size (the (requests (sniffer c))) \<le> MAX_PENDING_REQUESTS \<and>
     \<not> stats_lock (sniffer c) \<and> log_fp (console c) \<noteq> None"

lemma free_fn_kept:
  "hashtable_add ht k v m = (r, ht', m') \<Longrightarrow> free_fn ht' = free_fn ht"
  "hashtable_del ht k m = (n, ht', m') \<Longrightarrow> free_fn ht' = free_fn ht"
  "free_fn (hashtable_modify ht k f) = free_fn ht"
  "sweep_table P ht m = (n, ht', m') \<Longrightarrow> free_fn ht' = free_fn ht"
  using ht_step_free_fn [of "OpAdd k v" ht m] ht_step_free_fn [of "OpDel k" ht m]
    ht_step_free_fn [of "OpModify k f" ht m] ht_step_free_fn [of "OpSweep P" ht m]
  by (auto split: prod.splits)

lemma table_ok_add:
  assumes "table_ok P f (Some ht)" "P k v" "hashtable_add ht k v m = (r, ht', m')"
  shows "table_ok P f (Some ht')"
proof (cases "hashtable_get ht k")
  case None
  with assms ht.add_absent [of ht k v m r ht' m'] free_fn_kept(1) [OF assms(3)] show ?thesis
    by (auto simp: table_ok_def split: if_splits)
next
  case (Some w)
  with assms ht.add_present [OF Some] show ?thesis by auto
qed

lemma table_ok_del:
  assumes "table_ok P f (Some ht)" "hashtable_del ht k m = (n, ht', m')"
  shows "table_ok P f (Some ht')"
  using assms ht.del_law [of ht k m n ht' m'] free_fn_kept(2) [OF assms(2)]
  by (auto simp: table_ok_def split: if_splits)

lemma table_ok_modify:
  assumes "table_ok P f (Some ht)" "\<And>v. P k v \<Longrightarrow> P k (g v)"
  shows "table_ok P f (Some (hashtable_modify ht k g))"
  using assms ht.modify_law [of ht k g] by (auto simp: table_ok_def free_fn_kept split: if_splits)

lemma table_ok_sweep:
  assumes "table_ok P f (Some ht)" "sweep_table Q ht m = (n, ht', m')"
  shows "table_ok P f (Some ht')"
  using assms ht.sweep_law [of ht Q m n ht' m'] free_fn_kept(4) [OF assms(2)]
  by (auto simp: table_ok_def bind_eq_Some_conv split: if_splits)

lemma table_ok_Some: "table_ok P f t \<Longrightarrow> \<exists>ht. t = Some ht \<and> ht_invar ht"
  by (auto simp: table_ok_def)

lemma server_ok_step:
  "server_ok k st \<Longrightarrow> server_ok k (stats_incr st r n)"
  "server_ok k st \<Longrightarrow> server_ok k (stats_observer_latency st us)"
  using observer_bumps [of st us]
  by (auto simp: server_ok_def stats_incr_def stats_ok_def bump_bucket_def)

section \<open>Every step keeps the invariant\<close>

text \<open>The handles of the libraries, which only their own operations change.\<close>

definition same_handles :: "('p, 'l, 'b, 'd) capture \<Rightarrow> ('p, 'l, 'b, 'd) capture \<Rightarrow> bool" where
  "same_handles c c' \<longleftrightarrow>
     pcap (sniffer c') = pcap (sniffer c) \<and> dumper (sniffer c') = dumper (sniffer c) \<and>
     bpf (sniffer c') = bpf (sniffer c) \<and> lua_state (sniffer c') = lua_state (sniffer c)"

lemma same_handles_refl [simp]: "same_handles c c"
  by (simp add: same_handles_def)

lemma same_handles_trans: "same_handles a b \<Longrightarrow> same_handles b c \<Longrightarrow> same_handles a c"
  by (simp add: same_handles_def)

lemma expire_ok: "capture_ok c \<Longrightarrow> capture_ok (expire_stale_requests now c)"
proof -
  assume ok: "capture_ok c"
  then obtain ht where ht: "requests (sniffer c) = Some ht" "ht_invar ht"
    by (auto simp: capture_ok_def table_ok_def)
  let ?Q = "\<lambda>v. request_expired v \<lparr>exp_now = now, timeout_us = REQUEST_TIMEOUT_US\<rparr>"
  obtain n ht' m' where sw: "sweep_table ?Q ht (heap c) = (n, ht', m')"
    by (cases "sweep_table ?Q ht (heap c)")
  with ok ht table_ok_sweep [OF _ sw] ht.sweep_count_le [OF ht(2) sw] show ?thesis
    by (auto simp: capture_ok_def expire_stale_requests_def requests_expire_def
        hashtable_sweep_def Let_def)
qed

lemma expire_handles [simp]: "same_handles c (expire_stale_requests now c)"
  by (simp add: expire_stale_requests_def same_handles_def Let_def split_beta)

lemma direction_ok:
  assumes "capture_ok c"
  shows "\<exists>d c'. packet_direction p c = Done (d, c') \<and> capture_ok c' \<and>
    same_handles c c'"
proof -
  from assms obtain syn where syn: "syn_tab (sniffer c) = Some syn"
    and ok: "table_ok server_ok free_stats (Some syn)"
    by (auto simp: capture_ok_def table_ok_def)
  from table_ok_modify [OF ok server_ok_step(1)] assms show ?thesis
    by (auto simp: same_handles_def packet_direction_def sniffer_stats_lock_def sniffer_stats_unlock_def
        capture_ok_def syn Let_def split: option.splits)
qed

lemma register_ok:
  assumes "capture_ok c"
  shows "\<exists>c'. register_server p c = Done c' \<and> capture_ok c' \<and>
    same_handles c c'"
proof -
  from assms obtain syn where syn: "syn_tab (sniffer c) = Some syn"
    and ok: "table_ok server_ok free_stats (Some syn)"
    by (auto simp: capture_ok_def table_ok_def)
  have "server_ok (endpoint_key ip port) (empty_stats\<lparr>stats_ip := ip, stats_port := port\<rparr>)"
    for ip port
    by (simp add: server_ok_def stats_ok_def empty_stats_def)
  note add = table_ok_add [OF ok this]
  from assms show ?thesis
    by (auto simp: same_handles_def register_server_def sniffer_stats_lock_def sniffer_stats_unlock_def
        capture_ok_def syn Let_def split: prod.splits bool.splits dest: add)
qed

lemma format_for_shape:
  assumes "packet_ok p"
  shows "\<exists>txt. \<forall>m. format_for pr (payload p) (payload_size p) m =
      Some (if fst (malloc m) then Some txt else None, snd (malloc m))"
proof -
  have "payload_size p \<le> int (length (payload p))" using assms by (simp add: packet_ok_def)
  moreover have "format_for pr \<in> {format_redis, format_memcached, format_http, format_raw}"
    by (cases pr) simp_all
  ultimately show ?thesis using format_shape by blast
qed

lemma request_packet_ok:
  assumes "capture_ok c" "packet_ok p"
  shows "\<exists>c'. process_request_packet p c = Done c' \<and> capture_ok c' \<and>
    same_handles c c'"
proof -
  from assms obtain reqs where reqs: "requests (sniffer c) = Some reqs" "ht_invar reqs"
    and ok: "table_ok request_ok free_request (Some reqs)"
    by (auto simp: capture_ok_def table_ok_def)
  let ?key = "connection_key (ip_src p) (port_src p) (ip_dst p) (port_dst p)"
  have "request_ok ?key \<lparr>req_tv = t, req_seq = n, req_size = k, req_payload = Some sm\<rparr>" for t n k sm
    by (auto simp: request_ok_def)
  note add = table_ok_add [OF ok this]
  from format_for_shape [OF assms(2)] obtain sm where fmt:
    "\<And>m. format_for (protocol (sniffer c)) (payload p) (payload_size p) m =
      Some (if fst (malloc m) then Some sm else None, snd (malloc m))" by blast
  from assms(1) reqs show ?thesis
    by (auto simp: same_handles_def process_request_packet_def Let_def fmt capture_ok_def not_le
        split: prod.splits bool.splits intro: add ht.add_capped)
qed

lemma color_printf_Done:
  "log_fp lg = Some fp \<Longrightarrow> \<exists>out. color_printf c msg lg = Done (lg\<lparr>written := written lg @ [(fp, out)]\<rparr>)"
  by (auto simp: color_printf_def log_print_def Let_def split: option.splits)

lemma response_packet_ok:
  assumes "capture_ok c"
  shows "\<exists>c'. process_response_packet E p c = Done c' \<and> capture_ok c' \<and>
    same_handles c c'"
proof -
  from assms obtain reqs syn where
    reqs: "requests (sniffer c) = Some reqs" "ht_invar reqs" "syn_tab (sniffer c) = Some syn"
    and ok: "table_ok request_ok free_request (Some reqs)" "table_ok server_ok free_stats (Some syn)"
    by (auto simp: capture_ok_def table_ok_def)
  let ?key = "connection_key (ip_dst p) (port_dst p) (ip_src p) (port_src p)"
  show ?thesis
  proof (cases "hashtable_get reqs ?key")
    case None
    with assms reqs show ?thesis by (simp add: same_handles_def process_response_packet_def Let_def)
  next
    case (Some req)
    obtain n reqs' m' where del: "hashtable_del reqs ?key (heap c) = (n, reqs', m')"
      by (cases "hashtable_del reqs ?key (heap c)")
    from assms obtain fp where fp: "log_fp (console c) = Some fp" by (auto simp: capture_ok_def)
    from color_printf_Done [OF fp] obtain out where out:
      "color_printf (Some GREEN) (latency_line E p (tv_delta_us (tv p) (req_tv req)) (req_payload req))
         (console c) = Done ((console c)\<lparr>written := written (console c) @ [(fp, out)]\<rparr>)" by blast
    from ht.del_count_le [OF reqs(2) del] table_ok_del [OF ok(1) del]
      table_ok_modify [OF ok(2) server_ok_step(2)] ok(2) assms reqs Some fp
    show ?thesis
      by (auto simp: same_handles_def process_response_packet_def Let_def sniffer_stats_lock_def
          sniffer_stats_unlock_def capture_ok_def del out)
  qed
qed

lemma read_prec_ok: "packet_ok p \<Longrightarrow> \<exists>s. read_prec_s (payload_size p) (payload p) = Some s"
  by (auto simp: read_prec_s_def packet_ok_def Let_def)

text \<open>Without a script no packet ends the process or is undefined.\<close>

lemma process_user_packet_ok:
  assumes "capture_ok c" "packet_ok p" "lua_state (sniffer c) = None"
  shows "\<exists>c'. process_user_packet E p c = Done c' \<and> capture_ok c' \<and>
    same_handles c c'"
proof (cases "protocol (sniffer c) = ProtocolRaw")
  case True
  with assms read_prec_ok [OF assms(2)] show ?thesis
    by (auto simp: process_user_packet_def print_user_packet_def capture_ok_def out_print_def same_handles_def
        split: prod.splits)
next
  case False
  let ?c = "expire_stale_requests (tv p) c"
  have ok: "capture_ok ?c" by (rule expire_ok [OF assms(1)])
  from direction_ok [OF ok, of p] obtain d c1 where
    dir: "packet_direction p ?c = Done (d, c1)" "capture_ok c1"
      "same_handles ?c c1" by auto
  have trans: "same_handles ?c c' \<Longrightarrow> same_handles c c'" "same_handles c1 c' \<Longrightarrow> same_handles c c'" for c'
    using dir(3) expire_handles [of c "tv p"] by (auto simp: same_handles_def)
  from register_ok [OF ok, of p] response_packet_ok [OF dir(2), of E p]
    request_packet_ok [OF dir(2) assms(2)] False assms(3) ok dir
  show ?thesis by (auto simp: process_user_packet_def Let_def trans)
qed

end
