(* ===== verification/Options.thy ===== *)
theory Options
  imports Tracker
begin

text \<open>
  The command line of \<open>src/tcpkit.c\<close>: \<open>init_options\<close>, \<open>parse_options\<close> and
  \<open>free_options\<close>. A string field is \<open>None\<close> while NULL; \<open>strdup\<close> draws on the allocator, and
  where the code does not check it a failed call leaves NULL in the field. The loop over
  \<open>argv\<close> is recursion on the arguments still to come. A failed parse is the text left in the
  caller's error buffer.

  The lemmas show that every block is owned by exactly one field on every path, and that the
  parser computes the meaning of each option in order.
\<close>

unbundle bit_operations_syntax

section \<open>Data\<close>

record options =
  o_dev :: "cstring option"
  o_filter :: "cstring option"
  o_script :: "cstring option"
  o_offline_file :: "cstring option"
  o_save_file :: "cstring option"
  o_snaplen :: int
  o_buf_size :: int
  o_threshold :: int
  o_print_version :: int
  o_print_usage :: int
  o_stats_port :: int
  o_ascii :: int
  o_protocol :: ProtocolType

definition strdup :: "cstring \<Rightarrow> mem \<Rightarrow> cstring option \<times> mem" where
  "strdup s m = (case malloc m of (ok, m') \<Rightarrow> (if ok then Some s else None, m'))"

definition free_str :: "cstring option \<Rightarrow> mem \<Rightarrow> mem" where
  "free_str s m = (if s = None then m else mfree m)"

section \<open>Operations\<close>

definition init_options :: "mem \<Rightarrow> options \<times> mem" where
  "init_options m =
     (let (d, m) = strdup (str ''any'') m in
      (\<lparr>o_dev = d, o_filter = None, o_script = None, o_offline_file = None, o_save_file = None,
        o_snaplen = 1500, o_buf_size = 512 * 1024 * 1024, o_threshold = 0, o_print_version = 0,
        o_print_usage = 0, o_stats_port = 33333, o_ascii = 0, o_protocol = ProtocolRaw\<rparr>, m))"

definition free_options :: "options \<Rightarrow> mem \<Rightarrow> mem" where
  "free_options opts m =
     mfree (free_str (o_script opts) (free_str (o_save_file opts) (free_str (o_offline_file opts)
       (free_str (o_filter opts) (free_str (o_dev opts) m)))))"

definition invalid_option :: "cstring \<Rightarrow> cstring" where
  "invalid_option arg =
     snprintf MAX_ERR_BUFF_SIZE
       (str ''invalid option '' @ 34 # arg @ 34 # str '' or option argument missing'')"

definition out_of_memory :: cstring where
  "out_of_memory = snprintf MAX_ERR_BUFF_SIZE (str ''out of memory'')"

definition is_opt :: "cstring \<Rightarrow> string \<Rightarrow> bool" where
  "is_opt arg lit \<longleftrightarrow> strcmp arg (str lit) = 0"

definition protocol_named :: "cstring \<Rightarrow> ProtocolType option" where
  "protocol_named a =
     (if is_opt a ''raw'' then Some ProtocolRaw
      else if is_opt a ''redis'' then Some ProtocolRedis
      else if is_opt a ''memcached'' then Some ProtocolMemcached
      else if is_opt a ''http'' then Some ProtocolHTTP
      else None)"

text \<open>An argument that is no option: the first starts the filter, the others extend it.\<close>

definition add_filter :: "cstring \<Rightarrow> options \<Rightarrow> mem \<Rightarrow> bool \<times> options \<times> mem" where
  "add_filter arg opts m =
     (case o_filter opts of
        None \<Rightarrow> (let (s, m) = strdup arg m in (True, opts\<lparr>o_filter := s\<rparr>, m))
      | Some old \<Rightarrow>
          (case mrealloc m of
             (False, m) \<Rightarrow> (False, opts, m)
           | (True, m) \<Rightarrow> (True, opts\<lparr>o_filter := Some (old @ 32 # arg)\<rparr>, m)))"

text \<open>The options that take a value, with the value; the result is the new record.\<close>

definition set_str ::
    "cstring option \<Rightarrow> cstring \<Rightarrow> (cstring option \<Rightarrow> options) \<Rightarrow> mem \<Rightarrow> options \<times> mem" where
  "set_str old v put m = (let (s, m) = strdup v (free_str old m) in (put s, m))"

text \<open>
  The body of the loop: the argument, the arguments behind it, and either the error text or the
  arguments still to read with the options so far. \<open>rest = []\<close> is \<open>lastarg\<close>.
\<close>

definition parse_arg ::
    "cstring \<Rightarrow> cstring list \<Rightarrow> options \<Rightarrow> mem \<Rightarrow> (cstring + cstring list \<times> options) \<times> mem" where
  "parse_arg arg rest opts m =
     (if is_opt arg ''-v'' then (Inr (rest, opts\<lparr>o_print_version := 1\<rparr>), m)
      else if is_opt arg ''-h'' then (Inr (rest, opts\<lparr>o_print_usage := 1\<rparr>), m)
      else if is_opt arg ''-A'' then (Inr (rest, opts\<lparr>o_ascii := 1\<rparr>), m)
      else if is_opt arg ''-i'' then
        (case rest of [] \<Rightarrow> (Inl (invalid_option arg), free_options opts m)
         | v # rest \<Rightarrow>
             (let (opts, m) = set_str (o_dev opts) v (\<lambda>s. opts\<lparr>o_dev := s\<rparr>) m
              in (Inr (rest, opts), m)))
      else if is_opt arg ''-B'' then
        (case rest of [] \<Rightarrow> (Inl (invalid_option arg), free_options opts m)
         | v # rest \<Rightarrow> (Inr (rest, opts\<lparr>o_buf_size := to_int32 (atoi v * 1024)\<rparr>), m))
      else if is_opt arg ''-t'' then
        (case rest of [] \<Rightarrow> (Inl (invalid_option arg), free_options opts m)
         | v # rest \<Rightarrow> (Inr (rest, opts\<lparr>o_threshold := atoi v\<rparr>), m))
      else if is_opt arg ''-p'' then
        (case rest of [] \<Rightarrow> (Inl (invalid_option arg), free_options opts m)
         | v # rest \<Rightarrow>
             (case protocol_named v of
                None \<Rightarrow> (Inl (invalid_option arg), free_options opts m)
              | Some pr \<Rightarrow> (Inr (rest, opts\<lparr>o_protocol := pr\<rparr>), m)))
      else if is_opt arg ''-P'' then
        (case rest of [] \<Rightarrow> (Inl (invalid_option arg), free_options opts m)
         | v # rest \<Rightarrow> (Inr (rest, opts\<lparr>o_stats_port := atoi v\<rparr>), m))
      else if is_opt arg ''-s'' then
        (case rest of [] \<Rightarrow> (Inl (invalid_option arg), free_options opts m)
         | v # rest \<Rightarrow> (Inr (rest, opts\<lparr>o_snaplen := atoi v\<rparr>), m))
      else if is_opt arg ''-S'' then
        (case rest of [] \<Rightarrow> (Inl (invalid_option arg), free_options opts m)
         | v # rest \<Rightarrow>
             (let (opts, m) = set_str (o_script opts) v (\<lambda>s. opts\<lparr>o_script := s\<rparr>) m
              in (Inr (rest, opts), m)))
      else if is_opt arg ''-r'' then
        (case rest of [] \<Rightarrow> (Inl (invalid_option arg), free_options opts m)
         | v # rest \<Rightarrow>
             (let (opts, m) = set_str (o_offline_file opts) v (\<lambda>s. opts\<lparr>o_offline_file := s\<rparr>) m
              in (Inr (rest, opts), m)))
      else if is_opt arg ''-w'' then
        (case rest of [] \<Rightarrow> (Inl (invalid_option arg), free_options opts m)
         | v # rest \<Rightarrow>
             (let (opts, m) = set_str (o_save_file opts) v (\<lambda>s. opts\<lparr>o_save_file := s\<rparr>) m
              in (Inr (rest, opts), m)))
      else if arg \<noteq> [] \<and> hd arg = 45 then (Inl (invalid_option arg), free_options opts m)
      else
        (case add_filter arg opts m of
           (False, opts, m) \<Rightarrow> (Inl out_of_memory, free_options opts m)
         | (True, opts, m) \<Rightarrow> (Inr (rest, opts), m)))"

lemma parse_arg_rest:
  "parse_arg arg rest opts m = (Inr (rest', o'), m') \<Longrightarrow> length rest' \<le> length rest"
  unfolding parse_arg_def
  by (simp split: if_split_asm list.splits prod.splits option.splits bool.splits)

function parse_loop :: "cstring list \<Rightarrow> options \<Rightarrow> mem \<Rightarrow> (cstring + options) \<times> mem" where
  "parse_loop [] opts m =
     (case o_filter opts of
        Some f \<Rightarrow> (Inr opts, m)
      | None \<Rightarrow>
          (case strdup [] m of
             (None, m) \<Rightarrow> (Inl out_of_memory, free_options opts m)
           | (Some s, m) \<Rightarrow> (Inr (opts\<lparr>o_filter := Some s\<rparr>), m)))"
| "parse_loop (arg # rest) opts m =
     (case parse_arg arg rest opts m of
        (Inl e, m) \<Rightarrow> (Inl e, m)
      | (Inr (rest, opts), m) \<Rightarrow> parse_loop rest opts m)"
  by pat_completeness auto
termination
  by (relation "measure (\<lambda>(args, opts, m). length args)")
     (auto dest!: parse_arg_rest [OF sym])

text \<open>\<open>args\<close> are the arguments behind the program's name.\<close>

definition parse_options :: "cstring list \<Rightarrow> mem \<Rightarrow> (cstring + options) \<times> mem" where
  "parse_options args m =
     (case malloc m of
        (False, m) \<Rightarrow> (Inl out_of_memory, m)
      | (True, m) \<Rightarrow> (let (opts, m) = init_options m in parse_loop args opts m))"

section \<open>Ownership\<close>

definition str_blocks :: "cstring option \<Rightarrow> int" where
  "str_blocks s = (if s = None then 0 else 1)"

text \<open>The struct and its strings.\<close>

definition opt_blocks :: "options \<Rightarrow> int" where
  "opt_blocks opts =
     1 + str_blocks (o_dev opts) + str_blocks (o_filter opts) + str_blocks (o_script opts) +
     str_blocks (o_offline_file opts) + str_blocks (o_save_file opts)"

lemma strdup_live [ledger]: "strdup s m = (r, m') \<Longrightarrow> live m' = live m + str_blocks r"
  by (auto simp: strdup_def str_blocks_def malloc_live split: prod.splits if_splits)

lemma free_str_live [ledger]: "live (free_str s m) = live m - str_blocks s"
  by (simp add: free_str_def str_blocks_def)

lemma free_options_live [ledger]: "live (free_options opts m) = live m - opt_blocks opts"
  by (simp add: free_options_def free_str_live opt_blocks_def)

lemma set_str_live:
  "set_str old v put m = (o', m') \<Longrightarrow> \<exists>s. o' = put s \<and> live m' = live m - str_blocks old + str_blocks s"
  by (auto simp: set_str_def free_str_live dest!: strdup_live split: prod.splits)

lemma add_filter_live:
  assumes "add_filter arg opts m = (ok, o', m')"
  shows "live m' - opt_blocks o' = live m - opt_blocks opts"
proof (cases "o_filter opts")
  case None
  obtain s m1 where s: "strdup arg m = (s, m1)" by (cases "strdup arg m")
  with assms None have "o' = opts\<lparr>o_filter := s\<rparr>" "m' = m1" by (simp_all add: add_filter_def)
  with strdup_live [OF s] None show ?thesis by (simp add: opt_blocks_def str_blocks_def)
next
  case (Some old)
  obtain ok1 m1 where r: "mrealloc m = (ok1, m1)" by (cases "mrealloc m")
  with assms Some have "o' = opts \<or> o' = opts\<lparr>o_filter := Some (old @ 32 # arg)\<rparr>" "m' = m1"
    by (auto simp: add_filter_def split: bool.splits)
  with mrealloc_live [OF r] Some show ?thesis by (auto simp: opt_blocks_def str_blocks_def)
qed

text \<open>What a parse leaves allocated: nothing when it fails, the options when it succeeds.\<close>

definition result_blocks :: "cstring + options \<Rightarrow> int" where
  "result_blocks r = (case r of Inl e \<Rightarrow> 0 | Inr opts \<Rightarrow> opt_blocks opts)"

lemma parse_arg_live:
  assumes "parse_arg arg rest opts m = (r, m')"
  shows "live m' - (case r of Inl e \<Rightarrow> 0 | Inr (rest', o') \<Rightarrow> opt_blocks o') = live m - opt_blocks opts"
proof -
  have set: "live m1 - opt_blocks o1 = live m - opt_blocks opts"
    if "set_str (fld opts) v put m = (o1, m1)"
      and "\<And>s. opt_blocks (put s) = opt_blocks opts - str_blocks (fld opts) + str_blocks s"
    for fld v put o1 m1
    using set_str_live [OF that(1)] that(2) by auto
  have blk: "\<And>s. opt_blocks (opts\<lparr>o_dev := s\<rparr>) = opt_blocks opts - str_blocks (o_dev opts) + str_blocks s"
    "\<And>s. opt_blocks (opts\<lparr>o_script := s\<rparr>) = opt_blocks opts - str_blocks (o_script opts) + str_blocks s"
    "\<And>s. opt_blocks (opts\<lparr>o_offline_file := s\<rparr>) =
      opt_blocks opts - str_blocks (o_offline_file opts) + str_blocks s"
    "\<And>s. opt_blocks (opts\<lparr>o_save_file := s\<rparr>) =
      opt_blocks opts - str_blocks (o_save_file opts) + str_blocks s"
    by (simp_all add: opt_blocks_def)
  have same: "opt_blocks (opts\<lparr>o_print_version := i\<rparr>) = opt_blocks opts"
    "opt_blocks (opts\<lparr>o_print_usage := i\<rparr>) = opt_blocks opts"
    "opt_blocks (opts\<lparr>o_ascii := i\<rparr>) = opt_blocks opts"
    "opt_blocks (opts\<lparr>o_buf_size := i\<rparr>) = opt_blocks opts"
    "opt_blocks (opts\<lparr>o_threshold := i\<rparr>) = opt_blocks opts"
    "opt_blocks (opts\<lparr>o_stats_port := i\<rparr>) = opt_blocks opts"
    "opt_blocks (opts\<lparr>o_snaplen := i\<rparr>) = opt_blocks opts"
    "opt_blocks (opts\<lparr>o_protocol := q\<rparr>) = opt_blocks opts" for i q
    by (simp_all add: opt_blocks_def)
  note sets = set [of o_dev, OF _ blk(1)] set [of o_script, OF _ blk(2)]
    set [of o_offline_file, OF _ blk(3)] set [of o_save_file, OF _ blk(4)]
  show ?thesis
    using assms unfolding parse_arg_def
    by (simp split: if_split_asm list.split_asm prod.split_asm option.split_asm bool.split_asm)
       (auto simp: free_options_live same dest!: sets add_filter_live)
qed

lemma parse_loop_live:
  "parse_loop args opts m = (r, m') \<Longrightarrow> live m' - result_blocks r = live m - opt_blocks opts"
proof (induction args opts m arbitrary: r m' rule: parse_loop.induct)
  case (1 opts m)
  show ?case
  proof (cases "o_filter opts")
    case None
    obtain s m1 where s: "strdup [] m = (s, m1)" by (cases "strdup [] m")
    with strdup_live [OF s] "1.prems" None show ?thesis
      by (cases s) (auto simp: result_blocks_def free_options_live str_blocks_def opt_blocks_def)
  qed (use "1.prems" in \<open>auto simp: result_blocks_def\<close>)
next
  case (2 arg rest opts m)
  obtain x m1 where step: "parse_arg arg rest opts m = (x, m1)" by (cases "parse_arg arg rest opts m")
  note live1 = parse_arg_live [OF step]
  show ?case
  proof (cases x)
    case (Inl e)
    with step live1 "2.prems" show ?thesis by (auto simp: result_blocks_def)
  next
    case (Inr y)
    then obtain rest1 o1 where y: "x = Inr (rest1, o1)" by (cases y) auto
    with step "2.prems" have "parse_loop rest1 o1 m1 = (r, m')" by simp
    from "2.IH" [OF step [symmetric] y refl this] live1 y show ?thesis by simp
  qed
qed

section \<open>Meaning\<close>

text \<open>The settings a command line is made of, how each is written, and what it means.\<close>

datatype setting =
    Version | Usage | Ascii
  | Dev cstring | BufSize cstring | Threshold cstring | Proto ProtocolType | Port cstring
  | Snaplen cstring | Script cstring | ReadFile cstring | WriteFile cstring | FilterWord cstring

fun proto_name :: "ProtocolType \<Rightarrow> cstring" where
  "proto_name ProtocolRaw = str ''raw''"
| "proto_name ProtocolRedis = str ''redis''"
| "proto_name ProtocolMemcached = str ''memcached''"
| "proto_name ProtocolHTTP = str ''http''"

fun setting_args :: "setting \<Rightarrow> cstring list" where
  "setting_args Version = [str ''-v'']"
| "setting_args Usage = [str ''-h'']"
| "setting_args Ascii = [str ''-A'']"
| "setting_args (Dev v) = [str ''-i'', v]"
| "setting_args (BufSize v) = [str ''-B'', v]"
| "setting_args (Threshold v) = [str ''-t'', v]"
| "setting_args (Proto q) = [str ''-p'', proto_name q]"
| "setting_args (Port v) = [str ''-P'', v]"
| "setting_args (Snaplen v) = [str ''-s'', v]"
| "setting_args (Script v) = [str ''-S'', v]"
| "setting_args (ReadFile v) = [str ''-r'', v]"
| "setting_args (WriteFile v) = [str ''-w'', v]"
| "setting_args (FilterWord v) = [v]"

fun apply_setting :: "setting \<Rightarrow> options \<Rightarrow> options" where
  "apply_setting Version opts = opts\<lparr>o_print_version := 1\<rparr>"
| "apply_setting Usage opts = opts\<lparr>o_print_usage := 1\<rparr>"
| "apply_setting Ascii opts = opts\<lparr>o_ascii := 1\<rparr>"
| "apply_setting (Dev v) opts = opts\<lparr>o_dev := Some v\<rparr>"
| "apply_setting (BufSize v) opts = opts\<lparr>o_buf_size := to_int32 (atoi v * 1024)\<rparr>"
| "apply_setting (Threshold v) opts = opts\<lparr>o_threshold := atoi v\<rparr>"
| "apply_setting (Proto q) opts = opts\<lparr>o_protocol := q\<rparr>"
| "apply_setting (Port v) opts = opts\<lparr>o_stats_port := atoi v\<rparr>"
| "apply_setting (Snaplen v) opts = opts\<lparr>o_snaplen := atoi v\<rparr>"
| "apply_setting (Script v) opts = opts\<lparr>o_script := Some v\<rparr>"
| "apply_setting (ReadFile v) opts = opts\<lparr>o_offline_file := Some v\<rparr>"
| "apply_setting (WriteFile v) opts = opts\<lparr>o_save_file := Some v\<rparr>"
| "apply_setting (FilterWord v) opts =
     opts\<lparr>o_filter := Some (case o_filter opts of None \<Rightarrow> v | Some f \<Rightarrow> f @ 32 # v)\<rparr>"

text \<open>A word of the filter is a C string that does not look like an option.\<close>

fun setting_ok :: "setting \<Rightarrow> bool" where
  "setting_ok (FilterWord v) \<longleftrightarrow> 0 \<notin> set v \<and> (v = [] \<or> hd v \<noteq> 45)"
| "setting_ok s \<longleftrightarrow> True"

definition default_options :: options where
  "default_options = fst (init_options \<lparr>outcomes = [], live = 0\<rparr>)"

definition with_filter :: "options \<Rightarrow> options" where
  "with_filter opts = (if o_filter opts = None then opts\<lparr>o_filter := Some []\<rparr> else opts)"

lemma is_opt_word:
  assumes "0 \<notin> set v" "v = [] \<or> hd v \<noteq> 45" "str lit \<noteq> []" "hd (str lit) = 45" "0 \<notin> set (str lit)"
  shows "\<not> is_opt v lit"
  using assms by (auto simp: is_opt_def strcmp_zero_iff str_def)

lemma is_opt_literal:
  "CHR 0x00 \<notin> set a \<Longrightarrow> CHR 0x00 \<notin> set b \<Longrightarrow> is_opt (str a) b \<longleftrightarrow> a = b"
  by (simp add: is_opt_def strcmp_zero_iff str_nul_free str_inject)

lemma strdup_plenty:
  "outcomes m = [] \<Longrightarrow> strdup s m = (Some s, m\<lparr>live := live m + 1\<rparr>)"
  by (simp add: strdup_def malloc_plenty)

lemma set_str_plenty:
  "outcomes m = [] \<Longrightarrow> \<exists>m'. set_str old v put m = (put (Some v), m') \<and> outcomes m' = []"
  by (auto simp: set_str_def free_str_def mfree_def strdup_plenty)

lemma add_filter_plenty:
  "outcomes m = [] \<Longrightarrow> \<exists>m'. add_filter v opts m =
     (True, opts\<lparr>o_filter := Some (case o_filter opts of None \<Rightarrow> v | Some f \<Rightarrow> f @ 32 # v)\<rparr>, m') \<and>
     outcomes m' = []"
  by (auto simp: add_filter_def strdup_plenty mrealloc_def split: option.splits)

lemma protocol_named_name: "protocol_named (proto_name q) = Some q"
  by (cases q) (simp_all add: protocol_named_def is_opt_literal)

lemma parse_arg_setting:
  assumes "setting_ok x" "outcomes m = []"
  shows "\<exists>arg args m'. setting_args x @ rest = arg # args \<and>
           parse_arg arg args opts m = (Inr (rest, apply_setting x opts), m') \<and> outcomes m' = []"
proof (cases x)
  case (FilterWord v)
  with assms(1) have no: "\<not> is_opt v lit"
    if "lit \<in> {''-v'', ''-h'', ''-A'', ''-i'', ''-B'', ''-t'', ''-p'', ''-P'', ''-s'', ''-S'', ''-r'', ''-w''}"
    for lit
    using that by (intro is_opt_word) (auto simp: str_def)
  with FilterWord assms(1) add_filter_plenty [OF assms(2), of v opts] show ?thesis
    by (auto simp: parse_arg_def no)
next
  case (Dev v)
  with set_str_plenty [OF assms(2), of "o_dev opts" v "\<lambda>s. opts\<lparr>o_dev := s\<rparr>"] show ?thesis
    by (auto simp: parse_arg_def is_opt_literal)
next
  case (Script v)
  with set_str_plenty [OF assms(2), of "o_script opts" v "\<lambda>s. opts\<lparr>o_script := s\<rparr>"] show ?thesis
    by (auto simp: parse_arg_def is_opt_literal)
next
  case (ReadFile v)
  with set_str_plenty [OF assms(2), of "o_offline_file opts" v "\<lambda>s. opts\<lparr>o_offline_file := s\<rparr>"]
  show ?thesis by (auto simp: parse_arg_def is_opt_literal)
next
  case (WriteFile v)
  with set_str_plenty [OF assms(2), of "o_save_file opts" v "\<lambda>s. opts\<lparr>o_save_file := s\<rparr>"]
  show ?thesis by (auto simp: parse_arg_def is_opt_literal)
qed (use assms(2) in \<open>simp_all add: parse_arg_def is_opt_literal protocol_named_name\<close>)

lemma parse_loop_settings:
  "\<forall>x \<in> set xs. setting_ok x \<Longrightarrow> outcomes m = [] \<Longrightarrow>
   \<exists>m'. parse_loop (concat (map setting_args xs) @ rest) opts m =
          parse_loop rest (fold apply_setting xs opts) m' \<and> outcomes m' = []"
proof (induction xs arbitrary: opts m)
  case (Cons x xs)
  from parse_arg_setting [of x m "concat (map setting_args xs) @ rest" opts] Cons.prems obtain arg args m1
    where step: "setting_args x @ concat (map setting_args xs) @ rest = arg # args"
      "parse_arg arg args opts m = (Inr (concat (map setting_args xs) @ rest, apply_setting x opts), m1)"
      "outcomes m1 = []" by auto
  have "parse_loop (concat (map setting_args (x # xs)) @ rest) opts m =
      parse_loop (concat (map setting_args xs) @ rest) (apply_setting x opts) m1"
    using step(1,2) by simp
  with Cons.IH [of m1 "apply_setting x opts"] Cons.prems(1) step(3) show ?case by auto
qed auto

lemma parse_options_loop:
  assumes "outcomes m = []"
  shows "\<exists>m1. parse_options args m = parse_loop args default_options m1 \<and> outcomes m1 = []"
  using assms
  by (auto simp: parse_options_def init_options_def default_options_def malloc_plenty strdup_plenty)

section \<open>Properties\<close>

text \<open>
  C31. Ownership of the options: on every command line and every pattern of allocation failures,
  a failed \<open>parse_options\<close> leaves no block allocated that was not allocated before, and after
  a successful one the options own exactly the blocks allocated, so that \<open>free_options\<close>
  returns them all and frees none twice.
\<close>

theorem options_no_leak:
  assumes "parse_options args m = (r, m')"
  shows "(case r of Inl e \<Rightarrow> live m' = live m
          | Inr opts \<Rightarrow> live m' = live m + opt_blocks opts \<and> live (free_options opts m') = live m)"
proof -
  obtain ok m1 where m1: "malloc m = (ok, m1)" by (cases "malloc m")
  show ?thesis
  proof (cases ok)
    case False
    with assms m1 malloc_live(2) [of m m1] show ?thesis by (auto simp: parse_options_def)
  next
    case True
    obtain opts m2 where init: "init_options m1 = (opts, m2)" by (cases "init_options m1")
    have "live m2 = live m1 - 1 + opt_blocks opts"
      using init by (auto simp: init_options_def opt_blocks_def str_blocks_def dest!: strdup_live
          split: prod.splits)
    moreover have "parse_loop args opts m2 = (r, m')"
      using assms m1 True init by (simp add: parse_options_def)
    from parse_loop_live [OF this] have "live m' - result_blocks r = live m2 - opt_blocks opts" .
    ultimately show ?thesis
      using m1 True malloc_live(1) [of m m1]
      by (auto simp: result_blocks_def free_options_live split: sum.splits)
  qed
qed

theorem options_no_leak_witness:
  "\<exists>r m'. parse_options [str ''-i'', str ''lo'', str ''-x''] \<lparr>outcomes = [True, False], live = 7\<rparr> = (r, m') \<and>
     (case r of Inl e \<Rightarrow> live m' = 7
      | Inr opts \<Rightarrow> live m' = 7 + opt_blocks opts \<and> live (free_options opts m') = 7)"
proof -
  let ?args = "[str ''-i'', str ''lo'', str ''-x'']" and ?m = "\<lparr>outcomes = [True, False], live = 7\<rparr>"
  obtain r m' where "parse_options ?args ?m = (r, m')" by (cases "parse_options ?args ?m")
  with options_no_leak [OF this] show ?thesis by (auto split: sum.splits)
qed

text \<open>
  C30. Meaning of the command line: with memory available, parsing the written form of any sequence
  of settings succeeds and gives the defaults changed by each setting in order, the last one
  winning, the words of the filter joined by single blanks and the filter empty if there is none.
\<close>

theorem options_meaning:
  assumes "\<forall>x \<in> set xs. setting_ok x" "outcomes m = []"
  shows "fst (parse_options (concat (map setting_args xs)) m) =
           Inr (with_filter (fold apply_setting xs default_options))"
proof -
  from parse_options_loop [OF assms(2)] obtain m1 where
    "parse_options (concat (map setting_args xs)) m = parse_loop (concat (map setting_args xs)) default_options m1"
    "outcomes m1 = []" by blast
  with parse_loop_settings [OF assms(1), of m1 "[]" default_options] obtain m2 where
    "parse_options (concat (map setting_args xs)) m = parse_loop [] (fold apply_setting xs default_options) m2"
    "outcomes m2 = []" by auto
  then show ?thesis by (auto simp: with_filter_def strdup_plenty split: option.splits)
qed

theorem options_meaning_witness:
  "fst (parse_options
     (concat (map setting_args [Dev (str ''eth0''), FilterWord (str ''tcp''), Proto ProtocolRedis,
        FilterWord (str ''port''), Threshold (str ''10''), FilterWord (str ''6379'')]))
     \<lparr>outcomes = [], live = 0\<rparr>) =
   Inr (default_options\<lparr>o_dev := Some (str ''eth0''), o_filter := Some (str ''tcp port 6379''),
     o_protocol := ProtocolRedis, o_threshold := 10\<rparr>)"
proof -
  have "atoi (str ''10'') = 10"
    by (simp add: atoi_def strtol_def str_def is_space_def is_digit_def digits_val_def digit_val_def
        to_int32_id Let_def word_le_nat_alt)
  then show ?thesis
    using options_meaning [of "[Dev (str ''eth0''), FilterWord (str ''tcp''), Proto ProtocolRedis,
        FilterWord (str ''port''), Threshold (str ''10''), FilterWord (str ''6379'')]"
      "\<lparr>outcomes = [], live = 0\<rparr>"]
    by (simp add: str_def with_filter_def default_options_def init_options_def strdup_def malloc_def)
qed

text \<open>
  Rejection: with memory available, behind any sequence of settings an unknown option, or an
  option whose value is missing, is reported by name in the error text, cut at 255 characters.
\<close>

theorem options_rejected:
  assumes "\<forall>x \<in> set xs. setting_ok x" "outcomes m = []" "0 \<notin> set bad"
    and "bad \<in> str ` {''-i'', ''-B'', ''-t'', ''-p'', ''-P'', ''-s'', ''-S'', ''-r'', ''-w''} \<and> rest = [] \<or>
         bad \<noteq> [] \<and> hd bad = 45 \<and>
         bad \<notin> str ` {''-v'', ''-h'', ''-A'', ''-i'', ''-B'', ''-t'', ''-p'', ''-P'', ''-s'', ''-S'', ''-r'', ''-w''}"
  shows "fst (parse_options (concat (map setting_args xs) @ bad # rest) m) =
           Inl (take 255 (str ''invalid option '' @ 34 # bad @ 34 # str '' or option argument missing''))"
proof -
  from parse_options_loop [OF assms(2)] obtain m1 where
    "parse_options (concat (map setting_args xs) @ bad # rest) m =
       parse_loop (concat (map setting_args xs) @ bad # rest) default_options m1"
    "outcomes m1 = []" by blast
  with parse_loop_settings [OF assms(1), of m1 "bad # rest" default_options] obtain opts m2 where
    loop: "parse_options (concat (map setting_args xs) @ bad # rest) m = parse_loop (bad # rest) opts m2"
    by auto
  have lit: "is_opt bad l \<longleftrightarrow> bad = str l" if "CHR 0x00 \<notin> set l" for l
    using that assms(3) by (simp add: is_opt_def strcmp_zero_iff str_nul_free)
  have "fst (parse_arg bad rest opts m2) = Inl (invalid_option bad)"
    using assms(4) by (auto simp: parse_arg_def lit str_inject)
  then have "fst (parse_loop (bad # rest) opts m2) = Inl (invalid_option bad)"
    by (cases "parse_arg bad rest opts m2") auto
  with loop show ?thesis
    by (simp add: invalid_option_def snprintf_def MAX_ERR_BUFF_SIZE_def)
qed

theorem options_rejected_witness:
  "fst (parse_options (concat (map setting_args [Ascii]) @ [str ''-p'']) \<lparr>outcomes = [], live = 0\<rparr>) =
     Inl (take 255 (str ''invalid option '' @ 34 # str ''-p'' @ 34 # str '' or option argument missing''))"
  using options_rejected [of "[Ascii]" "\<lparr>outcomes = [], live = 0\<rparr>" "str ''-p''" "[]"]
  by (simp add: str_nul_free)

end
