(* ===== verification/Tracker_Spec.thy ===== *)
theory Tracker_Spec
  imports Tracker
begin

text \<open>
  What the tracker of \<open>src/packet.c\<close> promises, stated without hash tables, string keys,
  locks or an allocator: a finite map from server endpoints to their statistics, a finite map
  from connections to the pending request, the time of the last expiry and the printed lines.
  \<open>spec_packet\<close> is the effect of one packet on it. The refinement shows that
  \<open>process_user_packet\<close> computes exactly this as long as memory lasts, and the properties of
  the tracker are stated on it.
\<close>

unbundle bit_operations_syntax

type_synonym endpoint = "u32 \<times> u16"

section \<open>Specification\<close>

record tracker =
  t_servers :: "endpoint \<rightharpoonup> query_stats"
  t_pending :: "endpoint \<times> endpoint \<rightharpoonup> request"
  t_expire :: "timeval option"
  t_lines :: "byte list list"

record config =
  c_protocol :: ProtocolType
  c_threshold :: int
  c_color :: bool

definition spec_expire :: "timeval \<Rightarrow> tracker \<Rightarrow> tracker" where
  "spec_expire now t =
     (case t_expire t of
        None \<Rightarrow> t\<lparr>t_expire := Some now\<rparr>
      | Some prev \<Rightarrow>
          if tv_delta_us now prev < EXPIRE_INTERVAL_US then t
          else t\<lparr>t_expire := Some now,
                 t_pending := (\<lambda>k. case t_pending t k of None \<Rightarrow> None | Some r \<Rightarrow>
                   if tv_delta_us now (req_tv r) > REQUEST_TIMEOUT_US then None else Some r)\<rparr>)"

definition spec_register :: "user_packet \<Rightarrow> tracker \<Rightarrow> tracker" where
  "spec_register p t =
     (let e = (if flags p AND 0x10 \<noteq> 0 then (ip_src p, port_src p) else (ip_dst p, port_dst p)) in
      if t_servers t e \<noteq> None then t
      else t\<lparr>t_servers := (t_servers t)
             (e \<mapsto> empty_stats\<lparr>stats_ip := fst e, stats_port := snd e\<rparr>)\<rparr>)"

text \<open>The summary a format gives when memory is available.\<close>

definition summary_text :: "ProtocolType \<Rightarrow> user_packet \<Rightarrow> cstring option" where
  "summary_text pr p =
     (case format_for pr (payload p) (payload_size p) \<lparr>outcomes = [], live = 0\<rparr> of
        Some (s, m) \<Rightarrow> s | None \<Rightarrow> None)"

definition new_request :: "ProtocolType \<Rightarrow> user_packet \<Rightarrow> request" where
  "new_request pr p =
     \<lparr>req_tv = tv p, req_seq = sint (seq p),
      req_size = int (length (the (summary_text pr p))), req_payload = summary_text pr p\<rparr>"

definition report_line :: "config \<Rightarrow> 'l env \<Rightarrow> user_packet \<Rightarrow> int \<Rightarrow> request \<Rightarrow> byte list" where
  "report_line cfg E p delta req =
     (let buf = snprintf 4096 (latency_line E p delta (req_payload req))
      in if c_color cfg then GREEN @ buf @ NONE else buf)"

definition spec_request :: "config \<Rightarrow> user_packet \<Rightarrow> tracker \<Rightarrow> tracker" where
  "spec_request cfg p t =
     (let conn = ((ip_src p, port_src p), (ip_dst p, port_dst p)) in
      if t_pending t conn \<noteq> None \<or> int (card (dom (t_pending t))) \<ge> MAX_PENDING_REQUESTS then t
      else t\<lparr>t_pending := (t_pending t)(conn \<mapsto> new_request (c_protocol cfg) p)\<rparr>)"

definition spec_response :: "config \<Rightarrow> 'l env \<Rightarrow> user_packet \<Rightarrow> tracker \<Rightarrow> tracker" where
  "spec_response cfg E p t =
     (let src = (ip_src p, port_src p); conn = ((ip_dst p, port_dst p), src) in
      case t_pending t conn of
        None \<Rightarrow> t
      | Some req \<Rightarrow>
          (let delta = tv_delta_us (tv p) (req_tv req);
               t' = t\<lparr>t_servers := (t_servers t)
                        (src := map_option (\<lambda>st. stats_observer_latency st delta) (t_servers t src)),
                      t_pending := (t_pending t)(conn := None)\<rparr>
           in if c_threshold cfg \<noteq> 0 \<and> delta < to_int32 (c_threshold cfg * 1000) then t'
              else t'\<lparr>t_lines := t_lines t @ [report_line cfg E p delta req]\<rparr>))"

definition spec_count :: "endpoint \<Rightarrow> bool \<Rightarrow> user_packet \<Rightarrow> tracker \<Rightarrow> tracker" where
  "spec_count e is_req p t =
     t\<lparr>t_servers := (t_servers t)
         (e := map_option (\<lambda>st. stats_incr st is_req (up_size p)) (t_servers t e))\<rparr>"

definition spec_packet :: "config \<Rightarrow> 'l env \<Rightarrow> user_packet \<Rightarrow> tracker \<Rightarrow> tracker" where
  "spec_packet cfg E p t0 =
     (let t = spec_expire (tv p) t0;
          src = (ip_src p, port_src p); dst = (ip_dst p, port_dst p)
      in if payload_size p = 0 then
           (if flags p AND 0x02 \<noteq> 0 then spec_register p t else t)
         else if t_servers t src \<noteq> None then spec_response cfg E p (spec_count src False p t)
         else if t_servers t dst \<noteq> None then spec_request cfg p (spec_count dst True p t)
         else t)"

section \<open>Abstraction\<close>

definition server_map :: "query_stats hashtable \<Rightarrow> endpoint \<rightharpoonup> query_stats" where
  "server_map ht e = hashtable_get ht (endpoint_key (fst e) (snd e))"

definition pending_map :: "request hashtable \<Rightarrow> endpoint \<times> endpoint \<rightharpoonup> request" where
  "pending_map ht k =
     hashtable_get ht (connection_key (fst (fst k)) (snd (fst k)) (fst (snd k)) (snd (snd k)))"

definition abs_tracker :: "('p, 'l, 'b, 'd) capture \<Rightarrow> tracker" where
  "abs_tracker c =
     \<lparr>t_servers = server_map (the (syn_tab (sniffer c))),
      t_pending = pending_map (the (requests (sniffer c))),
      t_expire = (if expire_primed (sniffer c) = 0 then None else Some (last_expire (sniffer c))),
      t_lines = map snd (written (console c))\<rparr>"

definition config_of :: "('p, 'l, 'b, 'd) capture \<Rightarrow> config" where
  "config_of c =
     \<lparr>c_protocol = protocol (sniffer c), c_threshold = threshold (sniffer c),
      c_color = use_color (console c)\<rparr>"

lemma server_map_upd:
  "hashtable_get ht' = (hashtable_get ht)(endpoint_key (fst e) (snd e) := x) \<Longrightarrow>
   server_map ht' = (server_map ht)(e := x)"
  by (auto simp: server_map_def fun_eq_iff prod_eq_iff)

lemma pending_map_upd:
  "hashtable_get ht' = (hashtable_get ht)(connection_key a b c d := x) \<Longrightarrow>
   pending_map ht' = (pending_map ht)(((a, b), (c, d)) := x)"
  by (auto simp: pending_map_def fun_eq_iff prod_eq_iff)

text \<open>No two connections share a key, so the table's size counts connections.\<close>

lemma pending_card:
  assumes "table_ok request_ok free_request (Some ht)"
  shows "int (card (dom (pending_map ht))) = ht_size ht"
proof -
  let ?key = "\<lambda>((a, b), (c, d)). connection_key a b c d"
  have "dom (hashtable_get ht) = ?key ` dom (pending_map ht)"
  proof (intro equalityI subsetI)
    fix k assume "k \<in> dom (hashtable_get ht)"
    then obtain a b c d where "k = connection_key a b c d" "hashtable_get ht k \<noteq> None"
      using assms by (auto simp: table_ok_def request_ok_def) blast
    then show "k \<in> ?key ` dom (pending_map ht)"
      by (intro image_eqI [of _ _ "((a, b), (c, d))"]) (auto simp: pending_map_def)
  qed (auto simp: pending_map_def)
  moreover have "inj_on ?key (dom (pending_map ht))"
    by (auto simp: inj_on_def)
  ultimately show ?thesis
    using assms ht.count_card [of ht] by (auto simp: table_ok_def card_image)
qed

section \<open>Refinement, operation by operation\<close>

lemma frees_quietly_tables:
  "free_fn ht = Some free_stats \<Longrightarrow> frees_quietly ht"
  "free_fn ht' = Some free_request \<Longrightarrow> frees_quietly ht'"
  by (simp_all add: frees_quietly_def free_value_def free_stats_def free_request_def mfree_def)

text \<open>Two capture states that differ in their tables, allocator and console only.\<close>

definition same_setup :: "('p, 'l, 'b, 'd) capture \<Rightarrow> ('p, 'l, 'b, 'd) capture \<Rightarrow> bool" where
  "same_setup c c' \<longleftrightarrow>
     config_of c' = config_of c \<and> lua_state (sniffer c') = lua_state (sniffer c)"

lemma expire_refines:
  assumes "capture_ok c" "outcomes (heap c) = []"
  shows "abs_tracker (expire_stale_requests now c) = spec_expire now (abs_tracker c) \<and>
         same_setup c (expire_stale_requests now c) \<and>
         outcomes (heap (expire_stale_requests now c)) = []"
proof -
  from assms obtain ht where ht: "requests (sniffer c) = Some ht" "ht_invar ht" "free_fn ht = Some free_request"
    by (auto simp: capture_ok_def table_ok_def)
  let ?Q = "\<lambda>v. request_expired v \<lparr>exp_now = now, timeout_us = REQUEST_TIMEOUT_US\<rparr>"
  obtain n ht' m' where sw: "sweep_table ?Q ht (heap c) = (n, ht', m')"
    by (cases "sweep_table ?Q ht (heap c)")
  from ht_step_map [OF ht(2) frees_quietly_tables(2) [OF ht(3)] assms(2), of "OpSweep ?Q"] sw
  have m: "hashtable_get ht' = (\<lambda>k. Option.bind (hashtable_get ht k) (\<lambda>v. if ?Q v then None else Some v))"
    "outcomes m' = []" by auto
  have "pending_map ht' = (\<lambda>k. case pending_map ht k of None \<Rightarrow> None | Some r \<Rightarrow>
          if tv_delta_us now (req_tv r) > REQUEST_TIMEOUT_US then None else Some r)"
    by (auto simp: pending_map_def m(1) fun_eq_iff request_expired_def split: option.splits)
  with m(2) ht(1) assms(2) show ?thesis
    by (auto simp: expire_stale_requests_def spec_expire_def abs_tracker_def same_setup_def
        config_of_def requests_expire_def hashtable_sweep_def sw Let_def)
qed

lemma direction_refines:
  assumes "capture_ok c"
  shows "\<exists>c'. packet_direction p c =
      Done (if t_servers (abs_tracker c) (ip_src p, port_src p) \<noteq> None then 0
            else if t_servers (abs_tracker c) (ip_dst p, port_dst p) \<noteq> None then 1 else -1, c') \<and>
    abs_tracker c' =
      (if t_servers (abs_tracker c) (ip_src p, port_src p) \<noteq> None
       then spec_count (ip_src p, port_src p) False p (abs_tracker c)
       else if t_servers (abs_tracker c) (ip_dst p, port_dst p) \<noteq> None
       then spec_count (ip_dst p, port_dst p) True p (abs_tracker c) else abs_tracker c) \<and>
    same_setup c c' \<and> heap c' = heap c"
proof -
  from assms obtain syn where syn: "syn_tab (sniffer c) = Some syn" "ht_invar syn"
    "\<not> stats_lock (sniffer c)"
    by (auto simp: capture_ok_def table_ok_def)
  have upd: "server_map (hashtable_modify syn (endpoint_key a b) f) =
      (server_map syn)((a, b) := map_option f (server_map syn (a, b)))" for a b f
    using ht.modify_law [OF syn(2)] by (intro server_map_upd) (simp add: server_map_def)
  have get: "server_map syn (a, b) = hashtable_get syn (endpoint_key a b)" for a b
    by (simp add: server_map_def)
  note defs = packet_direction_def sniffer_stats_lock_def sniffer_stats_unlock_def
    abs_tracker_def spec_count_def same_setup_def config_of_def Let_def syn upd get
  show ?thesis
  proof (cases "hashtable_get syn (endpoint_key (ip_src p) (port_src p))")
    case (Some st)
    then show ?thesis by (simp add: defs)
  next
    case src: None
    show ?thesis
    proof (cases "hashtable_get syn (endpoint_key (ip_dst p) (port_dst p))")
      case (Some st)
      with src show ?thesis by (simp add: defs)
    next
      case None
      with src show ?thesis by (simp add: defs)
    qed
  qed
qed

lemma register_refines:
  assumes "capture_ok c" "outcomes (heap c) = []"
  shows "\<exists>c'. register_server p c = Done c' \<and> abs_tracker c' = spec_register p (abs_tracker c) \<and>
           same_setup c c' \<and> outcomes (heap c') = []"
proof -
  from assms obtain syn where syn: "syn_tab (sniffer c) = Some syn" "ht_invar syn"
    "\<not> stats_lock (sniffer c)"
    by (auto simp: capture_ok_def table_ok_def)
  define a where "a = (if flags p AND 0x10 \<noteq> 0 then ip_src p else ip_dst p)"
  define b where "b = (if flags p AND 0x10 \<noteq> 0 then port_src p else port_dst p)"
  have e: "(if flags p AND 0x10 \<noteq> 0 then (ip_src p, port_src p) else (ip_dst p, port_dst p)) = (a, b)"
    by (simp add: a_def b_def)
  have get: "server_map syn (a, b) = hashtable_get syn (endpoint_key a b)"
    by (simp add: server_map_def)
  note defs = register_server_def a_def [symmetric] b_def [symmetric] sniffer_stats_lock_def
    sniffer_stats_unlock_def abs_tracker_def spec_register_def same_setup_def config_of_def Let_def
    syn get e
  show ?thesis
  proof (cases "hashtable_get syn (endpoint_key a b)")
    case (Some st)
    with assms(2) show ?thesis by (simp add: defs)
  next
    case None
    let ?st = "empty_stats\<lparr>stats_ip := a, stats_port := b\<rparr>"
    let ?m = "(heap c)\<lparr>live := live (heap c) + 1\<rparr>"
    obtain r syn' m' where add: "hashtable_add syn (endpoint_key a b) ?st ?m = (r, syn', m')"
      by (cases "hashtable_add syn (endpoint_key a b) ?st ?m")
    from hashtable_add_plenty [OF syn(2) _ None add] assms(2)
    have "server_map syn' = (server_map syn)((a, b) \<mapsto> ?st)" "outcomes m' = []"
      by (auto intro: server_map_upd)
    with None show ?thesis by (simp add: defs malloc_plenty [OF assms(2)] add)
  qed
qed

lemma summary_text_shape:
  assumes "packet_ok p"
  shows "\<exists>sm. summary_text pr p = Some sm \<and>
    (\<forall>m. format_for pr (payload p) (payload_size p) m =
      Some (if fst (malloc m) then Some sm else None, snd (malloc m)))"
proof -
  from format_for_shape [OF assms] obtain sm where
    "\<forall>m. format_for pr (payload p) (payload_size p) m =
      Some (if fst (malloc m) then Some sm else None, snd (malloc m))" by blast
  then show ?thesis by (auto simp: summary_text_def malloc_def)
qed

lemma request_refines:
  assumes "capture_ok c" "packet_ok p" "outcomes (heap c) = []"
  shows "\<exists>c'. process_request_packet p c = Done c' \<and>
           abs_tracker c' = spec_request (config_of c) p (abs_tracker c) \<and>
           same_setup c c' \<and> outcomes (heap c') = []"
proof -
  from assms obtain reqs where reqs: "requests (sniffer c) = Some reqs" "ht_invar reqs"
    and ok: "table_ok request_ok free_request (Some reqs)"
    by (auto simp: capture_ok_def table_ok_def)
  let ?key = "connection_key (ip_src p) (port_src p) (ip_dst p) (port_dst p)"
  let ?conn = "((ip_src p, port_src p), (ip_dst p, port_dst p))"
  from summary_text_shape [OF assms(2)] obtain sm where
    sm: "summary_text (protocol (sniffer c)) p = Some sm"
      "\<And>m. format_for (protocol (sniffer c)) (payload p) (payload_size p) m =
      Some (if fst (malloc m) then Some sm else None, snd (malloc m))" by blast
  have get: "pending_map reqs ?conn = hashtable_get reqs ?key" by (simp add: pending_map_def)
  note defs = process_request_packet_def spec_request_def abs_tracker_def same_setup_def
    config_of_def Let_def reqs get pending_card [OF ok]
  show ?thesis
  proof (cases "hashtable_get reqs ?key \<noteq> None \<or> ht_size reqs \<ge> MAX_PENDING_REQUESTS")
    case True
    then have "process_request_packet p c = Done c"
      by (auto simp: process_request_packet_def Let_def reqs)
    moreover have "spec_request (config_of c) p (abs_tracker c) = abs_tracker c"
      using True by (simp add: spec_request_def abs_tracker_def Let_def reqs get pending_card [OF ok])
    ultimately show ?thesis using assms(3) by (simp add: same_setup_def)
  next
    case False
    let ?m = "(heap c)\<lparr>live := live (heap c) + 1\<rparr>" and ?req = "new_request (protocol (sniffer c)) p"
    let ?m2 = "?m\<lparr>live := live ?m + 1\<rparr>"
    obtain r reqs' m' where add: "hashtable_add reqs ?key ?req ?m2 = (r, reqs', m')"
      by (cases "hashtable_add reqs ?key ?req ?m2")
    from hashtable_add_plenty [OF reqs(2) _ _ add] assms(3) False
    have map: "pending_map reqs' = (pending_map reqs)(?conn \<mapsto> ?req)" and out: "outcomes m' = []"
      by (auto intro: pending_map_upd)
    have req: "\<lparr>req_tv = tv p, req_seq = sint (seq p), req_size = int (length sm),
        req_payload = Some sm\<rparr> = ?req"
      by (simp add: new_request_def sm(1))
    have fmt: "format_for (protocol (sniffer c)) (payload p) (payload_size p) ?m = Some (Some sm, ?m2)"
      using assms(3) by (simp add: sm(2) malloc_plenty)
    from False map out show ?thesis
      by (simp add: defs malloc_plenty [OF assms(3)] fmt req add [simplified])
  qed
qed

lemma response_refines:
  assumes "capture_ok c" "outcomes (heap c) = []"
  shows "\<exists>c'. process_response_packet E p c = Done c' \<and>
           abs_tracker c' = spec_response (config_of c) E p (abs_tracker c) \<and>
           same_setup c c' \<and> outcomes (heap c') = []"
proof -
  from assms obtain reqs syn fp where reqs: "requests (sniffer c) = Some reqs" "ht_invar reqs"
    and syn: "syn_tab (sniffer c) = Some syn" "ht_invar syn" "\<not> stats_lock (sniffer c)"
    and fp: "log_fp (console c) = Some fp" and free: "free_fn reqs = Some free_request"
    by (auto simp: capture_ok_def table_ok_def)
  let ?key = "connection_key (ip_dst p) (port_dst p) (ip_src p) (port_src p)"
  let ?src = "(ip_src p, port_src p)" and ?skey = "endpoint_key (ip_src p) (port_src p)"
  let ?conn = "((ip_dst p, port_dst p), ?src)"
  have get: "pending_map reqs ?conn = hashtable_get reqs ?key"
    "server_map syn ?src = hashtable_get syn ?skey"
    by (simp_all add: pending_map_def server_map_def)
  show ?thesis
  proof (cases "hashtable_get reqs ?key")
    case None
    then show ?thesis
      using assms(2) get by (simp add: process_response_packet_def spec_response_def abs_tracker_def
          same_setup_def reqs Let_def)
  next
    case (Some req)
    let ?delta = "tv_delta_us (tv p) (req_tv req)"
    obtain n reqs' m' where del: "hashtable_del reqs ?key (heap c) = (n, reqs', m')"
      by (cases "hashtable_del reqs ?key (heap c)")
    from ht_step_map [OF reqs(2) frees_quietly_tables(2) [OF free] assms(2), of "OpDel ?key"] del
    have map: "pending_map reqs' = (pending_map reqs)(?conn := None)" and out: "outcomes m' = []"
      by (auto intro: pending_map_upd)
    define syn' where "syn' = (if hashtable_get syn ?skey \<noteq> None
      then hashtable_modify syn ?skey (\<lambda>st. stats_observer_latency st ?delta) else syn)"
    have smap: "server_map syn' = (server_map syn)
        (?src := map_option (\<lambda>st. stats_observer_latency st ?delta) (server_map syn ?src))"
    proof (cases "hashtable_get syn ?skey")
      case None
      then show ?thesis by (auto simp: syn'_def get fun_eq_iff)
    next
      case (Some st)
      then show ?thesis
        using ht.modify_law [OF syn(2)] by (intro server_map_upd) (simp add: syn'_def server_map_def)
    qed
    have print: "color_printf (Some GREEN) (latency_line E p ?delta (req_payload req)) (console c) =
        Done ((console c)\<lparr>written := written (console c) @
          [(fp, report_line (config_of c) E p ?delta req)]\<rparr>)"
      by (simp add: color_printf_def log_print_def report_line_def config_of_def fp Let_def)
    note defs = process_response_packet_def spec_response_def abs_tracker_def same_setup_def
      config_of_def sniffer_stats_lock_def sniffer_stats_unlock_def reqs syn Some get Let_def del
      print [unfolded config_of_def, simplified] map out
    show ?thesis
    proof (cases "hashtable_get syn ?skey")
      case None
      with smap have "(server_map syn)(?src := None) = server_map syn" by (simp add: syn'_def get)
      with None show ?thesis by (simp add: defs)
    next
      case (Some st)
      with smap show ?thesis by (simp add: syn'_def defs)
    qed
  qed
qed

lemma packet_refines:
  assumes "capture_ok c" "packet_ok p" "outcomes (heap c) = []"
    and "lua_state (sniffer c) = None" "protocol (sniffer c) \<noteq> ProtocolRaw"
  shows "\<exists>c'. process_user_packet E p c = Done c' \<and>
           abs_tracker c' = spec_packet (config_of c) E p (abs_tracker c) \<and>
           same_setup c c' \<and> outcomes (heap c') = []"
proof -
  let ?c = "expire_stale_requests (tv p) c"
  note exp = expire_refines [OF assms(1,3), of "tv p"]
  have ok: "capture_ok ?c" by (rule expire_ok [OF assms(1)])
  have cfg: "config_of ?c = config_of c" using exp by (simp add: same_setup_def)
  have trans: "same_setup ?c c' \<Longrightarrow> same_setup c c'" for c'
    using exp by (simp add: same_setup_def)
  show ?thesis
  proof (cases "payload_size p = 0")
    case True
    with register_refines [OF ok, of p] exp trans assms(4,5) show ?thesis
      by (auto simp: process_user_packet_def spec_packet_def Let_def)
  next
    case False
    from direction_refines [OF ok, of p] obtain d c1 where
      dir: "packet_direction p ?c = Done (d, c1)"
      "d = (if t_servers (abs_tracker ?c) (ip_src p, port_src p) \<noteq> None then 0
            else if t_servers (abs_tracker ?c) (ip_dst p, port_dst p) \<noteq> None then 1 else -1)"
      and abs1: "abs_tracker c1 =
      (if t_servers (abs_tracker ?c) (ip_src p, port_src p) \<noteq> None
       then spec_count (ip_src p, port_src p) False p (abs_tracker ?c)
       else if t_servers (abs_tracker ?c) (ip_dst p, port_dst p) \<noteq> None
       then spec_count (ip_dst p, port_dst p) True p (abs_tracker ?c) else abs_tracker ?c)"
      and setup1: "same_setup ?c c1" "heap c1 = heap ?c" by blast
    from direction_ok [OF ok, of p] dir(1) have ok1: "capture_ok c1" by auto
    have out1: "outcomes (heap c1) = []" using exp setup1(2) by simp
    have cfg1: "config_of c1 = config_of c" using cfg setup1(1) by (simp add: same_setup_def)
    have trans1: "same_setup c1 c' \<Longrightarrow> same_setup c c'" for c'
      using trans setup1(1) by (simp add: same_setup_def)
    have run: "process_user_packet E p c =
      (if d = 0 then process_response_packet E p c1
       else if d = 1 then process_request_packet p c1 else Done c1)"
      using False assms(4,5) dir(1) by (simp add: process_user_packet_def Let_def)
    have spec: "spec_packet (config_of c) E p (abs_tracker c) =
      (if d = 0 then spec_response (config_of c1) E p (abs_tracker c1)
       else if d = 1 then spec_request (config_of c1) p (abs_tracker c1) else abs_tracker c1)"
      using False exp dir(2) abs1 cfg1 by (simp add: spec_packet_def Let_def)
    from response_refines [OF ok1 out1, of E p] request_refines [OF ok1 assms(2) out1]
      trans1 out1 trans setup1(1)
    show ?thesis unfolding run spec by (auto split: if_split)
  qed
qed

section \<open>Runs of packets\<close>

fun run_packets ::
    "'l env \<Rightarrow> user_packet list \<Rightarrow> ('p, 'l, 'b, 'd) capture \<Rightarrow> ('p, 'l, 'b, 'd) capture outcome" where
  "run_packets E [] c = Done c"
| "run_packets E (p # ps) c = and_then (process_user_packet E p c) (run_packets E ps)"

definition tracking :: "('p, 'l, 'b, 'd) capture \<Rightarrow> bool" where
  "tracking c \<longleftrightarrow> capture_ok c \<and> lua_state (sniffer c) = None \<and> protocol (sniffer c) \<noteq> ProtocolRaw"

lemma run_refines:
  assumes "tracking c" "outcomes (heap c) = []" "\<forall>p \<in> set ps. packet_ok p"
  shows "\<exists>c'. run_packets E ps c = Done c' \<and> tracking c' \<and> outcomes (heap c') = [] \<and>
           config_of c' = config_of c \<and>
           abs_tracker c' = fold (spec_packet (config_of c) E) ps (abs_tracker c)"
  using assms
proof (induction ps arbitrary: c)
  case (Cons p ps)
  then have p: "capture_ok c" "packet_ok p" "outcomes (heap c) = []" "lua_state (sniffer c) = None"
    "protocol (sniffer c) \<noteq> ProtocolRaw" by (auto simp: tracking_def)
  from packet_refines [OF p, of E] obtain c1 where c1: "process_user_packet E p c = Done c1"
    "abs_tracker c1 = spec_packet (config_of c) E p (abs_tracker c)" "same_setup c c1"
    "outcomes (heap c1) = []" by blast
  from process_user_packet_ok [OF p(1,2,4), of E] c1(1) have "capture_ok c1" by auto
  with c1(3) p(4,5) have "tracking c1" "config_of c1 = config_of c"
    by (auto simp: tracking_def same_setup_def config_of_def)
  with Cons.IH [of c1] c1 Cons.prems(3) show ?case by auto
qed simp

lemma run_ok:
  assumes "capture_ok c" "lua_state (sniffer c) = None" "\<forall>p \<in> set ps. packet_ok p"
  shows "\<exists>c'. run_packets E ps c = Done c' \<and> capture_ok c'"
  using assms
proof (induction ps arbitrary: c)
  case (Cons p ps)
  then have p: "capture_ok c" "packet_ok p" "lua_state (sniffer c) = None" by auto
  from process_user_packet_ok [OF p, of E] obtain c1 where
    c1: "process_user_packet E p c = Done c1" "capture_ok c1" "lua_state (sniffer c1) = None"
    using p(3) by (auto simp: same_handles_def)
  with Cons.IH [OF c1(2)] c1(1) Cons.prems(3) show ?case by auto
qed simp

section \<open>Times\<close>

definition tv_us :: "timeval \<Rightarrow> int" where
  "tv_us t = tv_sec t * 1000000 + tv_usec t"

text \<open>Capture times: unsigned 32 bit seconds and a proper fraction.\<close>

definition tv_ok :: "timeval \<Rightarrow> bool" where
  "tv_ok t \<longleftrightarrow> 0 \<le> tv_sec t \<and> tv_sec t < 2 ^ 32 \<and> 0 \<le> tv_usec t \<and> tv_usec t < 1000000"

lemma tv_delta_us_eq: "tv_ok a \<Longrightarrow> tv_ok b \<Longrightarrow> tv_delta_us a b = tv_us a - tv_us b"
  unfolding tv_delta_us_def tv_us_def tv_ok_def
  by (subst to_int64_id) (auto simp: algebra_simps)

text \<open>
  The state after a packet at time \<open>now\<close>: the last sweep was less than a second before, and no
  pending request was older than the timeout then.
\<close>

definition fresh :: "timeval \<Rightarrow> tracker \<Rightarrow> bool" where
  "fresh now t \<longleftrightarrow>
     (\<exists>prev. t_expire t = Some prev \<and> tv_ok prev \<and> tv_us prev \<le> tv_us now \<and>
        tv_us now - tv_us prev < EXPIRE_INTERVAL_US \<and>
        (\<forall>k r. t_pending t k = Some r \<longrightarrow>
           tv_ok (req_tv r) \<and> tv_us prev - tv_us (req_tv r) \<le> REQUEST_TIMEOUT_US \<and>
           tv_us (req_tv r) \<le> tv_us now))"

lemma fresh_expire:
  assumes "fresh prev t \<or> t_expire t = None \<and> t_pending t = Map.empty"
    and "tv_ok now" "t_expire t \<noteq> None \<longrightarrow> tv_us prev \<le> tv_us now"
  shows "fresh now (spec_expire now t)"
proof (cases "t_expire t")
  case None
  with assms show ?thesis
    by (auto simp: fresh_def spec_expire_def EXPIRE_INTERVAL_US_def)
next
  case (Some e)
  with assms(1) have f: "fresh prev t" by auto
  with Some have e: "tv_ok e" "tv_us e \<le> tv_us prev" by (auto simp: fresh_def)
  show ?thesis
  proof (cases "tv_delta_us now e < EXPIRE_INTERVAL_US")
    case True
    with f Some e assms(2,3) show ?thesis
      by (fastforce simp: fresh_def spec_expire_def tv_delta_us_eq)
  next
    case False
    with f Some e assms(2,3) show ?thesis
      by (fastforce simp: fresh_def spec_expire_def tv_delta_us_eq EXPIRE_INTERVAL_US_def
          split: option.splits if_splits)
  qed
qed

lemma fresh_step:
  "fresh (tv p) t \<Longrightarrow> fresh (tv p) (spec_register p t)"
  "fresh (tv p) t \<Longrightarrow> fresh (tv p) (spec_count e r p t)"
  "fresh (tv p) t \<Longrightarrow> fresh (tv p) (spec_response cfg E p t)"
  by (auto simp: fresh_def spec_register_def spec_count_def spec_response_def Let_def
      split: option.splits if_splits)

lemma fresh_request:
  "fresh (tv p) t \<Longrightarrow> tv_ok (tv p) \<Longrightarrow> fresh (tv p) (spec_request cfg p t)"
  by (fastforce simp: fresh_def spec_request_def new_request_def REQUEST_TIMEOUT_US_def Let_def
      split: if_splits)

lemma fresh_packet:
  assumes "fresh prev t \<or> t_expire t = None \<and> t_pending t = Map.empty"
    and "tv_ok (tv p)" "t_expire t \<noteq> None \<longrightarrow> tv_us prev \<le> tv_us (tv p)"
  shows "fresh (tv p) (spec_packet cfg E p t)"
  using fresh_expire [OF assms] assms(2)
  by (auto simp: spec_packet_def Let_def intro: fresh_step fresh_request)

lemma fresh_run:
  assumes "fresh prev t" "\<forall>p \<in> set ps. tv_ok (tv p)"
    "sorted_wrt (\<le>) (tv_us prev # map (\<lambda>p. tv_us (tv p)) ps)"
  shows "fresh (last (prev # map tv ps)) (fold (spec_packet cfg E) ps t)"
  using assms
proof (induction ps arbitrary: prev t)
  case (Cons p ps)
  then have "fresh (tv p) (spec_packet cfg E p t)" by (intro fresh_packet [of prev]) auto
  from Cons.IH [OF this] Cons.prems show ?case by auto
qed simp

section \<open>One exchange\<close>

lemma expire_keeps:
  "t_servers (spec_expire now t) = t_servers t" "t_lines (spec_expire now t) = t_lines t"
  "t_pending t k = None \<Longrightarrow> t_pending (spec_expire now t) k = None"
  "t_pending t k = Some r \<Longrightarrow> tv_delta_us now (req_tv r) \<le> REQUEST_TIMEOUT_US \<Longrightarrow>
   t_pending (spec_expire now t) k = Some r"
  by (auto simp: spec_expire_def split: option.splits)

lemma expire_card_le:
  assumes "finite (dom (t_pending t))"
  shows "card (dom (t_pending (spec_expire now t))) \<le> card (dom (t_pending t))"
proof (rule card_mono [OF assms])
  show "dom (t_pending (spec_expire now t)) \<subseteq> dom (t_pending t)"
    using expire_keeps(3) [of t] by (metis domIff subsetI)
qed

lemma abs_finite: "capture_ok c \<Longrightarrow> finite (dom (t_pending (abs_tracker c)))"
proof -
  assume "capture_ok c"
  then obtain ht where ht: "requests (sniffer c) = Some ht" "ht_invar ht"
    by (auto simp: capture_ok_def table_ok_def)
  let ?key = "\<lambda>((a, b), (c, d)). connection_key a b c d"
  have "?key ` dom (pending_map ht) \<subseteq> dom (hashtable_get ht)"
    by (auto simp: pending_map_def)
  moreover have "inj_on ?key (dom (pending_map ht))" by (auto simp: inj_on_def)
  ultimately have "finite (dom (pending_map ht))"
    using ht.finite_dom [OF ht(2)] by (meson finite_imageD finite_subset)
  then show ?thesis by (simp add: abs_tracker_def ht(1))
qed

text \<open>A response answers a request when its addresses are the request's, swapped.\<close>

definition answers :: "user_packet \<Rightarrow> user_packet \<Rightarrow> bool" where
  "answers q p \<longleftrightarrow>
     ip_src q = ip_dst p \<and> port_src q = port_dst p \<and> ip_dst q = ip_src p \<and> port_dst q = port_src p"

lemma spec_exchange:
  assumes "answers q p" "payload_size p \<noteq> 0" "payload_size q \<noteq> 0"
    and "t_servers t (ip_src p, port_src p) = None"
    and "t_servers t (ip_dst p, port_dst p) = Some st"
    and "t_pending t ((ip_src p, port_src p), (ip_dst p, port_dst p)) = None"
    and "finite (dom (t_pending t))" "int (card (dom (t_pending t))) < MAX_PENDING_REQUESTS"
    and "tv_delta_us (tv q) (tv p) \<le> REQUEST_TIMEOUT_US"
    and "t' = fold (spec_packet cfg E) [p, q] t" "delta = tv_delta_us (tv q) (tv p)"
  shows "t_servers t' = (t_servers t)((ip_dst p, port_dst p) \<mapsto>
           stats_observer_latency
             (stats_incr (stats_incr st True (up_size p)) False (up_size q)) delta) \<and>
         t_pending t' ((ip_src p, port_src p), (ip_dst p, port_dst p)) = None \<and>
         t_lines t' = t_lines t @
           (if c_threshold cfg \<noteq> 0 \<and> delta < to_int32 (c_threshold cfg * 1000) then []
            else [report_line cfg E q delta (new_request (c_protocol cfg) p)])"
proof -
  let ?src = "(ip_src p, port_src p)" and ?dst = "(ip_dst p, port_dst p)"
  let ?req = "new_request (c_protocol cfg) p"
  define t1 where "t1 = spec_packet cfg E p t"
  have "\<not> int (card (dom (t_pending (spec_expire (tv p) t)))) \<ge> MAX_PENDING_REQUESTS"
    using expire_card_le [OF assms(7), of "tv p"] assms(8) by linarith
  then have t1: "t_pending t1 (?src, ?dst) = Some ?req" "t_lines t1 = t_lines t"
    "t_servers t1 = (t_servers t)(?dst \<mapsto> stats_incr st True (up_size p))"
    using assms(2,4,5,6) unfolding t1_def
    by (auto simp: spec_packet_def spec_count_def spec_request_def expire_keeps Let_def)
  have "req_tv ?req = tv p" by (simp add: new_request_def)
  then have pend: "t_pending (spec_expire (tv q) t1) (?src, ?dst) = Some ?req"
    using expire_keeps(4) [OF t1(1)] assms(9) by simp
  have "t' = spec_packet cfg E q t1" using assms(10) by (simp add: t1_def)
  then have "t' = spec_response cfg E q (spec_count ?dst False q (spec_expire (tv q) t1))"
    using assms(1,3) t1(3) by (simp add: spec_packet_def answers_def expire_keeps Let_def)
  with pend t1 assms(1,11) \<open>req_tv ?req = tv p\<close> show ?thesis
    by (simp add: spec_response_def spec_count_def answers_def expire_keeps Let_def)
qed

section \<open>Raw output\<close>

definition line_state :: "int \<Rightarrow> byte list \<Rightarrow> cstring \<times> int" where
  "line_state cap txt =
     (let s = take (nat (cap - 1)) txt in (s, int (length s)))"

lemma append_fmt_line:
  assumes "0 < cap"
  shows "append_fmt cap txt (line_state cap xs) = line_state cap (xs @ txt)"
proof (cases "int (length xs) \<ge> cap - 1")
  case True
  with assms show ?thesis by (simp add: append_fmt_def line_state_def Let_def)
next
  case False
  with assms have "nat (cap - int (length xs)) - 1 = nat (cap - 1) - length xs" by linarith
  with False assms show ?thesis
    by (simp add: append_fmt_def line_state_def snprintf_def Let_def)
qed

lemma append_all_line:
  "0 < cap \<Longrightarrow> append_all cap txts (line_state cap xs) = line_state cap (xs @ concat txts)"
  by (induction txts arbitrary: xs) (simp_all add: append_fmt_line)

section \<open>A concrete capture\<close>

text \<open>One known server, 10.0.0.2:6379, and no pending request.\<close>

definition demo_stats :: query_stats where
  "demo_stats = empty_stats\<lparr>stats_ip := 0x0200000a, stats_port := 6379\<rparr>"

definition demo_syn_tab :: "query_stats hashtable" where
  "demo_syn_tab =
     \<lparr>nbucket = 1, ht_size = 1,
      buckets = [[\<lparr>entry_key = endpoint_key 0x0200000a 6379, entry_value = demo_stats\<rparr>]],
      free_fn = Some free_stats\<rparr>"

definition demo_requests :: "request hashtable" where
  "demo_requests = \<lparr>nbucket = 1, ht_size = 0, buckets = [[]], free_fn = Some free_request\<rparr>"

definition demo_env :: "int env" where
  "demo_env = \<lparr>strftime = (\<lambda>n f sec. str ''12:00:00''), time_now = 0, lua = depth_api\<rparr>"

definition demo_capture :: "(unit, int, unit, unit) capture" where
  "demo_capture =
     \<lparr>sniffer =
        \<lparr>pcap = None, dev = None, filter_expr = None, protocol = ProtocolRedis, threshold = 0,
         ascii = 0, stats_lock = False, lock_ready = 1, syn_tab = Some demo_syn_tab,
         requests = Some demo_requests, last_expire = \<lparr>tv_sec = 0, tv_usec = 0\<rparr>,
         expire_primed = 0, lua_state = None, bpf = None, dumper = None\<rparr>,
      heap = \<lparr>outcomes = [], live = 0\<rparr>, console = demo_logger, gc_count = 0\<rparr>"

definition demo_request_packet :: user_packet where
  "demo_request_packet =
     zero_packet\<lparr>tv := \<lparr>tv_sec = 100, tv_usec = 0\<rparr>, ip_src := 0x0100000a, port_src := 50000,
       ip_dst := 0x0200000a, port_dst := 6379, is_tcp := 1, up_size := 60,
       payload_size := 6, wire_payload_size := 6, payload := str ''PING'' @ [13, 10]\<rparr>"

definition demo_response_packet :: user_packet where
  "demo_response_packet =
     zero_packet\<lparr>tv := \<lparr>tv_sec = 100, tv_usec = 350\<rparr>, ip_src := 0x0200000a, port_src := 6379,
       ip_dst := 0x0100000a, port_dst := 50000, is_tcp := 1, up_size := 61,
       payload_size := 7, wire_payload_size := 7, payload := str ''+PONG'' @ [13, 10]\<rparr>"

lemma demo_get:
  "hashtable_get demo_syn_tab k = (if k = endpoint_key 0x0200000a 6379 then Some demo_stats else None)"
  "hashtable_get demo_requests k = None"
  by (simp_all add: hashtable_get_def bucket_of_def demo_syn_tab_def demo_requests_def)

lemma demo_invar: "ht_invar demo_syn_tab" "ht_invar demo_requests"
  by (simp_all add: ht_invar_def demo_syn_tab_def demo_requests_def chains_hashed_def
      chains_distinct_def bucket_of_def)

lemma demo_capture_ok: "capture_ok demo_capture"
  using demo_invar
  by (auto simp: capture_ok_def table_ok_def demo_capture_def demo_get server_ok_def demo_stats_def
      stats_ok_def empty_stats_def MAX_PENDING_REQUESTS_def demo_logger_def)
     (simp_all add: demo_syn_tab_def demo_requests_def)

lemma demo_tracking: "tracking demo_capture" "outcomes (heap demo_capture) = []"
  "lua_state (sniffer demo_capture) = None"
  using demo_capture_ok by (simp_all add: tracking_def demo_capture_def)

lemma demo_packets_ok: "packet_ok demo_request_packet" "packet_ok demo_response_packet"
  by (simp_all add: packet_ok_def demo_request_packet_def demo_response_packet_def str_def zero_packet_def)

lemma demo_abs:
  "t_servers (abs_tracker demo_capture) e = (if e = (0x0200000a, 6379) then Some demo_stats else None)"
  "t_pending (abs_tracker demo_capture) = Map.empty"
  by (auto simp: abs_tracker_def demo_capture_def server_map_def pending_map_def demo_get prod_eq_iff)

lemma demo_fields:
  "ip_src demo_request_packet = 0x0100000a" "port_src demo_request_packet = 50000"
  "ip_dst demo_request_packet = 0x0200000a" "port_dst demo_request_packet = 6379"
  "payload_size demo_request_packet \<noteq> 0" "payload_size demo_response_packet \<noteq> 0"
  "up_size demo_request_packet = 60" "up_size demo_response_packet = 61"
  "threshold (sniffer demo_capture) = 0" "t_lines (abs_tracker demo_capture) = []"
  by (simp_all add: demo_request_packet_def demo_response_packet_def abs_tracker_def demo_capture_def
      demo_logger_def)

lemma demo_exchange:
  "answers demo_response_packet demo_request_packet"
  "tv_delta_us (tv demo_response_packet) (tv demo_request_packet) = 350"
  by (simp_all add: answers_def demo_request_packet_def demo_response_packet_def tv_delta_us_def
      to_int64_id)

section \<open>Properties\<close>

text \<open>
  C2. Refinement: on any sequence of well-formed packets, with memory available, the tracker with
  its hash tables, printed keys, lock and allocator has exactly the effect of the specification:
  the same statistics per endpoint, the same pending request per connection, the same expiry
  times and the same printed lines, in order.
\<close>

theorem tracker_refines_spec:
  assumes "tracking c" "outcomes (heap c) = []" "\<forall>p \<in> set ps. packet_ok p"
  shows "\<exists>c'. run_packets E ps c = Done c' \<and>
           abs_tracker c' = fold (spec_packet (config_of c) E) ps (abs_tracker c)"
  using run_refines [OF assms, of E] by blast

theorem tracker_refines_spec_witness:
  "\<exists>c'. run_packets demo_env [demo_request_packet, demo_response_packet] demo_capture = Done c' \<and>
     abs_tracker c' = fold (spec_packet (config_of demo_capture) demo_env)
       [demo_request_packet, demo_response_packet] (abs_tracker demo_capture)"
  using tracker_refines_spec [OF demo_tracking(1,2), of "[demo_request_packet, demo_response_packet]"]
    demo_packets_ok by simp





text \<open>
  C27. Lost requests go: when packets arrive in order of time, a tracker that started without
  pending requests holds, after every packet, only requests less than 61 seconds older than that
  packet (the timeout of 60 seconds plus the sweep interval of one).
\<close>

theorem pending_requests_fresh:
  assumes "tracking c" "outcomes (heap c) = []" "\<forall>p \<in> set (p0 # ps). packet_ok p \<and> tv_ok (tv p)"
    and "sorted_wrt (\<le>) (map (\<lambda>p. tv_us (tv p)) (p0 # ps))"
    and "expire_primed (sniffer c) = 0" "t_pending (abs_tracker c) = Map.empty"
    and "run_packets E (p0 # ps) c = Done c'" "t_pending (abs_tracker c') conn = Some req"
  shows "tv_us (tv (last (p0 # ps))) - tv_us (req_tv req) < 61000000"
proof -
  let ?f = "spec_packet (config_of c) E"
  have "abs_tracker c' = fold ?f ps (?f p0 (abs_tracker c))"
    using run_refines [OF assms(1,2), of "p0 # ps" E] assms(3,7) by auto
  moreover have "t_expire (abs_tracker c) = None" using assms(5) by (simp add: abs_tracker_def)
  then have "fresh (tv p0) (?f p0 (abs_tracker c))"
    using assms(3,6) by (intro fresh_packet) auto
  ultimately have "fresh (last (tv p0 # map tv ps)) (abs_tracker c')"
    using fresh_run [of "tv p0" "?f p0 (abs_tracker c)" ps "config_of c" E] assms(3,4) by auto
  moreover have "last (tv p0 # map tv ps) = tv (last (p0 # ps))"
    using last_map [of "p0 # ps" tv] by (simp del: last.simps)
  ultimately have "fresh (tv (last (p0 # ps))) (abs_tracker c')" by simp
  then obtain prev where "tv_us (tv (last (p0 # ps))) - tv_us prev < EXPIRE_INTERVAL_US"
    "tv_us prev - tv_us (req_tv req) \<le> REQUEST_TIMEOUT_US"
    using assms(8) unfolding fresh_def by blast
  then show ?thesis by (simp add: REQUEST_TIMEOUT_US_def EXPIRE_INTERVAL_US_def)
qed

theorem pending_requests_fresh_witness:
  "\<exists>c' req. run_packets demo_env [demo_request_packet] demo_capture = Done c' \<and>
     t_pending (abs_tracker c') ((0x0100000a, 50000), (0x0200000a, 6379)) = Some req \<and>
     tv_us (tv demo_request_packet) - tv_us (req_tv req) < 61000000"
proof -
  let ?p = demo_request_packet and ?conn = "((0x0100000a, 50000), (0x0200000a, 6379)) :: endpoint \<times> endpoint"
  from run_refines [OF demo_tracking(1,2), of "[?p]" demo_env] demo_packets_ok obtain c' where
    c': "run_packets demo_env [?p] demo_capture = Done c'"
    "abs_tracker c' = spec_packet (config_of demo_capture) demo_env ?p (abs_tracker demo_capture)" by auto
  have "t_pending (abs_tracker c') ?conn \<noteq> None"
    unfolding c'(2) spec_packet_def Let_def
    by (simp add: expire_keeps demo_abs spec_request_def spec_count_def Let_def spec_expire_def
        demo_request_packet_def zero_packet_def MAX_PENDING_REQUESTS_def split: option.split)
  then obtain req where req: "t_pending (abs_tracker c') ?conn = Some req" by auto
  have "tv_us (tv (last [?p])) - tv_us (req_tv req) < 61000000"
    by (rule pending_requests_fresh [OF demo_tracking(1,2) _ _ _ demo_abs(2) c'(1) req])
       (simp_all add: demo_packets_ok tv_ok_def, simp_all add: demo_request_packet_def demo_capture_def)
  with c'(1) req show ?thesis by auto
qed

text \<open>
  The printed packet line: appending piece by piece with \<open>append_fmt\<close>, each call seeing only
  the count so far, gives the first 511 bytes of all pieces joined, and the count is always the
  length of the text in the 512 byte buffer.
\<close>

theorem packet_line_reference:
  "append_all 512 (packet_texts E p) ([], 0) =
     (take 511 (concat (packet_texts E p)), int (min 511 (length (concat (packet_texts E p)))))"
  using append_all_line [of 512 "packet_texts E p" "[]"] by (simp add: line_state_def min.commute)

end
