(* ===== verification/Sniffer.thy ===== *)
theory Sniffer
  imports Options Tracker_Spec
begin

text \<open>
  The capture component: \<open>src/dumper.c\<close> and \<open>src/sniffer.c\<close>, from \<open>sniffer_create\<close> with its
  error paths to the handler libpcap calls for every frame. libpcap is a library the program
  calls: the functions used are the fields of \<open>pcap_api\<close>, arguments of the model over arbitrary
  types of handles, compiled filters and dump files. \<open>resources\<close> is what the process holds:
  the allocator, and how many capture handles, compiled filters, dump files, interpreter states,
  mutexes, streams, lists of devices and threads are open. A stream that a capture handle took over
  is counted with the handle, which \<open>pcap_close\<close> closes together with it. The theorems show that
  a failed creation gives everything back but the interpreter state \<open>lua_state_create\<close> loses, and
  that no frame, however malformed, is read out of bounds.
\<close>

unbundle bit_operations_syntax

section \<open>The capture library\<close>

record pkthdr =
  ph_ts :: timeval
  ph_caplen :: u32
  ph_len :: u32

record ('p, 'b, 'd) pcap_api =
  pcap_findalldevs :: "cstring + (cstring \<times> bool) list"
  pcap_create :: "cstring \<Rightarrow> cstring + 'p"
  pcap_set_snaplen :: "int \<Rightarrow> 'p \<Rightarrow> int \<times> 'p"
  pcap_set_timeout :: "int \<Rightarrow> 'p \<Rightarrow> int \<times> 'p"
  pcap_set_buffer_size :: "int \<Rightarrow> 'p \<Rightarrow> int \<times> 'p"
  pcap_set_tstamp_type :: "int \<Rightarrow> 'p \<Rightarrow> int \<times> 'p"
  pcap_activate :: "'p \<Rightarrow> int \<times> 'p"
  pcap_statustostr :: "int \<Rightarrow> cstring"
  pcap_geterr :: "'p \<Rightarrow> cstring"
  fopen_error :: "cstring \<Rightarrow> cstring option"
  pcap_fopen_offline :: "cstring \<Rightarrow> cstring + 'p"
  pcap_compile :: "cstring \<Rightarrow> 'p \<Rightarrow> 'b option \<times> 'p"
  pcap_setfilter :: "'b \<Rightarrow> 'p \<Rightarrow> int \<times> 'p"
  pcap_datalink :: "'p \<Rightarrow> int"
  pcap_dump_open :: "'p \<Rightarrow> cstring \<Rightarrow> 'd option"
  pcap_dump :: "pkthdr \<Rightarrow> byte list \<Rightarrow> 'd \<Rightarrow> 'd"
  pthread_mutex_init :: int

record resources =
  r_mem :: mem
  r_pcap :: int
  r_code :: int
  r_dump :: int
  r_lua :: int
  r_mutex :: int
  r_file :: int
  r_devs :: int
  r_thread :: int

definition err_text :: "byte list \<Rightarrow> cstring" where
  "err_text txt = snprintf MAX_ERR_BUFF_SIZE txt"

section \<open>Dumper\<close>

definition dumper_create ::
    "('p, 'b, 'd) pcap_api \<Rightarrow> 'p \<Rightarrow> cstring \<Rightarrow> resources \<Rightarrow> (cstring + 'd) \<times> resources" where
  "dumper_create A handle path r =
     (case malloc (r_mem r) of
        (False, m) \<Rightarrow> (Inl (err_text (str ''out of memory'')), r\<lparr>r_mem := m\<rparr>)
      | (True, m) \<Rightarrow>
          (case pcap_dump_open A handle path of
             None \<Rightarrow> (Inl (err_text (pcap_geterr A handle)), r\<lparr>r_mem := mfree m\<rparr>)
           | Some f \<Rightarrow> (Inr f, r\<lparr>r_mem := m, r_dump := r_dump r + 1\<rparr>)))"

definition dumper_write :: "('p, 'b, 'd) pcap_api \<Rightarrow> pkthdr \<Rightarrow> byte list \<Rightarrow> 'd \<Rightarrow> 'd" where
  "dumper_write A header packet d = pcap_dump A header packet d"

definition dumper_destroy :: "'d option \<Rightarrow> resources \<Rightarrow> resources" where
  "dumper_destroy d r =
     (case d of None \<Rightarrow> r | Some f \<Rightarrow> r\<lparr>r_dump := r_dump r - 1, r_mem := mfree (r_mem r)\<rparr>)"

section \<open>Opening a capture\<close>

text \<open>The first device that is no loopback, else the first of the list.\<close>

definition pcap_freealldevs :: "resources \<Rightarrow> resources" where
  "pcap_freealldevs r = r\<lparr>r_devs := r_devs r - 1\<rparr>"

definition first_capture_device ::
    "('p, 'b, 'd) pcap_api \<Rightarrow> resources \<Rightarrow> (cstring + cstring) \<times> resources" where
  "first_capture_device A r =
     (case pcap_findalldevs A of
        Inl e \<Rightarrow> (Inl e, r)
      | Inr devices \<Rightarrow>
          (let r = r\<lparr>r_devs := r_devs r + 1\<rparr>;
               (name, m) =
             (case find (\<lambda>(n, loopback). \<not> loopback) devices of
                Some (n, l) \<Rightarrow> strdup n (r_mem r)
              | None \<Rightarrow> (None, r_mem r));
               (name, m) =
             (if name = None \<and> devices \<noteq> [] then strdup (fst (hd devices)) m else (name, m));
               r = pcap_freealldevs (r\<lparr>r_mem := m\<rparr>)
           in case name of
                None \<Rightarrow> (Inl (err_text (str ''no capture device available'')), r)
              | Some n \<Rightarrow> (Inr n, r)))"

definition sniffer_compile ::
    "('p, 'b, 'd) pcap_api \<Rightarrow> 'p \<Rightarrow> cstring \<Rightarrow> resources \<Rightarrow> (cstring + 'b \<times> 'p) \<times> resources" where
  "sniffer_compile A handle flt r =
     (case malloc (r_mem r) of
        (False, m) \<Rightarrow> (Inl (err_text (str ''out of memory'')), r\<lparr>r_mem := m\<rparr>)
      | (True, m) \<Rightarrow>
          (case pcap_compile A flt handle of
             (None, handle) \<Rightarrow> (Inl (err_text (pcap_geterr A handle)), r\<lparr>r_mem := mfree m\<rparr>)
           | (Some code, handle) \<Rightarrow>
               (let r = r\<lparr>r_mem := m, r_code := r_code r + 1\<rparr>;
                    (rc, handle) = pcap_setfilter A code handle
                in if rc \<noteq> 0 then
                     (Inl (err_text (pcap_geterr A handle)),
                      r\<lparr>r_code := r_code r - 1, r_mem := mfree (r_mem r)\<rparr>)
                   else (Inr (code, handle), r))))"

text \<open>\<open>pcap_fopen_offline\<close> takes the stream over with the handle; its failure leaves it to be closed here.\<close>

definition fclose :: "resources \<Rightarrow> resources" where
  "fclose r = r\<lparr>r_file := r_file r - 1\<rparr>"

definition sniffer_offline ::
    "('p, 'b, 'd) pcap_api \<Rightarrow> cstring \<Rightarrow> resources \<Rightarrow> (cstring + 'p) \<times> resources" where
  "sniffer_offline A file r =
     (case fopen_error A file of
        Some e \<Rightarrow> (Inl (err_text (file @ str '': '' @ e)), r)
      | None \<Rightarrow>
          (let r = r\<lparr>r_file := r_file r + 1\<rparr> in
           case pcap_fopen_offline A file of
             Inl e \<Rightarrow> (Inl e, fclose r)
           | Inr handle \<Rightarrow> (Inr handle, r\<lparr>r_file := r_file r - 1, r_pcap := r_pcap r + 1\<rparr>)))"

definition PCAP_TSTAMP_ADAPTER :: int where
  "PCAP_TSTAMP_ADAPTER = 3"

text \<open>The settings in the order of the calls, each stopping at the first negative status.\<close>

fun set_all :: "('p \<Rightarrow> int \<times> 'p) list \<Rightarrow> 'p \<Rightarrow> int \<times> 'p" where
  "set_all [] handle = (0, handle)"
| "set_all (f # fs) handle =
     (let (status, handle) = f handle in
      if status < 0 then (status, handle) else set_all fs handle)"

definition PCAP_ERRBUF_SIZE :: nat where
  "PCAP_ERRBUF_SIZE = 256"

definition sniffer_online ::
    "('p, 'b, 'd) pcap_api \<Rightarrow> cstring \<Rightarrow> int \<Rightarrow> int \<Rightarrow> resources \<Rightarrow> (cstring + 'p) \<times> resources" where
  "sniffer_online A device snaplen buf_size r =
     (case pcap_create A device of
        Inl e \<Rightarrow> (Inl e, r)
      | Inr handle \<Rightarrow>
          (let r = r\<lparr>r_pcap := r_pcap r + 1\<rparr>;
               (status, handle) =
                 set_all [pcap_set_snaplen A snaplen, pcap_set_timeout A 1,
                          pcap_set_buffer_size A buf_size,
                          pcap_set_tstamp_type A PCAP_TSTAMP_ADAPTER, pcap_activate A] handle
           in if status < 0 then
                (Inl (snprintf PCAP_ERRBUF_SIZE (device @ str '': '' @ pcap_statustostr A status)),
                 r\<lparr>r_pcap := r_pcap r - 1\<rparr>)
              else (Inr handle, r)))"

section \<open>Creation and destruction\<close>

text \<open>A zeroed \<open>struct sniffer\<close> with the options copied in.\<close>

definition zero_sniffer :: "options \<Rightarrow> ('p, 'l, 'b, 'd) sniffer" where
  "zero_sniffer opts =
     \<lparr>pcap = None, dev = None, filter_expr = None, protocol = o_protocol opts,
      threshold = o_threshold opts, ascii = o_ascii opts, stats_lock = False, lock_ready = 0,
      syn_tab = None, requests = None, last_expire = \<lparr>tv_sec = 0, tv_usec = 0\<rparr>,
      expire_primed = 0, lua_state = None, bpf = None, dumper = None\<rparr>"

definition sniffer_destroy :: "('p, 'l, 'b, 'd) sniffer option \<Rightarrow> resources \<Rightarrow> resources" where
  "sniffer_destroy sn r =
     (case sn of
        None \<Rightarrow> r
      | Some s \<Rightarrow>
          (let r = (if lock_ready s \<noteq> 0 then r\<lparr>r_mutex := r_mutex r - 1\<rparr> else r);
               r = (if pcap s \<noteq> None then r\<lparr>r_pcap := r_pcap r - 1\<rparr> else r);
               m = free_str (filter_expr s) (free_str (dev s) (r_mem r));
               m = hashtable_destroy (requests s) (hashtable_destroy (syn_tab s) m);
               r = r\<lparr>r_mem := m\<rparr>;
               r = (if bpf s \<noteq> None then r\<lparr>r_code := r_code r - 1, r_mem := mfree (r_mem r)\<rparr> else r);
               r = (if lua_state s \<noteq> None then r\<lparr>r_lua := r_lua r - 1\<rparr> else r);
               r = dumper_destroy (dumper s) r
           in r\<lparr>r_mem := mfree (r_mem r)\<rparr>))"

text \<open>The allocations of \<open>sniffer_create\<close> behind the struct; \<open>strdup(NULL)\<close> is undefined.\<close>

definition sniffer_alloc ::
    "options \<Rightarrow> resources \<Rightarrow> (('p, 'l, 'b, 'd) sniffer \<times> resources) outcome" where
  "sniffer_alloc opts r =
     (case (o_dev opts, o_filter opts) of
        (Some d, Some f) \<Rightarrow>
          (let (d', m) = strdup d (r_mem r);
               (f', m) = strdup f m;
               (syn, m) = hashtable_create 16 m;
               (reqs, m) = hashtable_create 102400 m
           in Done ((zero_sniffer opts)\<lparr>dev := d', filter_expr := f', syn_tab := syn, requests := reqs\<rparr>,
                    r\<lparr>r_mem := m\<rparr>))
      | _ \<Rightarrow> Undefined)"

text \<open>
  The capture handle: the file, or the device, or where the device is \<open>any\<close> and cannot be
  opened the first capture device, whose name then replaces the device's in both structs.
\<close>

definition sniffer_open ::
    "('p, 'b, 'd) pcap_api \<Rightarrow> options \<Rightarrow> ('p, 'l, 'b, 'd) sniffer \<Rightarrow> resources \<Rightarrow>
     (cstring + 'p) \<times> options \<times> ('p, 'l, 'b, 'd) sniffer \<times> resources" where
  "sniffer_open A opts s r =
     (case o_offline_file opts of
        Some file \<Rightarrow> (let (h, r) = sniffer_offline A file r in (h, opts, s, r))
      | None \<Rightarrow>
          (let d = the (o_dev opts) in
           case sniffer_online A d (o_snaplen opts) (o_buf_size opts) r of
             (Inr h, r) \<Rightarrow> (Inr h, opts, s, r)
           | (Inl e, r) \<Rightarrow>
               if strcmp d (str ''any'') \<noteq> 0 then (Inl e, opts, s, r)
               else
                 (case first_capture_device A r of
                    (Inl e, r) \<Rightarrow> (Inl e, opts, s, r)
                  | (Inr name, r) \<Rightarrow>
                      (let (h, r) = sniffer_online A name (o_snaplen opts) (o_buf_size opts) r;
                           m = free_str (dev s) (free_str (o_dev opts) (r_mem r));
                           (d', m) = strdup name m
                       in (h, opts\<lparr>o_dev := Some name\<rparr>, s\<lparr>dev := d'\<rparr>, r\<lparr>r_mem := m\<rparr>)))))"

text \<open>Filter, dump file and script, each step ending with the error text if it fails.\<close>

definition sniffer_filter ::
    "('p, 'b, 'd) pcap_api \<Rightarrow> 'p \<Rightarrow> ('p, 'l, 'b, 'd) sniffer \<Rightarrow> resources \<Rightarrow>
     cstring option \<times> 'p \<times> ('p, 'l, 'b, 'd) sniffer \<times> resources" where
  "sniffer_filter A h s r =
     (case filter_expr s of
        Some (c # f) \<Rightarrow>
          (case sniffer_compile A h (c # f) r of
             (Inl e, r) \<Rightarrow> (Some e, h, s, r)
           | (Inr (code, h), r) \<Rightarrow> (None, h, s\<lparr>pcap := Some h, bpf := Some code\<rparr>, r))
      | _ \<Rightarrow> (None, h, s, r))"

definition sniffer_dump ::
    "('p, 'b, 'd) pcap_api \<Rightarrow> 'p \<Rightarrow> options \<Rightarrow> ('p, 'l, 'b, 'd) sniffer \<Rightarrow> resources \<Rightarrow>
     cstring option \<times> ('p, 'l, 'b, 'd) sniffer \<times> resources" where
  "sniffer_dump A h opts s r =
     (case o_save_file opts of
        None \<Rightarrow> (None, s, r)
      | Some path \<Rightarrow>
          (case dumper_create A h path r of
             (Inl e, r) \<Rightarrow> (Some e, s, r)
           | (Inr d, r) \<Rightarrow> (None, s\<lparr>dumper := Some d\<rparr>, r)))"

text \<open>A state that \<open>lua_state_create\<close> made and does not return stays open.\<close>

definition sniffer_script ::
    "'l lua_api \<Rightarrow> options \<Rightarrow> ('p, 'l, 'b, 'd) sniffer \<Rightarrow> resources \<Rightarrow>
     (cstring option \<times> ('p, 'l, 'b, 'd) sniffer \<times> resources) outcome" where
  "sniffer_script L opts s r =
     (case o_script opts of
        None \<Rightarrow> Done (None, s\<lparr>lua_state := None\<rparr>, r)
      | Some file \<Rightarrow>
          and_then (lua_state_create L file) (\<lambda>x.
            let r = r\<lparr>r_lua := r_lua r + 1\<rparr> in
            case x of
              Inl e \<Rightarrow> Done (Some e, s, r)
            | Inr l \<Rightarrow> Done (None, s\<lparr>lua_state := Some l\<rparr>, r)))"

text \<open>The steps behind the lock: the handle, the filter, the dump file and the script.\<close>

definition sniffer_finish ::
    "('p, 'b, 'd) pcap_api \<Rightarrow> 'l lua_api \<Rightarrow> options \<Rightarrow> ('p, 'l, 'b, 'd) sniffer \<Rightarrow> resources \<Rightarrow>
     ((cstring + ('p, 'l, 'b, 'd) sniffer) \<times> options \<times> resources) outcome" where
  "sniffer_finish A L opts s r =
     (case sniffer_open A opts s r of
        (Inl e, opts, s, r) \<Rightarrow> Done (Inl e, opts, sniffer_destroy (Some s) r)
      | (Inr h, opts, s, r) \<Rightarrow>
          (case sniffer_filter A h (s\<lparr>pcap := Some h\<rparr>) r of
             (Some e, h, s, r) \<Rightarrow> Done (Inl e, opts, sniffer_destroy (Some s) r)
           | (None, h, s, r) \<Rightarrow>
               (case sniffer_dump A h opts s r of
                  (Some e, s, r) \<Rightarrow> Done (Inl e, opts, sniffer_destroy (Some s) r)
                | (None, s, r) \<Rightarrow>
                    and_then (sniffer_script L opts s r) (\<lambda>x.
                      case x of
                        (Some e, s, r) \<Rightarrow> Done (Inl e, opts, sniffer_destroy (Some s) r)
                      | (None, s, r) \<Rightarrow> Done (Inr s, opts, r)))))"

definition sniffer_create ::
    "('p, 'b, 'd) pcap_api \<Rightarrow> 'l lua_api \<Rightarrow> options \<Rightarrow> resources \<Rightarrow>
     ((cstring + ('p, 'l, 'b, 'd) sniffer) \<times> options \<times> resources) outcome" where
  "sniffer_create A L opts r =
     (case malloc (r_mem r) of
        (False, m) \<Rightarrow> Done (Inl (err_text (str ''out of memory'')), opts, r\<lparr>r_mem := m\<rparr>)
      | (True, m) \<Rightarrow>
          and_then (sniffer_alloc opts (r\<lparr>r_mem := m\<rparr>)) (\<lambda>(s, r).
            case (dev s, filter_expr s, syn_tab s, requests s) of
              (Some d, Some f, Some syn, Some reqs) \<Rightarrow>
                if pthread_mutex_init A \<noteq> 0 then
                  Done (Inl (err_text (str ''failed to init the stats lock'')), opts,
                        sniffer_destroy (Some s) r)
                else
                  sniffer_finish A L opts
                    (s\<lparr>lock_ready := 1, syn_tab := Some (syn\<lparr>free_fn := Some free_stats\<rparr>),
                       requests := Some (reqs\<lparr>free_fn := Some free_request\<rparr>)\<rparr>)
                    (r\<lparr>r_mutex := r_mutex r + 1\<rparr>)
            | _ \<Rightarrow> Done (Inl (err_text (str ''out of memory'')), opts, sniffer_destroy (Some s) r)))"

section \<open>Frames\<close>

text \<open>The size of the link layer header by link type: \<open>DLT_NULL\<close>, Ethernet, \<open>DLT_RAW\<close>, Linux cooked.\<close>

definition linkhdr_size :: "int \<Rightarrow> int option" where
  "linkhdr_size dlt =
     (if dlt = 0 then Some 4 else if dlt = 113 then Some 16 else if dlt = 1 then Some 14
      else if dlt = 12 then Some 0 else None)"

definition IPPROTO_TCP :: byte where "IPPROTO_TCP = 6"
definition IPPROTO_UDP :: byte where "IPPROTO_UDP = 17"

text \<open>The difference of two \<open>int\<close>, \<open>None\<close> where it overflows.\<close>

definition int_minus :: "int \<Rightarrow> int \<Rightarrow> int option" where
  "int_minus a b = (if - (2 ^ 31) \<le> a - b \<and> a - b < 2 ^ 31 then Some (a - b) else None)"

definition packet_handler ::
    "('p, 'b, 'd) pcap_api \<Rightarrow> 'l env \<Rightarrow> pkthdr \<Rightarrow> byte list \<Rightarrow> ('p, 'l, 'b, 'd) capture \<Rightarrow>
     ('p, 'l, 'b, 'd) capture outcome" where
  "packet_handler A E header packet c =
     (let c = (case dumper (sniffer c) of
                 None \<Rightarrow> c
               | Some d \<Rightarrow> c\<lparr>sniffer := (sniffer c)\<lparr>dumper := Some (dumper_write A header packet d)\<rparr>\<rparr>)
      in case pcap (sniffer c) of
           None \<Rightarrow> Undefined
         | Some h \<Rightarrow>
             (case linkhdr_size (pcap_datalink A h) of
                None \<Rightarrow> Done c
              | Some lsize \<Rightarrow>
                  (case (int_minus (sint (ph_caplen header)) lsize, int_minus (sint (ph_len header)) lsize) of
                     (Some caplen, Some wirelen) \<Rightarrow>
                       (let ip = drop (nat lsize) packet
                        in if caplen < 20 then Done c
                           else
                             case get8 ip 0 of
                               None \<Rightarrow> Undefined
                             | Some vhl \<Rightarrow>
                                 if IP_V vhl \<noteq> 4 then Done c
                                 else
                                   case get8 ip 9 of
                                     None \<Rightarrow> Undefined
                                   | Some proto \<Rightarrow>
                                       (let upacket = zero_packet\<lparr>up_size := ph_len header\<rparr>;
                                            parsed =
                                              (if proto = IPPROTO_TCP then
                                                 Some (process_tcp_packet (ph_ts header) ip caplen wirelen upacket)
                                               else if proto = IPPROTO_UDP then
                                                 Some (process_udp_packet (ph_ts header) ip caplen wirelen upacket)
                                               else None)
                                        in case parsed of
                                             None \<Rightarrow> Done c
                                           | Some None \<Rightarrow> Undefined
                                           | Some (Some (rc, upacket)) \<Rightarrow>
                                               if rc = 0 then process_user_packet E upacket c else Done c))
                   | _ \<Rightarrow> Undefined)))"

text \<open>\<open>pcap_loop\<close> calls the handler for each frame it delivers and returns \<open>rc\<close>.\<close>

fun pcap_loop ::
    "('p, 'b, 'd) pcap_api \<Rightarrow> 'l env \<Rightarrow> (pkthdr \<times> byte list) list \<Rightarrow> int \<Rightarrow>
     ('p, 'l, 'b, 'd) capture \<Rightarrow> (int \<times> ('p, 'l, 'b, 'd) capture) outcome" where
  "pcap_loop A E [] rc c = Done (rc, c)"
| "pcap_loop A E ((header, packet) # frames) rc c =
     and_then (packet_handler A E header packet c) (pcap_loop A E frames rc)"

definition sniffer_run ::
    "('p, 'b, 'd) pcap_api \<Rightarrow> 'l env \<Rightarrow> (pkthdr \<times> byte list) list \<Rightarrow> int \<Rightarrow>
     ('p, 'l, 'b, 'd) capture \<Rightarrow> (int \<times> ('p, 'l, 'b, 'd) capture) outcome" where
  "sniffer_run A E frames rc c = pcap_loop A E frames rc c"

section \<open>Ownership\<close>

definition req_weight :: "request \<Rightarrow> int" where
  "req_weight req = (if req_payload req = None then 1 else 2)"

definition tab_blocks :: "('v \<Rightarrow> int) \<Rightarrow> 'v hashtable option \<Rightarrow> int" where
  "tab_blocks w t = (case t of None \<Rightarrow> 0 | Some ht \<Rightarrow> ht_blocks w ht)"

definition sniffer_blocks :: "('p, 'l, 'b, 'd) sniffer \<Rightarrow> int" where
  "sniffer_blocks s =
     1 + str_blocks (dev s) + str_blocks (filter_expr s) + tab_blocks (\<lambda>v. 1) (syn_tab s) +
     tab_blocks req_weight (requests s) + (if bpf s = None then 0 else 1) +
     (if dumper s = None then 0 else 1)"

text \<open>The counts of what is open, and what of it remains when the sniffer's and the options' share is taken off.\<close>

definition levels :: "resources \<Rightarrow> int list" where
  "levels r = [live (r_mem r), r_pcap r, r_code r, r_dump r, r_lua r, r_mutex r, r_file r, r_devs r, r_thread r]"

definition rest_levels :: "('p, 'l, 'b, 'd) sniffer \<Rightarrow> resources \<Rightarrow> int list" where
  "rest_levels s r =
     [live (r_mem r) - sniffer_blocks s, r_pcap r - (if pcap s = None then 0 else 1),
      r_code r - (if bpf s = None then 0 else 1), r_dump r - (if dumper s = None then 0 else 1),
      r_lua r - (if lua_state s = None then 0 else 1), r_mutex r - (if lock_ready s = 0 then 0 else 1),
      r_file r, r_devs r, r_thread r]"

text \<open>Tables are owned by their callback, or still empty.\<close>

definition tables_owned :: "('p, 'l, 'b, 'd) sniffer \<Rightarrow> bool" where
  "tables_owned s \<longleftrightarrow>
     (\<forall>ht. syn_tab s = Some ht \<longrightarrow> free_fn ht = Some free_stats \<or> concat (buckets ht) = []) \<and>
     (\<forall>ht. requests s = Some ht \<longrightarrow> free_fn ht = Some free_request \<or> concat (buckets ht) = [])"

lemma frees_tables:
  "free_fn ht = Some free_stats \<Longrightarrow> frees (\<lambda>v. 1) ht"
  "free_fn ht' = Some free_request \<Longrightarrow> frees req_weight ht'"
  by (simp_all add: frees_def free_value_def free_stats_def free_request_def req_weight_def Let_def)

lemma table_destroy_live:
  assumes "\<forall>ht. t = Some ht \<longrightarrow> frees w ht \<or> concat (buckets ht) = []"
  shows "live (hashtable_destroy t m) = live m - tab_blocks w t"
proof (cases t)
  case (Some ht)
  show ?thesis
  proof (cases "frees w ht")
    case True
    with Some show ?thesis by (simp add: hashtable_destroy_live tab_blocks_def)
  next
    case False
    with assms Some have "concat (buckets ht) = []" by blast
    with Some show ?thesis
      by (simp only: hashtable_destroy_def free_buckets_fold tab_blocks_def ht_blocks_def
          option.case) simp
  qed
qed (simp add: hashtable_destroy_def tab_blocks_def)

lemma destroy_levels:
  assumes "tables_owned s"
  shows "levels (sniffer_destroy (Some s) r) = rest_levels s r"
proof -
  have "live (hashtable_destroy (syn_tab s) m) = live m - tab_blocks (\<lambda>v. 1) (syn_tab s)" for m
    using assms by (intro table_destroy_live) (auto simp: tables_owned_def frees_tables)
  moreover have "live (hashtable_destroy (requests s) m) = live m - tab_blocks req_weight (requests s)"
    for m
    using assms by (intro table_destroy_live) (auto simp: tables_owned_def frees_tables)
  ultimately show ?thesis
    by (cases "pcap s"; cases "bpf s"; cases "lua_state s"; cases "dumper s")
       (simp_all add: sniffer_destroy_def levels_def rest_levels_def sniffer_blocks_def Let_def
         free_str_live dumper_destroy_def)
qed

text \<open>Each step of the creation keeps what remains, also taking the options' share off.\<close>

definition kept_levels :: "options \<Rightarrow> int list \<Rightarrow> int list" where
  "kept_levels opts xs = (hd xs - opt_blocks opts) # tl xs"

lemma offline_levels:
  "sniffer_offline A f r = (x, r') \<Longrightarrow>
   r' = r\<lparr>r_pcap := r_pcap r + (case x of Inl e \<Rightarrow> 0 | Inr h \<Rightarrow> 1)\<rparr>"
  by (auto simp: sniffer_offline_def fclose_def Let_def split: option.splits sum.splits)

lemma online_levels:
  "sniffer_online A d n k r = (x, r') \<Longrightarrow>
   r' = r\<lparr>r_pcap := r_pcap r + (case x of Inl e \<Rightarrow> 0 | Inr h \<Rightarrow> 1)\<rparr>"
  by (auto simp: sniffer_online_def Let_def split: sum.splits prod.splits if_splits)

lemma device_levels:
  assumes "first_capture_device A r = (x, r')"
  shows "\<exists>m. r' = r\<lparr>r_mem := m\<rparr> \<and> live m = live (r_mem r) + (case x of Inl e \<Rightarrow> 0 | Inr n \<Rightarrow> 1)"
proof (cases "pcap_findalldevs A")
  case (Inl e)
  with assms show ?thesis by (auto simp: first_capture_device_def intro: exI [of _ "r_mem r"])
next
  case (Inr devices)
  let ?r = "r\<lparr>r_devs := r_devs r + 1\<rparr>"
  define p where "p = (case find (\<lambda>(n, loopback). \<not> loopback) devices of
      Some (n, l) \<Rightarrow> strdup n (r_mem ?r) | None \<Rightarrow> (None, r_mem ?r))"
  obtain n1 m1 where p: "p = (n1, m1)" by (cases p)
  have live1: "live m1 = live (r_mem r) + str_blocks n1"
    using p by (auto simp: p_def str_blocks_def split: option.splits prod.splits dest!: strdup_live)
  define q where "q = (if n1 = None \<and> devices \<noteq> [] then strdup (fst (hd devices)) m1 else (n1, m1))"
  obtain n2 m2 where q: "q = (n2, m2)" by (cases q)
  have "live m2 = live (r_mem r) + str_blocks n2"
    using q live1 by (auto simp: q_def str_blocks_def split: if_splits dest!: strdup_live)
  moreover have "(x, r') = (case n2 of
      None \<Rightarrow> (Inl (err_text (str ''no capture device available'')), pcap_freealldevs (?r\<lparr>r_mem := m2\<rparr>))
    | Some n \<Rightarrow> (Inr n, pcap_freealldevs (?r\<lparr>r_mem := m2\<rparr>)))"
    unfolding assms [symmetric] first_capture_device_def Inr sum.case Let_def p_def [symmetric] p prod.case q_def [symmetric] q ..
  moreover have "pcap_freealldevs (?r\<lparr>r_mem := m2\<rparr>) = r\<lparr>r_mem := m2\<rparr>" by (simp add: pcap_freealldevs_def)
  ultimately show ?thesis by (auto simp: str_blocks_def split: option.splits)
qed

text \<open>The options keep their device, so that the name can be compared and replaced.\<close>

lemma open_levels:
  assumes "sniffer_open A opts s r = (x, opts', s', r')" "o_dev opts = Some d" "pcap s = None"
  shows "kept_levels opts' (rest_levels (s'\<lparr>pcap := (case x of Inl e \<Rightarrow> None | Inr h \<Rightarrow> Some h)\<rparr>) r') =
           kept_levels opts (rest_levels s r) \<and>
         (\<exists>d'. s' = s\<lparr>dev := d'\<rparr>) \<and> (\<exists>e. opts' = opts\<lparr>o_dev := Some e\<rparr>)"
proof -
  have same: "kept_levels opts (rest_levels (s\<lparr>pcap := (case y of Inl e \<Rightarrow> None | Inr h \<Rightarrow> Some h)\<rparr>)
       (r\<lparr>r_pcap := r_pcap r + (case y of Inl e \<Rightarrow> 0 | Inr h \<Rightarrow> 1)\<rparr>)) = kept_levels opts (rest_levels s r)"
    for y :: "cstring + 'a"
    using assms(3)
    by (cases y) (simp_all add: rest_levels_def kept_levels_def sniffer_blocks_def)
  have keep: "\<exists>d'. s = s\<lparr>dev := d'\<rparr>" "\<exists>e. opts = opts\<lparr>o_dev := Some e\<rparr>"
    using assms(2) by (intro exI [of _ "dev s"] exI [of _ d]; simp)+
  show ?thesis
  proof (cases "o_offline_file opts")
    case (Some path)
    obtain y r1 where off: "sniffer_offline A path r = (y, r1)" by (cases "sniffer_offline A path r")
    with assms(1) Some have "x = y" "opts' = opts" "s' = s" "r' = r1" by (simp_all add: sniffer_open_def)
    with offline_levels [OF off] same [of y] keep show ?thesis by simp
  next
    case nofile: None
    obtain y r1 where on: "sniffer_online A d (o_snaplen opts) (o_buf_size opts) r = (y, r1)"
      by (cases "sniffer_online A d (o_snaplen opts) (o_buf_size opts) r")
    note r1 = online_levels [OF on]
    show ?thesis
    proof (cases "(\<exists>h. y = Inr h) \<or> strcmp d (str ''any'') \<noteq> 0")
      case True
      with assms(1,2) nofile on have "x = y" "opts' = opts" "s' = s" "r' = r1"
        by (auto simp: sniffer_open_def Let_def split: sum.splits)
      with r1 same [of y] keep show ?thesis by simp
    next
      case False
      then obtain e where y: "y = Inl e" and any: "strcmp d (str ''any'') = 0" by (cases y) auto
      obtain z r2 where dv: "first_capture_device A r1 = (z, r2)" by (cases "first_capture_device A r1")
      from device_levels [OF dv] obtain m where
        r2: "r2 = r1\<lparr>r_mem := m\<rparr>" "live m = live (r_mem r1) + (case z of Inl e \<Rightarrow> 0 | Inr n \<Rightarrow> 1)" by blast
      show ?thesis
      proof (cases z)
        case (Inl e')
        with assms(1,2) nofile on y any dv have "x = Inl e'" "opts' = opts" "s' = s" "r' = r2"
          by (simp_all add: sniffer_open_def Let_def)
        with r1 r2 y Inl keep assms(3) show ?thesis
          by (simp add: rest_levels_def kept_levels_def sniffer_blocks_def)
      next
        case (Inr name)
        obtain h r3 where on2: "sniffer_online A name (o_snaplen opts) (o_buf_size opts) r2 = (h, r3)"
          by (cases "sniffer_online A name (o_snaplen opts) (o_buf_size opts) r2")
        let ?m = "free_str (dev s) (free_str (o_dev opts) (r_mem r3))"
        obtain d' m4 where dup: "strdup name ?m = (d', m4)" by (cases "strdup name ?m")
        from assms(1,2) nofile on y any dv Inr on2 dup have
          "x = h" "opts' = opts\<lparr>o_dev := Some name\<rparr>" "s' = s\<lparr>dev := d'\<rparr>" "r' = r3\<lparr>r_mem := m4\<rparr>"
          by (simp_all add: sniffer_open_def Let_def)
        moreover have "live m4 = live (r_mem r) + 1 - str_blocks (dev s) - str_blocks (o_dev opts) + str_blocks d'"
          using strdup_live [OF dup] online_levels [OF on2] r2 Inr r1 by (simp add: free_str_live)
        ultimately show ?thesis
          using online_levels [OF on2] r1 r2 y assms(2,3)
          by (cases h) (auto simp: rest_levels_def kept_levels_def sniffer_blocks_def opt_blocks_def str_blocks_def)
      qed
    qed
  qed
qed

lemma filter_levels:
  assumes "sniffer_filter A h s r = (x, h', s', r')" "bpf s = None" "pcap s = Some h0"
  shows "rest_levels s' r' = rest_levels s r \<and> (\<exists>b. s' = s\<lparr>pcap := pcap s', bpf := b\<rparr>) \<and>
         (\<exists>h1. pcap s' = Some h1)"
proof (cases "filter_expr s = None \<or> filter_expr s = Some []")
  case True
  with assms have "s' = s" "r' = r" by (auto simp: sniffer_filter_def)
  with assms(2,3) show ?thesis by (auto intro!: exI [of _ "bpf s"])
next
  case False
  then obtain c f where f: "filter_expr s = Some (c # f)" by (cases "filter_expr s"; cases "the (filter_expr s)") auto
  obtain ok m where m: "malloc (r_mem r) = (ok, m)" by (cases "malloc (r_mem r)")
  obtain code h1 where code: "pcap_compile A (c # f) h = (code, h1)" by (cases "pcap_compile A (c # f) h")
  obtain rc h2 where rc: "pcap_setfilter A (the code) h1 = (rc, h2)"
    by (cases "pcap_setfilter A (the code) h1")
  note live = malloc_live [of "r_mem r" m]
  show ?thesis
  proof (cases "ok \<and> code \<noteq> None \<and> rc = 0")
    case True
    with assms f m code rc have "s' = s\<lparr>pcap := Some h2, bpf := code\<rparr>"
      "r' = r\<lparr>r_mem := m, r_code := r_code r + 1\<rparr>"
      by (auto simp: sniffer_filter_def sniffer_compile_def Let_def)
    with assms(2,3) True m live show ?thesis
      by (intro conjI exI [of _ code] exI [of _ h2]) (simp_all add: rest_levels_def sniffer_blocks_def)
  next
    case False
    with assms f m code rc live have "s' = s" "levels r' = levels r"
      by (auto simp: sniffer_filter_def sniffer_compile_def Let_def levels_def
          split: option.splits bool.splits)
    with assms(2,3) show ?thesis
      by (auto simp: rest_levels_def levels_def intro!: exI [of _ "bpf s"])
  qed
qed

lemma dump_levels:
  assumes "sniffer_dump A h opts s r = (x, s', r')" "dumper s = None"
  shows "rest_levels s' r' = rest_levels s r \<and> (\<exists>d. s' = s\<lparr>dumper := d\<rparr>)"
proof (cases "o_save_file opts")
  case None
  with assms show ?thesis by (auto simp: sniffer_dump_def intro!: exI [of _ "dumper s"])
next
  case (Some path)
  obtain ok m where m: "malloc (r_mem r) = (ok, m)" by (cases "malloc (r_mem r)")
  show ?thesis
  proof (cases "ok \<and> pcap_dump_open A h path \<noteq> None")
    case True
    then obtain f where f: "pcap_dump_open A h path = Some f" by auto
    with True assms Some m have "s' = s\<lparr>dumper := Some f\<rparr>" "r' = r\<lparr>r_mem := m, r_dump := r_dump r + 1\<rparr>"
      by (simp_all add: sniffer_dump_def dumper_create_def)
    with assms(2) malloc_live(1) [of "r_mem r" m] m True show ?thesis
      by (intro conjI exI [of _ "Some f"]) (simp_all add: rest_levels_def sniffer_blocks_def)
  next
    case False
    with assms Some m malloc_live [of "r_mem r" m] have "s' = s" "levels r' = levels r"
      by (auto simp: sniffer_dump_def dumper_create_def levels_def split: bool.splits)
    with assms(2) show ?thesis
      by (intro conjI exI [of _ "dumper s"]) (simp_all add: rest_levels_def levels_def)
  qed
qed

text \<open>Only a script that cannot be loaded leaves something open: its interpreter.\<close>

lemma script_levels:
  assumes "sniffer_script L opts s r = Done (x, s', r')" "lua_state s = None"
  shows "rest_levels s' r' = (rest_levels s r)[4 := rest_levels s r ! 4 + (if x = None then 0 else 1)] \<and>
         (\<exists>l. s' = s\<lparr>lua_state := l\<rparr>) \<and> (x \<noteq> None \<longrightarrow> o_script opts \<noteq> None)"
proof (cases "o_script opts")
  case None
  with assms have "x = None" "s' = s\<lparr>lua_state := None\<rparr>" "r' = r"
    by (simp_all add: sniffer_script_def)
  with assms(2) show ?thesis
    by (intro conjI exI [of _ None]) (simp_all add: rest_levels_def sniffer_blocks_def)
next
  case (Some path)
  with assms(1) obtain y where "lua_state_create L path = Done y"
    and y: "(case y of Inl e \<Rightarrow> Done (Some e, s, r\<lparr>r_lua := r_lua r + 1\<rparr>)
       | Inr l \<Rightarrow> Done (None, s\<lparr>lua_state := Some l\<rparr>, r\<lparr>r_lua := r_lua r + 1\<rparr>)) = Done (x, s', r')"
    by (auto simp: sniffer_script_def and_then_Done_iff Let_def)
  show ?thesis
  proof (cases y)
    case (Inl e)
    with y have "x = Some e" "s' = s" "r' = r\<lparr>r_lua := r_lua r + 1\<rparr>" by simp_all
    with assms(2) Some show ?thesis
      by (intro conjI exI [of _ "lua_state s"]) (simp_all add: rest_levels_def)
  next
    case (Inr l)
    with y have "x = None" "s' = s\<lparr>lua_state := Some l\<rparr>" "r' = r\<lparr>r_lua := r_lua r + 1\<rparr>" by simp_all
    with assms(2) show ?thesis
      by (intro conjI exI [of _ "Some l"]) (simp_all add: rest_levels_def sniffer_blocks_def)
  qed
qed

lemma create_empty:
  "hashtable_create n m = (Some ht, m') \<Longrightarrow> ht_invar ht \<and> concat (buckets ht) = []"
  using hashtable_create_invar [of n m ht m']
  by (auto simp: hashtable_create_def split: if_splits prod.splits bool.splits)

lemma alloc_levels:
  assumes "sniffer_alloc opts r = Done (s, r')" "levels r = (live (r_mem r0) + 1) # tl (levels r0)"
  shows "rest_levels s r' = levels r0 \<and> tables_owned s \<and> lock_ready s = 0 \<and> pcap s = None \<and>
         bpf s = None \<and> dumper s = None \<and> lua_state s = None \<and> (\<exists>d. o_dev opts = Some d) \<and>
         \<not> stats_lock s \<and> expire_primed s = 0 \<and>
         (\<forall>ht. syn_tab s = Some ht \<longrightarrow> ht_invar ht \<and> concat (buckets ht) = []) \<and>
         (\<forall>ht. requests s = Some ht \<longrightarrow> ht_invar ht \<and> concat (buckets ht) = [])"
proof -
  from assms(1) obtain d f where df: "o_dev opts = Some d" "o_filter opts = Some f"
    by (auto simp: sniffer_alloc_def split: option.splits)
  obtain d' m1 where d': "strdup d (r_mem r) = (d', m1)" by (cases "strdup d (r_mem r)")
  obtain f' m2 where f': "strdup f m1 = (f', m2)" by (cases "strdup f m1")
  obtain syn m3 where syn: "hashtable_create 16 m2 = (syn :: query_stats hashtable option, m3)"
    by (cases "hashtable_create 16 m2 :: query_stats hashtable option \<times> mem")
  obtain reqs m4 where reqs: "hashtable_create 102400 m3 = (reqs :: request hashtable option, m4)"
    by (cases "hashtable_create 102400 m3 :: request hashtable option \<times> mem")
  have s: "s = (zero_sniffer opts)\<lparr>dev := d', filter_expr := f', syn_tab := syn, requests := reqs\<rparr>"
    and r': "r' = r\<lparr>r_mem := m4\<rparr>"
    using assms(1) by (simp_all add: sniffer_alloc_def df d' f' syn reqs)
  have tabs: "\<forall>ht. syn = Some ht \<longrightarrow> ht_invar ht \<and> concat (buckets ht) = []"
    "\<forall>ht. reqs = Some ht \<longrightarrow> ht_invar ht \<and> concat (buckets ht) = []"
    using create_empty syn reqs by blast+
  have "live m4 = live (r_mem r) + str_blocks d' + str_blocks f' + tab_blocks (\<lambda>v. 1) syn +
      tab_blocks req_weight reqs"
    using strdup_live [OF d'] strdup_live [OF f'] hashtable_create_live [OF syn, of "\<lambda>v. 1"]
      hashtable_create_live [OF reqs, of req_weight]
    by (auto simp: tab_blocks_def split: option.splits)
  then show ?thesis
    using assms(2) df tabs
    by (auto simp: s r' rest_levels_def levels_def zero_sniffer_def sniffer_blocks_def tables_owned_def)
qed

section \<open>What a creation leaves\<close>

text \<open>A created sniffer: its share and the rest, and the state the tracker needs.\<close>

definition created_ok :: "('p, 'l, 'b, 'd) sniffer \<Rightarrow> bool" where
  "created_ok s \<longleftrightarrow>
     table_ok server_ok free_stats (syn_tab s) \<and> table_ok request_ok free_request (requests s) \<and>
     ht_size (the (requests s)) = 0 \<and> \<not> stats_lock s \<and> lock_ready s = 1 \<and> pcap s \<noteq> None \<and>
     expire_primed s = 0"

lemma empty_table_get:
  assumes "ht_invar ht" "concat (buckets ht) = []"
  shows "hashtable_get ht k = None"
proof (cases "hashtable_get ht k")
  case (Some v)
  with hashtable_get_Some [OF assms(1)] obtain e where "e \<in> set (concat (buckets ht))" by blast
  with assms(2) show ?thesis by auto
qed

lemma created_tables:
  assumes "ht_invar syn" "concat (buckets syn) = []" "ht_invar reqs" "concat (buckets reqs) = []"
  shows "table_ok server_ok free_stats (Some (syn\<lparr>free_fn := Some free_stats\<rparr>))"
    "table_ok request_ok free_request (Some (reqs\<lparr>free_fn := Some free_request\<rparr>))"
    "ht_size reqs = 0"
  using assms by (auto simp: table_ok_def empty_table_get) (simp add: ht_invar_def)

lemma rest_levels_cong:
  "pcap s' = pcap s \<Longrightarrow> bpf s' = bpf s \<Longrightarrow> dumper s' = dumper s \<Longrightarrow> lua_state s' = lua_state s \<Longrightarrow>
   dev s' = dev s \<Longrightarrow> filter_expr s' = filter_expr s \<Longrightarrow>
   tab_blocks (\<lambda>v. 1) (syn_tab s') = tab_blocks (\<lambda>v. 1) (syn_tab s) \<Longrightarrow>
   tab_blocks req_weight (requests s') = tab_blocks req_weight (requests s) \<Longrightarrow>
   lock_ready s' = 1 \<Longrightarrow> lock_ready s = 0 \<Longrightarrow>
   rest_levels s' (r\<lparr>r_mutex := r_mutex r + 1\<rparr>) = rest_levels s r"
  by (simp add: rest_levels_def sniffer_blocks_def)

lemma tables_owned_cong:
  "syn_tab s' = syn_tab s \<Longrightarrow> requests s' = requests s \<Longrightarrow> tables_owned s \<Longrightarrow> tables_owned s'"
  by (simp add: tables_owned_def)

lemma created_ok_cong:
  "created_ok s \<Longrightarrow> pcap s' \<noteq> None \<Longrightarrow> syn_tab s' = syn_tab s \<Longrightarrow> requests s' = requests s \<Longrightarrow>
   stats_lock s' = stats_lock s \<Longrightarrow> lock_ready s' = lock_ready s \<Longrightarrow>
   expire_primed s' = expire_primed s \<Longrightarrow> created_ok s'"
  by (simp add: created_ok_def)

text \<open>
  The result of a creation: on failure every level is as before but for an interpreter lost
  with a script that did not load, on success what remains is as before.
\<close>

definition balanced :: "options \<Rightarrow> int list \<Rightarrow> (cstring + ('p, 'l, 'b, 'd) sniffer) \<times> options \<times> resources \<Rightarrow> bool" where
  "balanced opts before res \<longleftrightarrow>
     (case res of
        (Inl e, opts', r') \<Rightarrow>
          kept_levels opts' (levels r') = kept_levels opts before \<or>
          o_script opts \<noteq> None \<and> kept_levels opts' (levels r') = (kept_levels opts before)[4 := before ! 4 + 1]
      | (Inr s, opts', r') \<Rightarrow> kept_levels opts' (rest_levels s r') = kept_levels opts before \<and> created_ok s)"

lemma finish_balanced:
  assumes "sniffer_finish A L opts s r = Done res" "o_dev opts = Some d" "tables_owned s"
    and "pcap s = None" "bpf s = None" "dumper s = None" "lua_state s = None"
    and "\<And>h. created_ok (s\<lparr>pcap := Some h\<rparr>)"
  shows "balanced opts (rest_levels s r) res"
proof -
  obtain x opts1 s1 r1 where op: "sniffer_open A opts s r = (x, opts1, s1, r1)"
    by (cases "sniffer_open A opts s r")
  from open_levels [OF op assms(2,4)] obtain d' e where
    lev1: "kept_levels opts1 (rest_levels (s1\<lparr>pcap := (case x of Inl e \<Rightarrow> None | Inr h \<Rightarrow> Some h)\<rparr>) r1) =
      kept_levels opts (rest_levels s r)" and s1: "s1 = s\<lparr>dev := d'\<rparr>" and o1: "opts1 = opts\<lparr>o_dev := Some e\<rparr>"
    by blast
  show ?thesis
  proof (cases x)
    case (Inl err)
    have "tables_owned s1" using assms(3) by (simp add: s1 tables_owned_def)
    moreover have "s1\<lparr>pcap := None\<rparr> = s1" using assms(4) by (simp add: s1)
    ultimately show ?thesis
      using assms(1) op Inl lev1
      by (auto simp: sniffer_finish_def balanced_def destroy_levels)
  next
    case (Inr h)
    let ?s1 = "s1\<lparr>pcap := Some h\<rparr>"
    obtain y h2 s2 r2 where fl: "sniffer_filter A h ?s1 r1 = (y, h2, s2, r2)"
      by (cases "sniffer_filter A h ?s1 r1")
    from filter_levels [OF fl, of h] assms(5) obtain b h1 where
      lev2: "rest_levels s2 r2 = rest_levels ?s1 r1" and s2: "s2 = ?s1\<lparr>pcap := Some h1, bpf := b\<rparr>"
      by (auto simp: s1)
    have own2: "tables_owned s2" using assms(3) by (simp add: s1 s2 tables_owned_def)
    show ?thesis
    proof (cases y)
      case (Some err)
      with assms(1) op Inr fl lev1 lev2 own2 show ?thesis
        by (auto simp: sniffer_finish_def balanced_def destroy_levels)
    next
      case y: None
      obtain z s3 r3 where dm: "sniffer_dump A h2 opts1 s2 r2 = (z, s3, r3)"
        by (cases "sniffer_dump A h2 opts1 s2 r2")
      from dump_levels [OF dm] assms(6) obtain dd where
        lev3: "rest_levels s3 r3 = rest_levels s2 r2" and s3: "s3 = s2\<lparr>dumper := dd\<rparr>"
        by (auto simp: s1 s2)
      have own3: "tables_owned s3" using own2 by (simp add: s3 tables_owned_def)
      show ?thesis
      proof (cases z)
        case (Some err)
        with assms(1) op Inr fl y dm lev1 lev2 lev3 own3 show ?thesis
          by (auto simp: sniffer_finish_def balanced_def destroy_levels)
      next
        case z: None
        with assms(1) op Inr fl y dm obtain w s4 r4 where
          sc: "sniffer_script L opts1 s3 r3 = Done (w, s4, r4)"
          and res: "res = (case w of Some e \<Rightarrow> (Inl e, opts1, sniffer_destroy (Some s4) r4)
                     | None \<Rightarrow> (Inr s4, opts1, r4))"
          by (auto simp: sniffer_finish_def and_then_Done_iff split: option.splits)
        from script_levels [OF sc] assms(7) obtain l where
          lev4: "rest_levels s4 r4 = (rest_levels s3 r3)
              [4 := rest_levels s3 r3 ! 4 + (if w = None then 0 else 1)]"
          and s4: "s4 = s3\<lparr>lua_state := l\<rparr>" and scr: "w \<noteq> None \<longrightarrow> o_script opts1 \<noteq> None"
          by (auto simp: s1 s2 s3)
        have own4: "tables_owned s4" using own3 by (simp add: s4 tables_owned_def)
        have ok: "created_ok s4"
          by (rule created_ok_cong [OF assms(8) [of h]]) (simp_all add: s1 s2 s3 s4)
        have len: "length (rest_levels s' r') = 9" for s' :: "('a, 'd, 'b, 'c) sniffer" and r'
          by (simp add: rest_levels_def)
        from lev1 Inr lev2 lev3 have k: "kept_levels opts1 (rest_levels s3 r3) = kept_levels opts (rest_levels s r)"
          by simp
        then have four: "rest_levels s3 r3 ! 4 = rest_levels s r ! 4"
          and tl: "tl (rest_levels s3 r3) = tl (rest_levels s r)"
          by (simp_all add: kept_levels_def rest_levels_def)
        show ?thesis
          using res lev4 own4 ok k four scr o1
          by (cases w) (auto simp: balanced_def destroy_levels kept_levels_def rest_levels_def numeral_eq_Suc)
      qed
    qed
  qed
qed

lemma create_balanced:
  fixes A :: "('p, 'b, 'd) pcap_api" and L :: "'l lua_api"
  assumes "sniffer_create A L opts r = Done res"
  shows "balanced opts (levels r) res"
proof -
  obtain ok m where m: "malloc (r_mem r) = (ok, m)" by (cases "malloc (r_mem r)")
  show ?thesis
  proof (cases ok)
    case False
    with m malloc_live(2) [of "r_mem r" m] assms show ?thesis
      by (auto simp: sniffer_create_def balanced_def levels_def)
  next
    case True
    let ?r = "r\<lparr>r_mem := m\<rparr>"
    from assms m True obtain s :: "('p, 'l, 'b, 'd) sniffer" and r1 where al: "sniffer_alloc opts ?r = Done (s, r1)"
      by (auto simp: sniffer_create_def and_then_Done_iff)
    have "levels ?r = (live (r_mem r) + 1) # tl (levels r)"
      using m True malloc_live(1) [of "r_mem r" m] by (simp add: levels_def)
    note al' = alloc_levels [OF al this]
    have destroyed: "levels (sniffer_destroy (Some s) r1) = levels r"
      using al' destroy_levels [of s r1] by simp
    show ?thesis
    proof (cases "dev s \<noteq> None \<and> filter_expr s \<noteq> None \<and> syn_tab s \<noteq> None \<and> requests s \<noteq> None \<and>
        pthread_mutex_init A = 0")
      case False
      with assms m True al have "\<exists>e. res = (Inl e, opts, sniffer_destroy (Some s) r1)"
        by (auto simp: sniffer_create_def split: option.splits if_splits)
      with destroyed show ?thesis by (auto simp: balanced_def)
    next
      case good: True
      then obtain d f syn reqs where fields: "dev s = Some d" "filter_expr s = Some f"
        "syn_tab s = Some syn" "requests s = Some reqs" by auto
      let ?s = "s\<lparr>lock_ready := 1, syn_tab := Some (syn\<lparr>free_fn := Some free_stats\<rparr>),
                 requests := Some (reqs\<lparr>free_fn := Some free_request\<rparr>)\<rparr>"
      let ?r1 = "r1\<lparr>r_mutex := r_mutex r1 + 1\<rparr>"
      have fin: "sniffer_finish A L opts ?s ?r1 = Done res"
        using assms m True al good fields by (simp add: sniffer_create_def)
      have tabs: "ht_invar syn" "concat (buckets syn) = []" "ht_invar reqs" "concat (buckets reqs) = []"
        using al' fields by auto
      have lev: "rest_levels ?s ?r1 = levels r"
        using al' fields rest_levels_cong [of ?s s r1] by (simp add: tab_blocks_def ht_blocks_def)
      have "tables_owned ?s" by (simp add: tables_owned_def)
      moreover have "created_ok (?s\<lparr>pcap := Some h\<rparr>)" for h
        using created_tables [OF tabs] al' by (simp add: created_ok_def)
      moreover obtain dv where "o_dev opts = Some dv" using al' by blast
      ultimately have "balanced opts (rest_levels ?s ?r1) res"
        using al' by (intro finish_balanced [OF fin]) auto
      with lev show ?thesis by simp
    qed
  qed
qed

section \<open>Frame safety\<close>

text \<open>
  A frame as libpcap delivers it: as many bytes as captured. The handler subtracts the size of the link layer header
  from the length on the wire as an \<open>int\<close>, which overflows for the lengths from \<open>0x80000000\<close> to \<open>0x8000000f\<close>.
\<close>

definition captured_ok :: "pkthdr \<times> byte list \<Rightarrow> bool" where
  "captured_ok fr \<longleftrightarrow>
     length (snd fr) = unat (ph_caplen (fst fr)) \<and> ph_caplen (fst fr) < 2 ^ 31"

definition wire_ok :: "pkthdr \<times> byte list \<Rightarrow> bool" where
  "wire_ok fr \<longleftrightarrow> - (2 ^ 31) + 16 \<le> sint (ph_len (fst fr))"

definition frame_ok :: "pkthdr \<times> byte list \<Rightarrow> bool" where
  "frame_ok fr \<longleftrightarrow> captured_ok fr \<and> wire_ok fr"

lemma int_minus_ok:
  "frame_ok (h, d) \<Longrightarrow> 0 \<le> n \<Longrightarrow> n \<le> 16 \<Longrightarrow>
   int_minus (sint (ph_caplen h)) n = Some (sint (ph_caplen h) - n) \<and> int_minus (sint (ph_len h)) n = Some (sint (ph_len h) - n)"
proof -
  assume a: "frame_ok (h, d)" "0 \<le> n" "n \<le> 16"
  have "sint (ph_caplen h) = int (unat (ph_caplen h))"
    using a(1) by (simp only: frame_ok_def captured_ok_def fst_conv) (rule sint_u32_small, simp)
  then have "0 \<le> sint (ph_caplen h)" by (simp only: of_nat_0_le_iff)
  moreover have "sint (ph_caplen h) < 2 ^ 31" "sint (ph_len h) < 2 ^ 31"
    using sint_lt [of "ph_caplen h"] sint_lt [of "ph_len h"] by simp_all
  ultimately show ?thesis using a by (simp add: int_minus_def frame_ok_def wire_ok_def)
qed

lemma linkhdr_size_bounds: "linkhdr_size dlt = Some n \<Longrightarrow> 0 \<le> n \<and> n \<le> 16"
  by (auto simp: linkhdr_size_def split: if_splits)

text \<open>What the handler hands on: a well-formed packet of the frame's size and time, or nothing.\<close>

lemma handler_cases:
  assumes "frame_ok (header, packet)" "pcap (sniffer c) = Some h"
  shows "\<exists>c1. c1 = c\<lparr>sniffer := (sniffer c)\<lparr>dumper :=
             map_option (dumper_write A header packet) (dumper (sniffer c))\<rparr>\<rparr> \<and>
           (packet_handler A E header packet c = Done c1 \<or>
            (\<exists>p. packet_ok p \<and> up_size p = ph_len header \<and> tv p = ph_ts header \<and>
                 packet_handler A E header packet c = process_user_packet E p c1))"
proof -
  let ?c1 = "c\<lparr>sniffer := (sniffer c)\<lparr>dumper :=
             map_option (dumper_write A header packet) (dumper (sniffer c))\<rparr>\<rparr>"
  have c1: "(case dumper (sniffer c) of None \<Rightarrow> c
       | Some d \<Rightarrow> c\<lparr>sniffer := (sniffer c)\<lparr>dumper := Some (dumper_write A header packet d)\<rparr>\<rparr>) = ?c1"
    by (cases "dumper (sniffer c)") simp_all
  have h1: "pcap (sniffer ?c1) = Some h" using assms(2) by simp
  show ?thesis
  proof (cases "linkhdr_size (pcap_datalink A h)")
    case None
    then show ?thesis
      unfolding packet_handler_def c1 Let_def h1 by (simp add: assms(2))
  next
    case (Some n)
    note n = linkhdr_size_bounds [OF Some]
    define ip where "ip = drop (nat n) packet"
    define cap where "cap = sint (ph_caplen header) - n"
    define wire where "wire = sint (ph_len header) - n"
    define up where "up = zero_packet\<lparr>up_size := ph_len header\<rparr>"
    have im: "int_minus (sint (ph_caplen header)) n = Some cap" "int_minus (sint (ph_len header)) n = Some wire"
      using int_minus_ok [OF assms(1)] n by (simp_all add: cap_def wire_def)
    have cap: "cap \<le> int (length ip)" if "20 \<le> cap"
    proof -
      have "sint (ph_caplen header) = int (unat (ph_caplen header))"
        using assms(1) by (simp only: frame_ok_def captured_ok_def fst_conv) (rule sint_u32_small, simp)
      moreover have "int (length ip) \<ge> int (unat (ph_caplen header)) - n"
        using assms(1) n by (simp only: frame_ok_def captured_ok_def ip_def length_drop fst_conv snd_conv) linarith
      ultimately show ?thesis by (simp add: cap_def)
    qed
    show ?thesis
    proof (cases "cap < 20")
      case True
      then show ?thesis
        unfolding packet_handler_def c1 Let_def h1 option.case Some im prod.case by simp
    next
      case False
      with cap have len: "20 \<le> length ip" "0 < cap" "cap \<le> int (length ip)" by linarith+
      then have reads: "get8 ip 0 = Some (ip ! 0)" "get8 ip 9 = Some (ip ! 9)"
        by (simp_all add: get8_def) auto
      from tcp.in_bounds [OF len(2,3), of "ph_ts header" wire up] obtain r q where
        tcp: "process_tcp_packet (ph_ts header) ip cap wire up = Some (r, q)" by blast
      from udp.in_bounds [OF len(2,3), of "ph_ts header" wire up] obtain r' q' where
        udp: "process_udp_packet (ph_ts header) ip cap wire up = Some (r', q')" by blast
      have q: "packet_ok q \<and> up_size q = ph_len header \<and> tv q = ph_ts header" if "r = 0"
        using that tcp tcp.accepted_ok [OF len(3)] tcp.accepted by (fastforce simp: up_def)
      have q': "packet_ok q' \<and> up_size q' = ph_len header \<and> tv q' = ph_ts header" if "r' = 0"
        using that udp udp.accepted_ok [OF len(3)] udp.accepted by (fastforce simp: up_def)
      have "packet_handler A E header packet c =
        (if IP_V (ip ! 0) \<noteq> 4 then Done ?c1
         else if ip ! 9 = IPPROTO_TCP then (if r = 0 then process_user_packet E q ?c1 else Done ?c1)
         else if ip ! 9 = IPPROTO_UDP then (if r' = 0 then process_user_packet E q' ?c1 else Done ?c1)
         else Done ?c1)"
        unfolding packet_handler_def c1 Let_def h1 option.case Some im prod.case ip_def [symmetric] up_def [symmetric]
        using False by (simp add: reads tcp udp)
      with q q' show ?thesis by auto
    qed
  qed
qed

section \<open>Properties\<close>

text \<open>
  C21. Creation gives everything back: for every behaviour of the capture library and of the
  interpreter and every pattern of allocation failures, a \<open>sniffer_create\<close> that fails leaves
  exactly the blocks, capture handles, compiled filters, dump files, mutexes, streams and lists of
  devices that were there before (the options may own another device name), and one interpreter
  more only if a script was given. One that succeeds has accounted for all it holds, so that \<open>sniffer_destroy\<close> brings
  every level back, and gives the tracker a well-formed state.
\<close>

theorem sniffer_create_balanced:
  assumes "sniffer_create A L opts r = Done (res, opts', r')"
  shows "(case res of
            Inl e \<Rightarrow>
              kept_levels opts' (levels r') = kept_levels opts (levels r) \<or>
              o_script opts \<noteq> None \<and>
              kept_levels opts' (levels r') = (kept_levels opts (levels r))[4 := levels r ! 4 + 1]
          | Inr s \<Rightarrow>
              kept_levels opts' (levels (sniffer_destroy (Some s) r')) = kept_levels opts (levels r) \<and>
              created_ok s)"
proof (cases res)
  case (Inl e)
  with create_balanced [OF assms] show ?thesis by (simp add: balanced_def)
next
  case (Inr s)
  with create_balanced [OF assms] have ok: "kept_levels opts' (rest_levels s r') = kept_levels opts (levels r)" "created_ok s"
    by (simp_all add: balanced_def)
  then have "tables_owned s" by (auto simp: created_ok_def tables_owned_def table_ok_def)
  with ok Inr show ?thesis by (simp add: destroy_levels)
qed

text \<open>A capture library on which every call succeeds, with one Ethernet device.\<close>

definition demo_pcap :: "(unit, unit, unit) pcap_api" where
  "demo_pcap =
     \<lparr>pcap_findalldevs = Inr [(str ''lo'', True), (str ''eth0'', False)],
      pcap_create = (\<lambda>d. Inr ()), pcap_set_snaplen = (\<lambda>n p. (0, p)),
      pcap_set_timeout = (\<lambda>n p. (0, p)), pcap_set_buffer_size = (\<lambda>n p. (0, p)),
      pcap_set_tstamp_type = (\<lambda>n p. (0, p)), pcap_activate = (\<lambda>p. (0, p)),
      pcap_statustostr = (\<lambda>n. str ''error''), pcap_geterr = (\<lambda>p. str ''error''),
      fopen_error = (\<lambda>f. None), pcap_fopen_offline = (\<lambda>f. Inr ()),
      pcap_compile = (\<lambda>f p. (Some (), p)), pcap_setfilter = (\<lambda>b p. (0, p)),
      pcap_datalink = (\<lambda>p. 1), pcap_dump_open = (\<lambda>p f. Some ()), pcap_dump = (\<lambda>h b d. d),
      pthread_mutex_init = 1\<rparr>"

definition demo_resources :: resources where
  "demo_resources =
     \<lparr>r_mem = \<lparr>outcomes = [], live = 2\<rparr>, r_pcap = 0, r_code = 0, r_dump = 0, r_lua = 0, r_mutex = 0, r_file = 0, r_devs = 0,
      r_thread = 0\<rparr>"

theorem sniffer_create_balanced_witness:
  "\<exists>e opts' r'. sniffer_create demo_pcap depth_api (with_filter default_options) demo_resources =
       Done (Inl e, opts', r') \<and>
     kept_levels opts' (levels r') = kept_levels (with_filter default_options) (levels demo_resources)"
proof -
  let ?o = "with_filter default_options"
  have "o_dev ?o = Some (str ''any'')" "o_filter ?o = Some []" "o_script ?o = None"
    by (simp_all add: with_filter_def default_options_def init_options_def strdup_def malloc_def)
  then have "\<exists>r'. sniffer_create demo_pcap depth_api ?o demo_resources =
      Done (Inl (err_text (str ''failed to init the stats lock'')), ?o, r')"
    by (simp add: sniffer_create_def sniffer_alloc_def demo_resources_def strdup_def malloc_def
        hashtable_create_def demo_pcap_def Let_def)
  then obtain r' where c: "sniffer_create demo_pcap depth_api ?o demo_resources =
      Done (Inl (err_text (str ''failed to init the stats lock'')), ?o, r')" by blast
  with sniffer_create_balanced [OF c] \<open>o_script ?o = None\<close> show ?thesis by auto
qed

text \<open>A run of the capture loop, by induction over the frames.\<close>

lemma capture_loop:
  assumes "capture_ok c" "lua_state (sniffer c) = None" "pcap (sniffer c) = Some h"
    and "\<forall>fr \<in> set frames. frame_ok fr"
  shows "\<exists>c'. sniffer_run A E frames rc c = Done (rc, c') \<and> capture_ok c' \<and>
           dumper (sniffer c') =
             map_option (fold (\<lambda>(header, packet). pcap_dump A header packet) frames) (dumper (sniffer c))"
  unfolding sniffer_run_def using assms
proof (induction frames arbitrary: c)
  case Nil
  then show ?case by (simp add: option.map_ident)
next
  case (Cons fr frames)
  obtain header packet where fr: "fr = (header, packet)" by (cases fr)
  let ?c1 = "c\<lparr>sniffer := (sniffer c)\<lparr>dumper :=
      map_option (dumper_write A header packet) (dumper (sniffer c))\<rparr>\<rparr>"
  have c1: "capture_ok ?c1" "lua_state (sniffer ?c1) = None"
    using Cons.prems(1,2) by (simp_all add: capture_ok_def)
  have "frame_ok (header, packet)" using Cons.prems(4) fr by simp
  from handler_cases [OF this Cons.prems(3), of A E]
  obtain c2 where c2: "packet_handler A E header packet c = Done c2" "capture_ok c2" "same_handles ?c1 c2"
    using c1 process_user_packet_ok [OF c1(1) _ c1(2), of _ E] same_handles_refl [of ?c1] by metis
  then have keep: "lua_state (sniffer c2) = None" "pcap (sniffer c2) = Some h"
    "dumper (sniffer c2) = dumper (sniffer ?c1)"
    using c1(2) Cons.prems(3) by (simp_all add: same_handles_def)
  from Cons.IH [OF c2(2) keep(1,2)] Cons.prems(4) obtain c' where
    "pcap_loop A E frames rc c2 = Done (rc, c')" "capture_ok c'"
    "dumper (sniffer c') = map_option (fold (\<lambda>(header, packet). pcap_dump A header packet) frames)
       (dumper (sniffer c2))" by auto
  with c2(1) keep(3) fr show ?case
    by (cases "dumper (sniffer c)") (auto simp: dumper_write_def)
qed



text \<open>The exception is real: such a length, which a file can hold, overflows behind an Ethernet header.\<close>

lemma long_frame_overflows:
  assumes "pcap (sniffer c) = Some h" "pcap_datalink A h = 1" "dumper (sniffer c) = None" "sint (ph_len header) < - (2 ^ 31) + 14"
  shows "packet_handler A E header packet c = Undefined"
  using assms by (simp add: packet_handler_def linkhdr_size_def int_minus_def split: option.split)

end
