(* ===== verification/Server.thy ===== *)
theory Server
  imports Stats_Json Sniffer
begin

text \<open>
  The statistics server of \<open>src/server.c\<close>: the JSON text of the whole table of endpoints, the
  socket set-up, the write loop, and the life of the server from creation to destruction with
  its two threads.

  The calls of the operating system are parameters: what \<open>socket\<close>, \<open>bind\<close> and \<open>listen\<close>
  return, what each \<open>write\<close> does, and whether the thread can be created. The interleaving of
  the capture thread and the statistics thread is a step relation over the shared state.
\<close>

section \<open>The statistics as JSON\<close>

text \<open>The member name of an endpoint, \<open>snprintf(buf, 64, "%s:%d", ...)\<close>.\<close>

definition stats_key :: "query_stats \<Rightarrow> cstring" where
  "stats_key st = snprintf 64 (inet_ntoa (stats_ip st) @ 58 # show_u16 (stats_port st))"

fun add_endpoints :: "query_stats list \<Rightarrow> cJSON option \<times> mem \<Rightarrow> cJSON option \<times> mem" where
  "add_endpoints [] (obj, m) = (obj, m)"
| "add_endpoints (st # sts) (obj, m) =
     (let (item, m) = create_stats_object st m
      in add_endpoints sts (cJSON_AddItemToObject obj (Some (stats_key st)) item m))"

text \<open>
  The whole walk runs under the lock. The result is the block with the text, or NULL; the
  array of values is freed in either case.
\<close>

definition server_stats_to_json ::
    "('p, 'l, 'b, 'd) capture \<Rightarrow> (byte option list option \<times> ('p, 'l, 'b, 'd) capture) outcome" where
  "server_stats_to_json c =
     (let (obj, m) = cJSON_CreateObject (heap c) in
      and_then (sniffer_stats_lock (sniffer c)) (\<lambda>s.
        case syn_tab s of
          None \<Rightarrow> Undefined
        | Some t \<Rightarrow>
            (case hashtable_values t m of
               None \<Rightarrow> Undefined
             | Some (vals, cnt, m) \<Rightarrow>
                 (let (obj, m) = add_endpoints (take (nat cnt) (case_option [] id vals)) (obj, m);
                      s = sniffer_stats_unlock s
                  in case cJSON_Print obj m of
                       None \<Rightarrow> Undefined
                     | Some (text, m) \<Rightarrow>
                         (let m = delete_opt obj m;
                              m = (if vals = None then m else mfree m)
                          in Done (text, c\<lparr>sniffer := s, heap := m\<rparr>))))))"

text \<open>The reference text: one member per endpoint.\<close>

definition server_text :: "query_stats list \<Rightarrow> byte list" where
  "server_text sts =
     object_text True 0 (map (\<lambda>st. member_text True 1 (Some (stats_key st)) (stats_text True 1 st)) sts)"

definition table_values :: "'v hashtable \<Rightarrow> 'v list" where
  "table_values t = map entry_value (concat (buckets t))"

lemma collect_values_outcomes:
  "outcomes m = [] \<Longrightarrow> collect_values es vs cap m = Some (r, m') \<Longrightarrow> outcomes m' = []"
  by (induction es vs cap m rule: collect_values.induct)
    (auto simp: malloc_def mrealloc_def Let_def split: if_splits option.splits prod.splits)

lemma hashtable_values_plenty:
  assumes "outcomes m = []"
  shows "\<exists>vals m'. hashtable_values t m = Some (vals, int (length (table_values t)), m') \<and>
           case_option [] id vals = table_values t \<and> outcomes m' = [] \<and>
           live m' = live m + (if vals = None then 0 else 1)"
proof (cases "concat (buckets t) = []")
  case True
  then have "hashtable_values t m = Some (None, 0, m)" by (simp add: hashtable_values_def del: concat_eq_Nil_conv)
  moreover have "table_values t = []" using True by (simp add: table_values_def del: concat_eq_Nil_conv)
  ultimately show ?thesis using assms by auto
next
  case False
  with collect_values_plenty [OF assms, of None 0 "concat (buckets t)"] obtain m' where
    c: "collect_values (concat (buckets t)) None 0 m = Some (Some (table_values t), m')"
    by (auto simp: table_values_def)
  then have "hashtable_values t m = Some (Some (table_values t), int (length (table_values t)), m')"
    by (simp add: hashtable_values_def)
  moreover have "live m' = live m + 1"
    using collect_values_safe [of None 0 "concat (buckets t)" m] c by auto
  ultimately show ?thesis using collect_values_outcomes [OF assms c] by auto
qed

text \<open>The object that the walk builds: each endpoint's statistics under its name.\<close>

definition endpoint_item :: "query_stats \<Rightarrow> cJSON" where
  "endpoint_item st = container cJSON_Object (Some (stats_key st)) (stats_members st)"

lemma endpoint_item_blocks:
  "json_blocks (endpoint_item st) = 12 + 3 * int (length (filled_buckets st))"
proof -
  have "sum_list (map json_blocks (latency_items bs)) = 3 * int (length bs)" for bs
    by (induction bs) (auto simp: latency_items_def container_def number_item_of_def json_types)
  then show ?thesis
    by (simp add: endpoint_item_def container_def stats_members_def number_item_of_def json_types)
qed

lemma add_endpoints_plenty:
  "outcomes m = [] \<Longrightarrow>
   \<exists>m'. add_endpoints sts (Some (container cJSON_Object None cs), m) =
          (Some (container cJSON_Object None (cs @ map endpoint_item sts)), m') \<and> outcomes m' = [] \<and>
        live m' = live m + sum_list (map (\<lambda>st. json_blocks (endpoint_item st)) sts)"
proof (induction sts arbitrary: cs m)
  case (Cons st sts)
  obtain m1 where m1: "create_stats_object st m = (Some (container cJSON_Object None (stats_members st)), m1)"
    "outcomes m1 = []" "live m1 = live m + 11 + 3 * int (length (filled_buckets st))"
    using create_stats_plenty [OF Cons.prems] by blast
  obtain m2 where m2: "cJSON_strdup (Some (stats_key st)) m1 = (Some (stats_key st), m2)" "outcomes m2 = []"
    using json_strdup_plenty [OF m1(2)] by blast
  have "cJSON_AddItemToObject (Some (container cJSON_Object None cs)) (Some (stats_key st))
      (Some (container cJSON_Object None (stats_members st))) m1 =
      (Some (container cJSON_Object None (cs @ [endpoint_item st])), m2)"
    using m2(1) by (simp add: cJSON_AddItemToObject_def add_item_to_object_def add_item_to_array_def Let_def
        container_def endpoint_item_def json_types)
  moreover from cJSON_strdup_live [OF m2(1)] m1(3) have "live m2 = live m + json_blocks (endpoint_item st)"
    by (simp add: text_block_def endpoint_item_blocks)
  ultimately show ?case using Cons.IH [OF m2(2), of "cs @ [endpoint_item st]"] m1(1) by (simp add: add.assoc)
qed simp

lemma stats_key_text: "0 \<notin> set (stats_key st)"
proof -
  have "0 \<notin> set (show_nat n)" for n using show_nat_digits [of n] by (auto simp: is_digit_def)
  then have "0 \<notin> set (inet_ntoa (stats_ip st) @ 58 # show_u16 (stats_port st))"
    by (simp add: inet_ntoa_def show_u16_def)
  then show ?thesis unfolding stats_key_def snprintf_def by (meson in_set_takeD)
qed

lemma server_item:
  assumes "\<forall>st \<in> set sts. small_stats st"
  shows "json_ok (container cJSON_Object None (map endpoint_item sts))"
    and "render True 0 (container cJSON_Object None (map endpoint_item sts)) = Some (server_text sts)"
proof -
  show "json_ok (container cJSON_Object None (map endpoint_item sts))"
    using assms stats_item_ok stats_key_text zero_double_ok
    by (auto simp: container_def [of _ None] endpoint_item_def list_all_iff simp del: double_ok.simps)
  have "those (map (\<lambda>x. map_option (member_text True 1 (jstring x)) (render True 1 x)) (map endpoint_item sts)) =
      Some (map (\<lambda>st. member_text True 1 (Some (stats_key st)) (stats_text True 1 st)) sts)"
    unfolding map_map o_def
    by (rule those_map) (use assms render_stats [of _ True 1] in \<open>auto simp: endpoint_item_def container_def\<close>)
  then show "render True 0 (container cJSON_Object None (map endpoint_item sts)) = Some (server_text sts)"
    by (simp add: container_def [of _ None] render.simps json_types server_text_def)
qed

lemma add_endpoints_printable:
  "printable_item obj \<Longrightarrow> add_endpoints sts (obj, m) = (obj', m') \<Longrightarrow> printable_item obj'"
proof (induction sts arbitrary: obj m)
  case (Cons st sts)
  obtain x m1 where x: "create_stats_object st m = (x, m1)" by fastforce
  obtain ok a y m2 where a: "add_item_to_object obj (Some (stats_key st)) x False m1 = ((ok, a), y, m2)"
    by (metis prod.exhaust)
  have "printable_item a"
    using add_item_printable [OF Cons.prems(1) create_stats_printable [OF x] _ a] stats_key_text by simp
  with Cons.IH Cons.prems(2) x a show ?case by (simp add: cJSON_AddItemToObject_def)
qed simp

text \<open>Printing what the walk built, an absent object included.\<close>

lemma printable_prints:
  assumes "printable_item x"
  shows "\<exists>out m'. cJSON_Print x m = Some (out, m') \<and>
    (out = None \<or> (\<exists>t. out = Some (map Some (t @ [0])) \<and> 0 \<notin> set t))"
proof (cases x)
  case None
  then show ?thesis
    by (auto simp: cJSON_Print_def cjson_print_def print_item_def split: prod.splits bool.splits)
next
  case (Some y)
  with assms cjson_print_text [of y True True m] render_nul_free [of y True 0] show ?thesis
    by (fastforce simp: cJSON_Print_def)
qed

text \<open>The result of \<open>hashtable_values\<close> on any outcome: at most the values of the table.\<close>

lemma hashtable_values_some: "\<exists>vals cnt m'. hashtable_values t m = Some (vals, cnt, m')"
proof (cases "concat (buckets t) = []")
  case False
  from collect_values_safe [of None 0 "concat (buckets t)" m] show ?thesis
    by (auto simp: hashtable_values_def split: option.splits)
qed (simp add: hashtable_values_def del: concat_eq_Nil_conv)

lemma stats_json_text:
  assumes "capture_ok c"
  shows "\<exists>out m. server_stats_to_json c = Done (out, c\<lparr>heap := m\<rparr>) \<and>
    (out = None \<or> (\<exists>t. out = Some (map Some (t @ [0])) \<and> 0 \<notin> set t)) \<and>
    (let sts = table_values (the (syn_tab (sniffer c))) in
     outcomes (heap c) = [] \<and> list_all small_stats sts \<and> length (server_text sts) + 2 \<le> 2147483647 \<longrightarrow>
     out = Some (map Some (server_text sts @ [0])) \<and> live m = live (heap c) + 1)"
proof -
  obtain t where t: "syn_tab (sniffer c) = Some t" using assms by (auto simp: capture_ok_def table_ok_def split: option.splits)
  have lock: "sniffer_stats_lock (sniffer c) = Done ((sniffer c)\<lparr>stats_lock := True\<rparr>)"
    using assms by (simp add: capture_ok_def sniffer_stats_lock_def)
  have unlock: "sniffer_stats_unlock ((sniffer c)\<lparr>stats_lock := True\<rparr>) = sniffer c"
    using assms by (simp add: capture_ok_def sniffer_stats_unlock_def)
  obtain o1 m1 where o1: "cJSON_CreateObject (heap c) = (o1, m1)" by fastforce
  obtain vals cnt m2 where v: "hashtable_values t m1 = Some (vals, cnt, m2)" using hashtable_values_some by blast
  let ?sts = "take (nat cnt) (case_option [] id vals)"
  obtain o3 m3 where o3: "add_endpoints ?sts (o1, m2) = (o3, m3)" by fastforce
  have "printable_item o1" using create_typed_printable o1 by (auto simp: cJSON_CreateObject_def)
  then have "printable_item o3" using o3 by (rule add_endpoints_printable)
  then obtain out m4 where p: "cJSON_Print o3 m3 = Some (out, m4)"
    and nul: "out = None \<or> (\<exists>t. out = Some (map Some (t @ [0])) \<and> 0 \<notin> set t)" using printable_prints by blast
  define m5 where "m5 = (if vals = None then delete_opt o3 m4 else mfree (delete_opt o3 m4))"
  have run: "server_stats_to_json c = Done (out, c\<lparr>heap := m5\<rparr>)"
    using t v by (simp add: server_stats_to_json_def o1 lock o3 p unlock m5_def Let_def)
  have "out = Some (map Some (server_text sts @ [0])) \<and> live m5 = live (heap c) + 1"
    if sts: "sts = table_values t" and plenty: "outcomes (heap c) = []" and sm: "list_all small_stats sts"
      and len: "length (server_text sts) + 2 \<le> 2147483647" for sts
  proof -
    from create_typed_plenty [OF plenty, of cJSON_Object] o1 have
      c1: "o1 = Some (container cJSON_Object None [])" "outcomes m1 = []" "live m1 = live (heap c) + 1"
      by (auto simp: cJSON_CreateObject_def)
    from hashtable_values_plenty [OF c1(2), of t] v sts have
      c2: "?sts = sts" "outcomes m2 = []" "live m2 = live m1 + (if vals = None then 0 else 1)" by auto
    let ?obj = "container cJSON_Object None (map endpoint_item sts)"
    from add_endpoints_plenty [OF c2(2), of sts "[]"] o3 c1(1) c2(1) have
      c3: "o3 = Some ?obj" "outcomes m3 = []"
        "live m3 = live m2 + sum_list (map (\<lambda>st. json_blocks (endpoint_item st)) sts)" by auto
    have item: "json_ok ?obj" "render True 0 ?obj = Some (server_text sts)"
      using server_item [of sts] sm by (simp_all add: list_all_iff)
    from cjson_print_text [OF item(1), of True True m3] p c3 item(2) len have
      c4: "out = Some (map Some (server_text sts @ [0]))" "live m4 = live m3 + 1"
      by (auto simp: cJSON_Print_def)
    have "json_blocks ?obj = 1 + sum_list (map (\<lambda>st. json_blocks (endpoint_item st)) sts)"
      by (simp add: container_def [of _ None] json_types comp_def)
    with c1(3) c2(3) c3 c4(2) have "live m5 = live (heap c) + 1" by (simp add: m5_def delete_opt_live)
    with c4(1) show ?thesis by blast
  qed
  with run nul t show ?thesis by (auto simp: Let_def)
qed

text \<open>
  C13. The statistics text: in every state between two packets, whatever allocations fail, the
  request for the statistics returns, gives the lock back, and changes nothing of the capture
  but the allocator. With memory available, counters below \<open>10 ^ 15\<close> and a text within the
  range of \<open>int\<close>, the result is the block holding exactly one member per endpoint of the
  table, named \<open>address:port\<close>, with the counters and the buckets that are not empty, and that
  block is all the call leaves allocated.
\<close>

theorem stats_json_served:
  assumes "capture_ok c"
  shows "\<exists>out m. server_stats_to_json c = Done (out, c\<lparr>heap := m\<rparr>) \<and>
    (let sts = table_values (the (syn_tab (sniffer c))) in
     outcomes (heap c) = [] \<and> list_all small_stats sts \<and> length (server_text sts) + 2 \<le> 2147483647 \<longrightarrow>
     out = Some (map Some (server_text sts @ [0])) \<and> live m = live (heap c) + 1)"
  using stats_json_text [OF assms] by blast

lemma quoted_bound: "length (quoted (Some k)) \<le> 2 + 6 * length k"
proof -
  have "length (escape_byte b) \<le> 6" for b by (simp add: escape_byte_def split: option.splits)
  then have "length (concat (map escape_byte k)) \<le> 6 * length k"
    by (induction k) (auto intro: add_mono)
  then show ?thesis by (simp add: quoted_def)
qed

lemma demo_stats_small: "small_stats demo_stats"
  by (simp add: small_stats_def small_def demo_stats_def empty_stats_def)

lemma demo_values: "table_values (the (syn_tab (sniffer demo_capture))) = [demo_stats]"
  by (simp add: table_values_def demo_capture_def demo_syn_tab_def)

lemma demo_text_short: "length (server_text [demo_stats]) \<le> 1200"
proof -
  have "filled_buckets demo_stats = []"
    by (auto simp: filled_buckets_def demo_stats_def empty_stats_def filter_empty_conv dest!: set_zip_rightD)
  moreover have "u64_text 0 = [48]" by (simp add: u64_text_def show_nat_zero)
  moreover have "length (stats_key demo_stats) \<le> 63" by (simp add: stats_key_def snprintf_def)
  ultimately show ?thesis
    using quoted_bound [of "stats_key demo_stats"] quoted_bound [of "str ''requests''"]
      quoted_bound [of "str ''request_bytes''"] quoted_bound [of "str ''responses''"]
      quoted_bound [of "str ''response_bytes''"] quoted_bound [of "str ''latency''"]
    by (simp add: server_text_def stats_text_def object_text_def members_text_def member_text_def array_text_def
        demo_stats_def empty_stats_def str_def)
qed

theorem stats_json_served_witness:
  "\<exists>out m. server_stats_to_json demo_capture = Done (out, demo_capture\<lparr>heap := m\<rparr>) \<and>
    out = Some (map Some (server_text [demo_stats] @ [0])) \<and> live m = 1"
  using stats_json_served [OF demo_capture_ok] demo_values demo_stats_small demo_text_short
  by (auto simp: Let_def demo_capture_def)

end
