(* ===== verification/Stats_Loop.thy ===== *)
theory Stats_Loop
  imports Server
begin

text \<open>
  The thread that serves the statistics: the listening socket, the write loop and the poll loop
  of \<open>src/server.c\<close>. What the socket calls return is an argument: \<open>net_api\<close> for the set-up, a list
  of results for the calls of \<open>write\<close>, and for each round of the poll loop a record of what the
  round sees. The capture thread runs meanwhile, so a round carries the shared state as it is
  when the round takes the lock.
\<close>

section \<open>The listening socket\<close>

record net_api =
  net_socket :: int
  net_bind :: "int \<Rightarrow> u16 \<Rightarrow> int"
  net_listen :: "int \<Rightarrow> int \<Rightarrow> int"
  net_error :: cstring

text \<open>
  The port is an \<open>int\<close> that \<open>htons\<close> cuts to 16 bits. The result is the descriptor or -1, with the
  console and the number of open descriptors.
\<close>

definition close_fd :: "int \<Rightarrow> int" where
  "close_fd fds = fds - 1"

definition server_listen ::
    "net_api \<Rightarrow> 'l env \<Rightarrow> int \<Rightarrow> logger \<Rightarrow> int \<Rightarrow> (int \<times> logger \<times> int) outcome" where
  "server_listen N E port lg fds =
     (let fd = net_socket N in
      if fd = -1 then
        and_then (log_message (log_time E) ERROR
          (str ''Failed to setup the stats listener, err: '' @ net_error N) lg) (\<lambda>lg. Done (-1, lg, fds))
      else
        let fds = fds + 1 in
        if net_bind N fd (word_of_int port) < 0 then
          and_then (log_message (log_time E) ERROR
            (str ''Failed to bind stats port('' @ show_int port @ str ''), err: '' @ net_error N) lg)
            (\<lambda>lg. Done (-1, lg, close_fd fds))
        else if net_listen N fd 511 < 0 then
          and_then (log_message (log_time E) ERROR
            (str ''Failed to listen on stats port('' @ show_int port @ str ''), err: '' @ net_error N) lg)
            (\<lambda>lg. Done (-1, lg, close_fd fds))
        else Done (fd, lg, fds))"

section \<open>Writing a response\<close>

text \<open>
  A call of \<open>write\<close> takes at most the bytes it was offered, is interrupted, fails, or finds that the client has closed
  the connection. The program leaves \<open>SIGPIPE\<close> at its default, so that the last ends the process. The loop
  over a list of results is \<open>None\<close> where it would call \<open>write\<close> once more than the list has
  results: the thread is still writing.
\<close>

datatype write_result = Wrote nat | Interrupted | WriteFailed | ClientGone

definition SIGPIPE_STATUS :: int where
  "SIGPIPE_STATUS = 128 + 13"

fun write_all :: "write_result list \<Rightarrow> byte list \<Rightarrow> nat \<Rightarrow> byte list \<Rightarrow> byte list option outcome" where
  "write_all rs buf off sent =
     (if off < length buf then
        (case rs of
           [] \<Rightarrow> Done None
         | Wrote n # rs \<Rightarrow>
             (let n = min n (length buf - off) in
              if 0 < n then write_all rs buf (off + n) (sent @ take n (drop off buf)) else Done (Some sent))
         | Interrupted # rs \<Rightarrow> write_all rs buf off sent
         | WriteFailed # rs \<Rightarrow> Done (Some sent)
         | ClientGone # rs \<Rightarrow> Exited SIGPIPE_STATUS)
      else Done (Some sent))"

declare write_all.simps [simp del]

section \<open>The poll loop\<close>

record ('p, 'l, 'b, 'd) round =
  rd_stopped :: int
  rd_poll :: int
  rd_accept :: int
  rd_seen :: "('p, 'l, 'b, 'd) capture"
  rd_writes :: "write_result list"

text \<open>
  A request that was accepted: the text, if any, is written up to its NUL and freed. The result
  is what the client received, \<open>None\<close> while the write loop still waits, and the allocator.
\<close>

definition serve_request :: "('p, 'l, 'b, 'd) round \<Rightarrow> (byte list option \<times> mem) outcome" where
  "serve_request rd =
     and_then (server_stats_to_json (rd_seen rd)) (\<lambda>(out, c).
       case out of
         None \<Rightarrow> Done (Some [], heap c)
       | Some cells \<Rightarrow>
           (case cell_strlen cells of
              None \<Rightarrow> Undefined
            | Some n \<Rightarrow>
                and_then (write_all (rd_writes rd) (map the (take n cells)) 0 []) (\<lambda>sent. Done (sent, mfree (heap c)))))"

text \<open>
  The loop over the rounds; the result is what each client received, whether the loop has
  ended, and the descriptors that are open.
\<close>

fun poll_loop ::
    "('p, 'l, 'b, 'd) round list \<Rightarrow> byte list list \<Rightarrow> int \<Rightarrow> (byte list list \<times> bool \<times> int) outcome" where
  "poll_loop [] out fds = Done (out, False, fds)"
| "poll_loop (rd # rds) out fds =
     (if rd_stopped rd \<noteq> 0 then Done (out, True, fds)
      else if rd_poll rd \<le> 0 then poll_loop rds out fds
      else if rd_accept rd < 0 then poll_loop rds out fds
      else
        and_then (serve_request rd) (\<lambda>(sent, m).
          case sent of
            None \<Rightarrow> Done (out, False, fds + 1)
          | Some bs \<Rightarrow> poll_loop rds (out @ [bs]) (close_fd (fds + 1))))"

definition server_stats_loop ::
    "net_api \<Rightarrow> 'l env \<Rightarrow> int \<Rightarrow> ('p, 'l, 'b, 'd) round list \<Rightarrow> logger \<Rightarrow> int \<Rightarrow>
     (byte list list \<times> bool \<times> logger \<times> int) outcome" where
  "server_stats_loop N E port rds lg fds =
     and_then (server_listen N E port lg fds) (\<lambda>(listen_fd, lg, fds).
       if listen_fd = -1 then
         and_then (log_message (log_time E) WARN
           (str ''The latency stats are not served on port '' @ show_int port) lg)
           (\<lambda>lg. Done ([], True, lg, fds))
       else
         and_then (poll_loop rds [] fds) (\<lambda>(out, ended, fds).
           Done (out, ended, lg, if ended then close_fd fds else fds)))"

section \<open>The write loop sends a prefix, and everything unless a write fails\<close>

lemma write_all_steps:
  "length buf \<le> off \<Longrightarrow> write_all rs buf off sent = Done (Some sent)"
  "off < length buf \<Longrightarrow> write_all [] buf off sent = Done None"
  "off < length buf \<Longrightarrow> write_all (Wrote n # rs) buf off sent =
     (let k = min n (length buf - off) in
      if n = 0 then Done (Some sent) else write_all rs buf (off + k) (sent @ take k (drop off buf)))"
  "off < length buf \<Longrightarrow> write_all (Interrupted # rs) buf off sent = write_all rs buf off sent"
  "off < length buf \<Longrightarrow> write_all (WriteFailed # rs) buf off sent = Done (Some sent)"
  "off < length buf \<Longrightarrow> write_all (ClientGone # rs) buf off sent = Exited SIGPIPE_STATUS"
  by (simp_all add: write_all.simps [of rs] write_all.simps [of "[]"] write_all.simps [of "_ # _"] Let_def)

lemma write_all_prefix:
  "off \<le> length buf \<Longrightarrow> write_all rs buf off (take off buf) = Done (Some out) \<Longrightarrow> out = take (length out) buf"
proof (induction rs arbitrary: off)
  case Nil
  then show ?case by (cases "off < length buf") (auto simp: write_all_steps)
next
  case (Cons r rs)
  show ?case
  proof (cases "off < length buf")
    case True
    show ?thesis
    proof (cases r)
      case (Wrote n)
      have "off + min n (length buf - off) \<le> length buf" using True by simp
      from Cons.IH [OF this] Cons.prems(2) True Wrote show ?thesis
        by (auto simp: write_all_steps Let_def take_add [symmetric] split: if_splits)
    next
      case Interrupted
      from Cons.IH [OF Cons.prems(1)] Cons.prems(2) True Interrupted show ?thesis by (simp add: write_all_steps)
    qed (use Cons.prems True in \<open>auto simp: write_all_steps\<close>)
  qed (use Cons.prems in \<open>auto simp: write_all_steps\<close>)
qed

text \<open>The loop returns, or the client is gone and the process with it.\<close>

lemma write_all_ends:
  "(\<exists>sent'. write_all rs buf off sent = Done sent') \<or> ClientGone \<in> set rs \<and> write_all rs buf off sent = Exited SIGPIPE_STATUS"
proof (induction rs arbitrary: off sent)
  case Nil
  then show ?case by (cases "off < length buf") (simp_all add: write_all_steps)
next
  case (Cons r rs)
  show ?case
  proof (cases "off < length buf")
    case True
    with Cons.IH show ?thesis by (cases r) (auto simp: write_all_steps Let_def)
  qed (simp add: write_all_steps)
qed

text \<open>Results that make progress: no failure, and as many writes of at least a byte as there are bytes.\<close>

definition progress :: "write_result list \<Rightarrow> nat \<Rightarrow> bool" where
  "progress rs n \<longleftrightarrow>
     WriteFailed \<notin> set rs \<and> ClientGone \<notin> set rs \<and> Wrote 0 \<notin> set rs \<and> n \<le> length (filter (\<lambda>r. r \<noteq> Interrupted) rs)"

lemma write_all_complete:
  "off \<le> length buf \<Longrightarrow> progress rs (length buf - off) \<Longrightarrow> write_all rs buf off (take off buf) = Done (Some buf)"
proof (induction rs arbitrary: off)
  case Nil
  then show ?case by (cases "off < length buf") (auto simp: write_all_steps progress_def)
next
  case (Cons r rs)
  show ?case
  proof (cases "off < length buf")
    case True
    show ?thesis
    proof (cases r)
      case (Wrote n)
      let ?k = "min n (length buf - off)"
      have k: "0 < ?k" "off + ?k \<le> length buf" using Cons.prems(2) Wrote True by (auto simp: progress_def)
      then have "progress rs (length buf - (off + ?k))"
        using Cons.prems(2) Wrote by (auto simp: progress_def)
      with Cons.IH [OF k(2)] k(1) True Wrote show ?thesis
        by (simp add: write_all_steps Let_def take_add [symmetric])
    next
      case Interrupted
      with Cons True show ?thesis by (simp add: write_all_steps progress_def)
    qed (use Cons.prems in \<open>auto simp: progress_def\<close>)
  qed (use Cons.prems in \<open>simp add: write_all_steps\<close>)
qed

section \<open>Rounds\<close>

definition round_text :: "('p, 'l, 'b, 'd) round \<Rightarrow> byte list" where
  "round_text rd = server_text (table_values (the (syn_tab (sniffer (rd_seen rd)))))"

text \<open>A round in which nothing keeps the response from being complete.\<close>

definition answerable :: "('p, 'l, 'b, 'd) round \<Rightarrow> bool" where
  "answerable rd \<longleftrightarrow>
     outcomes (heap (rd_seen rd)) = [] \<and>
     list_all small_stats (table_values (the (syn_tab (sniffer (rd_seen rd))))) \<and>
     length (round_text rd) + 2 \<le> 2147483647 \<and> progress (rd_writes rd) (length (round_text rd))"

definition accepted :: "('p, 'l, 'b, 'd) round \<Rightarrow> bool" where
  "accepted rd \<longleftrightarrow> 0 < rd_poll rd \<and> 0 \<le> rd_accept rd"

definition before_stop :: "('p, 'l, 'b, 'd) round list \<Rightarrow> ('p, 'l, 'b, 'd) round list" where
  "before_stop rds = takeWhile (\<lambda>rd. rd_stopped rd = 0) rds"

definition client_leaves :: "('p, 'l, 'b, 'd) round \<Rightarrow> bool" where
  "client_leaves rd \<longleftrightarrow> accepted rd \<and> ClientGone \<in> set (rd_writes rd)"

lemma serve_request_answers:
  assumes "capture_ok (rd_seen rd)"
  shows "(\<exists>sent m. serve_request rd = Done (sent, m) \<and>
           (answerable rd \<longrightarrow> sent = Some (round_text rd) \<and> live m = live (heap (rd_seen rd)))) \<or>
    ClientGone \<in> set (rd_writes rd) \<and> serve_request rd = Exited SIGPIPE_STATUS"
proof -
  let ?c = "rd_seen rd" and ?sts = "table_values (the (syn_tab (sniffer (rd_seen rd))))"
  from stats_json_text [OF assms] obtain out m where
    r: "server_stats_to_json ?c = Done (out, ?c\<lparr>heap := m\<rparr>)"
    and o: "out = None \<or> (\<exists>t. out = Some (map Some (t @ [0])) \<and> 0 \<notin> set t)"
    and exact: "outcomes (heap ?c) = [] \<and> list_all small_stats ?sts \<and> length (server_text ?sts) + 2 \<le> 2147483647 \<longrightarrow>
      out = Some (map Some (server_text ?sts @ [0])) \<and> live m = live (heap ?c) + 1"
    by (auto simp: Let_def)
  from o show ?thesis
  proof (elim disjE exE conjE)
    assume "out = None"
    with r exact show ?thesis by (auto simp: serve_request_def answerable_def round_text_def)
  next
    fix t assume t: "out = Some (map Some (t @ [0]))" "0 \<notin> set t"
    have "cell_strlen (map Some (t @ [0])) = Some (length t)"
      using cell_strlen_text [OF t(2), of "[]"] by simp
    then have run: "serve_request rd = and_then (write_all (rd_writes rd) t 0 []) (\<lambda>sent. Done (sent, mfree m))"
      using r t(1) by (simp add: serve_request_def comp_def)
    have "write_all (rd_writes rd) t 0 [] = Done (Some t) \<and> live (mfree m) = live (heap ?c)" "t = round_text rd"
      if "answerable rd"
      using that exact t(1) write_all_complete [of 0 t "rd_writes rd"]
      by (auto simp: answerable_def round_text_def)
    with run write_all_ends [of "rd_writes rd" t 0 "[]"] show ?thesis by auto
  qed
qed

lemma poll_loop_serves:
  "\<forall>rd \<in> set rds. capture_ok (rd_seen rd) \<Longrightarrow>
   (\<exists>resp ended fds'. poll_loop rds out fds = Done (out @ resp, ended, fds') \<and> (ended \<longrightarrow> fds' = fds) \<and>
     ((\<forall>rd \<in> set (before_stop rds). accepted rd \<longrightarrow> answerable rd) \<longrightarrow>
       resp = map round_text (filter accepted (before_stop rds)) \<and>
       (ended \<longleftrightarrow> before_stop rds \<noteq> rds) \<and> fds' = fds)) \<or>
   (\<exists>rd \<in> set (before_stop rds). client_leaves rd) \<and> poll_loop rds out fds = Exited SIGPIPE_STATUS"
proof (induction rds arbitrary: out)
  case (Cons rd rds)
  then have ok: "capture_ok (rd_seen rd)" "\<forall>rd \<in> set rds. capture_ok (rd_seen rd)" by simp_all
  note IH = Cons.IH [OF ok(2)]
  show ?case
  proof (cases "rd_stopped rd = 0 \<and> accepted rd")
    case False
    show ?thesis
    proof (cases "rd_stopped rd = 0")
      case True
      with False have run: "poll_loop (rd # rds) out fds = poll_loop rds out fds" by (auto simp: accepted_def)
      have bs: "before_stop (rd # rds) = rd # before_stop rds" using True by (simp add: before_stop_def)
      from False True have no: "\<not> accepted rd" by simp
      show ?thesis using IH [of out] unfolding run bs by (simp add: no client_leaves_def)
    qed (simp add: before_stop_def exI [of _ True])
  next
    case True
    have bs: "before_stop (rd # rds) = rd # before_stop rds" using True by (simp add: before_stop_def)
    show ?thesis
    proof (cases "serve_request rd = Exited SIGPIPE_STATUS \<and> ClientGone \<in> set (rd_writes rd)")
      case exit: True
      with True have "poll_loop (rd # rds) out fds = Exited SIGPIPE_STATUS" by (simp add: accepted_def)
      with bs exit True show ?thesis by (simp add: client_leaves_def)
    next
      case False
      with serve_request_answers [OF ok(1)] obtain sent m where
        s: "serve_request rd = Done (sent, m)" "answerable rd \<longrightarrow> sent = Some (round_text rd)" by blast
      show ?thesis
      proof (cases sent)
        case None
        with s True show ?thesis by (auto simp: before_stop_def accepted_def)
      next
        case (Some t)
        have run: "poll_loop (rd # rds) out fds = poll_loop rds (out @ [t]) fds"
          using s(1) True Some by (simp add: accepted_def close_fd_def)
        from IH [of "out @ [t]"] show ?thesis
        proof (elim disjE exE conjE)
          fix resp ended fds' assume p: "poll_loop rds (out @ [t]) fds = Done ((out @ [t]) @ resp, ended, fds')" "ended \<longrightarrow> fds' = fds"
            "(\<forall>rd \<in> set (before_stop rds). accepted rd \<longrightarrow> answerable rd) \<longrightarrow>
               resp = map round_text (filter accepted (before_stop rds)) \<and>
               (ended \<longleftrightarrow> before_stop rds \<noteq> rds) \<and> fds' = fds"
          then show ?thesis using run bs s(2) True Some
            by (intro disjI1 exI [of _ "t # resp"] exI [of _ ended] exI [of _ fds']) auto
        qed (use run bs in auto)
      qed
    qed
  qed
qed (auto simp: before_stop_def)

lemma log_message_done:
  "log_fp lg \<noteq> None \<Longrightarrow> l \<noteq> FATAL \<Longrightarrow> \<exists>lg'. log_message t l txt lg = Done lg' \<and> log_fp lg' \<noteq> None"
  by (cases l) (auto simp: log_message_def log_print_def Let_def less_LEVEL_def)

text \<open>The socket calls succeed.\<close>

definition net_ok :: "net_api \<Rightarrow> int \<Rightarrow> bool" where
  "net_ok N port \<longleftrightarrow>
     net_socket N \<noteq> -1 \<and> 0 \<le> net_bind N (net_socket N) (word_of_int port) \<and> 0 \<le> net_listen N (net_socket N) 511"

lemma server_listen_done:
  assumes "log_fp lg \<noteq> None"
  shows "\<exists>fd lg'. server_listen N E port lg fds = Done (fd, lg', if fd = -1 then fds else fds + 1) \<and>
           log_fp lg' \<noteq> None \<and> (fd \<noteq> -1 \<longleftrightarrow> net_ok N port)"
proof (cases "net_ok N port")
  case True
  with assms show ?thesis by (auto simp: server_listen_def net_ok_def Let_def)
next
  case False
  have err: "\<exists>lg'. log_message (log_time E) ERROR msg lg = Done lg' \<and> log_fp lg' \<noteq> None" for msg
    using log_message_done [OF assms, of ERROR] by simp
  consider "net_socket N = -1" | "net_socket N \<noteq> -1" "net_bind N (net_socket N) (word_of_int port) < 0"
    | "net_socket N \<noteq> -1" "0 \<le> net_bind N (net_socket N) (word_of_int port)" "net_listen N (net_socket N) 511 < 0"
    using False unfolding net_ok_def not_le [symmetric] by blast
  then show ?thesis
  proof cases
    case 1
    with False err [of "str ''Failed to setup the stats listener, err: '' @ net_error N"] show ?thesis
      by (auto simp: server_listen_def)
  next
    case 2
    with False err [of "str ''Failed to bind stats port('' @ show_int port @ str ''), err: '' @ net_error N"] show ?thesis
      by (auto simp: server_listen_def Let_def close_fd_def)
  next
    case 3
    with False err [of "str ''Failed to listen on stats port('' @ show_int port @ str ''), err: '' @ net_error N"] show ?thesis
      by (auto simp: server_listen_def Let_def close_fd_def)
  qed
qed

text \<open>
  C35. The statistics thread: whatever the socket calls, the allocator and the clients do, the
  thread never reaches an undefined step, and once it has ended every descriptor it opened is
  closed. It serves exactly where the socket could be set up; then, if nothing keeps the
  responses from being complete, every client accepted before the stop flag is seen receives
  the whole text of the table as it was when its request took the lock, in order, and the thread
  ends at the first round that sees the flag. Only a client that leaves before it has its response ends
  the process, by \<open>SIGPIPE\<close>.
\<close>

theorem stats_loop_serves:
  assumes "\<forall>rd \<in> set rds. capture_ok (rd_seen rd)" "log_fp lg \<noteq> None"
  shows "(\<exists>resp ended lg' fds'. server_stats_loop N E port rds lg fds = Done (resp, ended, lg', fds') \<and>
    (ended \<longrightarrow> fds' = fds) \<and> (\<not> net_ok N port \<longrightarrow> ended \<and> resp = []) \<and>
    (net_ok N port \<and> (\<forall>rd \<in> set (before_stop rds). accepted rd \<longrightarrow> answerable rd) \<longrightarrow>
       resp = map round_text (filter accepted (before_stop rds)) \<and> (ended \<longleftrightarrow> before_stop rds \<noteq> rds))) \<or>
    net_ok N port \<and> (\<exists>rd \<in> set (before_stop rds). client_leaves rd) \<and>
      server_stats_loop N E port rds lg fds = Exited SIGPIPE_STATUS"
proof -
  from server_listen_done [OF assms(2)] obtain fd lg1 where
    l: "server_listen N E port lg fds = Done (fd, lg1, if fd = -1 then fds else fds + 1)" "log_fp lg1 \<noteq> None"
      "fd \<noteq> -1 \<longleftrightarrow> net_ok N port" by blast
  show ?thesis
  proof (cases "fd = -1")
    case True
    from log_message_done [OF l(2), of WARN "log_time E"
        "str ''The latency stats are not served on port '' @ show_int port"] obtain lg2 where
      "log_message (log_time E) WARN (str ''The latency stats are not served on port '' @ show_int port) lg1 = Done lg2"
      by auto
    with l True show ?thesis by (auto simp: server_stats_loop_def)
  next
    case False
    from poll_loop_serves [OF assms(1), of "[]" "fds + 1"] show ?thesis
    proof (elim disjE exE conjE)
      fix resp ended fds' assume
        p: "poll_loop rds [] (fds + 1) = Done ([] @ resp, ended, fds')" "ended \<longrightarrow> fds' = fds + 1"
          "(\<forall>rd \<in> set (before_stop rds). accepted rd \<longrightarrow> answerable rd) \<longrightarrow>
             resp = map round_text (filter accepted (before_stop rds)) \<and> (ended \<longleftrightarrow> before_stop rds \<noteq> rds) \<and> fds' = fds + 1"
      have "server_stats_loop N E port rds lg fds = Done (resp, ended, lg1, if ended then close_fd fds' else fds')"
        using l(1) False p(1) by (simp add: server_stats_loop_def)
      with False l(3) p(2,3) show ?thesis by (auto simp: close_fd_def)
    qed (use False l in \<open>auto simp: server_stats_loop_def\<close>)
  qed
qed

definition demo_round :: "(unit, int, unit, unit) round" where
  "demo_round = \<lparr>rd_stopped = 0, rd_poll = 1, rd_accept = 7, rd_seen = demo_capture, rd_writes = replicate 2000 (Wrote 1)\<rparr>"

definition demo_net :: net_api where
  "demo_net = \<lparr>net_socket = 5, net_bind = (\<lambda>fd port. 0), net_listen = (\<lambda>fd n. 0), net_error = []\<rparr>"

theorem stats_loop_serves_witness:
  "\<exists>resp ended lg' fds'. server_stats_loop demo_net demo_env 33333 [demo_round, demo_round\<lparr>rd_stopped := 1\<rparr>]
      demo_logger 0 = Done (resp, ended, lg', fds') \<and> resp = [server_text [demo_stats]] \<and> ended \<and> fds' = 0"
proof -
  let ?rds = "[demo_round, demo_round\<lparr>rd_stopped := 1\<rparr>]"
  have ok: "\<forall>rd \<in> set ?rds. capture_ok (rd_seen rd)" "log_fp demo_logger \<noteq> None"
    using demo_capture_ok by (simp_all add: demo_round_def demo_logger_def)
  have "net_ok demo_net 33333" by (simp add: net_ok_def demo_net_def)
  moreover have "before_stop ?rds = [demo_round]" by (simp add: before_stop_def demo_round_def)
  moreover have rt: "round_text demo_round = server_text [demo_stats]"
    using demo_values by (simp add: round_text_def demo_round_def)
  moreover have "progress (replicate 2000 (Wrote 1)) (length (server_text [demo_stats]))"
    using demo_text_short by (simp add: progress_def)
  then have "answerable demo_round"
    using demo_values demo_stats_small demo_text_short demo_tracking(2) rt
    by (simp add: answerable_def demo_round_def)
  moreover have "accepted demo_round" by (simp add: accepted_def demo_round_def)
  moreover have "\<not> client_leaves demo_round" by (simp add: client_leaves_def demo_round_def)
  ultimately show ?thesis using stats_loop_serves [OF ok, of demo_net demo_env 33333 0] by auto
qed

end
