(* ===== verification/Lifecycle.thy ===== *)
theory Lifecycle
  imports Stats_Loop
begin

text \<open>
  The life of the server of \<open>src/server.c\<close>: creation with its error path, the run, termination
  and destruction, and the interplay of the main thread, the signal handler and the statistics
  thread as a step relation. The step relation keeps of the shared data only what the life of the
  server depends on: the struct itself, which is \<open>None\<close> once freed, and the positions of the
  two threads. A use of the freed struct is recorded as a fault, so that its absence is a property
  of the reachable states.
\<close>

section \<open>The server\<close>

record ('p, 'l, 'b, 'd) server =
  sv_opts :: options
  sv_sniffer :: "('p, 'l, 'b, 'd) sniffer option"
  stats_tid :: int
  stopped :: int

text \<open>
  What the server uses of libpcap and of the threads: \<open>pthread_create\<close> gives an error number or the
  thread's identifier, which is not 0 on the systems the code is written for.
\<close>

record 'p sys_api =
  pcap_breakloop :: "'p \<Rightarrow> 'p"
  pcap_stats :: "'p \<Rightarrow> (u32 \<times> u32 \<times> u32) option"
  pthread_create :: "int + int"
  sys_error :: cstring

definition sniffer_terminate ::
    "'p sys_api \<Rightarrow> ('p, 'l, 'b, 'd) sniffer option \<Rightarrow> ('p, 'l, 'b, 'd) sniffer option" where
  "sniffer_terminate S sn =
     (case sn of
        None \<Rightarrow> None
      | Some s \<Rightarrow>
          (case pcap s of
             None \<Rightarrow> Some s
           | Some h \<Rightarrow> Some (s\<lparr>pcap := Some (pcap_breakloop S h)\<rparr>)))"

definition server_terminate ::
    "'p sys_api \<Rightarrow> ('p, 'l, 'b, 'd) server option \<Rightarrow> ('p, 'l, 'b, 'd) server option" where
  "server_terminate S srv =
     (case srv of
        None \<Rightarrow> None
      | Some v \<Rightarrow>
          if stopped v \<noteq> 0 then Some v
          else Some (v\<lparr>stopped := 1, sv_sniffer := sniffer_terminate S (sv_sniffer v)\<rparr>))"

text \<open>
  The thread that \<open>pthread_create\<close> starts is counted until it is joined. It reads the server until it ends: freeing the
  server of a thread that was not joined is undefined, as \<open>failed_run_faults\<close> below shows step by step.
\<close>

definition server_destroy :: "('p, 'l, 'b, 'd) server option \<Rightarrow> resources \<Rightarrow> resources outcome" where
  "server_destroy srv r =
     (case srv of
        None \<Rightarrow> Done r
      | Some v \<Rightarrow>
          if stats_tid v \<noteq> 0 \<and> r_thread r \<noteq> 0 then Undefined
          else (let r = sniffer_destroy (sv_sniffer v) r in Done (r\<lparr>r_mem := mfree (r_mem r)\<rparr>)))"

definition server_spwan_stats_thread ::
    "'p sys_api \<Rightarrow> ('p, 'l, 'b, 'd) server \<Rightarrow> resources \<Rightarrow> int \<times> ('p, 'l, 'b, 'd) server \<times> resources" where
  "server_spwan_stats_thread S srv r =
     (case pthread_create S of
        Inl ret \<Rightarrow> (ret, srv, r)
      | Inr tid \<Rightarrow> (0, srv\<lparr>stats_tid := tid\<rparr>, r\<lparr>r_thread := r_thread r + 1\<rparr>))"

text \<open>\<open>pthread_join\<close>, where there is a thread: the statistics thread ends once the server is stopped, see \<open>server_shuts_down\<close>.\<close>

definition join_stats :: "('p, 'l, 'b, 'd) server option \<Rightarrow> resources \<Rightarrow> resources" where
  "join_stats srv r =
     (case srv of None \<Rightarrow> r | Some v \<Rightarrow> if stats_tid v \<noteq> 0 then r\<lparr>r_thread := r_thread r - 1\<rparr> else r)"

text \<open>The label \<open>error\<close>.\<close>

definition server_fail :: "'p sys_api \<Rightarrow> ('p, 'l, 'b, 'd) server \<Rightarrow> resources \<Rightarrow> resources outcome" where
  "server_fail S srv r = (let srv = server_terminate S (Some srv) in server_destroy srv (join_stats srv r))"

definition server_create ::
    "('p, 'b, 'd) pcap_api \<Rightarrow> 'l lua_api \<Rightarrow> 'p sys_api \<Rightarrow> options \<Rightarrow> resources \<Rightarrow>
     ((cstring + ('p, 'l, 'b, 'd) server) \<times> options \<times> resources) outcome" where
  "server_create A L S opts r =
     (case malloc (r_mem r) of
        (False, m) \<Rightarrow> Done (Inl (err_text (str ''out of memory'')), opts, r\<lparr>r_mem := m\<rparr>)
      | (True, m) \<Rightarrow>
          and_then (sniffer_create A L opts (r\<lparr>r_mem := m\<rparr>)) (\<lambda>(sn, opts, r).
            let srv = \<lparr>sv_opts = opts, sv_sniffer = None, stats_tid = 0, stopped = 0\<rparr> in
            case sn of
              Inl e \<Rightarrow> and_then (server_fail S srv r) (\<lambda>r. Done (Inl e, opts, r))
            | Inr s \<Rightarrow>
                (let srv = srv\<lparr>sv_sniffer := Some s\<rparr> in
                 if o_protocol opts \<noteq> ProtocolRaw then
                   (case server_spwan_stats_thread S srv r of
                      (ret, srv, r) \<Rightarrow>
                        if ret \<noteq> 0 then
                          and_then (server_fail S srv r)
                            (\<lambda>r. Done (Inl (err_text (str ''create the stats thread: '' @ sys_error S)), opts, r))
                        else Done (Inr srv, opts, r))
                 else Done (Inr srv, opts, r))))"

text \<open>The report on the interface, printed for a live capture.\<close>

definition rule_line :: "byte list" where
  "rule_line = str ''======================== interface stats ========================'' @ [10]"

definition print_stats :: "u32 \<times> u32 \<times> u32 \<Rightarrow> logger \<Rightarrow> logger" where
  "print_stats st lg =
     (case st of
        (ps_recv, ps_drop, ps_ifdrop) \<Rightarrow>
          out_print rule_line
            (out_print (show_nat (unat ps_ifdrop) @ str '' packets dropped by interface'' @ [10])
              (out_print (show_nat (unat ps_drop) @ str '' packets dropped by kernel'' @ [10])
                (out_print (show_nat (unat ps_recv) @ str '' packets received by filter'' @ [10])
                  (out_print (10 # rule_line) lg)))))"

text \<open>
  The run, with the frames the capture delivers and the result \<open>rc\<close> of \<open>pcap_loop\<close>. A failed loop returns
  without the join.
\<close>

definition server_run ::
    "('p, 'b, 'd) pcap_api \<Rightarrow> 'l env \<Rightarrow> 'p sys_api \<Rightarrow> (pkthdr \<times> byte list) list \<Rightarrow> int \<Rightarrow>
     ('p, 'l, 'b, 'd) server \<Rightarrow> resources \<Rightarrow> logger \<Rightarrow> int \<Rightarrow>
     ((cstring + unit) \<times> ('p, 'l, 'b, 'd) server option \<times> resources \<times> logger) outcome" where
  "server_run A E S frames rc srv r lg gc =
     (case sv_sniffer srv of
        None \<Rightarrow> Undefined
      | Some s \<Rightarrow>
          and_then (sniffer_run A E frames rc \<lparr>sniffer = s, heap = r_mem r, console = lg, gc_count = gc\<rparr>)
            (\<lambda>(ret, c).
              let srv = server_terminate S (Some (srv\<lparr>sv_sniffer := Some (sniffer c)\<rparr>));
                  r = r\<lparr>r_mem := heap c\<rparr>; lg = console c
              in case Option.bind (Option.bind srv sv_sniffer) pcap of
                   None \<Rightarrow> Undefined
                 | Some h \<Rightarrow>
                     if ret = -1 then Done (Inl (err_text (pcap_geterr A h)), srv, r, lg)
                     else
                       (let r = join_stats srv r in
                        if o_offline_file (sv_opts (the srv)) = None then
                          (case pcap_stats S h of
                             Some st \<Rightarrow> Done (Inr (), srv, r, print_stats st lg)
                           | None \<Rightarrow>
                               and_then (log_message (log_time E) WARN
                                 (str ''Failed to read the interface stats, err: '' @ pcap_geterr A h) lg)
                                 (\<lambda>lg. Done (Inr (), srv, r, lg)))
                        else Done (Inr (), srv, r, lg))))"

section \<open>Creation gives everything back\<close>

text \<open>What a destruction leaves, where there is no thread to run into it.\<close>

lemma server_destroy_levels:
  assumes "tables_owned s" "sv_sniffer v = Some s" "stats_tid v \<noteq> 0 \<longrightarrow> r_thread r = 0"
  obtains r' where "server_destroy (Some v) r = Done r'"
    "kept_levels opts (levels r') = kept_levels opts (rest_levels s (r\<lparr>r_mem := mfree (r_mem r)\<rparr>))"
proof -
  let ?r = "sniffer_destroy (Some s) r"
  have "kept_levels opts (levels (?r\<lparr>r_mem := mfree (r_mem ?r)\<rparr>)) = kept_levels opts (rest_levels s (r\<lparr>r_mem := mfree (r_mem r)\<rparr>))"
    using destroy_levels [OF assms(1), of r] by (simp add: levels_def rest_levels_def kept_levels_def)
  with assms(2,3) show thesis by (intro that [of "?r\<lparr>r_mem := mfree (r_mem ?r)\<rparr>"]) (auto simp: server_destroy_def Let_def)
qed

lemma server_terminate_stops:
  "\<exists>v'. server_terminate S (Some v) = Some v' \<and> stopped v' \<noteq> 0 \<and> stats_tid v' = stats_tid v \<and> sv_opts v' = sv_opts v"
  by (simp add: server_terminate_def)

text \<open>Breaking the loop changes the handle only.\<close>

lemma terminated_sniffer:
  assumes "sv_sniffer v = Some s" "tables_owned s"
  shows "\<exists>v' s'. server_terminate S (Some v) = Some v' \<and> sv_sniffer v' = Some s' \<and> tables_owned s' \<and>
           stats_tid v' = stats_tid v \<and> sv_opts v' = sv_opts v \<and> (\<forall>r. rest_levels s' r = rest_levels s r)"
  using assms
  by (cases "pcap s")
    (auto simp: server_terminate_def sniffer_terminate_def tables_owned_def rest_levels_def sniffer_blocks_def)

lemma server_fail_levels:
  assumes "sv_sniffer v = Some s" "tables_owned s" "stats_tid v = 0"
  obtains r' where "server_fail S v r = Done r'"
    "kept_levels opts (levels r') = kept_levels opts (rest_levels s (r\<lparr>r_mem := mfree (r_mem r)\<rparr>))"
proof -
  from terminated_sniffer [OF assms(1,2), of S] obtain v' s' where
    v': "server_terminate S (Some v) = Some v'" "sv_sniffer v' = Some s'" "tables_owned s'" "stats_tid v' = 0"
      "\<forall>r. rest_levels s' r = rest_levels s r" using assms(3) by auto
  from server_destroy_levels [OF v'(3,2), of r opts] v'(4) obtain r' where
    "server_destroy (Some v') r = Done r'"
    "kept_levels opts (levels r') = kept_levels opts (rest_levels s' (r\<lparr>r_mem := mfree (r_mem r)\<rparr>))" by auto
  with v' show thesis by (intro that [of r']) (simp_all add: server_fail_def join_stats_def)
qed

text \<open>The server as it is after \<open>server_create\<close>: joined and destroyed it gives every level back.\<close>

definition gives_back :: "options \<Rightarrow> int list \<Rightarrow> ('p, 'l, 'b, 'd) server \<Rightarrow> resources \<Rightarrow> bool" where
  "gives_back opts before v r \<longleftrightarrow>
     (case server_destroy (Some v) (join_stats (Some v) r) of Done r' \<Rightarrow> kept_levels opts (levels r') = before | _ \<Rightarrow> False)"

lemma server_create_levels:
  fixes A :: "('p, 'b, 'd) pcap_api" and L :: "'l lua_api"
  assumes "server_create A L S opts r = Done (res, opts', r')" "pthread_create S \<notin> {Inl 0, Inr 0}" "r_thread r = 0"
  shows "case res of
      Inl e \<Rightarrow>
        kept_levels opts' (levels r') = kept_levels opts (levels r) \<or>
        o_script opts \<noteq> None \<and>
        kept_levels opts' (levels r') = (kept_levels opts (levels r))[4 := levels r ! 4 + 1]
    | Inr v \<Rightarrow>
        gives_back opts' (kept_levels opts (levels r)) v r' \<and>
        stopped v = 0 \<and> sv_opts v = opts' \<and> (\<exists>s. sv_sniffer v = Some s \<and> created_ok s) \<and>
        (stats_tid v \<noteq> 0 \<longleftrightarrow> o_protocol opts' \<noteq> ProtocolRaw) \<and> r_thread r' = (if stats_tid v \<noteq> 0 then 1 else 0)"
proof -
  obtain ok m where m: "malloc (r_mem r) = (ok, m)" by fastforce
  show ?thesis
  proof (cases ok)
    case False
    with m malloc_live(2) [of "r_mem r" m] assms(1) show ?thesis
      by (auto simp: server_create_def levels_def kept_levels_def)
  next
    case True
    let ?r1 = "r\<lparr>r_mem := m\<rparr>"
    have live: "live m = live (r_mem r) + 1" using m True malloc_live(1) by auto
    obtain sn opts1 r1 where c: "sniffer_create A L opts ?r1 = Done (sn, opts1, r1)"
      using assms(1) m True by (cases "sniffer_create A L opts ?r1") (auto simp: server_create_def)
    note bal = create_balanced [OF c]
    let ?v = "\<lparr>sv_opts = opts1, sv_sniffer = None, stats_tid = 0, stopped = 0\<rparr> :: ('p, 'l, 'b, 'd) server"
    show ?thesis
    proof (cases sn)
      case (Inl e)
      have fl: "server_fail S ?v r1 = Done (r1\<lparr>r_mem := mfree (r_mem r1)\<rparr>)"
        by (simp add: server_fail_def server_terminate_def sniffer_terminate_def server_destroy_def
            sniffer_destroy_def join_stats_def)
      then have "res = Inl e" "opts' = opts1" "r' = r1\<lparr>r_mem := mfree (r_mem r1)\<rparr>"
        using assms(1) m True c Inl by (auto simp: server_create_def)
      then show ?thesis using bal Inl live
        by (auto simp: balanced_def kept_levels_def levels_def)
    next
      case (Inr s)
      let ?w = "?v\<lparr>sv_sniffer := Some s\<rparr>"
      from bal Inr have k: "kept_levels opts1 (rest_levels s r1) = kept_levels opts (levels ?r1)" "created_ok s"
        by (simp_all add: balanced_def)
      then have own: "tables_owned s" by (auto simp: created_ok_def tables_owned_def table_ok_def)
      have th: "r_thread r1 = 0" using k(1) assms(3) by (simp add: kept_levels_def rest_levels_def levels_def)
      have restored: "kept_levels opts1 (rest_levels s (r1\<lparr>r_mem := mfree (r_mem r1)\<rparr>)) = kept_levels opts (levels r)"
        using k(1) live by (simp add: kept_levels_def rest_levels_def levels_def)
      have giv: "gives_back opts1 (kept_levels opts (levels r)) v q"
        if v: "sv_sniffer v = Some s" "join_stats (Some v) q = r1" for v q
        using server_destroy_levels [OF own v(1), of r1 opts1] th restored v(2) by (force simp: gives_back_def)
      obtain rf where rf: "server_fail S ?w r1 = Done rf" "kept_levels opts1 (levels rf) = kept_levels opts (levels r)"
        using server_fail_levels [of ?w s S r1 opts1] own restored by auto
      have res: "(res, opts', r') =
          (if o_protocol opts1 = ProtocolRaw then (Inr ?w, opts1, r1)
           else case pthread_create S of
             Inl ret \<Rightarrow> (Inl (err_text (str ''create the stats thread: '' @ sys_error S)), opts1, rf)
           | Inr tid \<Rightarrow> (Inr (?w\<lparr>stats_tid := tid\<rparr>), opts1, r1\<lparr>r_thread := r_thread r1 + 1\<rparr>))"
        using assms m True c Inr rf(1)
        by (auto simp: server_create_def server_spwan_stats_thread_def Let_def split: sum.splits)
      have join: "join_stats (Some ?w) r1 = r1" "tid \<noteq> 0 \<Longrightarrow> join_stats (Some (?w\<lparr>stats_tid := tid\<rparr>)) (r1\<lparr>r_thread := r_thread r1 + 1\<rparr>) = r1" for tid
        by (simp_all add: join_stats_def)
      show ?thesis
        using res assms(2) rf(2) k(2) th giv [of ?w r1] giv [of "?w\<lparr>stats_tid := _\<rparr>"] join
        by (auto split: sum.splits if_splits)
    qed
  qed
qed

text \<open>
  C20. Creation of the server: for every behaviour of libpcap, of the interpreter and of the
  thread library and every pattern of allocation failures, a \<open>server_create\<close> that fails leaves the
  blocks, handles, streams, lists of devices and threads that were there before, an interpreter lost by a script that
  does not load apart. One that succeeds gives a server that is not stopped, whose sniffer is in a
  well-formed state, and that has a statistics thread exactly if a protocol is tracked; joining the thread and destroying
  the server brings every level back.
\<close>

theorem server_create_balanced:
  fixes A :: "('p, 'b, 'd) pcap_api" and L :: "'l lua_api"
  assumes "server_create A L S opts r = Done (res, opts', r')" "pthread_create S \<notin> {Inl 0, Inr 0}" "r_thread r = 0"
  shows "case res of
      Inl e \<Rightarrow>
        kept_levels opts' (levels r') = kept_levels opts (levels r) \<or>
        o_script opts \<noteq> None \<and>
        kept_levels opts' (levels r') = (kept_levels opts (levels r))[4 := levels r ! 4 + 1]
    | Inr v \<Rightarrow>
        gives_back opts' (kept_levels opts (levels r)) v r' \<and>
        stopped v = 0 \<and> sv_opts v = opts' \<and> (\<exists>s. sv_sniffer v = Some s \<and> created_ok s) \<and>
        (stats_tid v \<noteq> 0 \<longleftrightarrow> o_protocol opts' \<noteq> ProtocolRaw) \<and> r_thread r' = (if stats_tid v \<noteq> 0 then 1 else 0)"
  by (rule server_create_levels [OF assms])

definition demo_sys :: "unit sys_api" where
  "demo_sys =
     \<lparr>pcap_breakloop = id, pcap_stats = (\<lambda>h. Some (5, 0, 0)), pthread_create = Inr 77, sys_error = str ''error''\<rparr>"

theorem server_create_balanced_witness:
  "\<exists>v opts' r'.
     server_create (demo_pcap\<lparr>pthread_mutex_init := 0\<rparr>) depth_api demo_sys
       ((with_filter default_options)\<lparr>o_protocol := ProtocolRedis\<rparr>) demo_resources = Done (Inr v, opts', r') \<and>
     gives_back opts' (kept_levels ((with_filter default_options)\<lparr>o_protocol := ProtocolRedis\<rparr>) (levels demo_resources)) v r' \<and>
     stats_tid v \<noteq> 0"
proof -
  let ?o = "(with_filter default_options)\<lparr>o_protocol := ProtocolRedis\<rparr>"
  have o: "o_dev ?o = Some (str ''any'')" "o_filter ?o = Some []" "o_script ?o = None" "o_offline_file ?o = None"
    "o_save_file ?o = None" "o_protocol ?o = ProtocolRedis"
    by (simp_all add: with_filter_def default_options_def init_options_def strdup_def malloc_def)
  then have "\<exists>v r'. server_create (demo_pcap\<lparr>pthread_mutex_init := 0\<rparr>) depth_api demo_sys ?o demo_resources =
      Done (Inr v, ?o, r')"
    by (simp add: server_create_def sniffer_create_def sniffer_alloc_def demo_resources_def strdup_def malloc_def
        hashtable_create_def demo_pcap_def demo_sys_def Let_def sniffer_finish_def sniffer_open_def sniffer_online_def
        sniffer_filter_def sniffer_dump_def sniffer_script_def server_spwan_stats_thread_def zero_sniffer_def)
  then obtain v r' where c: "server_create (demo_pcap\<lparr>pthread_mutex_init := 0\<rparr>) depth_api demo_sys ?o demo_resources =
      Done (Inr v, ?o, r')" by blast
  from server_create_balanced [OF c] o(6) show ?thesis using c by (auto simp: demo_sys_def demo_resources_def)
qed

section \<open>Threads\<close>

text \<open>
  Where the main thread is behind a successful \<open>server_create\<close>: inside \<open>pcap_loop\<close>, waiting in
  \<open>pthread_join\<close>, back in \<open>main\<close> with 0 or with -1, or past \<open>server_destroy\<close>. The statistics
  thread is about to listen, at the test of its loop, in \<open>poll\<close>, answering a client, or has
  returned.
\<close>

datatype main_pc = InLoop | Joining | RunDone | RunFailed | Gone
datatype stats_pc = Starting | Testing | Polling | Answering | Ended
datatype fault = StatsFault | SignalFault

record ('p, 'l, 'b, 'd) life =
  l_srv :: "('p, 'l, 'b, 'd) server option"
  l_main :: main_pc
  l_stats :: stats_pc
  l_fds :: int
  l_fault :: "fault option"

text \<open>A thread of the server that starts where \<open>server_create\<close> returned.\<close>

definition life_start :: "('p, 'l, 'b, 'd) server \<Rightarrow> ('p, 'l, 'b, 'd) life" where
  "life_start v =
     \<lparr>l_srv = Some v, l_main = InLoop, l_stats = (if stats_tid v \<noteq> 0 then Starting else Ended), l_fds = 0,
      l_fault = None\<rparr>"

text \<open>
  One step of the statistics thread; \<open>ok\<close> is whether the socket could be set up or a client was
  accepted. The steps that read the struct fault where it is gone.
\<close>

definition stats_step :: "bool \<Rightarrow> ('p, 'l, 'b, 'd) life \<Rightarrow> ('p, 'l, 'b, 'd) life" where
  "stats_step ok x =
     (case l_stats x of
        Ended \<Rightarrow> x
      | Polling \<Rightarrow> if ok then x\<lparr>l_stats := Answering, l_fds := l_fds x + 1\<rparr> else x\<lparr>l_stats := Testing\<rparr>
      | pc \<Rightarrow>
          (case l_srv x of
             None \<Rightarrow> x\<lparr>l_fault := Some StatsFault\<rparr>
           | Some v \<Rightarrow>
               (case pc of
                  Starting \<Rightarrow>
                    if ok then x\<lparr>l_stats := Testing, l_fds := l_fds x + 1\<rparr> else x\<lparr>l_stats := Ended\<rparr>
                | Testing \<Rightarrow>
                    if stopped v \<noteq> 0 then x\<lparr>l_stats := Ended, l_fds := close_fd (l_fds x)\<rparr>
                    else x\<lparr>l_stats := Polling\<rparr>
                | _ \<Rightarrow> x\<lparr>l_stats := Testing, l_fds := close_fd (l_fds x)\<rparr>)))"

text \<open>The main thread: the end of \<open>pcap_loop\<close> with \<open>rc\<close>, the join, and the destruction.\<close>

definition main_step :: "'p sys_api \<Rightarrow> int \<Rightarrow> ('p, 'l, 'b, 'd) life \<Rightarrow> ('p, 'l, 'b, 'd) life" where
  "main_step S rc x =
     (case l_main x of
        InLoop \<Rightarrow>
          (let srv = server_terminate S (l_srv x) in
           x\<lparr>l_srv := srv,
             l_main := if rc = -1 then RunFailed
                       else if (case srv of None \<Rightarrow> False | Some v \<Rightarrow> stats_tid v \<noteq> 0) then Joining else RunDone\<rparr>)
      | Joining \<Rightarrow> if l_stats x = Ended then x\<lparr>l_main := RunDone\<rparr> else x
      | RunDone \<Rightarrow> x\<lparr>l_main := Gone, l_srv := None\<rparr>
      | RunFailed \<Rightarrow> x\<lparr>l_main := Gone, l_srv := None\<rparr>
      | Gone \<Rightarrow> x)"

text \<open>The handler of \<open>SIGINT\<close> and \<open>SIGTERM\<close>: the global pointer still holds the address after the free.\<close>

definition signal_step :: "'p sys_api \<Rightarrow> ('p, 'l, 'b, 'd) life \<Rightarrow> ('p, 'l, 'b, 'd) life" where
  "signal_step S x =
     (case l_srv x of
        None \<Rightarrow> x\<lparr>l_fault := Some SignalFault\<rparr>
      | Some v \<Rightarrow> x\<lparr>l_srv := server_terminate S (Some v)\<rparr>)"

inductive life_step :: "'p sys_api \<Rightarrow> int \<Rightarrow> ('p, 'l, 'b, 'd) life \<Rightarrow> ('p, 'l, 'b, 'd) life \<Rightarrow> bool"
  for S rc where
  by_stats: "life_step S rc x (stats_step ok x)"
| by_main: "life_step S rc x (main_step S rc x)"
| by_signal: "life_step S rc x (signal_step S x)"

inductive_cases life_stepE: "life_step S rc x y"

abbreviation life_reaches ::
    "'p sys_api \<Rightarrow> int \<Rightarrow> ('p, 'l, 'b, 'd) life \<Rightarrow> ('p, 'l, 'b, 'd) life \<Rightarrow> bool" where
  "life_reaches S rc \<equiv> (life_step S rc)\<^sup>*\<^sup>*"

section \<open>The statistics thread ends before the server is freed\<close>

definition stats_fds :: "stats_pc \<Rightarrow> int" where
  "stats_fds pc = (case pc of Starting \<Rightarrow> 0 | Ended \<Rightarrow> 0 | Testing \<Rightarrow> 1 | Polling \<Rightarrow> 1 | Answering \<Rightarrow> 2)"

definition life_inv :: "('p, 'l, 'b, 'd) life \<Rightarrow> bool" where
  "life_inv x \<longleftrightarrow>
     (l_main x = Gone \<longleftrightarrow> l_srv x = None) \<and> l_main x \<noteq> RunFailed \<and>
     (l_main x \<in> {RunDone, Gone} \<longrightarrow> l_stats x = Ended) \<and>
     (\<forall>v. l_srv x = Some v \<longrightarrow>
        (stats_tid v = 0 \<longrightarrow> l_stats x = Ended) \<and> (l_main x \<noteq> InLoop \<longrightarrow> stopped v \<noteq> 0)) \<and>
     l_fault x \<noteq> Some StatsFault \<and> l_fds x = stats_fds (l_stats x)"

lemma life_start_inv: "life_inv (life_start v)"
  by (simp add: life_inv_def life_start_def stats_fds_def)

lemma stats_step_inv: "life_inv x \<Longrightarrow> life_inv (stats_step ok x)"
  by (cases "l_stats x"; cases "l_srv x") (auto simp: life_inv_def stats_step_def stats_fds_def close_fd_def)

lemma main_step_inv:
  assumes "life_inv x" "rc \<noteq> -1"
  shows "life_inv (main_step S rc x)"
proof (cases "l_main x")
  case InLoop
  with assms obtain v where v: "l_srv x = Some v" by (auto simp: life_inv_def)
  from server_terminate_stops [of S v] obtain v' where
    "server_terminate S (Some v) = Some v'" "stopped v' \<noteq> 0" "stats_tid v' = stats_tid v" by blast
  with assms InLoop v show ?thesis by (auto simp: life_inv_def main_step_def)
qed (use assms in \<open>auto simp: life_inv_def main_step_def\<close>)

lemma signal_step_inv: "life_inv x \<Longrightarrow> life_inv (signal_step S x)"
proof (cases "l_srv x")
  case (Some v)
  assume inv: "life_inv x"
  from server_terminate_stops [of S v] obtain v' where
    "server_terminate S (Some v) = Some v'" "stopped v' \<noteq> 0" "stats_tid v' = stats_tid v" by blast
  with inv Some show ?thesis by (auto simp: life_inv_def signal_step_def)
qed (auto simp: life_inv_def signal_step_def)

lemma life_reaches_inv:
  assumes "life_reaches S rc (life_start v) x" "rc \<noteq> -1"
  shows "life_inv x"
  using assms
proof (induction rule: rtranclp_induct)
  case (step y z)
  from step.hyps(2) show ?case
    by (rule life_stepE)
      (use step.IH [OF assms(2)] assms(2) in \<open>auto intro: stats_step_inv main_step_inv signal_step_inv\<close>)
qed (rule life_start_inv)

text \<open>
  C14. No use after free on the way out: if \<open>pcap_loop\<close> did not fail, then however the main thread,
  the statistics thread and signals interleave, and whatever the socket calls return, the
  statistics thread never touches the server once it is freed, and when the server is freed the
  thread has returned and closed its descriptors.
\<close>

theorem stats_thread_outlived:
  assumes "life_reaches S rc (life_start v) x" "rc \<noteq> -1"
  shows "l_fault x \<noteq> Some StatsFault \<and> (l_main x = Gone \<longrightarrow> l_stats x = Ended \<and> l_fds x = 0)"
  using life_reaches_inv [OF assms] by (auto simp: life_inv_def stats_fds_def)

text \<open>A server in the state \<open>server_create\<close> leaves, with a statistics thread.\<close>

definition demo_srv :: "(unit, int, unit, unit) server" where
  "demo_srv = \<lparr>sv_opts = default_options, sv_sniffer = None, stats_tid = 77, stopped = 0\<rparr>"

lemma life_reaches_steps:
  "life_reaches S rc x y \<Longrightarrow> life_reaches S rc x (stats_step ok y)"
  "life_reaches S rc x y \<Longrightarrow> life_reaches S rc x (main_step S rc y)"
  "life_reaches S rc x y \<Longrightarrow> life_reaches S rc x (signal_step S y)"
  by (erule rtranclp.rtrancl_into_rtrancl, rule life_step.intros)+

theorem stats_thread_outlived_witness:
  "\<exists>x. life_reaches demo_sys 0 (life_start demo_srv) x \<and> l_main x = Gone \<and>
     l_fault x \<noteq> Some StatsFault \<and> l_stats x = Ended \<and> l_fds x = 0"
proof -
  let ?x = "main_step demo_sys 0 (main_step demo_sys 0 (stats_step True (main_step demo_sys 0
      (stats_step True (life_start demo_srv)))))"
  have "life_reaches demo_sys 0 (life_start demo_srv) ?x"
    by (intro life_reaches_steps rtranclp.rtrancl_refl)
  moreover have "l_main ?x = Gone"
    by (simp add: life_start_def demo_srv_def server_terminate_def sniffer_terminate_def main_step_def stats_step_def)
  ultimately show ?thesis using stats_thread_outlived [of demo_sys 0 demo_srv ?x] by auto
qed

text \<open>A stopped server: three steps of its own end the statistics thread.\<close>

lemma stopped_stats_steps:
  assumes "l_srv x = Some v" "stopped v \<noteq> 0"
  shows "l_stats (stats_step c (stats_step b (stats_step a x))) = Ended"
  using assms by (cases "l_stats x") (auto simp: stats_step_def)

lemma stats_step_same [simp]: "l_srv (stats_step ok x) = l_srv x" "l_main (stats_step ok x) = l_main x"
  by (auto simp: stats_step_def split: stats_pc.splits option.splits)

lemma shuts_down:
  assumes "life_reaches S rc (life_start v) x" "rc \<noteq> -1"
  shows "let z = main_step S rc (main_step S rc (stats_step c (stats_step b (stats_step a (main_step S rc x)))))
    in l_srv z = None \<and> l_main z = Gone \<and> l_stats z = Ended \<and> l_fds z = 0"
proof -
  let ?y = "main_step S rc x"
  let ?z = "stats_step c (stats_step b (stats_step a ?y))"
  have inv: "life_inv ?y" using main_step_inv [OF life_reaches_inv [OF assms] assms(2)] .
  have pc: "l_main ?y \<noteq> InLoop" by (auto simp: main_step_def Let_def split: main_pc.splits)
  have ended: "l_stats ?z = Ended"
  proof (cases "l_srv ?y")
    case None
    with inv have "l_stats ?y = Ended" by (auto simp: life_inv_def)
    then show ?thesis by (simp add: stats_step_def)
  next
    case (Some w)
    with inv pc have "stopped w \<noteq> 0" by (auto simp: life_inv_def)
    with stopped_stats_steps Some show ?thesis by blast
  qed
  have zinv: "life_inv ?z" using inv by (intro stats_step_inv)
  let ?w = "main_step S rc (main_step S rc ?z)"
  have "life_inv ?w" using main_step_inv [OF main_step_inv [OF zinv assms(2)] assms(2)] .
  moreover have "l_main ?z \<noteq> InLoop" "l_main ?z \<noteq> RunFailed" using pc zinv by (simp_all add: life_inv_def)
  then have "l_main ?w = Gone" using ended
    by (cases "l_main ?z") (simp_all add: main_step_def)
  ultimately show ?thesis by (simp add: life_inv_def stats_fds_def)
qed

text \<open>
  C36. The server shuts down: if \<open>pcap_loop\<close> does not fail, then from every state that can be reached,
  once the main thread has moved on (out of the loop, if it was in it), at most three steps of the
  statistics thread, whatever its socket calls return, let the main thread pass the join and free
  the server; the thread has then returned and its descriptors are closed.
\<close>

theorem server_shuts_down:
  assumes "life_reaches S rc (life_start v) x" "rc \<noteq> -1"
  shows "let z = main_step S rc (main_step S rc (stats_step c (stats_step b (stats_step a (main_step S rc x)))))
    in l_srv z = None \<and> l_main z = Gone \<and> l_stats z = Ended \<and> l_fds z = 0"
  by (rule shuts_down [OF assms])

theorem server_shuts_down_witness:
  "let z = main_step demo_sys 0 (main_step demo_sys 0 (stats_step True (stats_step False (stats_step True
      (main_step demo_sys 0 (stats_step True (life_start demo_srv)))))))
   in l_srv z = None \<and> l_main z = Gone \<and> l_stats z = Ended \<and> l_fds z = 0"
  by (rule server_shuts_down [of demo_sys 0 demo_srv]) (simp_all add: life_reaches_steps)

section \<open>Where the order does not hold\<close>

text \<open>
  If \<open>pcap_loop\<close> fails, \<open>server_run\<close> returns without the join, and \<open>main\<close> frees the server while
  the statistics thread may still be in \<open>poll\<close>: its next test reads freed memory.
\<close>

lemma failed_run_faults:
  assumes "stats_tid v \<noteq> 0" "stopped v = 0"
  shows "\<exists>x. life_reaches S (-1) (life_start v) x \<and> l_fault x = Some StatsFault"
proof -
  let ?x = "stats_step False (stats_step False (main_step S (-1) (main_step S (-1)
      (stats_step False (stats_step True (life_start v))))))"
  have "life_reaches S (-1) (life_start v) ?x" by (intro life_reaches_steps rtranclp.rtrancl_refl)
  moreover have "l_fault ?x = Some StatsFault"
    using assms server_terminate_stops [of S v] by (auto simp: life_start_def main_step_def stats_step_def)
  ultimately show ?thesis by blast
qed

text \<open>The global pointer is not cleared: a signal between \<open>server_destroy\<close> and the end of \<open>main\<close> uses it.\<close>

lemma late_signal_faults:
  assumes "rc \<noteq> -1"
  shows "\<exists>x. life_reaches S rc (life_start v) x \<and> l_fault x = Some SignalFault"
proof -
  let ?z = "main_step S rc (main_step S rc (stats_step False (stats_step False (stats_step False (main_step S rc (life_start v))))))"
  have "life_reaches S rc (life_start v) (signal_step S ?z)" by (intro life_reaches_steps rtranclp.rtrancl_refl)
  moreover have "l_srv ?z = None"
    using shuts_down [OF rtranclp.rtrancl_refl [of "life_step S rc" "life_start v"] assms, of False False False]
    by (simp add: Let_def)
  ultimately show ?thesis by (auto simp: signal_step_def)
qed

end
