(* ===== verification/Tracker_Ledger.thy ===== *)
theory Tracker_Ledger
  imports Sniffer
begin

text \<open>
  What the capture loop does to the ledger of the allocator: a packet never frees a block the
  tables do not own, and while memory is available every block it allocates is owned by one of the
  tables afterwards.
\<close>

section \<open>Conservation\<close>

text \<open>The blocks beyond those of the two tables.\<close>

definition surplus :: "('p, 'l, 'b, 'd) capture \<Rightarrow> int" where
  "surplus c =
     live (heap c) - tab_blocks (\<lambda>v. 1) (syn_tab (sniffer c)) - tab_blocks req_weight (requests (sniffer c))"

definition conserves :: "('p, 'l, 'b, 'd) capture \<Rightarrow> ('p, 'l, 'b, 'd) capture \<Rightarrow> bool" where
  "conserves c c' \<longleftrightarrow>
     surplus c \<le> surplus c' \<and>
     (outcomes (heap c) = [] \<longrightarrow> surplus c' = surplus c \<and> outcomes (heap c') = []) \<and>
     dev (sniffer c') = dev (sniffer c) \<and> filter_expr (sniffer c') = filter_expr (sniffer c) \<and>
     lock_ready (sniffer c') = lock_ready (sniffer c)"

lemma conserves_refl [simp]: "conserves c c"
  by (simp add: conserves_def)

lemma conserves_trans: "conserves a b \<Longrightarrow> conserves b c \<Longrightarrow> conserves a c"
  by (auto simp: conserves_def)

lemma req_weight_bounds: "0 < req_weight v" "req_weight v \<le> 2"
  by (simp_all add: req_weight_def)

lemma add_conserves:
  assumes "ht_invar ht" "hashtable_get ht k = None" "hashtable_add ht k v m = (r, ht', m')" "0 \<le> w v"
  shows "live m - w v - ht_blocks w ht \<le> live m' - ht_blocks w ht' \<and>
    (outcomes m = [] \<longrightarrow> live m' - ht_blocks w ht' = live m - w v - ht_blocks w ht \<and> outcomes m' = [])"
proof -
  have "outcomes m = [] \<longrightarrow> ht' \<noteq> ht \<and> outcomes m' = []"
    using hashtable_add_plenty [OF assms(1) _ assms(2,3)] assms(2) by (metis fun_upd_same option.distinct(1))
  with hashtable_add_live [OF assms(1,3), of w] assms(4) show ?thesis by auto
qed

lemma modify_blocks:
  assumes "ht_invar ht" "\<And>v. w (f v) = w v"
  shows "ht_blocks w (hashtable_modify ht k f) = ht_blocks w ht"
proof -
  have sum: "(\<Sum>e \<leftarrow> chain_modify k f c. 2 + w (entry_value e)) = (\<Sum>e \<leftarrow> c. 2 + w (entry_value e))"
    for c using assms(2) by (induction c) auto
  show ?thesis
    by (simp add: hashtable_modify_set_chain set_chain_blocks [OF bucket_of_less [OF assms(1)]] sum)
qed

lemma expire_conserves:
  assumes "capture_ok c"
  shows "conserves c (expire_stale_requests now c)"
proof -
  from assms obtain ht where ht: "requests (sniffer c) = Some ht" "ht_invar ht" "free_fn ht = Some free_request"
    by (auto simp: capture_ok_def table_ok_def)
  let ?Q = "\<lambda>v. request_expired v \<lparr>exp_now = now, timeout_us = REQUEST_TIMEOUT_US\<rparr>"
  obtain n ht' m' where sw: "sweep_table ?Q ht (heap c) = (n, ht', m')"
    by (cases "sweep_table ?Q ht (heap c)")
  have "live m' - ht_blocks req_weight ht' = live (heap c) - ht_blocks req_weight ht"
    by (rule sweep_table_live [OF frees_tables(2) [OF ht(3)] sw])
  moreover have "outcomes (heap c) = [] \<longrightarrow> outcomes m' = []"
    using ht_step_map [OF ht(2) frees_quietly_tables(2) [OF ht(3)], of "heap c" "OpSweep ?Q"] sw by auto
  ultimately show ?thesis using ht(1)
    by (auto simp: conserves_def surplus_def tab_blocks_def expire_stale_requests_def requests_expire_def
        hashtable_sweep_def sw Let_def)
qed

lemma direction_conserves:
  assumes "capture_ok c" "packet_direction p c = Done (d, c')"
  shows "conserves c c'"
proof -
  from assms obtain syn where syn: "syn_tab (sniffer c) = Some syn" "ht_invar syn" "\<not> stats_lock (sniffer c)"
    by (auto simp: capture_ok_def table_ok_def)
  have "ht_blocks (\<lambda>v. 1) (hashtable_modify syn k f) = ht_blocks (\<lambda>v. 1) syn" for k f
    by (rule modify_blocks [OF syn(2)]) simp
  with assms(2) syn show ?thesis
    by (auto simp: packet_direction_def sniffer_stats_lock_def sniffer_stats_unlock_def conserves_def surplus_def
        tab_blocks_def Let_def split: option.splits)
qed

lemma register_conserves:
  assumes "capture_ok c" "register_server p c = Done c'"
  shows "conserves c c'"
proof -
  from assms obtain syn where syn: "syn_tab (sniffer c) = Some syn" "ht_invar syn" "\<not> stats_lock (sniffer c)"
    by (auto simp: capture_ok_def table_ok_def)
  define a where "a = (if flags p AND 0x10 \<noteq> 0 then ip_src p else ip_dst p)"
  define b where "b = (if flags p AND 0x10 \<noteq> 0 then port_src p else port_dst p)"
  note defs = register_server_def a_def [symmetric] b_def [symmetric] sniffer_stats_lock_def
    sniffer_stats_unlock_def Let_def syn conserves_def surplus_def tab_blocks_def
  show ?thesis
  proof (cases "hashtable_get syn (endpoint_key a b)")
    case (Some st)
    with assms(2) show ?thesis by (auto simp: defs)
  next
    case None
    obtain ok m1 where m1: "malloc (heap c) = (ok, m1)" by fastforce
    show ?thesis
    proof (cases ok)
      case False
      with assms(2) None m1 malloc_live(2) [of "heap c" m1] show ?thesis
        by (auto simp: defs malloc_plenty)
    next
      case True
      let ?st = "empty_stats\<lparr>stats_ip := a, stats_port := b\<rparr>"
      obtain r syn' m' where add: "hashtable_add syn (endpoint_key a b) ?st m1 = (r, syn', m')"
        by (cases "hashtable_add syn (endpoint_key a b) ?st m1")
      from assms(2) None m1 True add have c': "sniffer c' = (sniffer c)\<lparr>syn_tab := Some syn', stats_lock := False\<rparr>" "heap c' = m'"
        by (auto simp: register_server_def a_def [symmetric] b_def [symmetric] sniffer_stats_lock_def
            sniffer_stats_unlock_def Let_def syn)
      have "live m1 = live (heap c) + 1" "outcomes (heap c) = [] \<longrightarrow> outcomes m1 = []"
        using m1 True malloc_live(1) by (auto simp: malloc_plenty)
      with add_conserves [OF syn(2) None add, of "\<lambda>v. 1"] c' syn(1) show ?thesis
        by (auto simp: conserves_def surplus_def tab_blocks_def)
    qed
  qed
qed

lemma request_conserves:
  assumes "capture_ok c" "packet_ok p" "process_request_packet p c = Done c'"
  shows "conserves c c'"
proof -
  from assms obtain reqs where reqs: "requests (sniffer c) = Some reqs" "ht_invar reqs"
    by (auto simp: capture_ok_def table_ok_def)
  let ?key = "connection_key (ip_src p) (port_src p) (ip_dst p) (port_dst p)"
  from format_for_shape [OF assms(2)] obtain sm where fmt:
    "\<And>m. format_for (protocol (sniffer c)) (payload p) (payload_size p) m =
      Some (if fst (malloc m) then Some sm else None, snd (malloc m))" by blast
  obtain ok1 m1 where m1: "malloc (heap c) = (ok1, m1)" by fastforce
  obtain ok2 m2 where m2: "malloc m1 = (ok2, m2)" by fastforce
  consider "hashtable_get reqs ?key \<noteq> None \<or> MAX_PENDING_REQUESTS \<le> ht_size reqs"
    | "hashtable_get reqs ?key = None" "ht_size reqs < MAX_PENDING_REQUESTS" "\<not> ok1"
    | "hashtable_get reqs ?key = None" "ht_size reqs < MAX_PENDING_REQUESTS" ok1 "\<not> ok2"
    | "hashtable_get reqs ?key = None" "ht_size reqs < MAX_PENDING_REQUESTS" ok1 ok2
    by fastforce
  then show ?thesis
  proof cases
    case 1
    with assms(3) reqs(1) have "c' = c" by (auto simp: process_request_packet_def Let_def split: if_splits)
    then show ?thesis by simp
  next
    case 2
    with assms(3) reqs(1) m1 have "c' = c\<lparr>heap := m1\<rparr>"
      by (auto simp: process_request_packet_def Let_def)
    with m1 2(3) malloc_live(2) [of "heap c" m1] show ?thesis
      by (auto simp: conserves_def surplus_def malloc_plenty)
  next
    case 3
    with assms(3) reqs(1) m1 m2 have "c' = c\<lparr>heap := mfree m2\<rparr>"
      by (auto simp: process_request_packet_def Let_def fmt)
    with m1 m2 3(3,4) malloc_live(1) [of "heap c" m1] malloc_live(2) [of m1 m2] show ?thesis
      by (auto simp: conserves_def surplus_def malloc_plenty)
  next
    case 4
    let ?req = "\<lparr>req_tv = tv p, req_seq = sint (seq p), req_size = int (length sm), req_payload = Some sm\<rparr>"
    obtain w reqs' m3 where add: "hashtable_add reqs ?key ?req m2 = (w, reqs', m3)"
      by (cases "hashtable_add reqs ?key ?req m2")
    from assms(3) reqs(1) m1 m2 4 add have "c' = c\<lparr>sniffer := (sniffer c)\<lparr>requests := Some reqs'\<rparr>, heap := m3\<rparr>"
      by (auto simp: process_request_packet_def Let_def fmt)
    moreover have "live m2 = live (heap c) + 2" "outcomes (heap c) = [] \<longrightarrow> outcomes m2 = []"
      using m1 m2 4(3,4) malloc_live(1) by (auto simp: malloc_plenty)
    moreover have "req_weight ?req = 2" by (simp add: req_weight_def)
    ultimately show ?thesis using add_conserves [OF reqs(2) 4(1) add, of req_weight] reqs(1)
      by (auto simp: conserves_def surplus_def tab_blocks_def)
  qed
qed

lemma response_conserves:
  assumes "capture_ok c" "process_response_packet E p c = Done c'"
  shows "conserves c c'"
proof -
  from assms obtain reqs syn where
    reqs: "requests (sniffer c) = Some reqs" "ht_invar reqs" "free_fn reqs = Some free_request"
    and syn: "syn_tab (sniffer c) = Some syn" "ht_invar syn" "\<not> stats_lock (sniffer c)"
    by (auto simp: capture_ok_def table_ok_def)
  let ?key = "connection_key (ip_dst p) (port_dst p) (ip_src p) (port_src p)"
  obtain n reqs' m' where del: "hashtable_del reqs ?key (heap c) = (n, reqs', m')"
    by (cases "hashtable_del reqs ?key (heap c)")
  have live: "live m' - ht_blocks req_weight reqs' = live (heap c) - ht_blocks req_weight reqs"
    by (rule hashtable_del_live [OF reqs(2) frees_tables(2) [OF reqs(3)] del])
  have plenty: "outcomes (heap c) = [] \<longrightarrow> outcomes m' = []"
    using ht_step_map [OF reqs(2) frees_quietly_tables(2) [OF reqs(3)], of "heap c" "OpDel ?key"] del by auto
  have same: "ht_blocks (\<lambda>v. 1) (hashtable_modify syn k f) = ht_blocks (\<lambda>v. 1) syn" for k f
    by (rule modify_blocks [OF syn(2)]) simp
  show ?thesis
  proof (cases "hashtable_get reqs ?key")
    case None
    with assms(2) reqs(1) show ?thesis by (simp add: process_response_packet_def Let_def)
  next
    case (Some req)
    with assms(2) reqs(1) syn del have "heap c' = m'" "requests (sniffer c') = Some reqs'"
      "\<exists>syn'. syn_tab (sniffer c') = Some syn' \<and> ht_blocks (\<lambda>v. 1) syn' = ht_blocks (\<lambda>v. 1) syn"
      "dev (sniffer c') = dev (sniffer c)" "filter_expr (sniffer c') = filter_expr (sniffer c)"
      "lock_ready (sniffer c') = lock_ready (sniffer c)"
      by (auto simp: process_response_packet_def Let_def sniffer_stats_lock_def sniffer_stats_unlock_def same
          and_then_Done_iff split: if_splits)
    with live plenty reqs(1) syn(1) show ?thesis by (auto simp: conserves_def surplus_def tab_blocks_def)
  qed
qed

lemma packet_conserves:
  assumes "capture_ok c" "packet_ok p" "lua_state (sniffer c) = None" "process_user_packet E p c = Done c'"
  shows "conserves c c'"
proof (cases "protocol (sniffer c) = ProtocolRaw")
  case True
  with assms(3,4) show ?thesis
    by (auto simp: process_user_packet_def print_user_packet_def conserves_def surplus_def
        split: prod.splits if_splits option.splits)
next
  case False
  let ?c = "expire_stale_requests (tv p) c"
  have ok: "capture_ok ?c" by (rule expire_ok [OF assms(1)])
  note exp = expire_conserves [OF assms(1), of "tv p"]
  show ?thesis
  proof (cases "payload_size p = 0")
    case True
    with assms(3,4) False have "c' = ?c \<or> register_server p ?c = Done c'"
      by (auto simp: process_user_packet_def Let_def split: if_splits)
    with exp register_conserves [OF ok] show ?thesis by (auto intro: conserves_trans)
  next
    case data: False
    from direction_ok [OF ok, of p] obtain d c1 where dir: "packet_direction p ?c = Done (d, c1)" "capture_ok c1" by auto
    have c1: "conserves c c1" by (rule conserves_trans [OF exp direction_conserves [OF ok dir(1)]])
    have "c' = c1 \<or> process_response_packet E p c1 = Done c' \<or> process_request_packet p c1 = Done c'"
      using assms(3,4) False data dir(1) by (auto simp: process_user_packet_def Let_def split: if_splits)
    with c1 response_conserves [OF dir(2)] request_conserves [OF dir(2) assms(2)] show ?thesis
      by (auto intro: conserves_trans)
  qed
qed

section \<open>The capture loop\<close>

text \<open>Handles stay open or closed; the dump file advances.\<close>

definition same_open :: "('p, 'l, 'b, 'd) capture \<Rightarrow> ('p, 'l, 'b, 'd) capture \<Rightarrow> bool" where
  "same_open c c' \<longleftrightarrow>
     pcap (sniffer c') = pcap (sniffer c) \<and> bpf (sniffer c') = bpf (sniffer c) \<and>
     lua_state (sniffer c') = lua_state (sniffer c) \<and>
     (dumper (sniffer c') = None \<longleftrightarrow> dumper (sniffer c) = None)"

lemma loop_conserves:
  assumes "capture_ok c" "lua_state (sniffer c) = None" "pcap (sniffer c) = Some h"
    and "\<forall>fr \<in> set frames. frame_ok fr"
  shows "\<exists>c'. pcap_loop A E frames rc c = Done (rc, c') \<and> capture_ok c' \<and> conserves c c' \<and> same_open c c'"
  using assms
proof (induction frames arbitrary: c)
  case Nil
  then show ?case by (simp add: same_open_def)
next
  case (Cons fr frames)
  obtain header packet where fr: "fr = (header, packet)" by (cases fr)
  let ?c1 = "c\<lparr>sniffer := (sniffer c)\<lparr>dumper := map_option (dumper_write A header packet) (dumper (sniffer c))\<rparr>\<rparr>"
  have c1: "capture_ok ?c1" "lua_state (sniffer ?c1) = None" "conserves c ?c1" "same_open c ?c1"
    using Cons.prems(1,2) by (simp_all add: capture_ok_def conserves_def surplus_def same_open_def)
  obtain c2 where c2: "packet_handler A E header packet c = Done c2" "capture_ok c2" "conserves c c2" "same_open c c2"
  proof -
    from handler_cases [of header packet c h A E] Cons.prems(3,4) fr consider
      "packet_handler A E header packet c = Done ?c1"
      | (handed) p where "packet_ok p" "packet_handler A E header packet c = process_user_packet E p ?c1" by auto
    then show ?thesis
    proof cases
      case 1
      with c1 that show ?thesis by blast
    next
      case handed
      from process_user_packet_ok [OF c1(1) handed(1) c1(2), of E] obtain c' where
        c': "process_user_packet E p ?c1 = Done c'" "capture_ok c'" "same_handles ?c1 c'" by blast
      have "conserves c c'"
        by (rule conserves_trans [OF c1(3) packet_conserves [OF c1(1) handed(1) c1(2) c'(1)]])
      moreover have "same_open c c'" using c'(3) by (simp add: same_handles_def same_open_def)
      ultimately show ?thesis using that handed(2) c' by simp
    qed
  qed
  have "\<exists>c'. pcap_loop A E frames rc c2 = Done (rc, c') \<and> capture_ok c' \<and> conserves c2 c' \<and> same_open c2 c'"
    using Cons.IH [OF c2(2)] Cons.prems(2,3,4) c2(4) by (simp add: same_open_def)
  then obtain c' where "pcap_loop A E frames rc c2 = Done (rc, c')" "capture_ok c'" "conserves c2 c'" "same_open c2 c'"
    by blast
  with c2 fr conserves_trans [OF c2(3)] show ?case by (auto simp: same_open_def)
qed

end
