(* ===== verification/Tcpkit.thy ===== *)
theory Tcpkit
  imports Lifecycle Tracker_Ledger
begin

text \<open>
  The program: the signal handler, the usage message and \<open>main\<close> of \<open>src/tcpkit.c\<close> on top of the
  options, the server and the capture. The user id, the command line, the frames that are
  captured, the result of \<open>pcap_loop\<close> and a signal on the way out are arguments; the result is the exit status with the
  resources and the console the process ends with. A signal that comes earlier stops the server, which the frames and the
  result of the loop stand for; its interplay with the threads is the step relation of \<open>Lifecycle\<close>. The
  statistics thread appears here by its start, its join, and the undefined end of a server that is freed under it.
\<close>

section \<open>Operations\<close>

definition SIGINT :: int where "SIGINT = 2"
definition SIGTERM :: int where "SIGTERM = 15"

definition signal_handler ::
    "'p sys_api \<Rightarrow> int \<Rightarrow> ('p, 'l, 'b, 'd) server option \<Rightarrow> ('p, 'l, 'b, 'd) server option" where
  "signal_handler S sig srv =
     (if (sig = SIGINT \<or> sig = SIGTERM) \<and> srv \<noteq> None then server_terminate S srv else srv)"

definition VERSION :: cstring where
  "VERSION = str ''1.1.0''"

definition usage_literal :: "byte list" where
  "usage_literal =
     str ''the tcpkit was designed to make network packets programable with LUA by @git-hulk'' @ [10] @
     str ''   version: '' @ VERSION @ [10] @
     str ''   -h, Print the tcpkit version strings, print a usage message, and exit'' @ [10] @
     str ''   -i interface, Listen on network card interface'' @ [10] @
     str ''   -A Print each packet (minus its link level header) in ASCII.  Handy for capturing web pages.'' @ [10] @
     str ''   -r file, Read packets from file (which was created with the -w option or by other tools that write pcap)'' @ [10] @
     str ''   -B buffer_size, Set the operating system capture buffer size to buffer_size, in units of KiB (1024 bytes)'' @ [10] @
     str ''   -s snaplen, Snarf snaplen bytes of data from each packet rather than the default of 1500 bytes'' @ [10] @
     str ''   -S file, Push packets to lua state if the script was specified'' @ [10] @
     str ''   -t threshold, Print the request lantecy which slower than the threshold, in units of Millisecond'' @ [10] @
     str ''   -w file, Write the raw packets to file'' @ [10] @
     str ''   -p protocol, Parse the packet if the protocol was specified (supports: redis, memcached, http, raw)'' @ [10] @
     str ''   -P stats port, Listen port to fetch the latency stats, default is 33333'' @ [10, 10, 10] @
     str ''For example:'' @ [10, 10] @
     str ''   `tcpkit -i eth0 tcp port 6379 -p redis` was used to monitor the redis reqeust latency'' @ [10, 10] @
     str ''   `tcpkit -i eth0 tcp port 6379 -p redis -w 6379.pcap` would also dump the packets to `6379.pcap`'' @ [10, 10] @
     str ''   `tcpkit -i eth0 tcp port 6379 -p redis -t 10` would only print the request latency slower than 10ms'' @ [10]"

definition usage :: "logger \<Rightarrow> 'a outcome" where
  "usage lg = and_then (color_printf (Some GREEN) usage_literal lg) (\<lambda>lg. Exited 0)"

text \<open>The bounds on the captured length: 64 at least, and 256 at most where a protocol is tracked.\<close>

definition clamp_snaplen :: "options \<Rightarrow> options" where
  "clamp_snaplen opts =
     (let opts = (if o_snaplen opts < 64 then opts\<lparr>o_snaplen := 64\<rparr> else opts)
      in if o_protocol opts \<noteq> ProtocolRaw \<and> 256 < o_snaplen opts then opts\<lparr>o_snaplen := 256\<rparr> else opts)"

definition free_opts :: "options \<Rightarrow> resources \<Rightarrow> resources" where
  "free_opts opts r = r\<lparr>r_mem := free_options opts (r_mem r)\<rparr>"

text \<open>The part of \<open>main\<close> behind the checks: the server is created, run and destroyed.\<close>

definition main_failed ::
    "'l env \<Rightarrow> byte list \<Rightarrow> logger \<Rightarrow> resources \<Rightarrow> (int \<times> resources \<times> logger) outcome" where
  "main_failed E msg lg r = and_then (log_message (log_time E) ERROR msg lg) (\<lambda>lg. Done (1, r, lg))"

text \<open>
  The destruction of the server and of the options. The global pointer to the server is not cleared: the handler of a
  signal \<open>late\<close> that arrives between the two uses the freed server.
\<close>

definition main_destroy ::
    "bool \<Rightarrow> ('p, 'l, 'b, 'd) server option \<Rightarrow> options \<Rightarrow> resources \<Rightarrow> resources outcome" where
  "main_destroy late srv opts r =
     and_then (server_destroy srv r) (\<lambda>r. if late then Undefined else Done (free_opts opts r))"

definition main_serve ::
    "('p, 'b, 'd) pcap_api \<Rightarrow> 'l env \<Rightarrow> 'p sys_api \<Rightarrow> (pkthdr \<times> byte list) list \<Rightarrow> int \<Rightarrow> bool \<Rightarrow> options \<Rightarrow>
     resources \<Rightarrow> logger \<Rightarrow> (int \<times> resources \<times> logger) outcome" where
  "main_serve A E S frames rc late opts r lg =
     and_then (server_create A (lua E) S opts r) (\<lambda>(res, opts, r).
       case res of
         Inl err \<Rightarrow> main_failed E (str ''Failed to create the sniffer server, '' @ err) lg (free_opts opts r)
       | Inr srv \<Rightarrow>
           and_then (server_run A E S frames rc srv r lg 0) (\<lambda>(res, srv, r, lg).
             case res of
               Inl err \<Rightarrow>
                 and_then (log_message (log_time E) ERROR (str ''Failed to run the server, '' @ err) lg)
                   (\<lambda>lg. and_then (main_destroy late srv opts r) (\<lambda>r. Done (1, r, lg)))
             | Inr u \<Rightarrow> and_then (main_destroy late srv opts r) (\<lambda>r. Done (0, r, lg))))"

definition tcpkit_main ::
    "('p, 'b, 'd) pcap_api \<Rightarrow> 'l env \<Rightarrow> 'p sys_api \<Rightarrow> nat \<Rightarrow> cstring list \<Rightarrow> (pkthdr \<times> byte list) list \<Rightarrow> int \<Rightarrow> bool \<Rightarrow>
     resources \<Rightarrow> logger \<Rightarrow> (int \<times> resources \<times> logger) outcome" where
  "tcpkit_main A E S uid args frames rc late r lg =
     (let lg = print_redirect (Some Stdout) lg in
      case parse_options args (r_mem r) of
        (Inl err, m) \<Rightarrow> main_failed E (str ''Failed to parse the options, '' @ err) lg (r\<lparr>r_mem := m\<rparr>)
      | (Inr opts, m) \<Rightarrow>
          (let r = r\<lparr>r_mem := m\<rparr> in
           if o_print_usage opts \<noteq> 0 then usage lg
           else if o_print_version opts \<noteq> 0 then
             Done (0, free_opts opts r, out_print (str ''tcpkit '' @ VERSION @ [10]) lg)
           else if uid \<noteq> 0 \<and> o_offline_file opts = None then
             main_failed E
               (str ''You don'' @ 39 # str ''t have permission to capture on the network card interface'')
               lg (free_opts opts r)
           else main_serve A E S frames rc late (clamp_snaplen opts) r lg))"

section \<open>With memory available\<close>

lemma free_str_outcomes [simp]: "outcomes (free_str s m) = outcomes m"
  by (simp add: free_str_def mfree_def)

lemma free_options_outcomes [simp]: "outcomes (free_options opts m) = outcomes m"
  by (simp add: free_options_def mfree_def)

lemma set_str_available:
  "outcomes m = [] \<Longrightarrow>
   set_str old v put m = (put (Some v), (free_str old m)\<lparr>live := live (free_str old m) + 1\<rparr>)"
  by (simp add: set_str_def strdup_plenty)

text \<open>Options with a device, and no script unless one was asked for.\<close>

definition opts_set :: "bool \<Rightarrow> options \<Rightarrow> bool" where
  "opts_set script opts \<longleftrightarrow> o_dev opts \<noteq> None \<and> (\<not> script \<longrightarrow> o_script opts = None)"

lemma parse_arg_plenty:
  assumes "outcomes m = []" "opts_set script opts" "is_opt arg ''-S'' \<longrightarrow> script"
    and "parse_arg arg rest opts m = (Inr (rest', opts'), m')"
  shows "outcomes m' = [] \<and> opts_set script opts' \<and> set rest' \<subseteq> set rest"
proof -
  obtain f mf where f: "add_filter arg opts m = (True, opts\<lparr>o_filter := Some f\<rparr>, mf)" "outcomes mf = []"
    using add_filter_plenty [OF assms(1)] by blast
  show ?thesis
    using assms f unfolding parse_arg_def
    by (cases rest)
       (auto simp: opts_set_def set_str_available split: if_split_asm option.splits)
qed

lemma parse_loop_plenty:
  assumes "outcomes m = []" "opts_set script opts" "\<forall>arg \<in> set args. is_opt arg ''-S'' \<longrightarrow> script"
    and "parse_loop args opts m = (Inr opts', m')"
  shows "outcomes m' = [] \<and> opts_set script opts' \<and> o_filter opts' \<noteq> None"
  using assms
proof (induction args opts m rule: parse_loop.induct)
  case (1 opts m)
  then show ?case by (auto simp: strdup_plenty opts_set_def split: option.splits)
next
  case (2 arg rest opts m)
  then obtain rest1 opts1 m1 where a: "parse_arg arg rest opts m = (Inr (rest1, opts1), m1)"
    by (auto split: prod.splits sum.splits)
  from parse_arg_plenty [OF "2.prems"(1,2) _ a] "2.prems"(3) have
    b: "outcomes m1 = []" "opts_set script opts1" "set rest1 \<subseteq> set rest" by auto
  show ?case
    by (rule "2.IH" [OF a [symmetric] refl refl]) (use b a "2.prems"(3,4) in auto)
qed

lemma parse_options_plenty:
  assumes "outcomes m = []" "\<forall>arg \<in> set args. \<not> is_opt arg ''-S''" "parse_options args m = (Inr opts, m')"
  shows "outcomes m' = [] \<and> o_dev opts \<noteq> None \<and> o_script opts = None \<and> o_filter opts \<noteq> None"
proof -
  obtain m1 opts1 where i: "init_options (m\<lparr>live := live m + 1\<rparr>) = (opts1, m1)" by fastforce
  then have "outcomes m1 = []" "opts_set False opts1"
    using assms(1) by (auto simp: init_options_def strdup_plenty opts_set_def)
  with parse_loop_plenty [of m1 False opts1 args opts m'] assms i show ?thesis
    by (auto simp: parse_options_def malloc_plenty opts_set_def)
qed

text \<open>The creation of the server returns, and leaves memory available.\<close>

lemma hashtable_destroy_quiet:
  "\<forall>ht. t = Some ht \<longrightarrow> frees_quietly ht \<Longrightarrow> outcomes (hashtable_destroy t m) = outcomes m"
  by (cases t) (simp_all add: hashtable_destroy_def free_buckets_fold fold_free_outcomes mfree_def)

lemma open_plenty:
  assumes "sniffer_open A opts s r = (x, opts', s', r')" "outcomes (r_mem r) = []"
  shows "outcomes (r_mem r') = []"
proof -
  have online: "sniffer_online A d n k q = (y, q') \<Longrightarrow> r_mem q' = r_mem q" for d n k q y q'
    using online_levels [of A d n k q y q'] by simp
  have offline: "sniffer_offline A f q = (y, q') \<Longrightarrow> r_mem q' = r_mem q" for f q y q'
    using offline_levels [of A f q y q'] by simp
  have device: "first_capture_device A q = (y, q') \<Longrightarrow> outcomes (r_mem q) = [] \<Longrightarrow> outcomes (r_mem q') = []" for q y q'
    by (auto simp: first_capture_device_def pcap_freealldevs_def strdup_plenty Let_def split: sum.splits option.splits prod.splits if_splits)
  show ?thesis
  proof (cases "o_offline_file opts")
    case (Some f)
    with assms show ?thesis by (auto simp: sniffer_open_def dest!: offline split: prod.splits)
  next
    case None
    with assms show ?thesis
      by (auto simp: sniffer_open_def Let_def strdup_plenty dest!: online device
          split: prod.splits sum.splits if_splits)
  qed
qed

lemma filter_plenty:
  "sniffer_filter A h s r = (None, h', s', r') \<Longrightarrow> outcomes (r_mem r) = [] \<Longrightarrow> outcomes (r_mem r') = []"
  by (auto simp: sniffer_filter_def sniffer_compile_def malloc_plenty Let_def
      split: option.splits list.splits prod.splits sum.splits if_splits)

lemma dump_plenty:
  "sniffer_dump A h opts s r = (None, s', r') \<Longrightarrow> outcomes (r_mem r) = [] \<Longrightarrow> outcomes (r_mem r') = []"
  by (auto simp: sniffer_dump_def dumper_create_def malloc_plenty split: option.splits prod.splits sum.splits)

lemma open_script: "sniffer_open A opts s r = (x, opts', s', r') \<Longrightarrow> o_script opts' = o_script opts"
  by (auto simp: sniffer_open_def Let_def split: option.splits prod.splits sum.splits if_splits)

lemma finish_plenty:
  assumes "outcomes (r_mem r) = []" "o_script opts = None"
  shows "\<exists>res opts' r'. sniffer_finish A L opts s r = Done (res, opts', r') \<and>
    (\<forall>s. res = Inr s \<longrightarrow> outcomes (r_mem r') = [] \<and> lua_state s = None)"
proof -
  obtain x opts1 s1 r1 where op: "sniffer_open A opts s r = (x, opts1, s1, r1)" by (metis prod_cases4)
  note r1 = open_plenty [OF op assms(1)] open_script [OF op]
  show ?thesis
  proof (cases x)
    case (Inl e)
    with op show ?thesis by (simp add: sniffer_finish_def)
  next
    case (Inr h)
    obtain e h2 s2 r2 where fl: "sniffer_filter A h (s1\<lparr>pcap := Some h\<rparr>) r1 = (e, h2, s2, r2)" by (metis prod_cases4)
    show ?thesis
    proof (cases e)
      case (Some msg)
      with op Inr fl show ?thesis by (simp add: sniffer_finish_def)
    next
      case None
      obtain e3 s3 r3 where du: "sniffer_dump A h2 opts1 s2 r2 = (e3, s3, r3)" by (metis prod_cases3)
      from filter_plenty [OF fl [unfolded None] r1(1)] have r2: "outcomes (r_mem r2) = []" .
      show ?thesis
      proof (cases e3)
        case (Some msg)
        with op Inr fl None du show ?thesis by (simp add: sniffer_finish_def)
      next
        case n3: None
        from dump_plenty [OF du [unfolded n3] r2] have "outcomes (r_mem r3) = []" .
        with op Inr fl None du n3 r1(2) assms(2) show ?thesis by (simp add: sniffer_finish_def sniffer_script_def)
      qed
    qed
  qed
qed

lemma hashtable_create_plenty:
  "outcomes m = [] \<Longrightarrow> 0 < n \<Longrightarrow> \<exists>ht m'. hashtable_create n m = (Some ht, m') \<and> outcomes m' = []"
  by (auto simp: hashtable_create_def malloc_plenty)

lemma sniffer_create_plenty:
  fixes A :: "('p, 'b, 'd) pcap_api" and L :: "'l lua_api"
  assumes "outcomes (r_mem r) = []" "o_script opts = None" "o_dev opts \<noteq> None" "o_filter opts \<noteq> None"
  shows "\<exists>res opts' r'. sniffer_create A L opts r = Done (res, opts', r') \<and>
    (\<forall>s. res = Inr s \<longrightarrow> outcomes (r_mem r') = [] \<and> lua_state s = None)"
proof -
  obtain d f where o: "o_dev opts = Some d" "o_filter opts = Some f" using assms(3,4) by auto
  let ?m1 = "(r_mem r)\<lparr>live := live (r_mem r) + 1\<rparr>"
  let ?m3 = "(r_mem r)\<lparr>live := live (r_mem r) + 1 + 1 + 1\<rparr>"
  have "outcomes ?m3 = []" using assms(1) by simp
  from hashtable_create_plenty [OF this, of 16] obtain syn :: "query_stats hashtable" and m4 where
    m4: "hashtable_create 16 ?m3 = (Some syn, m4)" "outcomes m4 = []" by auto
  from hashtable_create_plenty [OF m4(2), of 102400] obtain reqs :: "request hashtable" and m5 where
    m5: "hashtable_create 102400 m4 = (Some reqs, m5)" "outcomes m5 = []" by auto
  let ?s = "(zero_sniffer opts)\<lparr>dev := Some d, filter_expr := Some f, syn_tab := Some syn, requests := Some reqs\<rparr>
    :: ('p, 'l, 'b, 'd) sniffer"
  let ?r = "r\<lparr>r_mem := m5\<rparr>"
  have alloc: "sniffer_alloc opts (r\<lparr>r_mem := ?m1\<rparr>) = Done (?s, ?r)"
    using assms(1) o m4(1) m5(1) by (simp add: sniffer_alloc_def strdup_plenty)
  let ?t = "?s\<lparr>lock_ready := 1, syn_tab := Some (syn\<lparr>free_fn := Some free_stats\<rparr>),
      requests := Some (reqs\<lparr>free_fn := Some free_request\<rparr>)\<rparr>"
  have run: "sniffer_create A L opts r =
    (if pthread_mutex_init A \<noteq> 0 then
       Done (Inl (err_text (str ''failed to init the stats lock'')), opts, sniffer_destroy (Some ?s) ?r)
     else sniffer_finish A L opts ?t (?r\<lparr>r_mutex := r_mutex ?r + 1\<rparr>))"
    by (simp add: sniffer_create_def malloc_plenty [OF assms(1)] alloc)
  show ?thesis
  proof (cases "pthread_mutex_init A = 0")
    case True
    have "outcomes (r_mem (?r\<lparr>r_mutex := r_mutex ?r + 1\<rparr>)) = []" using m5(2) by simp
    from finish_plenty [OF this assms(2), of A L ?t] True show ?thesis unfolding run by simp
  qed (simp add: run)
qed

lemma server_create_plenty:
  fixes A :: "('p, 'b, 'd) pcap_api" and L :: "'l lua_api"
  assumes "outcomes (r_mem r) = []" "o_script opts = None" "o_dev opts \<noteq> None" "o_filter opts \<noteq> None"
  shows "\<exists>res opts' r'. server_create A L S opts r = Done (res, opts', r') \<and>
    (\<forall>v. res = Inr v \<longrightarrow> outcomes (r_mem r') = [] \<and> (\<exists>s. sv_sniffer v = Some s \<and> lua_state s = None))"
proof -
  let ?r = "r\<lparr>r_mem := (r_mem r)\<lparr>live := live (r_mem r) + 1\<rparr>\<rparr>"
  have "outcomes (r_mem ?r) = []" using assms(1) by simp
  from sniffer_create_plenty [OF this assms(2-4)] obtain res opts' r' where
    c: "sniffer_create A L opts ?r = Done (res, opts', r')"
      "\<forall>s. res = Inr s \<longrightarrow> outcomes (r_mem r') = [] \<and> lua_state s = None" by blast
  have fail: "\<exists>q. server_fail S v x = Done q" if "stats_tid v = 0" for v :: "('p, 'l, 'b, 'd) server" and x
    using that by (simp add: server_fail_def server_terminate_def server_destroy_def join_stats_def Let_def)
  show ?thesis
  proof (cases res)
    case (Inl e)
    let ?v = "\<lparr>sv_opts = opts', sv_sniffer = None, stats_tid = 0, stopped = 0\<rparr> :: ('p, 'l, 'b, 'd) server"
    obtain q where "server_fail S ?v r' = Done q" using fail [of ?v] by auto
    with c(1) Inl show ?thesis by (simp add: server_create_def malloc_plenty [OF assms(1)] Let_def)
  next
    case (Inr s)
    let ?v = "\<lparr>sv_opts = opts', sv_sniffer = Some s, stats_tid = 0, stopped = 0\<rparr> :: ('p, 'l, 'b, 'd) server"
    obtain q where "server_fail S ?v r' = Done q" using fail [of ?v] by auto
    with c Inr show ?thesis
      by (cases "pthread_create S")
        (auto simp: server_create_def malloc_plenty [OF assms(1)] server_spwan_stats_thread_def Let_def)
  qed
qed

section \<open>A whole run\<close>

lemma run_conserves:
  assumes "sv_sniffer v = Some s" "created_ok s" "lua_state s = None" "\<forall>fr \<in> set frames. frame_ok fr"
    and "log_fp lg \<noteq> None" "outcomes (r_mem r) = []"
  shows "\<exists>res v' s' q lg'.
    server_run A E S frames rc v r lg gc = Done (res, Some v', if rc = -1 then q else join_stats (Some v') q, lg') \<and>
    sv_sniffer v' = Some s' \<and> tables_owned s' \<and> stats_tid v' = stats_tid v \<and> rest_levels s' q = rest_levels s r \<and>
    log_fp lg' \<noteq> None"
proof -
  let ?c = "\<lparr>sniffer = s, heap = r_mem r, console = lg, gc_count = gc\<rparr>"
  obtain h where h: "pcap s = Some h" using assms(2) by (auto simp: created_ok_def)
  have "capture_ok ?c" using assms(2,5) by (simp add: capture_ok_def created_ok_def MAX_PENDING_REQUESTS_def)
  from loop_conserves [OF this, of h frames A E rc] assms(3,4) h obtain c where
    c: "pcap_loop A E frames rc ?c = Done (rc, c)" "capture_ok c" "conserves ?c c" "same_open ?c c" by auto
  have own: "tables_owned (sniffer c)" using c(2) by (auto simp: capture_ok_def table_ok_def tables_owned_def)
  have pc: "pcap (sniffer c) = Some h" using c(4) h by (simp add: same_open_def)
  have lg: "log_fp (console c) \<noteq> None" using c(2) by (simp add: capture_ok_def)
  have lev: "rest_levels (sniffer c) (r\<lparr>r_mem := heap c\<rparr>) = rest_levels s r"
    using c(3,4) assms(6)
    by (auto simp: conserves_def same_open_def surplus_def rest_levels_def sniffer_blocks_def)
  let ?v = "v\<lparr>sv_sniffer := Some (sniffer c)\<rparr>" and ?r = "r\<lparr>r_mem := heap c\<rparr>"
  from terminated_sniffer [of ?v "sniffer c" S] own obtain v' s' where
    v': "server_terminate S (Some ?v) = Some v'" "sv_sniffer v' = Some s'" "tables_owned s'"
      "stats_tid v' = stats_tid v" "rest_levels s' ?r = rest_levels (sniffer c) ?r" by auto
  have "pcap s' \<noteq> None" using v'(1,2) pc
    by (auto simp: server_terminate_def sniffer_terminate_def split: if_splits)
  then obtain h' where h': "pcap s' = Some h'" by blast
  obtain lg1 where warn: "log_message (log_time E) WARN (str ''Failed to read the interface stats, err: '' @ pcap_geterr A h')
      (console c) = Done lg1" "log_fp lg1 \<noteq> None" using log_message_done [OF lg, of WARN] by blast
  have "\<exists>res lg'. server_run A E S frames rc v r lg gc =
      Done (res, Some v', if rc = -1 then ?r else join_stats (Some v') ?r, lg') \<and> log_fp lg' \<noteq> None"
    using lg warn assms(1) v'(1,2) h' c(1)
    by (cases "pcap_stats S h'")
      (auto simp: server_run_def sniffer_run_def Let_def print_stats_def out_print_def split: prod.splits)
  with v' lev show ?thesis by metis
qed

lemma clamp_keeps [simp]:
  "o_dev (clamp_snaplen opts) = o_dev opts" "o_filter (clamp_snaplen opts) = o_filter opts"
  "o_script (clamp_snaplen opts) = o_script opts" "opt_blocks (clamp_snaplen opts) = opt_blocks opts"
  by (simp_all add: clamp_snaplen_def opt_blocks_def Let_def)

lemma free_opts_levels: "levels (free_opts opts r) = kept_levels opts (levels r)"
  by (simp add: free_opts_def levels_def kept_levels_def free_options_live)

lemma parse_options_levels:
  assumes "parse_options args (r_mem r) = (x, m)"
  shows "case x of Inl e \<Rightarrow> levels (r\<lparr>r_mem := m\<rparr>) = levels r
         | Inr opts \<Rightarrow> kept_levels opts (levels (r\<lparr>r_mem := m\<rparr>)) = levels r"
proof -
  obtain ok m1 where m1: "malloc (r_mem r) = (ok, m1)" by fastforce
  show ?thesis
  proof (cases ok)
    case False
    with assms m1 malloc_live(2) [of "r_mem r" m1] show ?thesis by (auto simp: parse_options_def levels_def)
  next
    case True
    obtain opts m2 where init: "init_options m1 = (opts, m2)" by fastforce
    then have "live m2 = live m1 + opt_blocks opts - 1"
      by (auto simp: init_options_def opt_blocks_def str_blocks_def dest!: strdup_live split: prod.splits)
    moreover have "parse_loop args opts m2 = (x, m)" using assms m1 True init by (simp add: parse_options_def)
    from parse_loop_live [OF this] have "live m - result_blocks x = live m2 - opt_blocks opts" .
    ultimately show ?thesis using m1 True malloc_live(1) [of "r_mem r" m1]
      by (auto simp: result_blocks_def levels_def kept_levels_def split: sum.splits)
  qed
qed

text \<open>What a run leaves of the levels is what the server had.\<close>

lemma gives_back_run:
  assumes "gives_back opts before v r" "sv_sniffer v = Some s" "tables_owned s"
    and "sv_sniffer w = Some t" "tables_owned t" "stats_tid w = stats_tid v" "rest_levels t q = rest_levels s r"
  shows "gives_back opts before w q"
proof -
  let ?r = "join_stats (Some v) r" and ?q = "join_stats (Some w) q"
  have th: "r_thread ?q = r_thread ?r" using assms(6,7) by (simp add: join_stats_def rest_levels_def)
  have rest: "rest_levels t (?q\<lparr>r_mem := mfree (r_mem ?q)\<rparr>) = rest_levels s (?r\<lparr>r_mem := mfree (r_mem ?r)\<rparr>)"
    using assms(6,7)
    by (cases "stats_tid v = 0") (simp_all add: rest_levels_def mfree_def join_stats_def split del: if_split)
  have idle: "stats_tid v \<noteq> 0 \<longrightarrow> r_thread ?r = 0"
    using assms(1) by (auto simp: gives_back_def server_destroy_def split: if_splits)
  obtain r1 where r1: "server_destroy (Some v) ?r = Done r1"
    "kept_levels opts (levels r1) = kept_levels opts (rest_levels s (?r\<lparr>r_mem := mfree (r_mem ?r)\<rparr>))"
    using server_destroy_levels [OF assms(3,2) idle] by blast
  obtain q1 where q1: "server_destroy (Some w) ?q = Done q1"
    "kept_levels opts (levels q1) = kept_levels opts (rest_levels t (?q\<lparr>r_mem := mfree (r_mem ?q)\<rparr>))"
    using server_destroy_levels [OF assms(5,4), of ?q] idle th assms(6) by auto
  show ?thesis using r1 q1 rest assms(1) by (simp add: gives_back_def)
qed

lemma main_destroy_back:
  assumes "gives_back opts before v q"
  shows "case main_destroy late (Some v) opts (if rc = -1 then q else join_stats (Some v) q) of
      Done r' \<Rightarrow> levels r' = before | Exited n \<Rightarrow> False | Undefined \<Rightarrow> rc = -1 \<or> late"
proof (cases "rc = -1 \<and> stats_tid v \<noteq> 0 \<and> r_thread q \<noteq> 0")
  case True
  then show ?thesis by (simp add: main_destroy_def server_destroy_def)
next
  case False
  obtain r' where r': "server_destroy (Some v) (join_stats (Some v) q) = Done r'" "kept_levels opts (levels r') = before"
    using assms by (auto simp: gives_back_def split: outcome.splits)
  have "rc \<noteq> -1 \<or> stats_tid v = 0 \<or> r_thread q = 0" using False by blast
  moreover have "\<not> (stats_tid v \<noteq> 0 \<and> r_thread q = 0)"
    using r'(1) by (auto simp: server_destroy_def join_stats_def)
  ultimately have "(if rc = -1 then q else join_stats (Some v) q) = join_stats (Some v) q"
    by (auto simp: join_stats_def)
  with r' show ?thesis by (simp add: main_destroy_def free_opts_levels)
qed

text \<open>
  A run that ends properly: returned with status 0 or 1 and the levels as before, or exited with 0. An undefined end
  needs a reason.
\<close>

definition clean_end :: "bool \<Rightarrow> int list \<Rightarrow> (int \<times> resources \<times> logger) outcome \<Rightarrow> bool" where
  "clean_end reason before res \<longleftrightarrow>
     (case res of
        Done (status, r', lg') \<Rightarrow> status \<in> {0, 1} \<and> levels r' = before
      | Exited n \<Rightarrow> n = 0
      | Undefined \<Rightarrow> reason)"

lemma main_failed_clean: "log_fp lg \<noteq> None \<Longrightarrow> levels r = before \<Longrightarrow> clean_end reason before (main_failed E msg lg r)"
  using log_message_done [of lg ERROR "log_time E" msg] by (auto simp: main_failed_def clean_end_def)

lemma main_serve_clean:
  assumes "outcomes (r_mem r) = []" "o_script opts = None" "o_dev opts \<noteq> None" "o_filter opts \<noteq> None"
    and "\<forall>fr \<in> set frames. frame_ok fr" "pthread_create S \<notin> {Inl 0, Inr 0}" "r_thread r = 0" "log_fp lg \<noteq> None"
  shows "clean_end (rc = -1 \<or> late) (kept_levels opts (levels r)) (main_serve A E S frames rc late opts r lg)"
proof -
  from server_create_plenty [OF assms(1-4)] obtain res opts1 r1 where
    c: "server_create A (lua E) S opts r = Done (res, opts1, r1)"
      "\<forall>v. res = Inr v \<longrightarrow> outcomes (r_mem r1) = [] \<and> (\<exists>s. sv_sniffer v = Some s \<and> lua_state s = None)" by blast
  note cl = server_create_levels [OF c(1) assms(6,7)]
  show ?thesis
  proof (cases res)
    case (Inl err)
    with cl assms(2) c(1) show ?thesis
      by (simp add: main_serve_def free_opts_levels main_failed_clean [OF assms(8)])
  next
    case (Inr v)
    with c(2) cl obtain s where s: "outcomes (r_mem r1) = []" "sv_sniffer v = Some s" "lua_state s = None" "created_ok s"
      and giv: "gives_back opts1 (kept_levels opts (levels r)) v r1" by auto
    have own: "tables_owned s" using s(4) by (auto simp: created_ok_def tables_owned_def table_ok_def)
    from run_conserves [OF s(2,4,3) assms(5,8) s(1), of A E S rc 0] obtain res2 v' s' q lg2 where
      run: "server_run A E S frames rc v r1 lg 0 = Done (res2, Some v', if rc = -1 then q else join_stats (Some v') q, lg2)"
        "sv_sniffer v' = Some s'" "tables_owned s'" "stats_tid v' = stats_tid v" "rest_levels s' q = rest_levels s r1"
        "log_fp lg2 \<noteq> None" by blast
    let ?fin = "main_destroy late (Some v') opts1 (if rc = -1 then q else join_stats (Some v') q)"
    note fin = main_destroy_back [OF gives_back_run [OF giv s(2) own run(2-5)], of rc late]
    have ends: "clean_end (rc = -1 \<or> late) (kept_levels opts (levels r)) (and_then ?fin (\<lambda>r. Done (st, r, l)))"
      if "st \<in> {0, 1}" for st l
      using fin that by (cases ?fin) (auto simp: clean_end_def)
    show ?thesis
    proof (cases res2)
      case (Inl err)
      obtain lg3 where "log_message (log_time E) ERROR (str ''Failed to run the server, '' @ err) lg2 = Done lg3"
        using log_message_done [OF run(6), of ERROR] by blast
      with ends [of 1] c(1) Inr run(1) Inl show ?thesis by (simp add: main_serve_def)
    qed (use ends [of 0] c(1) Inr run(1) in \<open>simp add: main_serve_def\<close>)
  qed
qed

lemma main_clean:
  assumes "outcomes (r_mem r) = []" "\<forall>arg \<in> set args. \<not> is_opt arg ''-S''"
    and "\<forall>fr \<in> set frames. frame_ok fr" "pthread_create S \<notin> {Inl 0, Inr 0}" "r_thread r = 0"
  shows "clean_end (rc = -1 \<or> late) (levels r) (tcpkit_main A E S uid args frames rc late r lg)"
proof -
  let ?lg = "print_redirect (Some Stdout) lg" and ?ok = "rc = -1 \<or> late"
  have lg: "log_fp ?lg \<noteq> None" by (simp add: print_redirect_def)
  obtain x m where p: "parse_options args (r_mem r) = (x, m)" by fastforce
  note lev = parse_options_levels [OF p]
  show ?thesis
  proof (cases x)
    case (Inl err)
    with p lev show ?thesis by (simp add: tcpkit_main_def main_failed_clean [OF lg])
  next
    case (Inr opts)
    let ?r = "r\<lparr>r_mem := m\<rparr>"
    note po = parse_options_plenty [OF assms(1,2) p [unfolded Inr]]
    have fr: "levels (free_opts opts ?r) = levels r" using lev Inr by (simp add: free_opts_levels)
    have "kept_levels (clamp_snaplen opts) (levels ?r) = levels r" using lev Inr by (simp add: kept_levels_def)
    with main_serve_clean [of ?r "clamp_snaplen opts" frames S ?lg rc late A E] po assms(3-5) lg have
      "clean_end ?ok (levels r) (main_serve A E S frames rc late (clamp_snaplen opts) ?r ?lg)" by simp
    moreover have "clean_end ?ok (levels r) (usage ?lg)"
      using lg color_printf_Done [of ?lg _ "Some GREEN" usage_literal] by (auto simp: usage_def clean_end_def)
    moreover have "clean_end ?ok (levels r) (Done (0, free_opts opts ?r, l))" for l using fr by (simp add: clean_end_def)
    moreover have "clean_end ?ok (levels r) (main_failed E msg ?lg (free_opts opts ?r))" for msg
      using fr by (rule main_failed_clean [OF lg])
    ultimately show ?thesis using p Inr by (simp add: tcpkit_main_def Let_def)
  qed
qed



end
