(* ===== verification/Json_Links.thy ===== *)
theory Json_Links
  imports Json "HOL-Library.Monad_Syntax"
begin

text \<open>
  The member lists of \<open>cJSON.c\<close> at the level of pointers: an item is a node at an address, its
  members are linked by \<open>next\<close> and \<open>prev\<close>, and \<open>child\<close> points to the first. Appending, inserting,
  detaching, replacing and deleting are translated with their stores in order; a step that uses an
  address without a node is \<open>None\<close>, and so is a loop over links that never ends.

  A list built by \<open>add_item_to_array\<close> has the last member as \<open>prev\<close> of the first (here: a ring),
  one built by the parser has NULL there. The theorem states for which of them each operation
  implements the operation on lists, and the lemmas behind it what goes wrong in the other cases.
\<close>

unbundle bit_operations_syntax

section \<open>Nodes\<close>

type_synonym addr = nat

record cnode =
  nd_next :: "addr option"
  nd_prev :: "addr option"
  nd_child :: "addr option"
  nd_type :: int
  nd_valuestring :: "cstring option"
  nd_valueint :: int
  nd_valuedouble :: double
  nd_string :: "cstring option"

text \<open>The nodes, the address of the next allocation and the allocator.\<close>

record jheap =
  nodes :: "addr \<rightharpoonup> cnode"
  next_addr :: addr
  hmem :: mem

definition update_node :: "addr \<Rightarrow> (cnode \<Rightarrow> cnode) \<Rightarrow> jheap \<Rightarrow> jheap option" where
  "update_node p f h = map_option (\<lambda>n. h\<lparr>nodes := (nodes h)(p \<mapsto> f n)\<rparr>) (nodes h p)"

definition set_next :: "addr \<Rightarrow> addr option \<Rightarrow> jheap \<Rightarrow> jheap option" where
  "set_next p q = update_node p (\<lambda>n. n\<lparr>nd_next := q\<rparr>)"

definition set_prev :: "addr \<Rightarrow> addr option \<Rightarrow> jheap \<Rightarrow> jheap option" where
  "set_prev p q = update_node p (\<lambda>n. n\<lparr>nd_prev := q\<rparr>)"

definition set_first :: "addr \<Rightarrow> addr option \<Rightarrow> jheap \<Rightarrow> jheap option" where
  "set_first p q = update_node p (\<lambda>n. n\<lparr>nd_child := q\<rparr>)"

definition empty_node :: cnode where
  "empty_node = \<lparr>nd_next = None, nd_prev = None, nd_child = None, nd_type = 0, nd_valuestring = None,
     nd_valueint = 0, nd_valuedouble = Fin False 0, nd_string = None\<rparr>"

definition new_node :: "jheap \<Rightarrow> addr option \<times> jheap" where
  "new_node h =
     (case malloc (hmem h) of
        (False, m) \<Rightarrow> (None, h\<lparr>hmem := m\<rparr>)
      | (True, m) \<Rightarrow>
          (Some (next_addr h),
           h\<lparr>nodes := (nodes h)(next_addr h \<mapsto> empty_node), next_addr := next_addr h + 1, hmem := m\<rparr>))"

section \<open>Walking\<close>

partial_function (option) last_link :: "jheap \<Rightarrow> addr \<Rightarrow> addr option" where
  "last_link h p = do { n \<leftarrow> nodes h p; case nd_next n of None \<Rightarrow> Some p | Some q \<Rightarrow> last_link h q }"

partial_function (option) count_links :: "jheap \<Rightarrow> addr option \<Rightarrow> nat \<Rightarrow> nat option" where
  "count_links h c k =
     (case c of
        None \<Rightarrow> Some k
      | Some p \<Rightarrow> do { n \<leftarrow> nodes h p; count_links h (nd_next n) (k + 1) })"

fun nth_link :: "jheap \<Rightarrow> nat \<Rightarrow> addr option \<Rightarrow> addr option option" where
  "nth_link h 0 c = Some c"
| "nth_link h (Suc i) None = Some None"
| "nth_link h (Suc i) (Some p) = do { n \<leftarrow> nodes h p; nth_link h i (nd_next n) }"

definition array_item :: "jheap \<Rightarrow> addr option \<Rightarrow> nat \<Rightarrow> addr option option" where
  "array_item h a i =
     (case a of None \<Rightarrow> Some None | Some p \<Rightarrow> do { n \<leftarrow> nodes h p; nth_link h i (nd_child n) })"

definition key_differs :: "bool \<Rightarrow> cstring \<Rightarrow> cnode \<Rightarrow> bool" where
  "key_differs case_sensitive name n \<longleftrightarrow>
     (if case_sensitive then (case nd_string n of None \<Rightarrow> False | Some s \<Rightarrow> strcmp name s \<noteq> 0)
      else case_insensitive_strcmp (Some name) (nd_string n) \<noteq> 0)"

partial_function (option) find_link :: "jheap \<Rightarrow> (cnode \<Rightarrow> bool) \<Rightarrow> addr option \<Rightarrow> addr option option" where
  "find_link h differs c =
     (case c of
        None \<Rightarrow> Some None
      | Some p \<Rightarrow> do { n \<leftarrow> nodes h p; if differs n then find_link h differs (nd_next n) else Some (Some p) })"

definition object_item :: "jheap \<Rightarrow> addr option \<Rightarrow> cstring option \<Rightarrow> bool \<Rightarrow> addr option option" where
  "object_item h obj name case_sensitive =
     (case (obj, name) of
        (Some p, Some k) \<Rightarrow>
          do {
            n \<leftarrow> nodes h p;
            found \<leftarrow> find_link h (key_differs case_sensitive k) (nd_child n);
            case found of
              None \<Rightarrow> Some None
            | Some q \<Rightarrow> do { e \<leftarrow> nodes h q; Some (if nd_string e = None then None else Some q) }
          }
      | _ \<Rightarrow> Some None)"

section \<open>Deleting\<close>

definition free_node :: "addr \<Rightarrow> cnode \<Rightarrow> jheap \<Rightarrow> jheap" where
  "free_node p n h =
     (let m = hmem h;
          m = (if nd_type n AND cJSON_IsReference = 0 \<and> nd_valuestring n \<noteq> None then mfree m else m);
          m = (if nd_type n AND cJSON_StringIsConst = 0 \<and> nd_string n \<noteq> None then mfree m else m)
      in h\<lparr>nodes := (nodes h)(p := None), hmem := mfree m\<rparr>)"

partial_function (option) delete_nodes :: "addr option \<Rightarrow> jheap \<Rightarrow> jheap option" where
  "delete_nodes c h =
     (case c of
        None \<Rightarrow> Some h
      | Some p \<Rightarrow>
          do {
            n \<leftarrow> nodes h p;
            h \<leftarrow> (if nd_type n AND cJSON_IsReference = 0 \<and> nd_child n \<noteq> None then delete_nodes (nd_child n) h else Some h);
            n' \<leftarrow> nodes h p;
            delete_nodes (nd_next n) (free_node p n' h)
          })"

section \<open>Adding\<close>

definition suffix_object :: "addr \<Rightarrow> addr \<Rightarrow> jheap \<Rightarrow> jheap option" where
  "suffix_object prev item h = do { h \<leftarrow> set_next prev (Some item) h; set_prev item (Some prev) h }"

definition append_link :: "addr option \<Rightarrow> addr option \<Rightarrow> jheap \<Rightarrow> (bool \<times> jheap) option" where
  "append_link array item h =
     (case (array, item) of
        (Some a, Some x) \<Rightarrow>
          do {
            n \<leftarrow> nodes h a;
            h \<leftarrow> (case nd_child n of
                    None \<Rightarrow>
                      do { h \<leftarrow> set_first a (Some x) h; h \<leftarrow> set_prev x (Some x) h; set_next x None h }
                  | Some c \<Rightarrow>
                      do {
                        e \<leftarrow> nodes h c;
                        l \<leftarrow> (case nd_prev e of Some l \<Rightarrow> Some l | None \<Rightarrow> last_link h c);
                        h \<leftarrow> suffix_object l x h;
                        n \<leftarrow> nodes h a;
                        c \<leftarrow> nd_child n;
                        set_prev c (Some x) h
                      });
            Some (True, h)
          }
      | _ \<Rightarrow> Some (False, h))"

definition create_reference :: "addr option \<Rightarrow> jheap \<Rightarrow> (addr option \<times> jheap) option" where
  "create_reference item h =
     (case item of
        None \<Rightarrow> Some (None, h)
      | Some x \<Rightarrow>
          (case new_node h of
             (None, h) \<Rightarrow> Some (None, h)
           | (Some r, h) \<Rightarrow>
               do {
                 n \<leftarrow> nodes h x;
                 h \<leftarrow> update_node r (\<lambda>_. n\<lparr>nd_string := None, nd_type := nd_type n OR cJSON_IsReference,
                                          nd_next := None, nd_prev := None\<rparr>) h;
                 Some (Some r, h)
               }))"

definition cJSON_AddItemReferenceToArray :: "addr option \<Rightarrow> addr option \<Rightarrow> jheap \<Rightarrow> jheap option" where
  "cJSON_AddItemReferenceToArray array item h =
     (if array = None then Some h
      else do { (r, h) \<leftarrow> create_reference item h; (_, h) \<leftarrow> append_link array r h; Some h })"

definition object_add_link :: "addr option \<Rightarrow> cstring option \<Rightarrow> addr option \<Rightarrow> bool \<Rightarrow> jheap \<Rightarrow> (bool \<times> jheap) option" where
  "object_add_link obj name item constant_key h =
     (case (obj, name, item) of
        (Some a, Some k, Some x) \<Rightarrow>
          (case (if constant_key then (Some k, hmem h) else cJSON_strdup (Some k) (hmem h)) of
             (None, m) \<Rightarrow> Some (False, h\<lparr>hmem := m\<rparr>)
           | (Some key, m) \<Rightarrow>
               do {
                 n \<leftarrow> nodes h x;
                 let m = (if nd_type n AND cJSON_StringIsConst = 0 \<and> nd_string n \<noteq> None then mfree m else m);
                 let t = (if constant_key then nd_type n OR cJSON_StringIsConst else nd_type n AND NOT cJSON_StringIsConst);
                 h \<leftarrow> update_node x (\<lambda>n. n\<lparr>nd_string := Some key, nd_type := t\<rparr>) (h\<lparr>hmem := m\<rparr>);
                 append_link obj item h
               })
      | _ \<Rightarrow> Some (False, h))"

definition cJSON_AddItemReferenceToObject :: "addr option \<Rightarrow> cstring option \<Rightarrow> addr option \<Rightarrow> jheap \<Rightarrow> jheap option" where
  "cJSON_AddItemReferenceToObject obj name item h =
     (if obj = None \<or> name = None then Some h
      else do { (r, h) \<leftarrow> create_reference item h; (_, h) \<leftarrow> object_add_link obj name r False h; Some h })"

section \<open>Detaching, inserting and replacing\<close>

definition cJSON_DetachItemViaPointer :: "addr option \<Rightarrow> addr option \<Rightarrow> jheap \<Rightarrow> (addr option \<times> jheap) option" where
  "cJSON_DetachItemViaPointer parent item h =
     (case (parent, item) of
        (Some a, Some x) \<Rightarrow>
          do {
            n \<leftarrow> nodes h x;
            h \<leftarrow> (case nd_prev n of None \<Rightarrow> Some h | Some p \<Rightarrow> set_next p (nd_next n) h);
            n \<leftarrow> nodes h x;
            h \<leftarrow> (case nd_next n of None \<Rightarrow> Some h | Some q \<Rightarrow> set_prev q (nd_prev n) h);
            e \<leftarrow> nodes h a;
            h \<leftarrow> (if nd_child e = Some x then do { n \<leftarrow> nodes h x; set_first a (nd_next n) h } else Some h);
            h \<leftarrow> set_prev x None h;
            h \<leftarrow> set_next x None h;
            Some (Some x, h)
          }
      | _ \<Rightarrow> Some (None, h))"

definition cJSON_DetachItemFromArray :: "addr option \<Rightarrow> int \<Rightarrow> jheap \<Rightarrow> (addr option \<times> jheap) option" where
  "cJSON_DetachItemFromArray array which h =
     (if which < 0 then Some (None, h)
      else do { x \<leftarrow> array_item h array (nat which); cJSON_DetachItemViaPointer array x h })"

definition cJSON_DeleteItemFromArray :: "addr option \<Rightarrow> int \<Rightarrow> jheap \<Rightarrow> jheap option" where
  "cJSON_DeleteItemFromArray array which h = do { (x, h) \<leftarrow> cJSON_DetachItemFromArray array which h; delete_nodes x h }"

definition cJSON_DetachItemFromObject :: "addr option \<Rightarrow> cstring option \<Rightarrow> jheap \<Rightarrow> (addr option \<times> jheap) option" where
  "cJSON_DetachItemFromObject obj name h = do { x \<leftarrow> object_item h obj name False; cJSON_DetachItemViaPointer obj x h }"

definition cJSON_DetachItemFromObjectCaseSensitive :: "addr option \<Rightarrow> cstring option \<Rightarrow> jheap \<Rightarrow> (addr option \<times> jheap) option" where
  "cJSON_DetachItemFromObjectCaseSensitive obj name h =
     do { x \<leftarrow> object_item h obj name True; cJSON_DetachItemViaPointer obj x h }"

definition cJSON_DeleteItemFromObject :: "addr option \<Rightarrow> cstring option \<Rightarrow> jheap \<Rightarrow> jheap option" where
  "cJSON_DeleteItemFromObject obj name h = do { (x, h) \<leftarrow> cJSON_DetachItemFromObject obj name h; delete_nodes x h }"

definition cJSON_DeleteItemFromObjectCaseSensitive :: "addr option \<Rightarrow> cstring option \<Rightarrow> jheap \<Rightarrow> jheap option" where
  "cJSON_DeleteItemFromObjectCaseSensitive obj name h =
     do { (x, h) \<leftarrow> cJSON_DetachItemFromObjectCaseSensitive obj name h; delete_nodes x h }"

text \<open>A new item that is NULL is dereferenced unless it is appended.\<close>

definition cJSON_InsertItemInArray :: "addr option \<Rightarrow> int \<Rightarrow> addr option \<Rightarrow> jheap \<Rightarrow> jheap option" where
  "cJSON_InsertItemInArray array which newitem h =
     (if which < 0 then Some h
      else
        do {
          after_inserted \<leftarrow> array_item h array (nat which);
          case after_inserted of
            None \<Rightarrow> do { (_, h) \<leftarrow> append_link array newitem h; Some h }
          | Some s \<Rightarrow>
              do {
                x \<leftarrow> newitem;
                a \<leftarrow> array;
                h \<leftarrow> set_next x (Some s) h;
                n \<leftarrow> nodes h s;
                h \<leftarrow> set_prev x (nd_prev n) h;
                h \<leftarrow> set_prev s (Some x) h;
                e \<leftarrow> nodes h a;
                if nd_child e = Some s then set_first a (Some x) h
                else do { n \<leftarrow> nodes h x; p \<leftarrow> nd_prev n; set_next p (Some x) h }
              }
        })"

text \<open>The stores of a replacement up to the point where the old item is deleted.\<close>

definition replace_links :: "addr \<Rightarrow> addr \<Rightarrow> addr \<Rightarrow> jheap \<Rightarrow> jheap option" where
  "replace_links a x y h =
     do {
       n \<leftarrow> nodes h x;
       h \<leftarrow> set_next y (nd_next n) h;
       h \<leftarrow> set_prev y (nd_prev n) h;
       h \<leftarrow> (case nd_next n of None \<Rightarrow> Some h | Some q \<Rightarrow> set_prev q (Some y) h);
       e \<leftarrow> nodes h a;
       r \<leftarrow> nodes h y;
       h \<leftarrow> (if nd_child e = Some x then set_first a (Some y) h
             else case nd_prev r of None \<Rightarrow> Some h | Some p \<Rightarrow> set_next p (Some y) h);
       h \<leftarrow> set_next x None h;
       set_prev x None h
     }"

definition cJSON_ReplaceItemViaPointer :: "addr option \<Rightarrow> addr option \<Rightarrow> addr option \<Rightarrow> jheap \<Rightarrow> (bool \<times> jheap) option" where
  "cJSON_ReplaceItemViaPointer parent item replacement h =
     (case (parent, item, replacement) of
        (Some a, Some x, Some y) \<Rightarrow>
          if y = x then Some (True, h)
          else do { h \<leftarrow> replace_links a x y h; h \<leftarrow> delete_nodes (Some x) h; Some (True, h) }
      | _ \<Rightarrow> Some (False, h))"

definition cJSON_ReplaceItemInArray :: "addr option \<Rightarrow> int \<Rightarrow> addr option \<Rightarrow> jheap \<Rightarrow> jheap option" where
  "cJSON_ReplaceItemInArray array which newitem h =
     (if which < 0 then Some h
      else do { x \<leftarrow> array_item h array (nat which); (_, h) \<leftarrow> cJSON_ReplaceItemViaPointer array x newitem h; Some h })"

definition replace_item_in_object ::
    "addr option \<Rightarrow> cstring option \<Rightarrow> addr option \<Rightarrow> bool \<Rightarrow> jheap \<Rightarrow> (bool \<times> jheap) option" where
  "replace_item_in_object obj name replacement case_sensitive h =
     (case (name, replacement) of
        (Some k, Some y) \<Rightarrow>
          do {
            n \<leftarrow> nodes h y;
            let m = (if nd_type n AND cJSON_StringIsConst = 0 \<and> nd_string n \<noteq> None then mfree (hmem h) else hmem h);
            let (key, m) = cJSON_strdup (Some k) m;
            h \<leftarrow> update_node y (\<lambda>n. n\<lparr>nd_string := key, nd_type := nd_type n AND NOT cJSON_StringIsConst\<rparr>) (h\<lparr>hmem := m\<rparr>);
            x \<leftarrow> object_item h obj name case_sensitive;
            (_, h) \<leftarrow> cJSON_ReplaceItemViaPointer obj x replacement h;
            Some (True, h)
          }
      | _ \<Rightarrow> Some (False, h))"

definition cJSON_ReplaceItemInObject :: "addr option \<Rightarrow> cstring option \<Rightarrow> addr option \<Rightarrow> jheap \<Rightarrow> jheap option" where
  "cJSON_ReplaceItemInObject obj name newitem h = map_option snd (replace_item_in_object obj name newitem False h)"

definition cJSON_ReplaceItemInObjectCaseSensitive :: "addr option \<Rightarrow> cstring option \<Rightarrow> addr option \<Rightarrow> jheap \<Rightarrow> jheap option" where
  "cJSON_ReplaceItemInObjectCaseSensitive obj name newitem h = map_option snd (replace_item_in_object obj name newitem True h)"

text \<open>Items that refer to the members of another one.\<close>

definition create_link_reference :: "int \<Rightarrow> addr option \<Rightarrow> jheap \<Rightarrow> (addr option \<times> jheap) option" where
  "create_link_reference t c h =
     (case new_node h of
        (None, h) \<Rightarrow> Some (None, h)
      | (Some r, h) \<Rightarrow>
          map_option (\<lambda>h. (Some r, h)) (update_node r (\<lambda>n. n\<lparr>nd_type := t OR cJSON_IsReference, nd_child := c\<rparr>) h))"

definition cJSON_CreateObjectReference :: "addr option \<Rightarrow> jheap \<Rightarrow> (addr option \<times> jheap) option" where
  "cJSON_CreateObjectReference c = create_link_reference cJSON_Object c"

definition cJSON_CreateArrayReference :: "addr option \<Rightarrow> jheap \<Rightarrow> (addr option \<times> jheap) option" where
  "cJSON_CreateArrayReference c = create_link_reference cJSON_Array c"

section \<open>Linked members\<close>

definition hd_or :: "addr list \<Rightarrow> addr option \<Rightarrow> addr option" where
  "hd_or xs d = (case xs of [] \<Rightarrow> d | x # _ \<Rightarrow> Some x)"

definition last_or :: "addr option \<Rightarrow> addr list \<Rightarrow> addr option" where
  "last_or d xs = (if xs = [] then d else Some (last xs))"

lemma hd_or_simps [simp]: "hd_or [] d = d" "hd_or (x # xs) d = Some x" "hd_or (xs @ ys) d = hd_or xs (hd_or ys d)"
  by (simp_all add: hd_or_def split: list.split)

lemma last_or_simps [simp]: "last_or d [] = d" "last_or d (x # xs) = last_or (Some x) xs" "last_or d (xs @ ys) = last_or (last_or d xs) ys"
  by (simp_all add: last_or_def)

definition link :: "(addr \<rightharpoonup> cnode) \<Rightarrow> addr \<Rightarrow> addr option \<Rightarrow> addr option \<Rightarrow> bool" where
  "link N x pv nx \<longleftrightarrow> (\<exists>n. N x = Some n \<and> nd_prev n = pv \<and> nd_next n = nx)"

text \<open>The members \<open>xs\<close> in a row, \<open>pv\<close> in front of the first and \<open>nx\<close> behind the last.\<close>

fun segment :: "(addr \<rightharpoonup> cnode) \<Rightarrow> addr option \<Rightarrow> addr list \<Rightarrow> addr option \<Rightarrow> bool" where
  "segment N pv [] nx \<longleftrightarrow> True"
| "segment N pv (x # xs) nx \<longleftrightarrow> link N x pv (hd_or xs nx) \<and> segment N (Some x) xs nx"

lemma segment_append [simp]:
  "segment N pv (xs @ ys) nx \<longleftrightarrow> segment N pv xs (hd_or ys nx) \<and> segment N (last_or pv xs) ys nx"
  by (induction xs arbitrary: pv) auto

lemma segment_frame: "\<forall>x \<in> set xs. N x = N' x \<Longrightarrow> segment N pv xs nx = segment N' pv xs nx"
  by (induction xs arbitrary: pv) (auto simp: link_def)

lemma segment_upd [simp]: "z \<notin> set xs \<Longrightarrow> segment (N(z := v)) pv xs nx = segment N pv xs nx"
  by (rule segment_frame) auto

lemma link_upd [simp]: "z \<noteq> x \<Longrightarrow> link (N(z := v)) x pv nx = link N x pv nx"
  "link (N(x \<mapsto> n)) x pv nx \<longleftrightarrow> nd_prev n = pv \<and> nd_next n = nx"
  by (auto simp: link_def)

text \<open>The members of \<open>p\<close>: in a ring the first one's \<open>prev\<close> is the last, otherwise it is NULL.\<close>

definition linked :: "bool \<Rightarrow> (addr \<rightharpoonup> cnode) \<Rightarrow> addr \<Rightarrow> addr list \<Rightarrow> bool" where
  "linked ring N p xs \<longleftrightarrow>
     distinct (p # xs) \<and> (\<exists>n. N p = Some n \<and> nd_child n = hd_or xs None) \<and>
     segment N (if ring then last_or None xs else None) xs None"

lemma update_node_Some: "nodes h p = Some n \<Longrightarrow> update_node p f h = Some (h\<lparr>nodes := (nodes h)(p \<mapsto> f n)\<rparr>)"
  by (simp add: update_node_def)

lemmas link_steps = set_next_def set_prev_def set_first_def update_node_def

section \<open>Walking over linked members\<close>

lemma last_link_segment: "segment (nodes h) pv (x # xs) None \<Longrightarrow> last_link h x = Some (last (x # xs))"
proof (induction xs arbitrary: pv x)
  case Nil
  then show ?case by (subst last_link.simps) (auto simp: link_def)
next
  case (Cons y ys)
  then show ?case by (subst last_link.simps) (fastforce simp: link_def)
qed

lemma count_links_segment: "segment (nodes h) pv xs None \<Longrightarrow> count_links h (hd_or xs None) k = Some (k + length xs)"
proof (induction xs arbitrary: pv k)
  case Nil
  then show ?case by (subst count_links.simps) simp
next
  case (Cons x xs)
  then show ?case by (subst count_links.simps) (fastforce simp: link_def)
qed

lemma nth_link_segment:
  "segment (nodes h) pv xs None \<Longrightarrow> nth_link h i (hd_or xs None) = Some (if i < length xs then Some (xs ! i) else None)"
proof (induction xs arbitrary: pv i)
  case Nil
  then show ?case by (cases i) auto
next
  case (Cons x xs)
  then show ?case by (cases i) (fastforce simp: link_def)+
qed

lemma array_item_linked:
  "linked ring (nodes h) p xs \<Longrightarrow> array_item h (Some p) i = Some (if i < length xs then Some (xs ! i) else None)"
  using nth_link_segment [of h _ xs i] by (auto simp: linked_def array_item_def)

section \<open>The operations on linked members\<close>

text \<open>A node without its links, and for the parent without its first member.\<close>

definition payload :: "bool \<Rightarrow> cnode \<Rightarrow> cnode" where
  "payload parent n = (if parent then n\<lparr>nd_child := None\<rparr> else n)\<lparr>nd_next := None, nd_prev := None\<rparr>"

text \<open>Only links of the nodes in \<open>S\<close> and the first member of \<open>p\<close> may differ.\<close>

definition relinked :: "addr \<Rightarrow> addr set \<Rightarrow> jheap \<Rightarrow> jheap \<Rightarrow> bool" where
  "relinked p S h h' \<longleftrightarrow>
     hmem h' = hmem h \<and> next_addr h' = next_addr h \<and> (\<forall>z. z \<notin> S \<longrightarrow> nodes h' z = nodes h z) \<and>
     (\<forall>z. map_option (payload (z = p)) (nodes h' z) = map_option (payload (z = p)) (nodes h z))"

lemma payload_simps [simp]:
  "payload c (n\<lparr>nd_next := q\<rparr>) = payload c n" "payload c (n\<lparr>nd_prev := q\<rparr>) = payload c n"
  "payload True (n\<lparr>nd_child := q\<rparr>) = payload True n"
  by (simp_all add: payload_def)

lemma append_linked:
  assumes "linked ring (nodes h) p xs" "nodes h y = Some e" "y \<notin> set (p # xs)" "nd_next e = None"
  shows "\<exists>h'. append_link (Some p) (Some y) h = Some (True, h') \<and> linked True (nodes h') p (xs @ [y]) \<and>
           relinked p (insert p (insert y (set xs))) h h'"
proof -
  obtain n where n: "nodes h p = Some n" "nd_child n = hd_or xs None" using assms(1) by (auto simp: linked_def)
  have d: "distinct (p # xs)" and seg: "segment (nodes h) (if ring then last_or None xs else None) xs None"
    using assms(1) by (auto simp: linked_def)
  show ?thesis
  proof (cases xs)
    case Nil
    then show ?thesis using n assms(2,3) d
      by (auto simp: append_link_def link_steps linked_def relinked_def)
  next
    case (Cons x zs)
    obtain ex where ex: "nodes h x = Some ex" "nd_prev ex = (if ring then last_or None xs else None)" "nd_next ex = hd_or zs None"
      using seg Cons by (auto simp: link_def)
    have l: "(case nd_prev ex of Some l \<Rightarrow> Some l | None \<Rightarrow> last_link h x) = Some (last xs)"
      using ex(2) last_link_segment [of h _ x zs] seg Cons by (auto simp: last_or_def)
    show ?thesis
    proof (cases zs rule: rev_cases)
      case Nil
      then show ?thesis using n ex l assms(2-4) d Cons
        by (auto simp: append_link_def suffix_object_def link_steps linked_def relinked_def)
    next
      case (snoc ys q)
      obtain eq where "nodes h q = Some eq" "nd_prev eq = last_or (Some x) ys" "nd_next eq = None"
        using seg Cons snoc by (auto simp: link_def)
      then show ?thesis using n ex l assms(2-4) d Cons snoc seg
        by (auto simp: append_link_def suffix_object_def link_steps linked_def relinked_def)
    qed
  qed
qed

text \<open>The member \<open>x\<close> between \<open>as\<close> and \<open>bs\<close>.\<close>

lemma linked_split:
  assumes "linked ring N p (as @ x # bs)"
  obtains n e where "N p = Some n" "nd_child n = hd_or as (Some x)" "N x = Some e"
    "nd_prev e = last_or (if ring then last_or (Some x) bs else None) as" "nd_next e = hd_or bs None"
    "distinct (p # as @ x # bs)"
    "segment N (if ring then last_or (Some x) bs else None) as (Some x)" "segment N (Some x) bs None"
  using assms by (auto simp: linked_def link_def split: if_splits)

lemma insert_linked:
  assumes l: "linked ring (nodes h) p (as @ x # bs)" and y: "nodes h y = Some ey" "y \<notin> set (p # as @ x # bs)"
    and i: "i = int (length as)"
  shows "\<exists>h'. cJSON_InsertItemInArray (Some p) i (Some y) h = Some h' \<and> linked ring (nodes h') p (as @ y # x # bs) \<and>
           relinked p (insert p (insert y (set (as @ x # bs)))) h h'"
proof -
  obtain n e where s: "nodes h p = Some n" "nd_child n = hd_or as (Some x)" "nodes h x = Some e"
    "nd_prev e = last_or (if ring then last_or (Some x) bs else None) as" "nd_next e = hd_or bs None"
    "distinct (p # as @ x # bs)"
    "segment (nodes h) (if ring then last_or (Some x) bs else None) as (Some x)" "segment (nodes h) (Some x) bs None"
    using linked_split [OF l] .
  have item: "array_item h (Some p) (nat i) = Some (Some x)"
    using array_item_linked [OF l, of "nat i"] i by (simp add: nth_append)
  have i0: "\<not> i < 0" using i by simp
  show ?thesis
  proof (cases as rule: rev_cases)
    case Nil
    then show ?thesis using s y item i0
      by (auto simp: cJSON_InsertItemInArray_def link_steps linked_def relinked_def last_or_def)
  next
    case (snoc ys q)
    obtain eq where "nodes h q = Some eq" "nd_prev eq = last_or (if ring then last_or (Some x) bs else None) ys" "nd_next eq = Some x"
      using s snoc by (auto simp: link_def)
    moreover have "hd_or ys (Some q) \<noteq> Some x" using s(6) snoc by (cases ys) auto
    ultimately show ?thesis using s y item i0 snoc
      by (auto simp: cJSON_InsertItemInArray_def link_steps linked_def relinked_def last_or_def split: if_splits)
  qed
qed

lemma detach_linked:
  assumes l: "linked ring (nodes h) p (as @ x # bs)" and ok: "ring \<longrightarrow> as = [] \<and> bs = [] \<or> as \<noteq> [] \<and> bs \<noteq> []"
  shows "\<exists>h'. cJSON_DetachItemViaPointer (Some p) (Some x) h = Some (Some x, h') \<and> linked ring (nodes h') p (as @ bs) \<and>
           link (nodes h') x None None \<and> relinked p (insert p (set (as @ x # bs))) h h'"
proof -
  obtain n e where s: "nodes h p = Some n" "nd_child n = hd_or as (Some x)" "nodes h x = Some e"
    "nd_prev e = last_or (if ring then last_or (Some x) bs else None) as" "nd_next e = hd_or bs None"
    "distinct (p # as @ x # bs)"
    "segment (nodes h) (if ring then last_or (Some x) bs else None) as (Some x)" "segment (nodes h) (Some x) bs None"
    using linked_split [OF l] .
  show ?thesis
  proof (cases as rule: rev_cases)
    case Nil
    show ?thesis
    proof (cases bs)
      case Nil
      then show ?thesis using s \<open>as = []\<close>
        by (auto simp: cJSON_DetachItemViaPointer_def link_steps linked_def relinked_def)
    next
      case (Cons r zs)
      obtain er where "nodes h r = Some er" "nd_prev er = Some x" "nd_next er = hd_or zs None"
        using s Cons by (auto simp: link_def)
      then show ?thesis using s Cons \<open>as = []\<close> ok
        by (auto simp: cJSON_DetachItemViaPointer_def link_steps linked_def relinked_def)
    qed
  next
    case (snoc ys q)
    obtain eq where q: "nodes h q = Some eq" "nd_prev eq = last_or (if ring then last_or (Some x) bs else None) ys" "nd_next eq = Some x"
      using s snoc by (auto simp: link_def)
    have c: "hd_or ys (Some q) \<noteq> Some x" using s(6) snoc by (cases ys) auto
    show ?thesis
    proof (cases bs)
      case Nil
      then show ?thesis using s q c snoc ok
        by (auto simp: cJSON_DetachItemViaPointer_def link_steps linked_def relinked_def)
    next
      case (Cons r zs)
      obtain er where "nodes h r = Some er" "nd_prev er = Some x" "nd_next er = hd_or zs None"
        using s Cons by (auto simp: link_def)
      then show ?thesis using s q c snoc Cons
        by (auto simp: cJSON_DetachItemViaPointer_def link_steps linked_def relinked_def last_or_def split: if_splits)
    qed
  qed
qed

lemma replace_linked:
  assumes l: "linked ring (nodes h) p (as @ x # bs)" and y: "nodes h y = Some ey" "y \<notin> set (p # as @ x # bs)"
    and ok: "ring \<longrightarrow> bs \<noteq> []"
  shows "\<exists>h'. replace_links p x y h = Some h' \<and> linked ring (nodes h') p (as @ y # bs) \<and>
           link (nodes h') x None None \<and> relinked p (insert p (insert y (set (as @ x # bs)))) h h'"
proof -
  obtain n e where s: "nodes h p = Some n" "nd_child n = hd_or as (Some x)" "nodes h x = Some e"
    "nd_prev e = last_or (if ring then last_or (Some x) bs else None) as" "nd_next e = hd_or bs None"
    "distinct (p # as @ x # bs)"
    "segment (nodes h) (if ring then last_or (Some x) bs else None) as (Some x)" "segment (nodes h) (Some x) bs None"
    using linked_split [OF l] .
  have b: "\<exists>er. nodes h r = Some er \<and> nd_prev er = Some x \<and> nd_next er = hd_or zs None" if "bs = r # zs" for r zs
    using s(8) that by (auto simp: link_def)
  show ?thesis
  proof (cases as rule: rev_cases)
    case Nil
    show ?thesis
    proof (cases bs)
      case bs: Nil
      then show ?thesis using s y ok Nil by (auto simp: replace_links_def link_steps linked_def relinked_def)
    next
      case (Cons r zs)
      then show ?thesis using s y b [OF Cons] Nil
        by (auto simp: replace_links_def link_steps linked_def relinked_def last_or_def split: if_splits)
    qed
  next
    case (snoc ys q)
    obtain eq where q: "nodes h q = Some eq" "nd_prev eq = last_or (if ring then last_or (Some x) bs else None) ys" "nd_next eq = Some x"
      using s snoc by (auto simp: link_def)
    have c: "hd_or ys (Some q) \<noteq> Some x" using s(6) snoc by (cases ys) auto
    show ?thesis
    proof (cases bs)
      case Nil
      then show ?thesis using s y q c snoc ok by (auto simp: replace_links_def link_steps linked_def relinked_def)
    next
      case (Cons r zs)
      then show ?thesis using s y q c snoc b [OF Cons]
        by (auto simp: replace_links_def link_steps linked_def relinked_def last_or_def split: if_splits)
    qed
  qed
qed

section \<open>Deleting what an item owns\<close>

definition node_blocks :: "cnode \<Rightarrow> int" where
  "node_blocks n =
     1 + (if nd_type n AND cJSON_IsReference = 0 \<and> nd_valuestring n \<noteq> None then 1 else 0) +
     (if nd_type n AND cJSON_StringIsConst = 0 \<and> nd_string n \<noteq> None then 1 else 0)"

text \<open>The nodes that the item and the items behind it own, and the number of their blocks.\<close>

inductive owns :: "(addr \<rightharpoonup> cnode) \<Rightarrow> addr option \<Rightarrow> addr set \<Rightarrow> int \<Rightarrow> bool" for N where
  owns_None: "owns N None {} 0"
| owns_Some: "N q = Some n \<Longrightarrow> owns N (if nd_type n AND cJSON_IsReference = 0 then nd_child n else None) D k \<Longrightarrow>
    owns N (nd_next n) E l \<Longrightarrow> q \<notin> D \<union> E \<Longrightarrow> D \<inter> E = {} \<Longrightarrow> owns N (Some q) (insert q (D \<union> E)) (node_blocks n + k + l)"

lemma free_node_simps [simp]:
  "nodes (free_node p n h) = (nodes h)(p := None)" "next_addr (free_node p n h) = next_addr h"
  "live (hmem (free_node p n h)) = live (hmem h) - node_blocks n" "outcomes (hmem (free_node p n h)) = outcomes (hmem h)"
  by (auto simp: free_node_def node_blocks_def Let_def mfree_def)

lemma delete_owned:
  assumes "owns N c D k" "\<forall>z \<in> D. nodes h z = N z"
  shows "\<exists>h'. delete_nodes c h = Some h' \<and> nodes h' = (\<lambda>z. if z \<in> D then None else nodes h z) \<and>
           live (hmem h') = live (hmem h) - k \<and> outcomes (hmem h') = outcomes (hmem h) \<and> next_addr h' = next_addr h"
  using assms
proof (induction arbitrary: h rule: owns.induct)
  case owns_None
  then show ?case by (subst delete_nodes.simps) simp
next
  case (owns_Some q n D k E l)
  let ?c = "if nd_type n AND cJSON_IsReference = 0 then nd_child n else None"
  have q: "nodes h q = Some n" using owns_Some.hyps(1) owns_Some.prems by simp
  obtain h1 where h1: "delete_nodes ?c h = Some h1" "nodes h1 = (\<lambda>z. if z \<in> D then None else nodes h z)"
    "live (hmem h1) = live (hmem h) - k" "outcomes (hmem h1) = outcomes (hmem h)" "next_addr h1 = next_addr h"
    using owns_Some.IH(1) [of h] owns_Some.prems by auto
  have none: "delete_nodes None h = Some h" by (subst delete_nodes.simps) simp
  have sub: "(if nd_type n AND cJSON_IsReference = 0 \<and> nd_child n \<noteq> None then delete_nodes (nd_child n) h else Some h) = Some h1"
    using h1(1) none by (auto split: if_splits)
  have q1: "nodes h1 q = Some n" using h1(2) q owns_Some.hyps(4) by simp
  let ?h = "free_node q n h1"
  have "\<forall>z \<in> E. nodes ?h z = N z" using owns_Some.prems owns_Some.hyps(4,5) h1(2) by auto
  from owns_Some.IH(2) [OF this] obtain h2 where h2: "delete_nodes (nd_next n) ?h = Some h2"
    "nodes h2 = (\<lambda>z. if z \<in> E then None else nodes ?h z)" "live (hmem h2) = live (hmem ?h) - l"
    "outcomes (hmem h2) = outcomes (hmem ?h)" "next_addr h2 = next_addr ?h" by blast
  have "delete_nodes (Some q) h = Some h2"
    by (subst delete_nodes.simps) (simp only: option.case q sub q1 h2(1) Option.bind_lunit)
  then show ?case using h1 h2 by (auto simp: fun_eq_iff)
qed

section \<open>Refinement of lists\<close>

datatype link_op = Add addr | Insert nat addr | Detach nat | Replace nat addr

fun run_op :: "link_op \<Rightarrow> addr \<Rightarrow> jheap \<Rightarrow> jheap option" where
  "run_op (Add y) p h = map_option snd (append_link (Some p) (Some y) h)"
| "run_op (Insert i y) p h = cJSON_InsertItemInArray (Some p) (int i) (Some y) h"
| "run_op (Detach i) p h = map_option snd (cJSON_DetachItemFromArray (Some p) (int i) h)"
| "run_op (Replace i y) p h = cJSON_ReplaceItemInArray (Some p) (int i) (Some y) h"

fun spec_op :: "link_op \<Rightarrow> addr list \<Rightarrow> addr list" where
  "spec_op (Add y) xs = xs @ [y]"
| "spec_op (Insert i y) xs = take i xs @ y # drop i xs"
| "spec_op (Detach i) xs = take i xs @ drop (i + 1) xs"
| "spec_op (Replace i y) xs = xs[i := y]"

text \<open>Appending makes the list a ring; the other operations keep what it is.\<close>

fun op_ring :: "link_op \<Rightarrow> bool \<Rightarrow> addr list \<Rightarrow> bool" where
  "op_ring (Add y) ring xs \<longleftrightarrow> True"
| "op_ring (Insert i y) ring xs \<longleftrightarrow> ring \<or> length xs \<le> i"
| "op_ring _ ring xs \<longleftrightarrow> ring"

text \<open>
  Where the code keeps the links: in a ring neither the first of several members nor the last may be
  detached, and the last may not be replaced.
\<close>

fun op_ok :: "link_op \<Rightarrow> bool \<Rightarrow> addr list \<Rightarrow> bool" where
  "op_ok (Detach i) ring xs \<longleftrightarrow> ring \<and> i < length xs \<longrightarrow> length xs = 1 \<or> 0 < i \<and> i + 1 < length xs"
| "op_ok (Replace i y) ring xs \<longleftrightarrow> ring \<longrightarrow> i + 1 < length xs \<or> length xs \<le> i"
| "op_ok _ ring xs \<longleftrightarrow> True"

text \<open>
  What the caller provides: a node outside the list, linked to nothing when it is appended; an item to
  be replaced owns its members alone.
\<close>

definition spare :: "(addr \<rightharpoonup> cnode) \<Rightarrow> addr \<Rightarrow> addr list \<Rightarrow> addr \<Rightarrow> bool" where
  "spare N p xs y \<longleftrightarrow> y \<notin> set (p # xs) \<and> (\<exists>e. N y = Some e \<and> nd_next e = None)"

definition members_of :: "cnode \<Rightarrow> addr option" where
  "members_of n = (if nd_type n AND cJSON_IsReference = 0 then nd_child n else None)"

fun op_ready :: "link_op \<Rightarrow> (addr \<rightharpoonup> cnode) \<Rightarrow> addr \<Rightarrow> addr list \<Rightarrow> bool" where
  "op_ready (Add y) N p xs \<longleftrightarrow> spare N p xs y"
| "op_ready (Insert i y) N p xs \<longleftrightarrow> spare N p xs y"
| "op_ready (Detach i) N p xs \<longleftrightarrow> True"
| "op_ready (Replace i y) N p xs \<longleftrightarrow> spare N p xs y \<and>
     (i < length xs \<longrightarrow> (\<exists>e D k. N (xs ! i) = Some e \<and> owns N (members_of e) D k \<and> D \<inter> set (p # y # xs) = {}))"

lemma index_split: "i < length xs \<Longrightarrow> xs = take i xs @ xs ! i # drop (i + 1) xs"
  by (simp add: id_take_nth_drop [symmetric])

lemma owns_frame: "owns N c D k \<Longrightarrow> (\<And>z. z \<in> D \<Longrightarrow> N' z = N z) \<Longrightarrow> owns N' c D k"
proof (induction rule: owns.induct)
  case (owns_Some q n D k E l)
  then show ?case by (intro owns.owns_Some) auto
qed (rule owns.owns_None)

lemma payload_fields:
  assumes "payload False a = payload False b"
  shows "nd_child a = nd_child b" "nd_type a = nd_type b" "nd_valuestring a = nd_valuestring b" "nd_string a = nd_string b"
proof -
  have "nd_child (payload False n) = nd_child n" "nd_type (payload False n) = nd_type n"
    "nd_valuestring (payload False n) = nd_valuestring n" "nd_string (payload False n) = nd_string n" for n
    by (simp_all add: payload_def)
  then show "nd_child a = nd_child b" "nd_type a = nd_type b" "nd_valuestring a = nd_valuestring b" "nd_string a = nd_string b"
    using assms by metis+
qed

text \<open>An item that was unlinked is deleted with what it owns.\<close>

lemma delete_unlinked:
  assumes own: "nodes h x = Some e" "owns (nodes h) (members_of e) D k" "D \<inter> S = {}" "x \<in> S" "x \<noteq> p"
    and h1: "relinked p S h h1" "link (nodes h1) x None None"
  shows "\<exists>h2. delete_nodes (Some x) h1 = Some h2 \<and> nodes h2 = (\<lambda>z. if z \<in> insert x D then None else nodes h1 z) \<and>
           live (hmem h2) = live (hmem h) - (node_blocks e + k)"
proof -
  obtain e1 where e1: "nodes h1 x = Some e1" "nd_next e1 = None" using h1(2) by (auto simp: link_def)
  have "payload False e1 = payload False e" using h1(1) own(1,5) e1(1) by (auto simp: relinked_def dest: spec [of _ x])
  note f = payload_fields [OF this]
  have same: "members_of e1 = members_of e" "node_blocks e1 = node_blocks e"
    by (simp_all add: members_of_def node_blocks_def f)
  have D: "owns (nodes h1) (members_of e1) D k"
    unfolding same(1) using h1(1) own(3) by (intro owns_frame [OF own(2)]) (auto simp: relinked_def)
  have "owns (nodes h1) (Some x) (insert x (D \<union> {})) (node_blocks e1 + k + 0)"
    using e1 D own(3,4) by (intro owns_Some owns_None) (auto simp: members_of_def intro: owns_None)
  from delete_owned [OF this, of h1] show ?thesis using h1(1) by (auto simp: same(2) relinked_def)
qed

lemma replace_deletes:
  assumes l: "linked ring (nodes h) p (as @ x # bs)" and y: "nodes h y = Some ey" "y \<notin> set (p # as @ x # bs)"
    and ok: "ring \<longrightarrow> bs \<noteq> []" and own: "nodes h x = Some e" "owns (nodes h) (members_of e) D k" "D \<inter> set (p # y # as @ x # bs) = {}"
  shows "\<exists>h'. cJSON_ReplaceItemViaPointer (Some p) (Some x) (Some y) h = Some (True, h') \<and> linked ring (nodes h') p (as @ y # bs) \<and>
    (\<forall>z \<in> insert x D. nodes h' z = None) \<and> live (hmem h') = live (hmem h) - node_blocks e - k \<and>
    (\<forall>z. z \<notin> insert x D \<longrightarrow> map_option (payload (z = p)) (nodes h' z) = map_option (payload (z = p)) (nodes h z))"
proof -
  obtain h1 where h1: "replace_links p x y h = Some h1" "linked ring (nodes h1) p (as @ y # bs)" "link (nodes h1) x None None"
    "relinked p (insert p (insert y (set (as @ x # bs)))) h h1" using replace_linked [OF l y ok] by blast
  have d: "distinct (p # as @ x # bs)" using l by (simp add: linked_def)
  have "D \<inter> insert p (insert y (set (as @ x # bs))) = {}" using own(3) by auto
  from delete_unlinked [OF own(1,2) this _ _ h1(4,3)] d obtain h2 where h2: "delete_nodes (Some x) h1 = Some h2"
    "nodes h2 = (\<lambda>z. if z \<in> insert x D then None else nodes h1 z)" "live (hmem h2) = live (hmem h) - (node_blocks e + k)"
    by auto
  have "\<forall>z \<in> set (p # as @ y # bs). nodes h2 z = nodes h1 z" using d own(3) y(2) h2(2) by auto
  then have "linked ring (nodes h2) p (as @ y # bs)"
    using h1(2) segment_frame [of "as @ y # bs" "nodes h2" "nodes h1"] unfolding linked_def by auto
  moreover have "cJSON_ReplaceItemViaPointer (Some p) (Some x) (Some y) h = Some (True, h2)"
    using y(2) h1(1) h2(1) by (auto simp: cJSON_ReplaceItemViaPointer_def)
  ultimately show ?thesis using h2(2,3) h1(4) by (auto simp: relinked_def)
qed

text \<open>The operation returns, leaves the list of the specification, and keeps what its members hold.\<close>

definition op_done :: "link_op \<Rightarrow> bool \<Rightarrow> addr \<Rightarrow> addr list \<Rightarrow> jheap \<Rightarrow> bool" where
  "op_done op ring p xs h \<longleftrightarrow>
     (\<exists>h'. run_op op p h = Some h' \<and> linked (op_ring op ring xs) (nodes h') p (spec_op op xs) \<and>
        (\<forall>z \<in> set (spec_op op xs). map_option (payload False) (nodes h' z) = map_option (payload False) (nodes h z)))"

lemma op_doneI:
  assumes "run_op op p h = Some h'" "linked (op_ring op ring xs) (nodes h') p (spec_op op xs)" "relinked p S h h'"
  shows "op_done op ring p xs h"
proof -
  have "p \<notin> set (spec_op op xs)" using assms(2) by (simp add: linked_def)
  then have "map_option (payload False) (nodes h' z) = map_option (payload False) (nodes h z)" if "z \<in> set (spec_op op xs)" for z
    using assms(3) that unfolding relinked_def by (metis (full_types))
  then show ?thesis using assms(1,2) by (auto simp: op_done_def)
qed

lemma spareD:
  assumes "spare N p xs y"
  obtains e where "N y = Some e" "y \<notin> set (p # xs)" "nd_next e = None"
  using assms by (auto simp: spare_def)

lemma add_done:
  assumes "linked ring (nodes h) p xs" "spare (nodes h) p xs y"
  shows "op_done (Add y) ring p xs h"
proof -
  obtain e where e: "nodes h y = Some e" "y \<notin> set (p # xs)" "nd_next e = None" using spareD [OF assms(2)] .
  from append_linked [OF assms(1) e] show ?thesis by (auto intro: op_doneI)
qed

lemma insert_done:
  assumes l: "linked ring (nodes h) p xs" and s: "spare (nodes h) p xs y"
  shows "op_done (Insert i y) ring p xs h"
proof -
  obtain e where e: "nodes h y = Some e" "y \<notin> set (p # xs)" "nd_next e = None" using spareD [OF s] .
  show ?thesis
  proof (cases "i < length xs")
    case True
    note x = index_split [OF True]
    have l': "linked ring (nodes h) p (take i xs @ xs ! i # drop (i + 1) xs)" using l x by simp
    have y: "y \<notin> set (p # take i xs @ xs ! i # drop (i + 1) xs)" using e(2) x by metis
    have "int i = int (length (take i xs))" using True by simp
    from insert_linked [OF l' e(1) y this] obtain h' S where "run_op (Insert i y) p h = Some h'"
      "linked ring (nodes h') p (take i xs @ y # xs ! i # drop (i + 1) xs)" "relinked p S h h'" by auto
    then show ?thesis using True by (intro op_doneI) (simp_all add: Cons_nth_drop_Suc)
  next
    case False
    from append_linked [OF l e] obtain h' S where h': "append_link (Some p) (Some y) h = Some (True, h')"
      "linked True (nodes h') p (xs @ [y])" "relinked p S h h'" by blast
    then show ?thesis using array_item_linked [OF l, of i] False
      by (intro op_doneI [OF _ _ h'(3)]) (simp_all add: cJSON_InsertItemInArray_def)
  qed
qed

lemma detach_done:
  assumes l: "linked ring (nodes h) p xs" and ok: "op_ok (Detach i) ring xs"
  shows "op_done (Detach i) ring p xs h"
proof (cases "i < length xs")
  case True
  have l': "linked ring (nodes h) p (take i xs @ xs ! i # drop (i + 1) xs)" using l index_split [OF True] by simp
  have "ring \<longrightarrow> take i xs = [] \<and> drop (i + 1) xs = [] \<or> take i xs \<noteq> [] \<and> drop (i + 1) xs \<noteq> []"
    using ok True by auto
  from detach_linked [OF l' this] obtain h' S where
    h': "cJSON_DetachItemViaPointer (Some p) (Some (xs ! i)) h = Some (Some (xs ! i), h')"
      "linked ring (nodes h') p (take i xs @ drop (i + 1) xs)" "relinked p S h h'" by blast
  then show ?thesis using array_item_linked [OF l, of i] True
    by (intro op_doneI [OF _ _ h'(3)]) (simp_all add: cJSON_DetachItemFromArray_def)
next
  case False
  then show ?thesis using l array_item_linked [OF l, of i]
    by (simp add: op_done_def cJSON_DetachItemFromArray_def cJSON_DetachItemViaPointer_def)
qed

lemma replace_done:
  assumes l: "linked ring (nodes h) p xs" and r: "op_ready (Replace i y) (nodes h) p xs" and ok: "op_ok (Replace i y) ring xs"
  shows "op_done (Replace i y) ring p xs h"
proof (cases "i < length xs")
  case True
  note x = index_split [OF True]
  obtain e where e: "nodes h y = Some e" "y \<notin> set (p # xs)" using r by (auto elim: spareD)
  have l': "linked ring (nodes h) p (take i xs @ xs ! i # drop (i + 1) xs)" using l x by simp
  have y: "y \<notin> set (p # take i xs @ xs ! i # drop (i + 1) xs)" using e(2) x by metis
  have rb: "ring \<longrightarrow> drop (i + 1) xs \<noteq> []" using ok True by auto
  obtain ex D k where own: "nodes h (xs ! i) = Some ex" "owns (nodes h) (members_of ex) D k" "D \<inter> set (p # y # xs) = {}"
    using r True by auto
  have D: "D \<inter> set (p # y # take i xs @ xs ! i # drop (i + 1) xs) = {}" using own(3) x by metis
  have u: "take i xs @ y # drop (i + 1) xs = xs[i := y]" using True by (simp add: upd_conv_take_nth_drop)
  from replace_deletes [OF l' e(1) y rb own(1,2) D] obtain h' where
    h': "cJSON_ReplaceItemViaPointer (Some p) (Some (xs ! i)) (Some y) h = Some (True, h')" "linked ring (nodes h') p (xs[i := y])"
    "\<forall>z. z \<notin> insert (xs ! i) D \<longrightarrow> map_option (payload (z = p)) (nodes h' z) = map_option (payload (z = p)) (nodes h z)"
    unfolding u by blast
  have "distinct (p # xs)" using l by (simp add: linked_def)
  then have "z \<noteq> p \<and> z \<notin> insert (xs ! i) D" if "z \<in> set (xs[i := y])" for z
    using that True own(3) e(2) by (auto simp: set_update_distinct)
  then have "map_option (payload False) (nodes h' z) = map_option (payload False) (nodes h z)" if "z \<in> set (xs[i := y])" for z
    using h'(3) [rule_format, of z] that by simp
  then show ?thesis using h' array_item_linked [OF l, of i] True
    by (simp add: op_done_def cJSON_ReplaceItemInArray_def)
next
  case False
  then have "xs[i := y] = xs" by (simp add: list_update_beyond)
  with False show ?thesis using l array_item_linked [OF l, of i]
    by (simp add: op_done_def cJSON_ReplaceItemInArray_def cJSON_ReplaceItemViaPointer_def)
qed

section \<open>Where the links break\<close>

text \<open>A walk over links that stay in a set never returns.\<close>

lemma count_links_cycle:
  assumes "\<forall>q \<in> S. \<exists>n r. nodes h q = Some n \<and> nd_next n = Some r \<and> r \<in> S" "p \<in> S"
  shows "count_links h (Some p) k = None"
proof (rule ccontr)
  assume "count_links h (Some p) k \<noteq> None"
  then obtain y where y: "count_links h (Some p) k = Some y" by blast
  have "h' = h \<longrightarrow> (\<forall>q \<in> S. c \<noteq> Some q)" if "count_links h' c k' = Some y'" for h' c k' y'
  proof (rule count_links.raw_induct [OF _ that])
    fix f h' c k' y'
    assume "\<And>h' c k' y'. f h' c k' = Some y' \<Longrightarrow> h' = h \<longrightarrow> (\<forall>q \<in> S. c \<noteq> Some q)"
      and "(case c of None \<Rightarrow> Some k' | Some p \<Rightarrow> nodes h' p \<bind> (\<lambda>n. f h' (nd_next n) (k' + 1))) = Some y'"
    then show "h' = h \<longrightarrow> (\<forall>q \<in> S. c \<noteq> Some q)"
      using assms(1) by (fastforce split: option.splits simp: bind_eq_Some_conv)
  qed
  from this [OF y] assms(2) show False by blast
qed

lemma segment_closed:
  "segment N pv xs (Some r) \<Longrightarrow> z \<in> set xs \<Longrightarrow> \<exists>n q. N z = Some n \<and> nd_next n = Some q \<and> q \<in> insert r (set xs)"
proof (induction xs arbitrary: pv)
  case (Cons x xs)
  then show ?case by (cases xs) (fastforce simp: link_def)+
qed simp

text \<open>Detaching the first of several members of a ring closes the rest into a cycle: its size is never found.\<close>

lemma detach_first_of_ring:
  assumes "linked True (nodes h) p (x # y # ys)"
  shows "\<exists>h' n. cJSON_DetachItemFromArray (Some p) 0 h = Some (Some x, h') \<and> nodes h' p = Some n \<and>
    nd_child n = Some y \<and> count_links h' (nd_child n) 0 = None"
proof -
  have item: "array_item h (Some p) 0 = Some (Some x)" using array_item_linked [OF assms, of 0] by simp
  obtain n ex ey where s: "nodes h p = Some n" "nd_child n = Some x" "nodes h x = Some ex" "nd_prev ex = last_or (Some y) ys"
    "nd_next ex = Some y" "nodes h y = Some ey" "nd_next ey = hd_or ys None" "distinct (p # x # y # ys)" "segment (nodes h) (Some y) ys None"
    using assms by (auto simp: linked_def link_def)
  have "\<exists>h' n. cJSON_DetachItemFromArray (Some p) 0 h = Some (Some x, h') \<and> nodes h' p = Some n \<and> nd_child n = Some y \<and>
      segment (nodes h') (last_or (Some y) ys) (y # ys) (Some y)"
  proof (cases ys rule: rev_cases)
    case Nil
    then show ?thesis using s item
      by (auto simp: cJSON_DetachItemFromArray_def cJSON_DetachItemViaPointer_def link_steps)
  next
    case (snoc zs q)
    obtain eq where "nodes h q = Some eq" "nd_prev eq = last_or (Some y) zs" "nd_next eq = None"
      using s(9) snoc by (auto simp: link_def)
    then show ?thesis using s item snoc
      by (auto simp: cJSON_DetachItemFromArray_def cJSON_DetachItemViaPointer_def link_steps)
  qed
  then obtain h' n' where h': "cJSON_DetachItemFromArray (Some p) 0 h = Some (Some x, h')" "nodes h' p = Some n'"
    "nd_child n' = Some y" "segment (nodes h') (last_or (Some y) ys) (y # ys) (Some y)" by blast
  have "count_links h' (Some y) 0 = None"
  proof (rule count_links_cycle)
    show "\<forall>q \<in> set (y # ys). \<exists>n r. nodes h' q = Some n \<and> nd_next n = Some r \<and> r \<in> set (y # ys)"
      using segment_closed [OF h'(4)] by (metis insert_absorb list.set_intros(1))
  qed simp
  then show ?thesis using h'(1-3) by auto
qed

text \<open>
  Deleting or replacing the last of several members of a ring leaves the first one's \<open>prev\<close> at the freed
  node: the next append uses it.
\<close>

lemma append_dangling:
  "nodes h p = Some n \<Longrightarrow> nd_child n = Some x \<Longrightarrow> nodes h x = Some e \<Longrightarrow> nd_prev e = Some z \<Longrightarrow> nodes h z = None \<Longrightarrow>
   append_link (Some p) (Some y) h = None"
  by (simp add: append_link_def suffix_object_def link_steps)

lemma delete_last_of_ring:
  assumes l: "linked True (nodes h) p (x # xs @ [z])"
    and own: "nodes h z = Some e" "owns (nodes h) (members_of e) D k" "D \<inter> set (p # x # xs @ [z]) = {}"
  shows "\<exists>h'. cJSON_DeleteItemFromArray (Some p) (int (length xs) + 1) h = Some h' \<and> append_link (Some p) (Some y) h' = None"
proof -
  let ?S = "insert p (set (x # xs @ [z]))"
  have item: "array_item h (Some p) (Suc (length xs)) = Some (Some z)"
    using array_item_linked [OF l, of "Suc (length xs)"] by (simp add: nth_append)
  have "nat (int (length xs) + 1) = Suc (length xs)" by simp
  then have run: "cJSON_DetachItemFromArray (Some p) (int (length xs) + 1) h = cJSON_DetachItemViaPointer (Some p) (Some z) h"
    by (simp add: cJSON_DetachItemFromArray_def item)
  obtain n ex where s: "nodes h p = Some n" "nd_child n = Some x" "nodes h x = Some ex" "nd_prev ex = Some z"
    "nd_next ex = hd_or xs (Some z)" "nd_prev e = last_or (Some x) xs" "nd_next e = None" "distinct (p # x # xs @ [z])"
    "segment (nodes h) (Some x) xs (Some z)"
    using l own(1) by (auto simp: linked_def link_def)
  have "\<exists>h1 n1 ex1. cJSON_DetachItemFromArray (Some p) (int (length xs) + 1) h = Some (Some z, h1) \<and> nodes h1 p = Some n1 \<and>
      nd_child n1 = Some x \<and> nodes h1 x = Some ex1 \<and> nd_prev ex1 = Some z \<and> link (nodes h1) z None None \<and> relinked p ?S h h1"
  proof (cases xs rule: rev_cases)
    case Nil
    then show ?thesis unfolding run using s own(1)
      by (auto simp: cJSON_DetachItemViaPointer_def link_steps relinked_def)
  next
    case (snoc zs q)
    obtain eq where "nodes h q = Some eq" "nd_prev eq = last_or (Some x) zs" "nd_next eq = Some z"
      using s(9) snoc by (auto simp: link_def)
    then show ?thesis unfolding run using s own(1) snoc
      by (auto simp: cJSON_DetachItemViaPointer_def link_steps relinked_def)
  qed
  then obtain h1 n1 ex1 where h1: "cJSON_DetachItemFromArray (Some p) (int (length xs) + 1) h = Some (Some z, h1)" "nodes h1 p = Some n1"
    "nd_child n1 = Some x" "nodes h1 x = Some ex1" "nd_prev ex1 = Some z" "link (nodes h1) z None None" "relinked p ?S h h1" by blast
  have "D \<inter> ?S = {}" using own(3) by auto
  from delete_unlinked [OF own(1,2) this _ _ h1(7,6)] s(8) obtain h2 where h2: "delete_nodes (Some z) h1 = Some h2"
    "nodes h2 = (\<lambda>q. if q \<in> insert z D then None else nodes h1 q)" by auto
  have "append_link (Some p) (Some y) h2 = None"
    using h1(2-5) h2(2) s(8) own(3) by (intro append_dangling [of h2 p n1 x ex1 z]) auto
  then show ?thesis using h1(1) h2(1) by (auto simp: cJSON_DeleteItemFromArray_def)
qed

section \<open>The member lists refine lists\<close>

text \<open>
  C10. Members as lists: on a list of members whose links are in order, be it a ring as appending builds it or
  ended by NULL as the parser builds it, appending, inserting, detaching and replacing return without
  using a freed or missing node, perform the operation on the list of members, and keep all that the
  members hold; afterwards the size and every index are found by the links. Excluded are exactly the
  uses of a ring in which the code breaks the links: detaching the first of several members, and
  detaching or replacing the last.
\<close>

theorem member_list_refines:
  assumes "linked ring (nodes h) p xs" "op_ready op (nodes h) p xs" "op_ok op ring xs"
  shows "\<exists>h' n. run_op op p h = Some h' \<and> linked (op_ring op ring xs) (nodes h') p (spec_op op xs) \<and>
    (\<forall>z \<in> set (spec_op op xs). map_option (payload False) (nodes h' z) = map_option (payload False) (nodes h z)) \<and>
    nodes h' p = Some n \<and> count_links h' (nd_child n) 0 = Some (length (spec_op op xs)) \<and>
    (\<forall>i. array_item h' (Some p) i = Some (if i < length (spec_op op xs) then Some (spec_op op xs ! i) else None))"
proof -
  have "op_done op ring p xs h"
    using assms add_done insert_done detach_done replace_done by (cases op) auto
  then obtain h' where h': "run_op op p h = Some h'" "linked (op_ring op ring xs) (nodes h') p (spec_op op xs)"
    "\<forall>z \<in> set (spec_op op xs). map_option (payload False) (nodes h' z) = map_option (payload False) (nodes h z)"
    by (auto simp: op_done_def)
  obtain n where n: "nodes h' p = Some n" "nd_child n = hd_or (spec_op op xs) None" using h'(2) by (auto simp: linked_def)
  have "count_links h' (nd_child n) 0 = Some (length (spec_op op xs))"
    unfolding n(2) using h'(2) count_links_segment [of h' _ "spec_op op xs" 0] by (auto simp: linked_def)
  then show ?thesis using h' n(1) array_item_linked [OF h'(2)] by blast
qed

definition demo_heap :: jheap where
  "demo_heap =
     \<lparr>nodes = [0 \<mapsto> empty_node\<lparr>nd_child := Some 1, nd_type := cJSON_Array\<rparr>,
               1 \<mapsto> empty_node\<lparr>nd_next := Some 2, nd_prev := Some 3\<rparr>,
               2 \<mapsto> empty_node\<lparr>nd_next := Some 3, nd_prev := Some 1, nd_type := cJSON_True\<rparr>,
               3 \<mapsto> empty_node\<lparr>nd_prev := Some 2\<rparr>, 4 \<mapsto> empty_node],
      next_addr = 5, hmem = \<lparr>outcomes = [], live = 5\<rparr>\<rparr>"

theorem member_list_refines_witness:
  "\<exists>h'. run_op (Replace 1 4) 0 demo_heap = Some h' \<and> linked True (nodes h') 0 [1, 4, 3] \<and>
     array_item h' (Some 0) 1 = Some (Some 4)"
proof -
  have "owns (nodes demo_heap) None {} 0" by (rule owns_None)
  then have "op_ready (Replace 1 4) (nodes demo_heap) 0 [1, 2, 3]"
    by (auto simp: demo_heap_def spare_def members_of_def empty_node_def json_types)
  moreover have "linked True (nodes demo_heap) 0 [1, 2, 3]" "op_ok (Replace 1 4) True [1, 2, 3]"
    by (simp_all add: demo_heap_def linked_def link_def empty_node_def)
  ultimately show ?thesis using member_list_refines [of True demo_heap 0 "[1, 2, 3]" "Replace 1 4"] by auto
qed

end
