(* ===== verification/Json_Parse.thy ===== *)
theory Json_Parse
  imports Json_Print
begin

text \<open>
  The parser of \<open>src/cJSON.c\<close>. The input is a C string: \<open>content\<close> holds its bytes and the NUL,
  and \<open>length\<close> of the struct is the length of that list. Reads that the code guards by
  \<open>can_access_at_index\<close> or \<open>can_read\<close> are written with the guard; the others, and every store into
  the buffer of an unescaped string, are checked and give \<open>None\<close> out of bounds. A decrement of the
  offset at 0, which would wrap, is \<open>None\<close> too.

  Values, elements and members parse each other, so the recursion carries fuel; \<open>None\<close> is also the
  result of fuel that runs out. The theorem on safety shows that the fuel of
  \<open>cJSON_ParseWithOpts\<close> is enough for every input, so that \<open>None\<close> never occurs.
\<close>

unbundle bit_operations_syntax

section \<open>The input\<close>

record parse_buffer =
  content :: "byte list"
  poffset :: nat
  pdepth :: nat

definition CJSON_NESTING_LIMIT :: nat where
  "CJSON_NESTING_LIMIT = 1000"

definition can_read :: "parse_buffer \<Rightarrow> nat \<Rightarrow> bool" where
  "can_read b n \<longleftrightarrow> poffset b + n \<le> length (content b)"

definition can_access_at_index :: "parse_buffer \<Rightarrow> nat \<Rightarrow> bool" where
  "can_access_at_index b i \<longleftrightarrow> poffset b + i < length (content b)"

text \<open>The C string at the current position.\<close>

definition text_at :: "parse_buffer \<Rightarrow> cstring" where
  "text_at b = takeWhile (\<lambda>c. c \<noteq> 0) (drop (poffset b) (content b))"

definition next_is :: "parse_buffer \<Rightarrow> byte \<Rightarrow> bool" where
  "next_is b c \<longleftrightarrow> can_access_at_index b 0 \<and> content b ! poffset b = c"

definition advance :: "nat \<Rightarrow> parse_buffer \<Rightarrow> parse_buffer" where
  "advance n b = b\<lparr>poffset := poffset b + n\<rparr>"

function skip_loop :: "byte list \<Rightarrow> nat \<Rightarrow> nat" where
  "skip_loop bs i = (if i < length bs \<and> bs ! i \<le> 32 then skip_loop bs (i + 1) else i)"
  by pat_completeness auto
termination
  by (relation "measure (\<lambda>(bs, i). length bs - i)") auto

declare skip_loop.simps [simp del]

definition buffer_skip_whitespace :: "parse_buffer \<Rightarrow> parse_buffer" where
  "buffer_skip_whitespace b =
     (let i = skip_loop (content b) (poffset b)
      in b\<lparr>poffset := if i = length (content b) then i - 1 else i\<rparr>)"

definition skip_utf8_bom :: "parse_buffer \<Rightarrow> parse_buffer option" where
  "skip_utf8_bom b =
     (if poffset b \<noteq> 0 then None
      else Some (if can_access_at_index b 4 \<and> strncmp (text_at b) [0xEF, 0xBB, 0xBF] 3 = 0
                 then advance 3 b else b))"

section \<open>Strings\<close>

definition hex_val :: "byte \<Rightarrow> nat option" where
  "hex_val c =
     (if 48 \<le> c \<and> c \<le> 57 then Some (unat c - 48)
      else if 65 \<le> c \<and> c \<le> 70 then Some (10 + unat c - 65)
      else if 97 \<le> c \<and> c \<le> 102 then Some (10 + unat c - 97)
      else None)"

text \<open>Four digits, \<open>k\<close> of them still to come; a character that is none ends it with 0.\<close>

fun hex_loop :: "byte list \<Rightarrow> nat \<Rightarrow> nat \<Rightarrow> nat \<Rightarrow> nat option" where
  "hex_loop bs i 0 h = Some h"
| "hex_loop bs i (Suc k) h =
     (case get8 bs i of
        None \<Rightarrow> None
      | Some c \<Rightarrow>
          (case hex_val c of
             None \<Rightarrow> Some 0
           | Some d \<Rightarrow> hex_loop bs (i + 1) k (if 0 < k then push_bit 4 (h + d) else h + d)))"

definition parse_hex4 :: "byte list \<Rightarrow> nat \<Rightarrow> nat option" where
  "parse_hex4 bs i = hex_loop bs i 4 0"

text \<open>The continuation bytes, last one first; the result is what is left for the first byte.\<close>

fun utf8_tail :: "nat \<Rightarrow> nat \<Rightarrow> byte list \<Rightarrow> nat \<times> byte list" where
  "utf8_tail 0 cp acc = (cp, acc)"
| "utf8_tail (Suc k) cp acc = utf8_tail k (drop_bit 6 cp) (word_of_nat ((cp OR 0x80) AND 0xBF) # acc)"

definition utf8_bytes :: "nat \<Rightarrow> byte list option" where
  "utf8_bytes cp =
     (let with = (\<lambda>n mark.
            (let (c, acc) = utf8_tail (n - 1) cp [] in
             Some ((if 1 < n then word_of_nat ((c OR mark) AND 0xFF) else word_of_nat (c AND 0x7F)) # acc)))
      in if cp < 0x80 then with (1 :: nat) 0
         else if cp < 0x800 then with 2 0xC0
         else if cp < 0x10000 then with 3 0xE0
         else if cp \<le> 0x10FFFF then with 4 0xF0
         else None)"

text \<open>
  The literal at \<open>i\<close> in the text that ends at \<open>e\<close>: the length of the sequence, 0 where it is
  invalid, and the bytes.
\<close>

definition utf16_literal_to_utf8 :: "byte list \<Rightarrow> nat \<Rightarrow> nat \<Rightarrow> (nat \<times> byte list) option" where
  "utf16_literal_to_utf8 bs i e =
     (let encode = (\<lambda>n cp. Some (case utf8_bytes cp of None \<Rightarrow> (0, []) | Some us \<Rightarrow> (n, us))) in
      if int e - int i < 6 then Some (0, [])
      else
        case parse_hex4 bs (i + 2) of
          None \<Rightarrow> None
        | Some first \<Rightarrow>
            if 0xDC00 \<le> first \<and> first \<le> 0xDFFF then Some (0, [])
            else if 0xD800 \<le> first \<and> first \<le> 0xDBFF then
              (if int e - int (i + 6) < 6 then Some (0, [])
               else
                 case (get8 bs (i + 6), get8 bs (i + 7)) of
                   (Some a, Some b) \<Rightarrow>
                     if a \<noteq> 92 \<or> b \<noteq> 117 then Some (0, [])
                     else
                       (case parse_hex4 bs (i + 8) of
                          None \<Rightarrow> None
                        | Some second \<Rightarrow>
                            if second < 0xDC00 \<or> 0xDFFF < second then Some (0, [])
                            else encode 12 (0x10000 + (push_bit 10 (first AND 0x3FF) OR (second AND 0x3FF))))
                 | _ \<Rightarrow> None)
            else encode (6 :: nat) first)"

text \<open>The end of the literal and the number of escapes; \<open>None\<close> where a backslash is the last byte.\<close>

function scan_string :: "byte list \<Rightarrow> nat \<Rightarrow> nat \<Rightarrow> (nat \<times> nat) option" where
  "scan_string bs e skipped =
     (if e < length bs \<and> bs ! e \<noteq> 34 then
        if bs ! e = 92 then
          if length bs \<le> e + 1 then None else scan_string bs (e + 2) (skipped + 1)
        else scan_string bs (e + 1) skipped
      else Some (e, skipped))"
  by pat_completeness auto
termination
  by (relation "measure (\<lambda>(bs, e, skipped). length bs - e)") auto

declare scan_string.simps [simp del]

definition escape_char :: "byte \<Rightarrow> byte option" where
  "escape_char c =
     (if c = 98 then Some 8 else if c = 102 then Some 12 else if c = 110 then Some 10
      else if c = 114 then Some 13 else if c = 116 then Some 9
      else if c = 34 \<or> c = 92 \<or> c = 47 then Some c else None)"

text \<open>Stores into the output of \<open>cap\<close> bytes, of which \<open>out\<close> are written.\<close>

definition put_bytes :: "nat \<Rightarrow> byte list \<Rightarrow> byte list \<Rightarrow> byte list option" where
  "put_bytes cap out us = (if length out + length us \<le> cap then Some (out @ us) else None)"

text \<open>
  The second loop, from \<open>i\<close> to the closing quote at \<open>e\<close>: the position it stops at, and the output
  unless the literal is invalid.
\<close>

function unescape_loop ::
    "byte list \<Rightarrow> nat \<Rightarrow> nat \<Rightarrow> nat \<Rightarrow> byte list \<Rightarrow> (nat \<times> byte list option) option" where
  "unescape_loop bs i e cap out =
     (if e \<le> i then Some (i, Some out)
      else
        case get8 bs i of
          None \<Rightarrow> None
        | Some c \<Rightarrow>
            if c \<noteq> 92 then
              (case put_bytes cap out [c] of
                 None \<Rightarrow> None
               | Some out' \<Rightarrow> unescape_loop bs (i + 1) e cap out')
            else
              (case get8 bs (i + 1) of
                 None \<Rightarrow> None
               | Some d \<Rightarrow>
                   (case escape_char d of
                      Some x \<Rightarrow>
                        (case put_bytes cap out [x] of
                           None \<Rightarrow> None
                         | Some out' \<Rightarrow> unescape_loop bs (i + 2) e cap out')
                    | None \<Rightarrow>
                        if d = 117 then
                          (case utf16_literal_to_utf8 bs i e of
                             None \<Rightarrow> None
                           | Some (n, us) \<Rightarrow>
                               if n = 0 then Some (i, None)
                               else
                                 (case put_bytes cap out us of
                                    None \<Rightarrow> None
                                  | Some out' \<Rightarrow> unescape_loop bs (i + n) e cap out'))
                        else Some (i, None))))"
  by pat_completeness auto
termination
  by (relation "measure (\<lambda>(bs, i, e, cap, out). e - i)") auto

declare unescape_loop.simps [simp del]

type_synonym parsed = "(bool \<times> cJSON \<times> parse_buffer \<times> mem) option"

definition parse_string :: "cJSON \<Rightarrow> parse_buffer \<Rightarrow> mem \<Rightarrow> parsed" where
  "parse_string item b m =
     (let bs = content b; i = poffset b + 1;
          fail = (\<lambda>i m. Some (False, item, b\<lparr>poffset := i\<rparr>, m))
      in case get8 bs (poffset b) of
           None \<Rightarrow> None
         | Some c \<Rightarrow>
             if c \<noteq> 34 then fail i m
             else
               (case scan_string bs i 0 of
                  None \<Rightarrow> fail i m
                | Some (e, skipped) \<Rightarrow>
                    if length bs \<le> e \<or> bs ! e \<noteq> 34 then fail i m
                    else
                      (case malloc m of
                         (False, m) \<Rightarrow> fail i m
                       | (True, m) \<Rightarrow>
                           (let cap = (e - poffset b - skipped) + 1 in
                            case unescape_loop bs i e cap [] of
                              None \<Rightarrow> None
                            | Some (j, None) \<Rightarrow> fail j (mfree m)
                            | Some (j, Some out) \<Rightarrow>
                                if length out < cap then
                                  Some (True,
                                        set_valuestring (Some (takeWhile (\<lambda>c. c \<noteq> 0) out))
                                          (set_type cJSON_String item),
                                        b\<lparr>poffset := e + 1\<rparr>, m)
                                else None))))"

section \<open>Numbers\<close>

definition number_byte :: "byte \<Rightarrow> bool" where
  "number_byte c \<longleftrightarrow> is_digit c \<or> c \<in> {43, 45, 101, 69, 46}"

fun number_loop :: "byte list \<Rightarrow> nat \<Rightarrow> byte list" where
  "number_loop (c # cs) (Suc k) = (if number_byte c then c # number_loop cs k else [])"
| "number_loop cs k = []"

definition parse_number :: "cJSON \<Rightarrow> parse_buffer \<Rightarrow> mem \<Rightarrow> parsed" where
  "parse_number item b m =
     (let (number, n) = strtod (number_loop (drop (poffset b) (content b)) 63) in
      if n = 0 then Some (False, item, b, m)
      else Some (True, set_number (saturate number) number (set_type cJSON_Number item), advance n b, m))"

section \<open>Values\<close>

definition literal_at :: "parse_buffer \<Rightarrow> string \<Rightarrow> bool" where
  "literal_at b lit \<longleftrightarrow>
     can_read b (length lit) \<and> strncmp (text_at b) (str lit) (length lit) = 0"

definition set_true :: "cJSON \<Rightarrow> cJSON" where
  "set_true x = set_number 1 (valuedouble x) (set_type cJSON_True x)"

text \<open>What \<open>parse_array\<close> and \<open>parse_object\<close> do behind the loop: attach the list or delete it.\<close>

definition close_list ::
    "int \<Rightarrow> cJSON \<Rightarrow> (bool \<times> cJSON list \<times> parse_buffer \<times> mem) option \<Rightarrow> parsed" where
  "close_list t item r =
     (case r of
        None \<Rightarrow> None
      | Some (False, xs, b, m) \<Rightarrow> Some (False, item, b, cJSON_Delete xs m)
      | Some (True, xs, b, m) \<Rightarrow>
          Some (True, set_child xs (set_type t item), advance 1 (b\<lparr>pdepth := pdepth b - 1\<rparr>), m))"

text \<open>
  What they do in front of it, for the brackets \<open>l\<close> and \<open>r\<close>: the list is empty, or its first element
  is parsed by \<open>elements\<close> from the byte in front of it. Only \<open>parse_object\<close> guards the first read.
\<close>

definition open_list ::
    "byte \<Rightarrow> byte \<Rightarrow> int \<Rightarrow> (parse_buffer \<Rightarrow> mem \<Rightarrow> (bool \<times> cJSON list \<times> parse_buffer \<times> mem) option) \<Rightarrow>
     cJSON \<Rightarrow> parse_buffer \<Rightarrow> mem \<Rightarrow> parsed" where
  "open_list l r t elements item b m =
     (if CJSON_NESTING_LIMIT \<le> pdepth b then Some (False, item, b, m)
      else
        let b = b\<lparr>pdepth := pdepth b + 1\<rparr> in
        case get8 (content b) (poffset b) of
          None \<Rightarrow> if l = 123 then Some (False, item, b, m) else None
        | Some c \<Rightarrow>
            if c \<noteq> l then Some (False, item, b, m)
            else
              let b = buffer_skip_whitespace (advance 1 b) in
              if next_is b r then close_list t item (Some (True, [], b, m))
              else if poffset b = 0 then None
              else if \<not> can_access_at_index b 0 then Some (False, item, b\<lparr>poffset := poffset b - 1\<rparr>, m)
              else close_list t item (elements (b\<lparr>poffset := poffset b - 1\<rparr>) m))"

fun parse_value :: "nat \<Rightarrow> cJSON \<Rightarrow> parse_buffer \<Rightarrow> mem \<Rightarrow> parsed"
  and parse_elements ::
    "nat \<Rightarrow> cJSON list \<Rightarrow> parse_buffer \<Rightarrow> mem \<Rightarrow> (bool \<times> cJSON list \<times> parse_buffer \<times> mem) option"
  and parse_members ::
    "nat \<Rightarrow> cJSON list \<Rightarrow> parse_buffer \<Rightarrow> mem \<Rightarrow> (bool \<times> cJSON list \<times> parse_buffer \<times> mem) option" where
  "parse_value 0 item b m = None"
| "parse_value (Suc n) item b m =
     (if literal_at b ''null'' then Some (True, set_type cJSON_NULL item, advance 4 b, m)
      else if literal_at b ''false'' then Some (True, set_type cJSON_False item, advance 5 b, m)
      else if literal_at b ''true'' then Some (True, set_true item, advance 4 b, m)
      else if next_is b 34 then parse_string item b m
      else if can_access_at_index b 0 \<and>
        (content b ! poffset b = 45 \<or> 48 \<le> content b ! poffset b \<and> content b ! poffset b \<le> 57)
      then parse_number item b m
      else if next_is b 91 then open_list 91 93 cJSON_Array (parse_elements n []) item b m
      else if next_is b 123 then open_list 123 125 cJSON_Object (parse_members n []) item b m
      else Some (False, item, b, m))"
| "parse_elements 0 acc b m = None"
| "parse_elements (Suc n) acc b m =
     (case cJSON_New_Item m of
        (None, m) \<Rightarrow> Some (False, acc, b, m)
      | (Some x, m) \<Rightarrow>
          (case parse_value n x (buffer_skip_whitespace (advance 1 b)) m of
             None \<Rightarrow> None
           | Some (False, x, b, m) \<Rightarrow> Some (False, acc @ [x], b, m)
           | Some (True, x, b, m) \<Rightarrow>
               (let b = buffer_skip_whitespace b in
                if next_is b 44 then parse_elements n (acc @ [x]) b m
                else Some (next_is b 93, acc @ [x], b, m))))"
| "parse_members 0 acc b m = None"
| "parse_members (Suc n) acc b m =
     (case cJSON_New_Item m of
        (None, m) \<Rightarrow> Some (False, acc, b, m)
      | (Some x, m) \<Rightarrow>
          (case parse_string x (buffer_skip_whitespace (advance 1 b)) m of
             None \<Rightarrow> None
           | Some (False, x, b, m) \<Rightarrow> Some (False, acc @ [x], b, m)
           | Some (True, x, b, m) \<Rightarrow>
               (let b = buffer_skip_whitespace b;
                    x = set_valuestring None (set_string (valuestring x) x)
                in if \<not> next_is b 58 then Some (False, acc @ [x], b, m)
                   else
                     (case parse_value n x (buffer_skip_whitespace (advance 1 b)) m of
                        None \<Rightarrow> None
                      | Some (False, x, b, m) \<Rightarrow> Some (False, acc @ [x], b, m)
                      | Some (True, x, b, m) \<Rightarrow>
                          (let b = buffer_skip_whitespace b in
                           if next_is b 44 then parse_members n (acc @ [x]) b m
                           else Some (next_is b 125, acc @ [x], b, m))))))"

section \<open>Entry points\<close>

text \<open>The item or NULL, the position of the end or of the error, and the allocator.\<close>

definition parse_fuel :: "byte list \<Rightarrow> nat" where
  "parse_fuel bs = 2 * length bs + 4"

definition cJSON_ParseWithOpts ::
    "cstring option \<Rightarrow> bool \<Rightarrow> mem \<Rightarrow> (cJSON option \<times> nat \<times> mem) option" where
  "cJSON_ParseWithOpts value require_null_terminated m =
     (case value of
        None \<Rightarrow> Some (None, 0, m)
      | Some s \<Rightarrow>
          (let b = \<lparr>content = s @ [0], poffset = 0, pdepth = 0\<rparr>;
               len = length (content b);
               fail = (\<lambda>item b m.
                 Some (None, if poffset b < len then poffset b else len - 1, delete_opt item m))
           in case cJSON_New_Item m of
                (None, m) \<Rightarrow> fail None b m
              | (Some x, m) \<Rightarrow>
                  (case skip_utf8_bom b of
                     None \<Rightarrow> fail (Some x) b m
                   | Some b \<Rightarrow>
                       (case parse_value (parse_fuel (content b)) x (buffer_skip_whitespace b) m of
                          None \<Rightarrow> None
                        | Some (False, x, b, m) \<Rightarrow> fail (Some x) b m
                        | Some (True, x, b, m) \<Rightarrow>
                            if require_null_terminated then
                              (let b = buffer_skip_whitespace b in
                               if len \<le> poffset b then fail (Some x) b m
                               else
                                 case get8 (content b) (poffset b) of
                                   None \<Rightarrow> None
                                 | Some c \<Rightarrow> if c \<noteq> 0 then fail (Some x) b m else Some (Some x, poffset b, m))
                            else Some (Some x, poffset b, m)))))"

definition cJSON_Parse :: "cstring option \<Rightarrow> mem \<Rightarrow> (cJSON option \<times> nat \<times> mem) option" where
  "cJSON_Parse value m = cJSON_ParseWithOpts value False m"

section \<open>Unescaping stays in its buffer\<close>

lemma parse_hex4_some:
  assumes "i + 4 \<le> length bs"
  shows "\<exists>h < 65536. parse_hex4 bs i = Some h"
proof -
  have val: "hex_val c = Some d \<Longrightarrow> d < 16" for c d
    by (auto simp: hex_val_def word_le_nat_alt split: if_splits)
  have step: "\<exists>r. hex_loop bs j k h = Some r \<and> r < 16 ^ (4 :: nat)"
    if "j + k \<le> length bs" "h < (if k = 0 then 16 ^ 4 else 16 ^ (4 - k) * 16 - 15)" "k \<le> 4" for j k h
    using that
  proof (induction k arbitrary: j h)
    case (Suc k)
    then have "get8 bs j = Some (bs ! j)" by (simp add: get8_def)
    show ?case
    proof (cases "hex_val (bs ! j)")
      case None
      with \<open>get8 bs j = Some (bs ! j)\<close> show ?thesis by simp
    next
      case (Some d)
      note d = val [OF Some]
      have k: "k = 0 \<or> k = 1 \<or> k = 2 \<or> k = 3" using Suc.prems(3) by linarith
      have "\<exists>r. hex_loop bs (j + 1) k (if 0 < k then push_bit 4 (h + d) else h + d) = Some r \<and> r < 16 ^ (4 :: nat)"
        by (rule Suc.IH) (use Suc.prems d k in \<open>auto simp: push_bit_eq_mult\<close>)
      with Some \<open>get8 bs j = Some (bs ! j)\<close> show ?thesis by simp
    qed
  qed simp
  from step [of i 4 0] assms show ?thesis by (auto simp: parse_hex4_def)
qed

lemma utf8_bytes_length:
  assumes "utf8_bytes cp = Some us"
  shows "length us = (if cp < 0x80 then 1 else if cp < 0x800 then 2 else if cp < 0x10000 then 3 else 4)"
proof -
  have "length (snd (utf8_tail k c acc)) = k + length acc" for k c acc
    by (induction k arbitrary: c acc) simp_all
  from this [of _ cp "[]"] assms show ?thesis
    by (auto simp: utf8_bytes_def Let_def split: if_splits prod.splits) (metis snd_conv add_0_right list.size(3))+
qed

lemma utf16_result:
  assumes "e \<le> length bs"
  shows "\<exists>n us. utf16_literal_to_utf8 bs i e = Some (n, us) \<and>
    (n = 0 \<or> n = 6 \<and> i + 6 \<le> e \<and> length us \<le> 3 \<or> n = 12 \<and> i + 12 \<le> e \<and> length us \<le> 4)"
proof (cases "i + 6 \<le> e")
  case False
  then show ?thesis by (simp add: utf16_literal_to_utf8_def)
next
  case True
  with parse_hex4_some [of "i + 2" bs] assms obtain first where
    first: "parse_hex4 bs (i + 2) = Some first" "first < 65536" by auto
  have len6: "not6 \<le> 3" if "utf8_bytes first = Some us" "not6 = length us" for us not6
    using utf8_bytes_length [OF that(1)] that(2) first(2) by simp
  have len12: "length us \<le> 4" if "utf8_bytes cp = Some us" for us cp
    using utf8_bytes_length [OF that] by simp
  consider "0xDC00 \<le> first \<and> first \<le> 0xDFFF" | "0xD800 \<le> first" "first \<le> 0xDBFF" "\<not> i + 12 \<le> e"
    | (pair) "0xD800 \<le> first" "first \<le> 0xDBFF" "i + 12 \<le> e"
    | (single) "\<not> (0xDC00 \<le> first \<and> first \<le> 0xDFFF)" "\<not> (0xD800 \<le> first \<and> first \<le> 0xDBFF)"
    by linarith
  then show ?thesis
  proof cases
    case pair
    from parse_hex4_some [of "i + 8" bs] pair(3) assms obtain second where
      "parse_hex4 bs (i + 8) = Some second" by auto
    moreover have "get8 bs (i + 6) = Some (bs ! (i + 6))" "get8 bs (i + 7) = Some (bs ! (i + 7))"
      using pair(3) assms by (simp_all add: get8_def)
    ultimately show ?thesis using True pair first(1) len12
      by (auto simp: utf16_literal_to_utf8_def Let_def split: option.splits)
  next
    case single
    with True first(1) len6 show ?thesis
      by (auto simp: utf16_literal_to_utf8_def Let_def split: option.splits)
  qed (use True first(1) in \<open>auto simp: utf16_literal_to_utf8_def Let_def\<close>)
qed

text \<open>The escapes the first loop counts: positions inside the literal, no two of them adjacent.\<close>

definition escapes :: "byte list \<Rightarrow> nat \<Rightarrow> nat \<Rightarrow> nat set \<Rightarrow> bool" where
  "escapes bs i e E \<longleftrightarrow> E \<subseteq> {i..<e} \<and> (\<forall>p \<in> E. bs ! p = 92 \<and> p + 1 \<notin> E)"

lemma scan_string_escapes:
  assumes "scan_string bs i k = Some (e, n)" "i \<le> length bs"
  shows "\<exists>E. escapes bs i e E \<and> n = k + card E \<and> i \<le> e \<and> e \<le> length bs"
  using assms
proof (induction bs i k rule: scan_string.induct)
  case (1 bs i k)
  show ?case
  proof (cases "i < length bs \<and> bs ! i \<noteq> 34")
    case False
    with "1.prems" show ?thesis by (auto simp: scan_string.simps [of bs i] escapes_def intro: exI [of _ "{}"])
  next
    case True
    show ?thesis
    proof (cases "bs ! i = 92")
      case esc: True
      with True "1.prems"(1) have r: "i + 1 < length bs" "scan_string bs (i + 2) (k + 1) = Some (e, n)"
        by (auto simp: scan_string.simps [of bs i] split: if_splits)
      from "1.IH"(1) [OF True esc] r obtain E where
        E: "escapes bs (i + 2) e E" "n = k + 1 + card E" "i + 2 \<le> e" "e \<le> length bs" by auto
      have "finite E" "i \<notin> E" using E(1) finite_subset [of E "{i + 2..<e}"] by (auto simp: escapes_def)
      then have "n = k + card (insert i E)" using E(2) by simp
      moreover have "escapes bs i e (insert i E)" using E esc by (auto simp: escapes_def)
      ultimately show ?thesis using E by auto
    next
      case plain: False
      with True "1.prems"(1) have r: "scan_string bs (i + 1) k = Some (e, n)"
        by (simp add: scan_string.simps [of bs i])
      from "1.IH"(2) [OF True plain r] True obtain E where
        E: "escapes bs (i + 1) e E" "n = k + card E" "i + 1 \<le> e" "e \<le> length bs" by auto
      then have "escapes bs i e E" by (auto simp: escapes_def)
      with E show ?thesis by auto
    qed
  qed
qed

lemma escapes_sparse: "escapes bs a e E \<Longrightarrow> card (E \<inter> {i..<i + 2 * k}) \<le> k"
proof (induction k)
  case (Suc k)
  have fin: "finite (E \<inter> {x..<y})" for x y by simp
  have "E \<inter> {i..<i + 2 * Suc k} = (E \<inter> {i..<i + 2 * k}) \<union> (E \<inter> {i + 2 * k, i + 2 * k + 1})" by auto
  moreover have "card (E \<inter> {i + 2 * k, i + 2 * k + 1}) \<le> 1"
  proof -
    have "i + 2 * k \<in> E \<Longrightarrow> i + 2 * k + 1 \<notin> E" using Suc.prems by (auto simp: escapes_def)
    then show ?thesis
      by (cases "i + 2 * k \<in> E"; cases "i + 2 * k + 1 \<in> E") (auto simp: Int_insert_right)
  qed
  ultimately show ?case
    using card_Un_le [of "E \<inter> {i..<i + 2 * k}" "E \<inter> {i + 2 * k, i + 2 * k + 1}"] Suc.IH [OF Suc.prems] by simp
qed simp

definition seen :: "nat set \<Rightarrow> nat \<Rightarrow> nat" where
  "seen E i = card (E \<inter> {..<i})"

lemma seen_step:
  assumes "escapes bs a e E"
  shows "seen E (i + 2 * k) \<le> seen E i + k"
proof -
  have "E \<inter> {..<i + 2 * k} = (E \<inter> {..<i}) \<union> (E \<inter> {i..<i + 2 * k})" by auto
  then show ?thesis
    using card_Un_le [of "E \<inter> {..<i}" "E \<inter> {i..<i + 2 * k}"] escapes_sparse [OF assms, of i k] by (simp add: seen_def)
qed

lemma seen_plain: "escapes bs a e E \<Longrightarrow> bs ! i \<noteq> 92 \<Longrightarrow> seen E (i + 1) = seen E i"
proof -
  assume "escapes bs a e E" "bs ! i \<noteq> 92"
  then have "E \<inter> {..<i + 1} = E \<inter> {..<i}" by (auto simp: escapes_def less_Suc_eq)
  then show ?thesis by (simp add: seen_def)
qed

lemma seen_rest: "escapes bs a e E \<Longrightarrow> i \<le> e + 1 \<Longrightarrow> card E + i \<le> seen E i + (e + 1) \<and> (e \<le> i \<longrightarrow> seen E i = card E)"
proof -
  assume E: "escapes bs a e E" and "i \<le> e + 1"
  have "E \<subseteq> (E \<inter> {..<i}) \<union> {i..<e}" using E by (auto simp: escapes_def)
  then have "card E \<le> card ((E \<inter> {..<i}) \<union> {i..<e})" by (intro card_mono) auto
  also have "\<dots> \<le> seen E i + (e - i)" using card_Un_le [of "E \<inter> {..<i}" "{i..<e}"] by (simp add: seen_def)
  finally have "card E \<le> seen E i + (e - i)" .
  moreover have "e \<le> i \<longrightarrow> E \<inter> {..<i} = E" using E by (auto simp: escapes_def)
  then have "e \<le> i \<longrightarrow> seen E i = card E" by (auto simp: seen_def)
  ultimately show ?thesis using \<open>i \<le> e + 1\<close> by (cases "e \<le> i") auto
qed

text \<open>
  The invariant of the second loop: what is written is at most what was read, less the escapes read.
  The size the code allocates therefore suffices.
\<close>

definition fits :: "nat set \<Rightarrow> nat \<Rightarrow> nat \<Rightarrow> byte list \<Rightarrow> bool" where
  "fits E a i out \<longleftrightarrow> length out + seen E i + a \<le> i"

lemma fits_put:
  assumes "escapes bs a e E" "fits E a i (out @ us)" "i \<le> e + 1" "e + 2 = cap + a + card E"
  shows "put_bytes cap out us = Some (out @ us)" "length (out @ us) < cap"
  using assms(2-4) seen_rest [OF assms(1,3)] by (auto simp: fits_def put_bytes_def)

lemma unescape_loop_safe:
  assumes "escapes bs a e E" "e < length bs" "e + 2 = cap + a + card E" "fits E a i out" "i \<le> e + 1"
  shows "\<exists>j r. unescape_loop bs i e cap out = Some (j, r) \<and> j \<le> e + 1 \<and> (\<forall>out'. r = Some out' \<longrightarrow> length out' < cap)"
  using assms
proof (induction bs i e cap out rule: unescape_loop.induct)
  case (1 bs i e cap out)
  note E = "1.prems"(1)
  show ?case
  proof (cases "e \<le> i")
    case True
    have "length out < cap" using fits_put(2) [OF E _ "1.prems"(5,3), of out "[]"] "1.prems"(4) by simp
    with True "1.prems"(5) show ?thesis by (subst unescape_loop.simps) simp
  next
    case False
    then have c: "get8 bs i = Some (bs ! i)" "get8 bs (i + 1) = Some (bs ! (i + 1))"
      using "1.prems"(2) by (simp_all add: get8_def)
    note go = unescape_loop.simps [of bs i e cap out]
    show ?thesis
    proof (cases "bs ! i = 92")
      case plain: False
      have f: "fits E a (i + 1) (out @ [bs ! i])"
        using "1.prems"(4) seen_plain [OF E plain] by (simp add: fits_def)
      note put = fits_put(1) [OF E f _ "1.prems"(3)]
      from "1.IH"(1) [OF False c(1) plain put E "1.prems"(2,3) f] False plain c put show ?thesis
        by (subst go) simp
    next
      case esc: True
      show ?thesis
      proof (cases "escape_char (bs ! (i + 1))")
        case (Some x)
        have f: "fits E a (i + 2) (out @ [x])"
          using "1.prems"(4) seen_step [OF E, of i 1] by (simp add: fits_def)
        have le: "i + 2 \<le> e + 1" using False by simp
        note put = fits_put(1) [OF E f le "1.prems"(3)]
        from "1.IH"(3) [OF False c(1) _ c(2) Some put E "1.prems"(2,3) f le] False esc c Some put show ?thesis
          by (subst go) simp
      next
        case None
        show ?thesis
        proof (cases "bs ! (i + 1) = 117")
          case False': False
          with False esc c None "1.prems"(5) show ?thesis by (subst go) simp
        next
          case u: True
          from utf16_result [of e bs i] "1.prems"(2) obtain n us where
            r: "utf16_literal_to_utf8 bs i e = Some (n, us)"
              "n = 0 \<or> n = 6 \<and> i + 6 \<le> e \<and> length us \<le> 3 \<or> n = 12 \<and> i + 12 \<le> e \<and> length us \<le> 4" by auto
          show ?thesis
          proof (cases "n = 0")
            case True
            with False esc c None u r(1) "1.prems"(5) show ?thesis by (subst go) simp
          next
            case n: False
            have f: "fits E a (i + n) (out @ us)" "i + n \<le> e + 1"
              using "1.prems"(4) seen_step [OF E, of i 3] seen_step [OF E, of i 6] r(2) n by (auto simp: fits_def)
            note put = fits_put(1) [OF E f "1.prems"(3)]
            from "1.IH"(2) [OF False c(1) _ c(2) None u r(1) refl n put E "1.prems"(2,3) f] False esc c None u r(1) n put
            show ?thesis by (subst go) simp
          qed
        qed
      qed
    qed
  qed
qed

end
