(* ===== verification/Json_Parse_Safe.thy ===== *)
theory Json_Parse_Safe
  imports Json_Parse
begin

text \<open>
  Safety of the JSON parser: on every C string and every allocation outcome it returns, reads only
  the string, and owns what it allocated. Each parsing function is described by what it does to the
  item, the buffer and the ledger; the three functions that call each other are treated by induction
  on the fuel, with the fuel they need given by the bytes still to read.
\<close>

unbundle bit_operations_syntax

section \<open>Parsing is safe\<close>

definition terminated :: "byte list \<Rightarrow> bool" where
  "terminated bs \<longleftrightarrow> bs \<noteq> [] \<and> last bs = 0"

lemma terminated_next: "terminated bs \<Longrightarrow> i < length bs \<Longrightarrow> bs ! i \<noteq> 0 \<Longrightarrow> i + 1 < length bs"
proof (rule ccontr)
  assume t: "terminated bs" and i: "i < length bs" "bs ! i \<noteq> 0" "\<not> i + 1 < length bs"
  then have "i = length bs - 1" by simp
  moreover have "bs ! (length bs - 1) = 0" using t by (auto simp: terminated_def last_conv_nth)
  ultimately show False using i by simp
qed

lemma skip_loop_bounds: "i \<le> length bs \<Longrightarrow> i \<le> skip_loop bs i \<and> skip_loop bs i \<le> length bs"
proof (induction bs i rule: skip_loop.induct)
  case (1 bs i)
  then show ?case by (subst (1 2) skip_loop.simps) auto
qed

lemma skip_bounds:
  assumes "poffset b < length (content b)"
  shows "poffset b \<le> poffset (buffer_skip_whitespace b)"
    "poffset (buffer_skip_whitespace b) < length (content b)"
  using skip_loop_bounds [of "poffset b" "content b"] assms by (auto simp: buffer_skip_whitespace_def Let_def)

lemma skip_same [simp]:
  "content (buffer_skip_whitespace b) = content b" "pdepth (buffer_skip_whitespace b) = pdepth b"
  by (simp_all add: buffer_skip_whitespace_def Let_def)

lemma advance_same [simp]:
  "content (advance n b) = content b" "pdepth (advance n b) = pdepth b" "poffset (advance n b) = poffset b + n"
  by (simp_all add: advance_def)

text \<open>An item that owns no text and no members yet.\<close>

definition raw_item :: "cJSON \<Rightarrow> bool" where
  "raw_item x \<longleftrightarrow>
     valuestring x = None \<and> child x = [] \<and> jtype x AND cJSON_IsReference = 0 \<and> jtype x AND cJSON_StringIsConst = 0"

lemma raw_blocks: "raw_item x \<Longrightarrow> json_blocks x = 1 + text_block (jstring x)"
  by (simp add: raw_item_def json_blocks_fields text_block_def)

text \<open>What a parsing function does to the item, the buffer and the ledger.\<close>

definition parse_step :: "cJSON \<Rightarrow> parse_buffer \<Rightarrow> mem \<Rightarrow> parsed \<Rightarrow> bool" where
  "parse_step item b m r \<longleftrightarrow>
     (\<exists>ok x b' m'. r = Some (ok, x, b', m') \<and> content b' = content b \<and> poffset b' \<le> length (content b) \<and>
        (ok \<longrightarrow> poffset b < poffset b' \<and> poffset b' < length (content b) \<and> pdepth b' = pdepth b) \<and>
        (\<not> ok \<longrightarrow> x = item) \<and>
        live m' - json_blocks x = live m - json_blocks item \<and> jstring x = jstring item \<and>
        (json_ok item \<longrightarrow> json_ok x))"

lemma parse_step_fail:
  "content b' = content b \<Longrightarrow> poffset b' \<le> length (content b) \<Longrightarrow> live m' = live m \<Longrightarrow>
   parse_step item b m (Some (False, item, b', m'))"
  by (auto simp: parse_step_def)

lemma typed_blocks:
  assumes "raw_item x" "t AND cJSON_IsReference = 0" "t AND cJSON_StringIsConst = 0"
  shows "json_blocks (set_type t x) = json_blocks x"
    "json_blocks (set_valuestring (Some s) (set_type t x)) = json_blocks x + 1"
    "json_blocks (set_number i d (set_type t x)) = json_blocks x"
    "json_blocks (set_child xs (set_type t x)) = json_blocks x + sum_list (map json_blocks xs)"
  using assms by (simp_all add: raw_item_def json_blocks_fields text_block_def)

lemma parse_string_step:
  assumes "terminated (content b)" "poffset b < length (content b)" "raw_item item"
  shows "parse_step item b m (parse_string item b m)"
proof -
  let ?bs = "content b" and ?i = "poffset b + 1"
  have c: "get8 ?bs (poffset b) = Some (?bs ! poffset b)" using assms(2) by (simp add: get8_def)
  have fail: "parse_step item b m (Some (False, item, b\<lparr>poffset := j\<rparr>, m'))" if "j \<le> length ?bs" "live m' = live m" for j m'
    using that by (intro parse_step_fail) simp_all
  show ?thesis
  proof (cases "?bs ! poffset b = 34")
    case False
    with c fail [of ?i m] assms(2) show ?thesis by (simp add: parse_string_def Let_def)
  next
    case quote: True
    then have i: "?i < length ?bs" using terminated_next [OF assms(1,2)] by simp
    show ?thesis
    proof (cases "scan_string ?bs ?i 0")
      case None
      with c quote fail [of ?i m] assms(2) show ?thesis by (simp add: parse_string_def Let_def)
    next
      case (Some r)
      obtain e k where r: "r = (e, k)" by (cases r)
      from scan_string_escapes [OF Some [unfolded r]] i obtain E where
        E: "escapes ?bs ?i e E" "k = card E" "?i \<le> e" "e \<le> length ?bs" by auto
      show ?thesis
      proof (cases "e < length ?bs \<and> ?bs ! e = 34")
        case False
        with c quote Some r fail [of ?i m] assms(2) show ?thesis by (auto simp: parse_string_def Let_def)
      next
        case closed: True
        obtain ok m1 where m1: "malloc m = (ok, m1)" by fastforce
        show ?thesis
        proof (cases ok)
          case False
          with c quote Some r closed m1 fail [of ?i m1] assms(2) malloc_live(2) [of m m1] show ?thesis
            by (auto simp: parse_string_def Let_def)
        next
          case True
          let ?cap = "(e - poffset b - k) + 1"
          have "card E \<le> card {?i..<e}" using E(1) by (intro card_mono) (auto simp: escapes_def)
          then have cap: "e + 2 = ?cap + ?i + card E" using E(2,3) by simp
          have "E \<inter> {..<?i} = {}" using E(1) by (auto simp: escapes_def)
          then have "fits E ?i ?i []" by (simp add: fits_def seen_def)
          from unescape_loop_safe [OF E(1) _ cap this] closed E(3) obtain j r' where
            u: "unescape_loop ?bs ?i e ?cap [] = Some (j, r')" "j \<le> e + 1" "\<forall>out. r' = Some out \<longrightarrow> length out < ?cap" by auto
          have live: "live m1 = live m + 1" using m1 True malloc_live(1) by simp
          show ?thesis
          proof (cases r')
            case None
            with c quote Some r closed m1 True u(1,2) live fail [of j "mfree m1"] show ?thesis
              by (simp add: parse_string_def Let_def)
          next
            case out: (Some out)
            have ne: "e + 1 < length ?bs" using closed terminated_next [OF assms(1), of e] by simp
            have run: "parse_string item b m = Some (True,
                set_valuestring (Some (takeWhile (\<lambda>c. c \<noteq> 0) out)) (set_type cJSON_String item), b\<lparr>poffset := e + 1\<rparr>, m1)"
              using c quote Some r closed m1 True u(1,3) out by (simp add: parse_string_def Let_def)
            have "0 \<notin> set (takeWhile (\<lambda>c. c \<noteq> 0) out)" by (auto dest: set_takeWhileD)
            with run ne E(3) live show ?thesis
              by (auto simp: parse_step_def typed_blocks [OF assms(3)] json_types json_ok_fields simp del: double_ok.simps)
          qed
        qed
      qed
    qed
  qed
qed

lemma strtod_ok: "double_ok (fst (strtod cs))"
proof -
  have "double_ok (Fin False 0)" using double_of_nat_ok [of 0] by (simp add: double_of_nat_exact del: double_ok.simps)
  then show ?thesis
    by (auto simp: strtod_def Let_def make_double_ok split: prod.splits simp del: double_ok.simps)
qed

lemma strtod_length: "snd (strtod cs) \<le> length cs"
proof -
  have e: "snd (read_exp r) \<le> length r" for r
  proof (cases r)
    case (Cons c cs)
    have "length (takeWhile is_digit (if sgn then tl cs else cs)) \<le> length cs - (if sgn then 1 else 0)" for sgn
      using length_takeWhile_le [of is_digit "tl cs"] length_takeWhile_le [of is_digit cs] by simp
    from this [of True] this [of False] Cons show ?thesis
      by (cases cs) (auto simp: read_exp_def Let_def)
  qed (simp add: read_exp_def)
  let ?sgn = "cs \<noteq> [] \<and> (hd cs = 45 \<or> hd cs = 43)"
  define r where "r = (if ?sgn then tl cs else cs)"
  define r1 where "r1 = dropWhile is_digit r"
  let ?dot = "r1 \<noteq> [] \<and> hd r1 = 46"
  define r2 where "r2 = (if ?dot then dropWhile is_digit (tl r1) else r1)"
  have l: "length cs = (if ?sgn then 1 else 0) + length r" by (cases cs) (auto simp: r_def)
  have l1: "length r = length (takeWhile is_digit r) + length r1"
    unfolding r1_def by (metis length_append takeWhile_dropWhile_id)
  have "length (tl r1) = length (takeWhile is_digit (tl r1)) + length (dropWhile is_digit (tl r1))"
    by (metis length_append takeWhile_dropWhile_id)
  then have l2: "length r1 = (if ?dot then 1 + length (takeWhile is_digit (tl r1)) else 0) + length r2"
    by (cases r1) (auto simp: r2_def)
  have "snd (strtod cs) \<le> (if ?sgn then 1 else 0) + length (takeWhile is_digit r) +
      (if ?dot then 1 + length (takeWhile is_digit (tl r1)) else 0) + snd (read_exp r2)"
    unfolding strtod_def Let_def r_def [symmetric] r1_def [symmetric] r2_def [symmetric]
    by (auto split: prod.splits)
  with l l1 l2 e [of r2] show ?thesis by (simp split: if_splits)
qed

lemma number_loop_take: "\<exists>k. number_loop cs n = take k cs \<and> k \<le> length cs \<and> (\<forall>c \<in> set (take k cs). number_byte c)"
proof (induction cs n rule: number_loop.induct)
  case (1 c cs n)
  then obtain k where k: "number_loop cs n = take k cs" "k \<le> length cs" "\<forall>c \<in> set (take k cs). number_byte c"
    if "number_byte c" by blast
  show ?case
  proof (cases "number_byte c")
    case True
    with k show ?thesis by (intro exI [of _ "Suc k"]) simp
  qed (simp add: exI [of _ 0])
qed (simp_all add: exI [of _ 0])

lemma parse_number_step:
  assumes "terminated (content b)" "poffset b < length (content b)" "raw_item item"
  shows "parse_step item b m (parse_number item b m)"
proof -
  let ?cs = "number_loop (drop (poffset b) (content b)) 63"
  obtain k where k: "?cs = take k (drop (poffset b) (content b))" "k \<le> length (drop (poffset b) (content b))"
    "\<forall>c \<in> set ?cs. number_byte c" using number_loop_take by metis
  obtain d n where dn: "strtod ?cs = (d, n)" by fastforce
  have len: "length ?cs = k" using k(1,2) by simp
  have n: "n \<le> k" using strtod_length [of ?cs] dn len by simp
  show ?thesis
  proof (cases "n = 0")
    case True
    with dn assms(2) show ?thesis by (simp add: parse_number_def parse_step_fail)
  next
    case False
    have "0 < k" using False n by simp
    then have "?cs ! (k - 1) \<in> set ?cs" using len by (intro nth_mem) simp
    moreover have "?cs ! (k - 1) = content b ! (poffset b + (k - 1))" using k(1,2) \<open>0 < k\<close> by simp
    ultimately have "content b ! (poffset b + (k - 1)) \<noteq> 0" using k(3) by (auto simp: number_byte_def is_digit_def)
    with terminated_next [OF assms(1), of "poffset b + (k - 1)"] k(2) \<open>0 < k\<close> assms(2)
    have "poffset b + k < length (content b)" by (simp add: le_diff_conv2)
    moreover have "double_ok d" using strtod_ok [of ?cs] dn by simp
    moreover have "parse_number item b m =
        Some (True, set_number (saturate d) d (set_type cJSON_Number item), advance n b, m)"
      using dn False by (simp add: parse_number_def)
    ultimately show ?thesis using n False
      by (auto simp: parse_step_def typed_blocks [OF assms(3)] json_types json_ok_fields simp del: double_ok.simps)
  qed
qed

lemma literal_step:
  assumes "terminated (content b)" "literal_at b lit" "lit \<noteq> []" "CHR 0x00 \<notin> set lit"
  shows "poffset b + length lit < length (content b)"
proof -
  let ?n = "length lit"
  have n: "poffset b + ?n \<le> length (content b)" using assms(2) by (simp add: literal_at_def can_read_def)
  have z: "strncmp (text_at b) (str lit) ?n = 0" using assms(2) by (simp add: literal_at_def)
  have shorter: "strncmp s t n = 0 \<Longrightarrow> length t = n \<Longrightarrow> 0 \<notin> set t \<Longrightarrow> n \<le> length s" for s t n
    by (induction s t n rule: strncmp.induct) (auto split: if_splits simp: word_uint_eq_iff)
  have "0 \<notin> set (str lit)" using assms(4) by (simp add: str_nul_free)
  with shorter [OF z] have len: "?n \<le> length (text_at b)" by (simp add: str_def)
  then have "text_at b ! (?n - 1) \<in> set (text_at b)" using assms(3) by (intro nth_mem) (cases lit; simp)
  then have "text_at b ! (?n - 1) \<noteq> 0" by (auto simp: text_at_def dest: set_takeWhileD)
  moreover have "text_at b ! (?n - 1) = drop (poffset b) (content b) ! (?n - 1)"
    unfolding text_at_def by (rule takeWhile_nth) (use len assms(3) in \<open>cases lit; simp add: text_at_def\<close>)
  moreover have "drop (poffset b) (content b) ! (?n - 1) = content b ! (poffset b + (?n - 1))"
    using n by (intro nth_drop) simp
  ultimately have nz: "content b ! (poffset b + (?n - 1)) \<noteq> 0" by simp
  have "poffset b + (?n - 1) + 1 = poffset b + ?n" using assms(3) by (cases lit) simp_all
  then show ?thesis using terminated_next [OF assms(1) _ nz] n by linarith
qed

lemma typed_step:
  assumes "raw_item item" "poffset b + n < length (content b)" "0 < n"
    and "t AND cJSON_IsReference = 0" "t AND cJSON_StringIsConst = 0"
  shows "parse_step item b m (Some (True, set_type t item, advance n b, m))"
    "parse_step item b m (Some (True, set_number i (valuedouble item) (set_type t item), advance n b, m))"
  using assms
  by (auto simp: parse_step_def typed_blocks [OF assms(1,4,5)] json_ok_fields simp del: double_ok.simps)

text \<open>The same for the lists of elements and members.\<close>

definition list_step ::
    "cJSON list \<Rightarrow> parse_buffer \<Rightarrow> mem \<Rightarrow> byte \<Rightarrow> (bool \<times> cJSON list \<times> parse_buffer \<times> mem) option \<Rightarrow> bool" where
  "list_step acc b m close r \<longleftrightarrow>
     (\<exists>ok xs b' m'. r = Some (ok, xs, b', m') \<and> content b' = content b \<and> poffset b' \<le> length (content b) \<and>
        (ok \<longrightarrow> poffset b < poffset b' \<and> next_is b' close \<and> pdepth b' = pdepth b) \<and>
        live m' - sum_list (map json_blocks xs) = live m - sum_list (map json_blocks acc) \<and>
        (list_all json_ok acc \<longrightarrow> list_all json_ok xs))"

lemma list_stepI:
  "content b' = content b \<Longrightarrow> poffset b' \<le> length (content b) \<Longrightarrow>
   (ok \<Longrightarrow> poffset b < poffset b' \<and> next_is b' close \<and> pdepth b' = pdepth b) \<Longrightarrow>
   live m' - sum_list (map json_blocks xs) = live m - sum_list (map json_blocks acc) \<Longrightarrow>
   (list_all json_ok acc \<Longrightarrow> list_all json_ok xs) \<Longrightarrow> list_step acc b m close (Some (ok, xs, b', m'))"
  by (auto simp: list_step_def)

lemma open_list_step:
  assumes "terminated (content b)" "poffset b < length (content b)" "raw_item item" "l \<noteq> 0" "r \<noteq> 0"
    and "t AND cJSON_IsReference = 0" "t AND cJSON_StringIsConst = 0"
    and el: "\<And>b' m. content b' = content b \<Longrightarrow> poffset b \<le> poffset b' \<Longrightarrow> poffset b' + 1 < length (content b) \<Longrightarrow>
      list_step [] b' m r (elements b' m)"
  shows "parse_step item b m (open_list l r t elements item b m)"
proof -
  have c: "get8 (content b) (poffset b) = Some (content b ! poffset b)" using assms(2) by (simp add: get8_def)
  consider "CJSON_NESTING_LIMIT \<le> pdepth b" | "pdepth b < CJSON_NESTING_LIMIT" "content b ! poffset b \<noteq> l"
    | (list) "pdepth b < CJSON_NESTING_LIMIT" "content b ! poffset b = l" by linarith
  then show ?thesis
  proof cases
    case list
    let ?b = "b\<lparr>pdepth := pdepth b + 1\<rparr>"
    let ?s = "buffer_skip_whitespace (advance 1 ?b)"
    have "poffset b + 1 < length (content b)" using terminated_next [OF assms(1,2)] list(2) assms(4) by simp
    then have s: "poffset b + 1 \<le> poffset ?s" "poffset ?s < length (content b)"
      using skip_bounds [of "advance 1 ?b"] by simp_all
    show ?thesis
    proof (cases "next_is ?s r")
      case True
      then have "poffset ?s + 1 < length (content b)"
        using terminated_next [OF assms(1) s(2)] assms(5) by (simp add: next_is_def)
      moreover have "open_list l r t elements item b m =
          Some (True, set_child [] (set_type t item), advance 1 (?s\<lparr>pdepth := pdepth ?s - 1\<rparr>), m)"
        using list c True by (simp add: open_list_def close_list_def Let_def not_le)
      ultimately show ?thesis using s
        by (auto simp: parse_step_def typed_blocks [OF assms(3,6,7)] json_ok_fields simp del: double_ok.simps)
    next
      case False
      let ?e = "?s\<lparr>poffset := poffset ?s - 1\<rparr>"
      have run: "open_list l r t elements item b m = close_list t item (elements ?e m)"
        using list c False s by (simp add: open_list_def Let_def not_le can_access_at_index_def)
      have "list_step [] ?e m r (elements ?e m)" using s by (intro el) auto
      then obtain ok xs b' m' where e: "elements ?e m = Some (ok, xs, b', m')" "content b' = content b"
        "poffset b' \<le> length (content b)" "ok \<longrightarrow> poffset ?e < poffset b' \<and> next_is b' r \<and> pdepth b' = pdepth ?e"
        "live m' - sum_list (map json_blocks xs) = live m" "list_all json_ok xs" by (auto simp: list_step_def)
      show ?thesis
      proof (cases ok)
        case F: False
        with run e show ?thesis
          by (auto simp: close_list_def cJSON_Delete_live intro!: parse_step_fail)
      next
        case T: True
        with e(2,4) have "poffset b' < length (content b)" "content b ! poffset b' = r" "pdepth b' = pdepth b + 1"
          "poffset b \<le> poffset b'" using s by (auto simp: next_is_def can_access_at_index_def)
        with terminated_next [OF assms(1), of "poffset b'"] assms(5) run e T show ?thesis
          by (auto simp: close_list_def parse_step_def typed_blocks [OF assms(3,6,7)] json_ok_fields
              simp del: double_ok.simps)
      qed
    qed
  qed (use c assms(2) in \<open>auto simp: open_list_def Let_def not_le intro!: parse_step_fail\<close>)
qed


lemma parse_string_ok:
  assumes "parse_string item b m = Some (True, x, b', m')"
  obtains s where "0 \<notin> set s" "x = set_valuestring (Some s) (set_type cJSON_String item)"
proof -
  have "\<exists>out. x = set_valuestring (Some (takeWhile (\<lambda>c. c \<noteq> 0) out)) (set_type cJSON_String item)"
    using assms by (auto simp: parse_string_def Let_def split: option.splits if_splits prod.splits bool.splits)
  then obtain out where "x = set_valuestring (Some (takeWhile (\<lambda>c. c \<noteq> 0) out)) (set_type cJSON_String item)" ..
  moreover have "0 \<notin> set (takeWhile (\<lambda>c. c \<noteq> 0) out)" by (auto dest: set_takeWhileD)
  ultimately show thesis using that by blast
qed

text \<open>The fuel each function needs at an offset: two per byte that is left.\<close>

definition value_safe :: "nat \<Rightarrow> bool" where
  "value_safe n \<longleftrightarrow> (\<forall>item b m. terminated (content b) \<longrightarrow> poffset b < length (content b) \<longrightarrow> raw_item item \<longrightarrow>
     2 * (length (content b) - poffset b) + 2 \<le> n \<longrightarrow> parse_step item b m (parse_value n item b m))"

definition list_safe ::
    "(cJSON list \<Rightarrow> parse_buffer \<Rightarrow> mem \<Rightarrow> (bool \<times> cJSON list \<times> parse_buffer \<times> mem) option) \<Rightarrow> byte \<Rightarrow> nat \<Rightarrow> bool" where
  "list_safe f close n \<longleftrightarrow> (\<forall>acc b m. terminated (content b) \<longrightarrow> poffset b + 1 < length (content b) \<longrightarrow>
     2 * (length (content b) - poffset b) + 1 \<le> n \<longrightarrow> list_step acc b m close (f acc b m))"

lemma value_safeD:
  "value_safe n \<Longrightarrow> terminated (content b) \<Longrightarrow> poffset b < length (content b) \<Longrightarrow> raw_item item \<Longrightarrow>
   2 * (length (content b) - poffset b) + 2 \<le> n \<Longrightarrow> parse_step item b m (parse_value n item b m)"
  by (auto simp: value_safe_def)

lemma list_safeD:
  "list_safe f close n \<Longrightarrow> terminated (content b) \<Longrightarrow> poffset b + 1 < length (content b) \<Longrightarrow>
   2 * (length (content b) - poffset b) + 1 \<le> n \<Longrightarrow> list_step acc b m close (f acc b m)"
  by (auto simp: list_safe_def)

lemma value_safe_Suc:
  assumes "list_safe (parse_elements n) 93 n" "list_safe (parse_members n) 125 n"
  shows "value_safe (Suc n)"
  unfolding value_safe_def
proof (intro allI impI)
  fix item m and b :: parse_buffer
  assume t: "terminated (content b)" and o: "poffset b < length (content b)" and raw: "raw_item item"
    and n: "2 * (length (content b) - poffset b) + 2 \<le> Suc n"
  have lit: "literal_at b l \<Longrightarrow> l \<noteq> [] \<Longrightarrow> CHR 0x00 \<notin> set l \<Longrightarrow> poffset b + length l < length (content b)" for l
    by (rule literal_step [OF t])
  have els: "parse_step item b m (open_list 91 93 cJSON_Array (parse_elements n []) item b m)"
    using assms(1) n t by (intro open_list_step [OF t o raw]) (auto simp: list_safe_def json_types)
  have mems: "parse_step item b m (open_list 123 125 cJSON_Object (parse_members n []) item b m)"
    using assms(2) n t by (intro open_list_step [OF t o raw]) (auto simp: list_safe_def json_types)
  have l: "literal_at b ''null'' \<Longrightarrow> parse_step item b m (Some (True, set_type cJSON_NULL item, advance 4 b, m))"
    "literal_at b ''false'' \<Longrightarrow> parse_step item b m (Some (True, set_type cJSON_False item, advance 5 b, m))"
    "literal_at b ''true'' \<Longrightarrow> parse_step item b m (Some (True, set_true item, advance 4 b, m))"
    using lit [of "''null''"] lit [of "''false''"] lit [of "''true''"]
    by (auto simp: set_true_def json_types intro!: typed_step [OF raw])
  have "parse_step item b m (Some (False, item, b, m))" using o by (intro parse_step_fail) simp_all
  then show "parse_step item b m (parse_value (Suc n) item b m)"
    using l els mems parse_string_step [OF t o raw, of m] parse_number_step [OF t o raw, of m] by simp
qed

text \<open>One element behind the items \<open>acc\<close>: it is parsed, the list goes on at a comma and ends otherwise.\<close>

lemma list_step_go_on:
  assumes r: "parse_step x b1 m1 r" and rest: "list_safe f close n" and t: "terminated (content b)"
    and b: "content b1 = content b" "poffset b < poffset b1" "poffset b + 1 < length (content b)"
      "2 * (length (content b) - poffset b) + 1 \<le> Suc n" "pdepth b1 = pdepth b"
    and x: "json_ok x" "live m1 = live m + json_blocks x"
  shows "list_step acc b m close
    (case r of
       None \<Rightarrow> None
     | Some (False, x, b, m) \<Rightarrow> Some (False, acc @ [x], b, m)
     | Some (True, x, b, m) \<Rightarrow>
         (let b = buffer_skip_whitespace b in
          if next_is b 44 then f (acc @ [x]) b m else Some (next_is b close, acc @ [x], b, m)))"
proof -
  obtain ok y b2 m2 where r2: "r = Some (ok, y, b2, m2)" "content b2 = content b" "poffset b2 \<le> length (content b)"
    "ok \<longrightarrow> poffset b1 < poffset b2 \<and> poffset b2 < length (content b) \<and> pdepth b2 = pdepth b"
    "live m2 - json_blocks y = live m" "json_ok y"
    using r b(1,5) x by (auto simp: parse_step_def)
  show ?thesis
  proof (cases ok)
    case False
    with r2 show ?thesis by (auto intro!: list_stepI)
  next
    case True
    let ?b = "buffer_skip_whitespace b2"
    have s: "poffset b2 \<le> poffset ?b" "poffset ?b < length (content b)" "content ?b = content b" "pdepth ?b = pdepth b"
      using skip_bounds [of b2] r2 True by auto
    show ?thesis
    proof (cases "next_is ?b 44")
      case comma: True
      then have "poffset ?b + 1 < length (content b)"
        using terminated_next [OF t s(2)] s(3) by (simp add: next_is_def)
      with rest t s(3) r2(4) s(1) True b(2-4) have "list_step (acc @ [y]) ?b m2 close (f (acc @ [y]) ?b m2)"
        by (intro list_safeD) auto
      with s r2 True b(2) comma show ?thesis by (auto simp: list_step_def)
    next
      case False
      with s r2 True b(2) show ?thesis by (auto simp: Let_def intro!: list_stepI)
    qed
  qed
qed


lemma new_item_step:
  assumes "cJSON_New_Item m = (Some x, m1)"
  shows "x = zero_item" "raw_item x" "json_ok x" "live m1 = live m + json_blocks x" "jstring x = None"
  using cJSON_New_Item_live [OF assms] double_of_nat_ok [of 0]
  by (simp_all add: raw_item_def zero_item_def double_of_nat_exact del: double_ok.simps)

lemma no_item_step: "cJSON_New_Item m = (None, m1) \<Longrightarrow> poffset b \<le> length (content b) \<Longrightarrow>
  list_step acc b m close (Some (False, acc, b, m1))"
  using cJSON_New_Item_live [of m None m1] by (auto intro!: list_stepI)

text \<open>The position behind the whitespace that follows the byte at the offset.\<close>

lemma skip_next:
  assumes "poffset b + 1 < length (content b)"
  shows "poffset b < poffset (buffer_skip_whitespace (advance 1 b))"
    "poffset (buffer_skip_whitespace (advance 1 b)) < length (content b)"
  using skip_bounds [of "advance 1 b"] assms by simp_all

lemma elements_safe_Suc:
  assumes "value_safe n" "list_safe (parse_elements n) 93 n"
  shows "list_safe (parse_elements (Suc n)) 93 (Suc n)"
  unfolding list_safe_def
proof (intro allI impI)
  fix acc m and b :: parse_buffer
  assume t: "terminated (content b)" and o: "poffset b + 1 < length (content b)"
    and n: "2 * (length (content b) - poffset b) + 1 \<le> Suc n"
  obtain v m1 where v: "cJSON_New_Item m = (v, m1)" by fastforce
  show "list_step acc b m 93 (parse_elements (Suc n) acc b m)"
  proof (cases v)
    case None
    with v no_item_step o show ?thesis by simp
  next
    case (Some x)
    note x = new_item_step [OF v [unfolded Some]]
    let ?b = "buffer_skip_whitespace (advance 1 b)"
    have "parse_step x ?b m1 (parse_value n x ?b m1)"
      using t n skip_next [OF o] by (intro value_safeD [OF assms(1) _ _ x(2)]) auto
    from list_step_go_on [OF this assms(2) t _ _ o n _ x(3,4)] skip_next(1) [OF o] Some v show ?thesis by simp
  qed
qed

lemma member_item:
  assumes "raw_item x" "jstring x = None" "json_ok x" "0 \<notin> set s"
    and y: "y = set_valuestring None (set_string (Some s) (set_valuestring (Some s) (set_type cJSON_String x)))"
  shows "raw_item y" "json_ok y" "json_blocks y = json_blocks x + 1"
  using assms by (simp_all add: raw_item_def json_ok_fields json_blocks_fields text_block_def json_types del: double_ok.simps)

lemma members_safe_Suc:
  assumes "value_safe n" "list_safe (parse_members n) 125 n"
  shows "list_safe (parse_members (Suc n)) 125 (Suc n)"
  unfolding list_safe_def
proof (intro allI impI)
  fix acc m and b :: parse_buffer
  assume t: "terminated (content b)" and o: "poffset b + 1 < length (content b)"
    and n: "2 * (length (content b) - poffset b) + 1 \<le> Suc n"
  obtain v m1 where v: "cJSON_New_Item m = (v, m1)" by fastforce
  show "list_step acc b m 125 (parse_members (Suc n) acc b m)"
  proof (cases v)
    case None
    with v no_item_step o show ?thesis by simp
  next
    case (Some x)
    note x = new_item_step [OF v [unfolded Some]]
    let ?b = "buffer_skip_whitespace (advance 1 b)"
    have "parse_step x ?b m1 (parse_string x ?b m1)"
      using t skip_next [OF o] x(2) by (intro parse_string_step) auto
    then obtain ok y b2 m2 where s: "parse_string x ?b m1 = Some (ok, y, b2, m2)" "content b2 = content b"
      "poffset b2 \<le> length (content b)" "ok \<longrightarrow> poffset ?b < poffset b2 \<and> poffset b2 < length (content b) \<and> pdepth b2 = pdepth b"
      "live m2 - json_blocks y = live m" "json_ok y" using x(3,4) by (auto simp: parse_step_def)
    show ?thesis
    proof (cases ok)
      case False
      with Some v s show ?thesis by (auto intro!: list_stepI)
    next
      case True
      obtain k where k: "0 \<notin> set k" "y = set_valuestring (Some k) (set_type cJSON_String x)"
        using parse_string_ok [of x ?b m1 y b2 m2] s(1) True by (metis (full_types))
      define z where "z = set_valuestring None (set_string (valuestring y) y)"
      have z: "z = set_valuestring None (set_string (Some k) (set_valuestring (Some k) (set_type cJSON_String x)))"
        by (simp add: z_def k(2))
      note item = member_item [OF x(2,5,3) k(1) z]
      have live: "live m2 = live m + json_blocks z"
        using s(5) item(3) typed_blocks(2) [OF x(2), of cJSON_String] by (simp add: k(2) json_types)
      let ?c = "buffer_skip_whitespace b2"
      have c: "poffset b2 \<le> poffset ?c" "poffset ?c < length (content b)" "content ?c = content b"
        using skip_bounds [of b2] s(2,4) True by auto
      show ?thesis
      proof (cases "next_is ?c 58")
        case False
        with Some v s True c live item show ?thesis
          by (auto simp: z_def [symmetric] Let_def intro!: list_stepI)
      next
        case colon: True
        then have c1: "poffset ?c + 1 < length (content ?c)"
          using terminated_next [OF t c(2)] c(3) by (simp add: next_is_def)
        let ?d = "buffer_skip_whitespace (advance 1 ?c)"
        have d: "poffset b < poffset ?d" using skip_next(1) [OF c1] skip_next(1) [OF o] c(1) s(4) True by simp
        have "parse_step z ?d m2 (parse_value n z ?d m2)"
          using t n skip_next [OF c1] s(2) d by (intro value_safeD [OF assms(1) _ _ item(1)]) auto
        from list_step_go_on [OF this assms(2) t _ d o n _ item(2) live] s True colon Some v show ?thesis
          by (simp add: z_def [symmetric] Let_def)
      qed
    qed
  qed
qed

lemma recursion_safe:
  "value_safe n \<and> list_safe (parse_elements n) 93 n \<and> list_safe (parse_members n) 125 n"
proof (induction n)
  case 0
  show ?case by (simp add: value_safe_def list_safe_def)
next
  case (Suc n)
  then show ?case using value_safe_Suc elements_safe_Suc members_safe_Suc by blast
qed


text \<open>The claim on parsing: every string, every allocator outcome.\<close>

lemma buffer_terminated: "terminated (s @ [0])"
  by (simp add: terminated_def)

lemma parse_with_opts_safe:
  "\<exists>out pos m'. cJSON_ParseWithOpts (Some s) req m = Some (out, pos, m') \<and> pos \<le> length s \<and>
     live m' = live m + owned out \<and> (\<forall>x. out = Some x \<longrightarrow> json_ok x)"
proof -
  let ?b = "\<lparr>content = s @ [0], poffset = 0, pdepth = 0\<rparr>"
  obtain v m1 where v: "cJSON_New_Item m = (v, m1)" by fastforce
  show ?thesis
  proof (cases v)
    case None
    with v cJSON_New_Item_live [of m v m1] show ?thesis
      by (auto simp: cJSON_ParseWithOpts_def Let_def delete_opt_live)
  next
    case (Some x)
    note x = new_item_step [OF v [unfolded Some]]
    obtain b where b: "skip_utf8_bom ?b = Some b" "content b = s @ [0]" "poffset b < length (s @ [0])"
      by (auto simp: skip_utf8_bom_def can_access_at_index_def)
    let ?c = "buffer_skip_whitespace b"
    have c: "poffset ?c < length (content ?c)" "content ?c = s @ [0]" using skip_bounds [of b] b by simp_all
    have "parse_step x ?c m1 (parse_value (parse_fuel (content b)) x ?c m1)"
      using c b(2) buffer_terminated [of s] recursion_safe [of "parse_fuel (content b)"]
      by (intro value_safeD [OF _ _ _ x(2)]) (auto simp: parse_fuel_def)
    then obtain ok y d m2 where p: "parse_value (parse_fuel (content b)) x ?c m1 = Some (ok, y, d, m2)"
      "content d = s @ [0]" "poffset d \<le> length (s @ [0])" "ok \<longrightarrow> poffset d < length (s @ [0])"
      "live m2 - json_blocks y = live m" "json_ok y" using c x(3,4) by (auto simp: parse_step_def)
    show ?thesis
    proof (cases "ok \<and> req")
      case False
      with v Some b p show ?thesis by (cases ok) (auto simp: cJSON_ParseWithOpts_def Let_def delete_opt_live)
    next
      case True
      let ?d = "buffer_skip_whitespace d"
      have "poffset ?d < length (s @ [0])" using skip_bounds [of d] p True by simp
      moreover from this have "get8 (s @ [0]) (poffset ?d) = Some ((s @ [0]) ! poffset ?d)" by (simp add: get8_def)
      ultimately show ?thesis using v Some b p True
        by (auto simp: cJSON_ParseWithOpts_def Let_def delete_opt_live)
    qed
  qed
qed

end
