(* ===== verification/Json_Parse_Spec.thy ===== *)
theory Json_Parse_Spec
  imports Json_Parse_Safe
begin

text \<open>
  What the JSON parser promises: it returns on every string with a well-formed item or none, and its
  nesting is bounded; and the UTF-16 literals decode to the UTF-8 of their code point.
\<close>

unbundle bit_operations_syntax

section \<open>The nesting limit\<close>

text \<open>How deep the recursion over an item goes: levels of members below it.\<close>

fun json_depth :: "cJSON \<Rightarrow> nat" where
  "json_depth (JItem t vs vi vd s cs) = (if cs = [] then 0 else Suc (foldr max (map json_depth cs) 0))"

lemma json_depth_fields:
  "json_depth x = (if child x = [] then 0 else Suc (foldr max (map json_depth (child x)) 0))"
  by (cases x) simp

lemma foldr_max_le: "foldr max ns (0 :: nat) \<le> k \<longleftrightarrow> (\<forall>n \<in> set ns. n \<le> k)"
  by (induction ns) auto

text \<open>An item parsed at depth \<open>d\<close>, and the depth behind it.\<close>

definition nested :: "nat \<Rightarrow> parsed \<Rightarrow> bool" where
  "nested d r \<longleftrightarrow> (\<forall>x b m. r = Some (True, x, b, m) \<longrightarrow> pdepth b = d \<and> d + json_depth x \<le> max d CJSON_NESTING_LIMIT)"

definition nested_list :: "nat \<Rightarrow> (bool \<times> cJSON list \<times> parse_buffer \<times> mem) option \<Rightarrow> bool" where
  "nested_list d r \<longleftrightarrow> (\<forall>xs b m. r = Some (True, xs, b, m) \<longrightarrow>
     pdepth b = d \<and> (\<forall>x \<in> set xs. d + json_depth x \<le> max d CJSON_NESTING_LIMIT))"

lemma close_list_nested:
  assumes "nested_list (Suc d) e" "d < CJSON_NESTING_LIMIT" "child item = []"
  shows "nested d (close_list t item e)"
  unfolding nested_def
proof (intro allI impI)
  fix x b m
  assume "close_list t item e = Some (True, x, b, m)"
  then obtain xs b' where e: "e = Some (True, xs, b', m)" "x = set_child xs (set_type t item)" "pdepth b = pdepth b' - 1"
    by (auto simp: close_list_def split: option.splits prod.splits bool.splits)
  with assms(1) have d: "pdepth b' = Suc d" "\<forall>y \<in> set xs. Suc d + json_depth y \<le> max (Suc d) CJSON_NESTING_LIMIT"
    by (auto simp: nested_list_def)
  then have "\<forall>y \<in> set xs. json_depth y \<le> CJSON_NESTING_LIMIT - Suc d" using assms(2) by (fastforce simp: max_def)
  then have "foldr max (map json_depth xs) 0 \<le> CJSON_NESTING_LIMIT - Suc d" by (simp add: foldr_max_le)
  then show "pdepth b = d \<and> d + json_depth x \<le> max d CJSON_NESTING_LIMIT"
    using assms(2) d(1) e by (cases item) (auto simp: max_def)
qed

lemma open_list_nested:
  assumes "\<And>b m. nested_list (pdepth b) (elements b m)" "child item = []"
  shows "nested (pdepth b) (open_list l r t elements item b m)"
proof (cases "CJSON_NESTING_LIMIT \<le> pdepth b")
  case True
  then show ?thesis by (simp add: open_list_def nested_def)
next
  case False
  let ?s = "buffer_skip_whitespace (advance 1 (b\<lparr>pdepth := pdepth b + 1\<rparr>))"
  have "nested (pdepth b) (close_list t item (Some (True, [], ?s, m)))"
    using False assms(2) by (intro close_list_nested) (simp_all add: nested_list_def)
  moreover have "nested (pdepth b) (close_list t item (elements (?s\<lparr>poffset := poffset ?s - 1\<rparr>) m))"
    using False assms(2) assms(1) [of "?s\<lparr>poffset := poffset ?s - 1\<rparr>" m] by (intro close_list_nested) simp_all
  moreover have "nested d None" "nested d (Some (False, y, c, m'))" for d y c m' by (simp_all add: nested_def)
  ultimately show ?thesis using False by (auto simp: open_list_def Let_def split: option.split)
qed

lemma list_nested_go_on:
  assumes r: "nested d r" and f: "\<And>acc b m. pdepth b = d \<Longrightarrow> \<forall>x \<in> set acc. d + json_depth x \<le> max d CJSON_NESTING_LIMIT \<Longrightarrow> nested_list d (f acc b m)"
    and acc: "\<forall>x \<in> set acc. d + json_depth x \<le> max d CJSON_NESTING_LIMIT"
  shows "nested_list d
    (case r of
       None \<Rightarrow> None
     | Some (False, x, b, m) \<Rightarrow> Some (False, acc @ [x], b, m)
     | Some (True, x, b, m) \<Rightarrow>
         (let b = buffer_skip_whitespace b in
          if next_is b 44 then f (acc @ [x]) b m else Some (next_is b close, acc @ [x], b, m)))"
proof (cases "\<exists>x b m. r = Some (True, x, b, m)")
  case True
  then obtain x b m where x: "r = Some (True, x, b, m)" by blast
  let ?b = "buffer_skip_whitespace b"
  have "pdepth ?b = d" "\<forall>y \<in> set (acc @ [x]). d + json_depth y \<le> max d CJSON_NESTING_LIMIT"
    using r x acc by (auto simp: nested_def)
  with f [of ?b "acc @ [x]" m] x show ?thesis by (simp add: Let_def nested_list_def)
qed (auto simp: nested_list_def split: option.splits prod.splits bool.splits)

definition nests :: "nat \<Rightarrow> bool" where
  "nests n \<longleftrightarrow>
     (\<forall>item b m. child item = [] \<longrightarrow> nested (pdepth b) (parse_value n item b m)) \<and>
     (\<forall>acc b m. (\<forall>x \<in> set acc. pdepth b + json_depth x \<le> max (pdepth b) CJSON_NESTING_LIMIT) \<longrightarrow>
        nested_list (pdepth b) (parse_elements n acc b m) \<and> nested_list (pdepth b) (parse_members n acc b m))"

lemma scalar_nested: "child x = [] \<Longrightarrow> pdepth b = d \<Longrightarrow> nested d (Some (ok, x, b, m))"
  by (simp add: nested_def json_depth_fields)

lemma parse_string_nested:
  assumes "child item = []"
  shows "nested (pdepth b) (parse_string item b m)"
  using assms
  by (auto simp: nested_def parse_string_def Let_def json_depth_fields split: option.splits if_splits prod.splits bool.splits)

lemma parse_value_nested:
  assumes "nests n" "child item = []"
  shows "nested (pdepth b) (parse_value (Suc n) item b m)"
proof -
  have "nested_list (pdepth b) (parse_elements n [] b m)" "nested_list (pdepth b) (parse_members n [] b m)" for b m
    using assms(1) by (auto simp: nests_def)
  note lists = open_list_nested [of "parse_elements n []", OF this(1) assms(2)]
    open_list_nested [of "parse_members n []", OF this(2) assms(2)]
  have "nested (pdepth b) (parse_number item b m)"
    using assms(2) by (auto simp: parse_number_def intro!: scalar_nested split: prod.splits)
  with lists parse_string_nested [OF assms(2)] assms(2) show ?thesis
    by (auto simp: set_true_def intro!: scalar_nested)
qed

lemma nests_all: "nests n"
proof (induction n)
  case 0
  show ?case by (simp add: nests_def nested_def nested_list_def)
next
  case (Suc n)
  have v: "child item = [] \<Longrightarrow> pdepth b = d \<Longrightarrow> nested d (parse_value n item b m)" for item b m d
    using Suc by (auto simp: nests_def)
  have els: "pdepth b = d \<Longrightarrow> \<forall>x \<in> set acc. d + json_depth x \<le> max d CJSON_NESTING_LIMIT \<Longrightarrow>
      nested_list d (parse_elements n acc b m) \<and> nested_list d (parse_members n acc b m)" for acc b m d
    using Suc by (auto simp: nests_def)
  have fail: "nested_list d None" "nested_list d (Some (False, xs, c, m'))" for d xs c m' by (simp_all add: nested_list_def)
  have e: "nested_list (pdepth b) (parse_elements (Suc n) acc b m)"
    if "\<forall>x \<in> set acc. pdepth b + json_depth x \<le> max (pdepth b) CJSON_NESTING_LIMIT" for acc b m
  proof -
    obtain y m1 where "cJSON_New_Item m = (y, m1)" by fastforce
    with that fail els list_nested_go_on [OF v [of "the y"]] new_item_step(1,2) [of m "the y" m1] show ?thesis
      by (cases y) (auto simp: zero_item_def)
  qed
  have m: "nested_list (pdepth b) (parse_members (Suc n) acc b m)"
    if acc: "\<forall>x \<in> set acc. pdepth b + json_depth x \<le> max (pdepth b) CJSON_NESTING_LIMIT" for acc b m
  proof -
    obtain y m1 where y: "cJSON_New_Item m = (y, m1)" by fastforce
    show ?thesis
    proof (cases y)
      case None
      with y fail show ?thesis by simp
    next
      case (Some x)
      let ?r = "parse_string x (buffer_skip_whitespace (advance 1 b)) m1"
      have x: "child x = []" using new_item_step(1) [OF y [unfolded Some]] by (simp add: zero_item_def)
      have r: "nested (pdepth b) ?r" using parse_string_nested [OF x, of "buffer_skip_whitespace (advance 1 b)"] by simp
      have s: "child z = []" if "?r = Some (True, z, c, m2)" for z c m2
        using that x by (auto elim: parse_string_ok)
      have go: "child z = [] \<Longrightarrow> pdepth c = pdepth b \<Longrightarrow> nested_list (pdepth b)
          (case parse_value n z c m2 of
             None \<Rightarrow> None
           | Some (False, x, b, m) \<Rightarrow> Some (False, acc @ [x], b, m)
           | Some (True, x, b, m) \<Rightarrow>
               (let b = buffer_skip_whitespace b in
                if next_is b 44 then parse_members n (acc @ [x]) b m else Some (next_is b 125, acc @ [x], b, m)))" for z c m2
        using els acc v by (intro list_nested_go_on) auto
      show ?thesis
      proof (cases "\<exists>z c m2. ?r = Some (True, z, c, m2)")
        case True
        then obtain z c m2 where z: "?r = Some (True, z, c, m2)" by blast
        let ?z = "set_valuestring None (set_string (valuestring z) z)"
        have "child ?z = []" "pdepth c = pdepth b" using s [OF z] r z by (auto simp: nested_def)
        with go [of ?z "buffer_skip_whitespace (advance 1 (buffer_skip_whitespace c))" m2] fail y Some z show ?thesis
          by (simp add: Let_def)
      next
        case False
        with fail y Some show ?thesis by (auto split: option.split prod.split bool.split)
      qed
    qed
  qed
  show ?case unfolding nests_def using e m parse_value_nested [OF Suc] by blast
qed

lemma parse_depth:
  assumes "cJSON_ParseWithOpts (Some s) req m = Some (Some x, pos, m')"
  shows "json_depth x \<le> CJSON_NESTING_LIMIT"
proof -
  let ?b = "\<lparr>content = s @ [0], poffset = 0, pdepth = 0\<rparr>"
  obtain y m1 where y: "cJSON_New_Item m = (Some y, m1)"
    using assms by (auto simp: cJSON_ParseWithOpts_def Let_def split: prod.splits option.splits)
  obtain b where b: "skip_utf8_bom ?b = Some b" "pdepth b = 0"
    by (auto simp: skip_utf8_bom_def)
  let ?r = "parse_value (parse_fuel (content b)) y (buffer_skip_whitespace b) m1"
  have "nested 0 ?r"
    using nests_all [of "parse_fuel (content b)"] new_item_step(1) [OF y] b(2) skip_same(2) [of b]
    unfolding nests_def by (metis cJSON.sel(6) zero_item_def)
  moreover have "\<exists>c m2. ?r = Some (True, x, c, m2)"
    using assms y b(1)
    by (auto simp: cJSON_ParseWithOpts_def Let_def split: prod.splits option.splits bool.splits if_splits)
  ultimately show ?thesis by (auto simp: nested_def)
qed

text \<open>
  C8. Parsing is safe and ends: on every C string, with every outcome of the allocations and with or
  without the check for a trailing NUL, \<open>cJSON_ParseWithOpts\<close> returns (the fuel of the model is
  enough, and no read or store is out of bounds) an end or error position inside the text or at its
  NUL; it owns no block when it returns NULL and otherwise the blocks of a well-formed item (its
  numbers are doubles, its texts NUL-free) nested at most \<open>CJSON_NESTING_LIMIT\<close> deep.
\<close>

theorem parse_safe:
  "\<exists>out pos m'. cJSON_ParseWithOpts (Some s) req m = Some (out, pos, m') \<and> pos \<le> length s \<and>
     live m' = live m + owned out \<and>
     (case out of None \<Rightarrow> True | Some x \<Rightarrow> json_ok x \<and> json_depth x \<le> CJSON_NESTING_LIMIT)"
proof -
  obtain out pos m' where "cJSON_ParseWithOpts (Some s) req m = Some (out, pos, m')" "pos \<le> length s"
    "live m' = live m + owned out" "\<forall>x. out = Some x \<longrightarrow> json_ok x"
    using parse_with_opts_safe [of s req m] by blast
  with parse_depth [of s req m] show ?thesis by (cases out) auto
qed



section \<open>UTF-16 literals\<close>

lemma nat_and_mask: "(n :: nat) AND mask k = n mod 2 ^ k"
  by (simp add: take_bit_eq_mask [symmetric] take_bit_eq_mod)

lemma nat_or_high:
  assumes "(y :: nat) < 2 ^ k"
  shows "y OR push_bit k x = y + 2 ^ k * x"
proof -
  have y: "y = take_bit k y" using assms by (simp add: take_bit_nat_eq_self)
  have "y + push_bit k x = y OR push_bit k x"
    by (rule disjunctive_add) (subst y, auto simp: bit_push_bit_iff bit_take_bit_iff)
  then show ?thesis by (simp add: push_bit_eq_mult mult.commute)
qed

lemma or_and_or: "(x OR m) AND (a OR m) = (x AND a) OR (m :: nat)"
  by (rule bit_eqI) (auto simp: bit_simps)

lemma continuation_byte: "((n :: nat) OR 0x80) AND 0xBF = 0x80 + n mod 64"
proof -
  have "(n OR 0x80) AND 0xBF = (n OR 0x80) AND (0x3F OR 0x80)" by simp
  also have "\<dots> = (n AND mask 6) OR push_bit 7 1"
    unfolding or_and_or by (simp add: mask_eq_exp_minus_1 push_bit_eq_mult)
  also have "\<dots> = 0x80 + n mod 64"
    unfolding nat_and_mask using nat_or_high [of "n mod 64" 7 1] mod_less_divisor [of 64 n] by simp
  finally show ?thesis .
qed

lemma first_byte:
  assumes "c < 2 ^ k" "m = push_bit k x" "c + 2 ^ k * x < 256"
  shows "((c :: nat) OR m) AND 0xFF = c + m"
proof -
  have "(0xFF :: nat) = mask 8" by (simp add: mask_eq_exp_minus_1)
  moreover have "c OR m = c + 2 ^ k * x" using nat_or_high [OF assms(1)] assms(2) by simp
  ultimately have "(c OR m) AND 0xFF = (c + 2 ^ k * x) mod 2 ^ 8" using nat_and_mask [of "c OR m" 8] by simp
  then show ?thesis using assms(2,3) by (simp add: push_bit_eq_mult mult.commute)
qed

text \<open>UTF-8 of a code point, by arithmetic.\<close>

definition utf8 :: "nat \<Rightarrow> byte list" where
  "utf8 cp =
     map word_of_nat
       (if cp < 0x80 then [cp]
        else if cp < 0x800 then [0xC0 + cp div 64, 0x80 + cp mod 64]
        else if cp < 0x10000 then [0xE0 + cp div 4096, 0x80 + cp div 64 mod 64, 0x80 + cp mod 64]
        else [0xF0 + cp div 262144, 0x80 + cp div 4096 mod 64, 0x80 + cp div 64 mod 64, 0x80 + cp mod 64])"

lemma utf8_bytes_utf8:
  assumes "cp \<le> 0x10FFFF"
  shows "utf8_bytes cp = Some (utf8 cp)"
proof -
  have step: "utf8_tail (Suc k) n acc = utf8_tail k (n div 64) (word_of_nat (0x80 + n mod 64) # acc)" for k n acc
    by (simp add: continuation_byte drop_bit_eq_div)
  have tail: "utf8_tail 1 cp [] = (cp div 64, map word_of_nat [0x80 + cp mod 64])"
    "utf8_tail 2 cp [] = (cp div 4096, map word_of_nat [0x80 + cp div 64 mod 64, 0x80 + cp mod 64])"
    "utf8_tail 3 cp [] = (cp div 262144, map word_of_nat [0x80 + cp div 4096 mod 64, 0x80 + cp div 64 mod 64, 0x80 + cp mod 64])"
    by (simp_all only: One_nat_def numeral_2_eq_2 numeral_3_eq_3 step utf8_tail.simps(1) list.map)
      (simp_all add: div_mult2_eq [symmetric])
  consider "cp < 0x80" | "0x80 \<le> cp" "cp < 0x800" | "0x800 \<le> cp" "cp < 0x10000" | "0x10000 \<le> cp" by linarith
  then show ?thesis
  proof cases
    case 1
    have "cp AND 0x7F = cp" using 1 nat_and_mask [of cp 7] by (simp add: mask_eq_exp_minus_1)
    then show ?thesis using 1 by (simp add: utf8_bytes_def utf8_def)
  next
    case 2
    then have "(cp div 64 OR 0xC0) AND 0xFF = cp div 64 + 0xC0"
      by (intro first_byte [of _ 5 _ 6]) (simp_all add: push_bit_eq_mult)
    then show ?thesis using 2 tail(1) by (simp add: utf8_bytes_def utf8_def)
  next
    case 3
    then have "(cp div 4096 OR 0xE0) AND 0xFF = cp div 4096 + 0xE0"
      by (intro first_byte [of _ 4 _ 14]) (simp_all add: push_bit_eq_mult)
    then show ?thesis using 3 tail(2) by (simp add: utf8_bytes_def utf8_def)
  next
    case 4
    then have "(cp div 262144 OR 0xF0) AND 0xFF = cp div 262144 + 0xF0"
      using assms by (intro first_byte [of _ 3 _ 30]) (simp_all add: push_bit_eq_mult)
    then show ?thesis using 4 assms tail(3) by (simp add: utf8_bytes_def utf8_def)
  qed
qed

text \<open>The escape of a code unit in four hexadecimal digits, and the literal of a code point.\<close>

definition u_escape :: "nat \<Rightarrow> byte list" where
  "u_escape n = [92, 117, hex_digit (n div 4096), hex_digit (n div 256 mod 16), hex_digit (n div 16 mod 16), hex_digit (n mod 16)]"

definition u_literal :: "nat \<Rightarrow> byte list" where
  "u_literal cp =
     (if cp < 0x10000 then u_escape cp
      else u_escape (0xD800 + (cp - 0x10000) div 1024) @ u_escape (0xDC00 + (cp - 0x10000) mod 1024))"

definition scalar_value :: "nat \<Rightarrow> bool" where
  "scalar_value cp \<longleftrightarrow> cp < 0xD800 \<or> 0xE000 \<le> cp \<and> cp \<le> 0x10FFFF"

lemma hex_val_digit:
  assumes "n < 16"
  shows "hex_val (hex_digit n) = Some n"
proof -
  have "\<forall>n \<in> set [0..<16]. hex_val (hex_digit n) = Some n" by code_simp
  with assms show ?thesis by simp
qed

lemma get8_drop: "drop i bs = t \<Longrightarrow> k < length t \<Longrightarrow> get8 bs (i + k) = Some (t ! k)"
  by (auto simp: get8_def)

lemma hex_step:
  "get8 bs i = Some (hex_digit d) \<Longrightarrow> d < 16 \<Longrightarrow> j = i + 1 \<Longrightarrow>
   hex_loop bs i (Suc k) h = hex_loop bs j k (if 0 < k then 16 * (h + d) else h + d)"
  by (simp add: hex_val_digit push_bit_eq_mult mult.commute)

lemma parse_hex4_escape:
  assumes "drop i bs = u_escape n @ t" "n < 65536"
  shows "parse_hex4 bs (i + 2) = Some n"
proof -
  have g: "get8 bs (i + 2) = Some (hex_digit (n div 4096))" "get8 bs (i + 3) = Some (hex_digit (n div 256 mod 16))"
    "get8 bs (i + 4) = Some (hex_digit (n div 16 mod 16))" "get8 bs (i + 5) = Some (hex_digit (n mod 16))"
    using get8_drop [OF assms(1), of 2] get8_drop [OF assms(1), of 3] get8_drop [OF assms(1), of 4] get8_drop [OF assms(1), of 5]
    by (simp_all add: u_escape_def)
  have d: "n div 4096 < 16" "n div 256 mod 16 < 16" "n div 16 mod 16 < 16" "n mod 16 < 16" using assms(2) by auto
  have "parse_hex4 bs (i + 2) = hex_loop bs (i + 2) (Suc (Suc (Suc (Suc 0)))) 0"
    by (simp add: parse_hex4_def eval_nat_numeral del: hex_loop.simps)
  also have "\<dots> = Some (16 * (16 * (16 * (n div 4096) + n div 256 mod 16) + n div 16 mod 16) + n mod 16)"
    using hex_step [OF g(1) d(1), of "i + 3"] hex_step [OF g(2) d(2), of "i + 4"] hex_step [OF g(3) d(3), of "i + 5"]
      hex_step [OF g(4) d(4), of "i + 6"] by (simp del: hex_loop.simps(2))
  also have "16 * (16 * (16 * (n div 4096) + n div 256 mod 16) + n div 16 mod 16) + n mod 16 = n"
  proof -
    have "n div 256 = 16 * (n div 4096) + n div 256 mod 16" "n div 16 = 16 * (n div 256) + n div 16 mod 16"
      "n = 16 * (n div 16) + n mod 16"
      using mult_div_mod_eq [of 16 "n div 256"] mult_div_mod_eq [of 16 "n div 16"] by (simp_all add: div_mult2_eq [symmetric])
    then show ?thesis by simp
  qed
  finally show ?thesis .
qed


lemma hex_digit_byte: "length (u_escape n) = 6" "u_escape n ! 0 = 92" "u_escape n ! Suc 0 = 117"
  by (simp_all add: u_escape_def)

lemma pair_value:
  assumes "c < 1024" "d < 1024"
  shows "push_bit 10 ((0xD800 + c) AND 0x3FF) OR ((0xDC00 + d) AND 0x3FF) = 1024 * c + (d :: nat)"
proof -
  have m: "(0x3FF :: nat) = mask 10" by (simp add: mask_eq_exp_minus_1)
  have "(0xD800 + c) mod 1024 = c" "(0xDC00 + d) mod 1024 = d"
    using assms mod_mult_self4 [of 1024 54 c] mod_mult_self4 [of 1024 55 d] by simp_all
  then show ?thesis using nat_or_high [of d 10 c] assms(2) unfolding m nat_and_mask by (simp add: or.commute)
qed

text \<open>
  C37. UTF-16 literals: for every Unicode scalar value, the literal that escapes it, one \<open>\u\<close> escape
  below U+10000 and a surrogate pair above, is converted to the UTF-8 encoding of the code point as
  arithmetic defines it, and is consumed as a whole.
\<close>

theorem utf16_literal_decodes:
  assumes "scalar_value cp" "drop i bs = u_literal cp @ t" "i + length (u_literal cp) \<le> e"
  shows "utf16_literal_to_utf8 bs i e = Some (length (u_literal cp), utf8 cp)"
proof (cases "cp < 0x10000")
  case True
  then have "parse_hex4 bs (i + 2) = Some cp"
    using assms(2) by (intro parse_hex4_escape) (simp_all add: u_literal_def)
  then show ?thesis using True assms(1,3) utf8_bytes_utf8 [of cp]
    by (auto simp: utf16_literal_to_utf8_def Let_def u_literal_def hex_digit_byte scalar_value_def)
next
  case False
  define c d where "c = (cp - 0x10000) div 1024" and "d = (cp - 0x10000) mod 1024"
  have cp: "cp = 0x10000 + (1024 * c + d)" using False by (simp add: c_def d_def)
  have cd: "c < 1024" "d < 1024" using assms(1) False by (auto simp: c_def d_def scalar_value_def)
  have lit: "u_literal cp = u_escape (0xD800 + c) @ u_escape (0xDC00 + d)" using False by (simp add: u_literal_def c_def d_def)
  have first: "parse_hex4 bs (i + 2) = Some (0xD800 + c)"
    using assms(2) lit cd by (intro parse_hex4_escape) simp_all
  have s: "drop (i + 6) bs = u_escape (0xDC00 + d) @ t"
    using arg_cong [OF assms(2), of "drop 6"] by (simp add: lit hex_digit_byte add.commute)
  then have second: "parse_hex4 bs (i + 8) = Some (0xDC00 + d)"
    using parse_hex4_escape [OF s] cd by (simp add: add.commute)
  have "get8 bs (i + 6) = Some 92" "get8 bs (i + 7) = Some 117"
    using get8_drop [OF s, of 0] get8_drop [OF s, of 1] by (simp_all add: nth_append hex_digit_byte add.commute)
  moreover have "length (u_literal cp) = 12" by (simp add: lit hex_digit_byte)
  moreover have "0x10000 + (push_bit 10 ((0xD800 + c) AND 0x3FF) OR ((0xDC00 + d) AND 0x3FF)) = cp"
    unfolding pair_value [OF cd] cp ..
  moreover have "utf8_bytes cp = Some (utf8 cp)" using assms(1) by (intro utf8_bytes_utf8) (auto simp: scalar_value_def)
  ultimately show ?thesis using first second assms(3) cd
    unfolding utf16_literal_to_utf8_def Let_def by simp
qed

theorem utf16_literal_decodes_witness:
  "utf16_literal_to_utf8 (u_literal 0x1F600 @ [34]) 0 12 = Some (12, [0xF0, 0x9F, 0x98, 0x80])"
  using utf16_literal_decodes [of "0x1F600" 0 "u_literal 0x1F600 @ [34]" "[34]" 12]
  by (simp add: scalar_value_def u_literal_def hex_digit_byte utf8_def)

end
