(* ===== verification/Json_Roundtrip.thy ===== *)
theory Json_Roundtrip
  imports Json_Parse_Spec
begin

text \<open>
  Printing and parsing: the parser reads back every text of the reference printer \<open>render\<close>. The item
  it builds is \<open>reread\<close>, the printed item without what the text does not show (references, flags, the
  integer field of a literal), its numbers the doubles their texts denote.
\<close>

unbundle bit_operations_syntax

section \<open>Reading at a position\<close>

text \<open>The buffer is at the text \<open>t\<close>.\<close>

definition at :: "parse_buffer \<Rightarrow> byte list \<Rightarrow> bool" where
  "at b t \<longleftrightarrow> poffset b \<le> length (content b) \<and> drop (poffset b) (content b) = t"

lemma at_length: "at b t \<Longrightarrow> length (content b) = poffset b + length t"
  by (auto simp: at_def)

lemma at_nth: "at b t \<Longrightarrow> i < length t \<Longrightarrow> content b ! (poffset b + i) = t ! i"
  by (auto simp: at_def)

lemma at_Cons: "at b (c # t) \<Longrightarrow> content b ! poffset b = c" "at b (c # t) \<Longrightarrow> poffset b < length (content b)"
  using at_nth [of b "c # t" 0] at_length [of b "c # t"] by simp_all

lemma at_advance: "at b (u @ t) \<Longrightarrow> n = length u \<Longrightarrow> at (advance n b) t"
proof -
  assume a: "at b (u @ t)" "n = length u"
  have "drop (n + poffset b) (content b) = drop n (drop (poffset b) (content b))" by (simp only: drop_drop)
  also have "\<dots> = t" using a by (simp add: at_def)
  finally show ?thesis using a(2) at_length [OF a(1)] by (simp add: at_def add.commute)
qed

lemma at_depth [simp]: "at (b\<lparr>pdepth := d\<rparr>) t = at b t"
  by (simp add: at_def)

lemma next_is_at: "at b (c # t) \<Longrightarrow> next_is b d \<longleftrightarrow> c = d"
  using at_Cons [of b c t] by (simp add: next_is_def can_access_at_index_def)

lemma skip_loop_over:
  assumes "drop i bs = ws @ t" "\<forall>c \<in> set ws. c \<le> 32" "t = [] \<or> 32 < hd t" "i \<le> length bs"
  shows "skip_loop bs i = i + length ws"
  using assms
proof (induction ws arbitrary: i)
  case Nil
  then show ?case
    by (subst skip_loop.simps) (cases t; auto simp: not_less [symmetric] dest: nth_via_drop)
next
  case (Cons w ws)
  from Cons.prems(1) have "i < length bs" "bs ! i = w" "drop (i + 1) bs = ws @ t"
    by (auto simp: nth_via_drop drop_Suc tl_drop [symmetric] not_le [symmetric])
  with Cons show ?case by (subst skip_loop.simps) auto
qed

lemma skip_at:
  assumes "at b (ws @ c # t)" "\<forall>c \<in> set ws. c \<le> 32" "32 < c"
  shows "buffer_skip_whitespace b = advance (length ws) b"
proof -
  have "skip_loop (content b) (poffset b) = poffset b + length ws"
    using assms by (intro skip_loop_over [of _ _ _ "c # t"]) (auto simp: at_def)
  moreover have "poffset b + length ws \<noteq> length (content b)" using at_length [OF assms(1)] by simp
  ultimately show ?thesis by (simp add: buffer_skip_whitespace_def advance_def)
qed

lemma at_skip: "at b (ws @ c # t) \<Longrightarrow> \<forall>c \<in> set ws. c \<le> 32 \<Longrightarrow> 32 < c \<Longrightarrow> at (buffer_skip_whitespace b) (c # t)"
  using skip_at [of b ws c t] at_advance [of b ws "c # t"] by simp

section \<open>Literals\<close>

lemma text_at_at: "at b (u @ t) \<Longrightarrow> 0 \<notin> set u \<Longrightarrow> text_at b = u @ takeWhile (\<lambda>c. c \<noteq> 0) t"
  by (auto simp: at_def text_at_def takeWhile_append)

lemma strncmp_prefix: "length u = n \<Longrightarrow> strncmp (u @ t) u n = 0"
  by (induction u arbitrary: n) auto

lemma literal_at_text:
  assumes "at b (str lit @ t)" "CHR 0x00 \<notin> set lit"
  shows "literal_at b lit"
proof -
  have len: "length (str lit) = length lit" by (simp add: str_def)
  have "text_at b = str lit @ takeWhile (\<lambda>c. c \<noteq> 0) t" using assms by (intro text_at_at) (simp_all add: str_nul_free)
  with strncmp_prefix [OF len] at_length [OF assms(1)] len show ?thesis by (simp add: literal_at_def can_read_def)
qed

lemma literal_at_hd:
  assumes "literal_at b lit" "at b (c # t)" "lit \<noteq> []" "CHR 0x00 \<notin> set lit"
  shows "c = hd (str lit)"
proof -
  obtain l ls where l: "str lit = l # ls" "0 < length lit" using assms(3) by (cases lit) (auto simp: str_def)
  have "l \<noteq> 0" using assms(4) l by (metis list.set_intros(1) str_nul_free)
  moreover have "text_at b = (if c = 0 then [] else c # takeWhile (\<lambda>c. c \<noteq> 0) t)"
    using assms(2) by (auto simp: at_def text_at_def)
  ultimately show ?thesis using assms(1) l
    by (cases "length lit") (auto simp: literal_at_def word_uint_eq_iff split: if_splits)
qed


section \<open>Strings\<close>

lemma get8_at: "drop i bs = c # t \<Longrightarrow> get8 bs i = Some c"
  by (auto simp: get8_def nth_via_drop) (metis drop_all list.discI not_le)

lemma drop_tail: "drop i bs = u @ t \<Longrightarrow> drop (i + length u) bs = t"
  by (metis add.commute append_eq_conv_conj drop_drop)

text \<open>The escapes of the printer, read by the parser.\<close>

lemma escape_char_short: "short_escape c = Some x \<Longrightarrow> escape_char x = Some c"
  by (auto simp: short_escape_def escape_char_def split: if_splits)

lemma control_escape: "short_escape c = None \<Longrightarrow> c < 32 \<Longrightarrow> escape_byte c = u_escape (unat c)"
  by (simp add: escape_byte_def u_escape_def word_less_nat_alt hex_digit_def)

lemma control_literal:
  assumes d: "drop i bs = escape_byte c @ t" and c: "short_escape c = None" "c < 32" and e: "i + 6 \<le> e"
  shows "utf16_literal_to_utf8 bs i e = Some (6, [c])"
proof -
  have n: "unat c < 32" using c(2) by (simp add: word_less_nat_alt)
  have "parse_hex4 bs (i + 2) = Some (unat c)"
    using d n control_escape [OF c] by (intro parse_hex4_escape) simp_all
  moreover have "utf8_bytes (unat c) = Some [c]" using n utf8_bytes_utf8 [of "unat c"] by (simp add: utf8_def)
  ultimately show ?thesis using e n by (simp add: utf16_literal_to_utf8_def Let_def)
qed

text \<open>One byte of the string: its escape is copied by the second loop and passed by the first.\<close>

lemma unescape_byte:
  assumes d: "drop i bs = escape_byte c @ t" and e: "i + length (escape_byte c) \<le> e" and cap: "length out < cap"
  shows "unescape_loop bs i e cap out = unescape_loop bs (i + length (escape_byte c)) e cap (out @ [c])"
proof -
  have g: "k < length (escape_byte c) \<Longrightarrow> get8 bs (i + k) = Some (escape_byte c ! k)" for k
    using get8_drop [OF d, of k] by (simp add: nth_append)
  have put: "put_bytes cap out [c] = Some (out @ [c])" using cap by (simp add: put_bytes_def)
  show ?thesis
  proof (cases "short_escape c")
    case (Some x)
    then have b: "escape_byte c = [92, x]" by (simp add: escape_byte_def)
    with g [of 0] g [of 1] e escape_char_short [OF Some] put show ?thesis by (subst unescape_loop.simps) simp
  next
    case None
    show ?thesis
    proof (cases "c < 32")
      case True
      from control_literal [OF d None True] e control_escape [OF None True]
      have "utf16_literal_to_utf8 bs i e = Some (6, [c])" by (simp add: hex_digit_byte)
      with g [of 0] g [of 1] e put control_escape [OF None True] show ?thesis
        by (subst unescape_loop.simps) (simp add: hex_digit_byte escape_char_def)
    next
      case False
      then have b: "escape_byte c = [c]" "c \<noteq> 92" using None by (auto simp: escape_byte_def short_escape_def split: if_splits)
      with g [of 0] e put show ?thesis by (subst unescape_loop.simps) simp
    qed
  qed
qed

lemma unescape_text:
  assumes "drop i bs = concat (map escape_byte s) @ t" "i + length (concat (map escape_byte s)) = e" "length out + length s \<le> cap"
  shows "unescape_loop bs i e cap out = Some (e, Some (out @ s))"
  using assms
proof (induction s arbitrary: i out)
  case Nil
  then show ?case by (subst unescape_loop.simps) simp
next
  case (Cons c s)
  have d: "drop i bs = escape_byte c @ concat (map escape_byte s) @ t" using Cons.prems(1) by simp
  with Cons unescape_byte [OF d, of e out cap] drop_tail [OF d] show ?case by simp
qed

definition escaped :: "byte \<Rightarrow> nat" where
  "escaped c = (if escape_byte c = [c] then 0 else 1)"

lemma scan_plain:
  "\<forall>j < n. i + j < length bs \<and> bs ! (i + j) \<noteq> 34 \<and> bs ! (i + j) \<noteq> 92 \<Longrightarrow> scan_string bs i k = scan_string bs (i + n) k"
proof (induction n arbitrary: i)
  case (Suc n)
  from Suc.prems [rule_format, of 0] have "scan_string bs i k = scan_string bs (i + 1) k"
    by (subst scan_string.simps) simp
  also have "\<dots> = scan_string bs (i + 1 + n) k"
    using Suc.prems by (intro Suc.IH) (metis Suc_less_eq add.assoc add.left_commute plus_1_eq_Suc)
  finally show ?case by simp
qed simp

lemma scan_byte:
  assumes d: "drop i bs = escape_byte c @ t"
  shows "scan_string bs i k = scan_string bs (i + length (escape_byte c)) (k + escaped c)"
proof -
  have g: "j < length (escape_byte c) \<Longrightarrow> i + j < length bs \<and> bs ! (i + j) = escape_byte c ! j" for j
    using get8_drop [OF d, of j] by (auto simp: nth_append get8_def split: if_splits)
  have esc: "scan_string bs j n = scan_string bs (j + 2) (n + 1)" if "j < length bs" "bs ! j = 92" "j + 1 < length bs" for j n
    using that by (subst scan_string.simps) simp
  show ?thesis
  proof (cases "short_escape c")
    case (Some x)
    then have b: "escape_byte c = [92, x]" by (simp add: escape_byte_def)
    with g [of 0] g [of 1] esc [of i k] show ?thesis by (simp add: escaped_def)
  next
    case None
    show ?thesis
    proof (cases "c < 32")
      case True
      have hd: "hex_digit n \<noteq> 34 \<and> hex_digit n \<noteq> 92" if "n < 16" for n
        using hex_val_digit [OF that] by (auto simp: hex_val_def)
      note b = control_escape [OF None True]
      have "unat c < 32" using True by (simp add: word_less_nat_alt)
      then have "\<forall>x \<in> set (drop 2 (u_escape (unat c))). x \<noteq> 34 \<and> x \<noteq> 92"
        using hd [of 0] hd [of "unat c div 16"] hd [of "unat c mod 16"] by (simp add: u_escape_def)
      moreover have "u_escape (unat c) ! (2 + j) \<in> set (drop 2 (u_escape (unat c)))" if "j < 4" for j
        using that nth_mem [of j "drop 2 (u_escape (unat c))"] by (simp add: hex_digit_byte)
      ultimately have "\<forall>j < 4. u_escape (unat c) ! (2 + j) \<noteq> 34 \<and> u_escape (unat c) ! (2 + j) \<noteq> 92" by blast
      moreover have "i + 2 + j < length bs \<and> bs ! (i + 2 + j) = u_escape (unat c) ! (2 + j)" if "j < 4" for j
        using g [of "2 + j"] b that by (simp add: hex_digit_byte)
      ultimately have "\<forall>j < 4. i + 2 + j < length bs \<and> bs ! (i + 2 + j) \<noteq> 34 \<and> bs ! (i + 2 + j) \<noteq> 92" by auto
      from scan_plain [OF this, of "k + 1"] g [of 0] g [of 1] b esc [of i k]
      have "scan_string bs i k = scan_string bs (i + 6) (k + 1)" by (simp add: hex_digit_byte add.commute)
      moreover have "length (escape_byte c) = 6" "escaped c = 1" using b by (simp_all add: escaped_def u_escape_def)
      ultimately show ?thesis by (simp only:)
    next
      case False
      then have b: "escape_byte c = [c]" "c \<noteq> 92" "c \<noteq> 34"
        using None by (auto simp: escape_byte_def short_escape_def split: if_splits)
      with g [of 0] scan_plain [of 1 i bs k] show ?thesis by (simp add: escaped_def)
    qed
  qed
qed

lemma scan_text:
  assumes "drop i bs = concat (map escape_byte s) @ 34 # t"
  shows "scan_string bs i k = Some (i + length (concat (map escape_byte s)), k + sum_list (map escaped s))"
  using assms
proof (induction s arbitrary: i k)
  case Nil
  then have "i < length bs" "bs ! i = 34" using get8_at [of i bs 34 t] by (auto simp: get8_def split: if_splits)
  then show ?case by (subst scan_string.simps) simp
next
  case (Cons c s)
  have d: "drop i bs = escape_byte c @ concat (map escape_byte s) @ 34 # t" using Cons.prems(1) by simp
  with Cons.IH [OF drop_tail [OF d]] scan_byte [OF d] show ?case by (simp add: add.assoc)
qed

lemma escaped_short: "length s + sum_list (map escaped s) \<le> length (concat (map escape_byte s))"
proof (induction s)
  case (Cons c s)
  have "1 + escaped c \<le> length (escape_byte c)"
    by (auto simp: escaped_def escape_byte_def short_escape_def split: option.splits)
  with Cons show ?case by simp
qed simp


text \<open>The text of a string, an absent one printed as the empty one.\<close>

definition text_of :: "cstring option \<Rightarrow> cstring" where
  "text_of s = (case s of None \<Rightarrow> [] | Some t \<Rightarrow> t)"

lemma parse_string_reads:
  assumes b: "at b (quoted s @ t)" and s: "c_text s" and m: "outcomes m = []"
  obtains m' where "outcomes m' = []"
    "parse_string item b m =
       Some (True, set_valuestring (Some (text_of s)) (set_type cJSON_String item), advance (length (quoted s)) b, m')"
proof -
  let ?s = "text_of s" and ?bs = "content b" and ?i = "poffset b + 1"
  let ?u = "concat (map escape_byte ?s)" and ?e = "poffset b + 1 + length (concat (map escape_byte (text_of s)))"
  have q: "quoted s = 34 # ?u @ [34]" by (simp add: quoted_def text_of_def)
  have d: "drop ?i ?bs = ?u @ 34 # t" using at_advance [of b "[34]" "?u @ 34 # t" 1] b by (simp add: q at_def)
  have len: "length ?bs = ?e + 1 + length t" using at_length [OF b] by (simp add: q)
  have c: "get8 ?bs (poffset b) = Some 34" using get8_at [of "poffset b" ?bs 34] b by (simp add: q at_def)
  have e: "?bs ! ?e = 34" using nth_via_drop [of ?e ?bs 34 t] drop_tail [OF d] by simp
  note scan = scan_text [OF d, of 0]
  let ?cap = "(?e - poffset b - sum_list (map escaped ?s)) + 1"
  have cap: "length ?s < ?cap" using escaped_short [of ?s] by simp
  then have un: "unescape_loop ?bs ?i ?e ?cap [] = Some (?e, Some ?s)"
    using unescape_text [OF d, of ?e "[]" ?cap] by simp
  obtain m1 where m1: "malloc m = (True, m1)" "outcomes m1 = []" using m by (auto simp: malloc_plenty)
  have tw: "takeWhile (\<lambda>c. c \<noteq> 0) ?s = ?s"
    using s by (cases s) (auto simp: text_of_def takeWhile_eq_all_conv)
  from c scan e len un cap m1(1) have "parse_string item b m =
      Some (True, set_valuestring (Some ?s) (set_type cJSON_String item), b\<lparr>poffset := ?e + 1\<rparr>, m1)"
    by (simp add: parse_string_def Let_def tw)
  then show thesis using that m1(2) by (simp add: q advance_def)
qed

section \<open>Numbers\<close>

text \<open>A decimal text \<open>strtod\<close> takes as a whole: sign, digits, fraction, exponent.\<close>

lemma strtod_whole:
  assumes ip: "ip \<noteq> []" "\<forall>c \<in> set ip. is_digit c" and fp: "\<forall>c \<in> set fp. is_digit c"
    and x: "x = [] \<or> (\<exists>sg ds. x = 101 # sg # ds \<and> (sg = 45 \<or> sg = 43) \<and> ds \<noteq> [] \<and> (\<forall>c \<in> set ds. is_digit c))"
    and pt: "pt = [] \<and> fp = [] \<or> pt = 46 # fp" and sg: "sg = [] \<or> sg = [45]"
  shows "snd (strtod (sg @ ip @ pt @ x)) = length (sg @ ip @ pt @ x)"
proof -
  have tw: "takeWhile is_digit (ds @ r) = ds \<and> dropWhile is_digit (ds @ r) = r"
    if "\<forall>c \<in> set ds. is_digit c" "r = [] \<or> \<not> is_digit (hd r)" for ds r
    using that by (cases r) auto
  have all: "\<forall>c \<in> set ds. is_digit c \<Longrightarrow> takeWhile is_digit ds = ds" for ds by (simp add: takeWhile_eq_all_conv)
  have nd: "\<not> is_digit 101" "\<not> is_digit 46" "\<not> is_digit 45" "\<not> is_digit 43" by (simp_all add: is_digit_def)
  have x0: "x = [] \<or> \<not> is_digit (hd x)" "\<not> (x \<noteq> [] \<and> hd x = 46)" using x nd by auto
  have rx: "snd (read_exp x) = length x"
    using x by (auto simp: read_exp_def Let_def all)
  have r: "takeWhile is_digit (ip @ pt @ x) = ip" "dropWhile is_digit (ip @ pt @ x) = pt @ x"
    using tw [OF ip(2), of "pt @ x"] x0(1) nd pt by auto
  have first: "hd ip \<noteq> 45" "hd ip \<noteq> 43" using ip digit_not_sign [of "hd ip"] by auto
  have f: "takeWhile is_digit (fp @ x) = fp" "dropWhile is_digit (fp @ x) = x" using tw [OF fp x0(1)] by auto
  let ?cs = "sg @ ip @ pt @ x"
  have s: "(?cs \<noteq> [] \<and> (hd ?cs = 45 \<or> hd ?cs = 43)) = (sg = [45])" "(if sg = [45] then tl ?cs else ?cs) = ip @ pt @ x"
    using sg first ip(1) by (auto simp: hd_append)
  let ?r = "pt @ x"
  have dot: "(?r \<noteq> [] \<and> hd ?r = 46) = (pt \<noteq> [])" "pt \<noteq> [] \<Longrightarrow> tl ?r = fp @ x" using x0(2) pt by auto
  have f': "(if pt \<noteq> [] then takeWhile is_digit (tl ?r) else []) = fp" "(if pt \<noteq> [] then dropWhile is_digit (tl ?r) else ?r) = x"
    using dot(2) f pt by auto
  obtain e n where en: "read_exp x = (e, n)" by fastforce
  have "snd (strtod ?cs) = (if sg = [45] then 1 else 0) + length ip + (if pt \<noteq> [] then 1 else 0) + length fp + n"
    unfolding strtod_def Let_def s r dot(1) f' en prod.case using ip(1) by simp
  then show ?thesis using rx en sg pt by auto
qed


lemma format_g_reads:
  assumes "\<not> nan_or_inf d" "0 < p"
  shows "snd (strtod (format_g p d)) = length (format_g p d)"
    "format_g p d \<noteq> [] \<and> (hd (format_g p d) = 45 \<or> is_digit (hd (format_g p d)))"
proof -
  from assms(1) obtain s u where d: "d = Fin s u" by (cases d) (auto simp: nan_or_inf_def)
  obtain ds e where sd: "sig_digits p u = (ds, e)" by (cases "sig_digits p u")
  have ds: "\<forall>c \<in> set ds. is_digit c" "ds \<noteq> []" using sig_digits_length [OF assms(2) sd] by auto
  have st: "\<forall>c \<in> set xs. is_digit c \<Longrightarrow> \<forall>c \<in> set (strip_zeros xs). is_digit c" for xs
    using strip_zeros_props(2) [of xs] by blast
  have zero: "is_digit 48" by (simp add: is_digit_def)
  let ?sg = "if s then [45] else [] :: byte list"
  have "\<exists>ip fp pt x. format_mag p u = ip @ pt @ x \<and> ip \<noteq> [] \<and> (\<forall>c \<in> set ip. is_digit c) \<and> (\<forall>c \<in> set fp. is_digit c) \<and>
      (pt = [] \<and> fp = [] \<or> pt = 46 # fp) \<and>
      (x = [] \<or> (\<exists>sg ds. x = 101 # sg # ds \<and> (sg = 45 \<or> sg = 43) \<and> ds \<noteq> [] \<and> (\<forall>c \<in> set ds. is_digit c)))"
    (is "\<exists>ip fp pt x. ?P ip fp pt x")
  proof -
    consider "u = 0" | (exp) "u \<noteq> 0" "e < - 4 \<or> int p \<le> e" | (small) "u \<noteq> 0" "\<not> (e < - 4 \<or> int p \<le> e)" "e < 0"
      | (fixed) "u \<noteq> 0" "\<not> (e < - 4 \<or> int p \<le> e)" "\<not> e < 0" by blast
    then show ?thesis
    proof cases
      case 1
      then have "?P [48] [] [] []" using zero by (simp add: format_mag_def)
      then show ?thesis by blast
    next
      case exp
      have "\<forall>c \<in> set (show_pad 2 \<bar>e\<bar>). is_digit c" "show_pad 2 \<bar>e\<bar> \<noteq> []"
        using show_nat_digits [of "nat \<bar>e\<bar>"] zero by (auto simp: show_pad_def Let_def)
      moreover have "\<forall>c \<in> set (strip_zeros (tl ds)). is_digit c" using ds by (intro st) (auto dest: list.set_sel(2))
      ultimately have "?P [hd ds] (strip_zeros (tl ds)) (point (strip_zeros (tl ds)))
          (101 # (if e < 0 then 45 else 43) # show_pad 2 \<bar>e\<bar>)"
        using exp ds by (simp add: format_mag_def sd point_def)
      then show ?thesis by blast
    next
      case small
      then have "?P [48] (replicate (nat (- e - 1)) 48 @ strip_zeros ds) (46 # replicate (nat (- e - 1)) 48 @ strip_zeros ds) []"
        using ds st [of ds] zero by (auto simp: format_mag_def sd)
      then show ?thesis by blast
    next
      case fixed
      have "\<forall>c \<in> set (strip_zeros (drop (nat e + 1) ds)). is_digit c" using ds by (intro st) (auto dest: in_set_dropD)
      then have "?P (take (nat e + 1) ds) (strip_zeros (drop (nat e + 1) ds)) (point (strip_zeros (drop (nat e + 1) ds))) []"
        using fixed ds by (auto simp: format_mag_def sd point_def dest: in_set_takeD)
      then show ?thesis by blast
    qed
  qed
  then obtain ip fp pt x where P: "?P ip fp pt x" by blast
  have g: "format_g p d = ?sg @ ip @ pt @ x" using P by (simp add: d format_g_def)
  show "snd (strtod (format_g p d)) = length (format_g p d)"
    unfolding g using P by (intro strtod_whole [where fp = fp]) auto
  show "format_g p d \<noteq> [] \<and> (hd (format_g p d) = 45 \<or> is_digit (hd (format_g p d)))"
    unfolding g using P by (auto simp: hd_append)
qed

lemma number_loop_over:
  "\<forall>c \<in> set u. number_byte c \<Longrightarrow> t = [] \<or> \<not> number_byte (hd t) \<Longrightarrow> length u \<le> k \<Longrightarrow> number_loop (u @ t) k = u"
proof (induction u arbitrary: k)
  case Nil
  then show ?case by (cases t; cases k) auto
next
  case (Cons c u)
  then show ?case by (cases k) auto
qed

text \<open>The double a printed number denotes.\<close>

definition text_number :: "byte list \<Rightarrow> double" where
  "text_number u = fst (strtod u)"

lemma parse_number_reads:
  assumes "double_ok d" "\<not> nan_or_inf d" "number_text d = Some u" "at b (u @ t)" "\<not> number_byte (hd t)"
  shows "parse_number item b m =
           Some (True, set_number (saturate (text_number u)) (text_number u) (set_type cJSON_Number item), advance (length u) b, m)"
    "u \<noteq> []" "hd u = 45 \<or> is_digit (hd u)"
proof -
  obtain p where p: "u = format_g p d" "p = 15 \<or> p = 17"
    using assms(2,3) by (auto simp: number_text_def number_sprintf_def bind_eq_Some_conv split: if_splits prod.splits)
  have p0: "0 < p" using p(2) by auto
  have chars: "\<forall>c \<in> set u. number_byte c"
    using format_g_chars [OF assms(2) p0] p(1) by (auto simp: number_char_def number_byte_def)
  have len: "length u \<le> 63" using format_g_length [OF assms(1,2) p0] p by auto
  have reads: "snd (strtod u) = length u" "u \<noteq> []" using format_g_reads [OF assms(2) p0] p(1) by auto
  have "number_loop (drop (poffset b) (content b)) 63 = u"
    using assms(4,5) number_loop_over [OF chars _ len, of t] by (simp add: at_def)
  then show "parse_number item b m = Some (True, set_number (saturate (text_number u)) (text_number u) (set_type cJSON_Number item), advance (length u) b, m)"
    using reads by (auto simp: parse_number_def text_number_def split: prod.splits)
  show "u \<noteq> []" "hd u = 45 \<or> is_digit (hd u)" using format_g_reads(2) [OF assms(2) p0] p(1) by auto
qed


section \<open>Values\<close>

text \<open>Items without raw text, and how deep their arrays and objects nest.\<close>

fun rawless :: "cJSON \<Rightarrow> bool" where
  "rawless (JItem t vs vi vd s cs) \<longleftrightarrow> t AND 0xFF \<noteq> cJSON_Raw \<and> list_all rawless cs"

fun json_levels :: "cJSON \<Rightarrow> nat" where
  "json_levels (JItem t vs vi vd s cs) =
     (if t AND 0xFF = cJSON_Array \<or> t AND 0xFF = cJSON_Object then Suc (foldr max (map json_levels cs) 0) else 0)"

text \<open>The item behind the key \<open>key\<close> that its text denotes.\<close>

fun reread :: "cstring option \<Rightarrow> cJSON \<Rightarrow> cJSON" where
  "reread key (JItem t vs vi vd s cs) =
     (let ty = t AND 0xFF; plain = (\<lambda>t i. JItem t None i (Fin False 0) key []) in
      if ty = cJSON_False then plain cJSON_False 0
      else if ty = cJSON_True then plain cJSON_True 1
      else if ty = cJSON_Number \<and> \<not> nan_or_inf vd then
        (let d = text_number (case number_text vd of None \<Rightarrow> [] | Some u \<Rightarrow> u)
         in JItem cJSON_Number None (saturate d) d key [])
      else if ty = cJSON_String then JItem cJSON_String (Some (text_of vs)) 0 (Fin False 0) key []
      else if ty = cJSON_Array then JItem cJSON_Array None 0 (Fin False 0) key (map (reread None) cs)
      else if ty = cJSON_Object then
        JItem cJSON_Object None 0 (Fin False 0) key (map (\<lambda>c. reread (Some (text_of (jstring c))) c) cs)
      else plain cJSON_NULL 0)"

declare reread.simps [simp del]

text \<open>The buffer behind a part of the text, the text \<open>t\<close> left.\<close>

definition after :: "parse_buffer \<Rightarrow> byte list \<Rightarrow> parse_buffer \<Rightarrow> bool" where
  "after b t b' \<longleftrightarrow> content b' = content b \<and> pdepth b' = pdepth b \<and> at b' t"

lemma after_advance: "at b (u @ t) \<Longrightarrow> n = length u \<Longrightarrow> after b t (advance n b)"
  using at_advance [of b u t n] by (simp add: after_def)

lemma after_skip: "at b (ws @ c # t) \<Longrightarrow> \<forall>c \<in> set ws. c \<le> 32 \<Longrightarrow> 32 < c \<Longrightarrow> after b (c # t) (buffer_skip_whitespace b)"
  using at_skip [of b ws c t] by (simp add: after_def)

lemma after_trans: "after b t b' \<Longrightarrow> after b' t' b'' \<Longrightarrow> after b t' b''"
  by (simp add: after_def)

lemma after_at: "after b t b' \<Longrightarrow> at b' t" "after b t b' \<Longrightarrow> pdepth b' = pdepth b" "after b t b' \<Longrightarrow> content b' = content b"
  by (simp_all add: after_def)

lemma after_offset: "at b u \<Longrightarrow> after b t b' \<Longrightarrow> poffset b' + length t = poffset b + length u"
  using at_length [of b u] at_length [of b' t] by (simp add: after_def)

definition blank :: "byte list \<Rightarrow> bool" where
  "blank ws \<longleftrightarrow> (\<forall>c \<in> set ws. c \<le> 32)"

text \<open>The next token: one byte is passed, then whitespace.\<close>

lemma after_token:
  assumes "at b (w # ws @ c # t)" "blank ws" "32 < c"
  shows "after b (c # t) (buffer_skip_whitespace (advance 1 b))"
proof -
  have "after b (ws @ c # t) (advance 1 b)" using assms(1) by (intro after_advance [of b "[w]"]) simp_all
  with assms(2,3) show ?thesis by (auto simp: blank_def intro: after_trans after_skip after_at)
qed

text \<open>The first byte of a value.\<close>

definition opens :: "byte \<Rightarrow> bool" where
  "opens c \<longleftrightarrow> c \<in> {34, 45, 91, 123, 110, 102, 116} \<or> is_digit c"

lemma opens_range: "opens c \<Longrightarrow> 32 < c \<and> c < 127 \<and> c \<noteq> 93 \<and> c \<noteq> 125"
  by (auto simp: opens_def is_digit_def word_le_nat_alt word_less_nat_alt)

definition reads :: "bool \<Rightarrow> cJSON \<Rightarrow> bool" where
  "reads fmt x \<longleftrightarrow>
     (\<forall>d u n ty key b m t. render fmt d x = Some u \<longrightarrow> at b (u @ t) \<longrightarrow> t \<noteq> [] \<longrightarrow> \<not> number_byte (hd t) \<longrightarrow>
        pdepth b + json_levels x \<le> CJSON_NESTING_LIMIT \<longrightarrow> 2 * (length (u @ t)) + 2 \<le> n \<longrightarrow> outcomes m = [] \<longrightarrow>
        u \<noteq> [] \<and> opens (hd u) \<and>
        (\<exists>b' m'. parse_value n (JItem ty None 0 (Fin False 0) key []) b m = Some (True, reread key x, b', m') \<and>
           after b t b' \<and> outcomes m' = []))"

lemma readsD:
  assumes "reads fmt x" "render fmt d x = Some u" "at b (u @ c # t)" "\<not> number_byte c"
    "pdepth b + json_levels x \<le> CJSON_NESTING_LIMIT" "2 * (length (u @ c # t)) + 2 \<le> n" "outcomes m = []"
  obtains b' m' where
    "parse_value n (JItem ty None 0 (Fin False 0) key []) b m = Some (True, reread key x, b', m')"
    "after b (c # t) b'" "outcomes m' = []"
  using assms unfolding reads_def by (metis list.distinct(1) list.sel(1))

lemma reads_text:
  assumes "reads fmt x" "render fmt d x = Some u" "json_levels x \<le> CJSON_NESTING_LIMIT"
  shows "u \<noteq> [] \<and> opens (hd u)"
proof -
  let ?b = "\<lparr>content = u @ [0], poffset = 0, pdepth = 0\<rparr>"
  have "at ?b (u @ [0])" "\<not> number_byte 0" by (simp_all add: at_def number_byte_def is_digit_def)
  moreover obtain m :: mem where "outcomes m = []" by (meson mem.select_convs)
  ultimately show ?thesis using assms unfolding reads_def by (metis add_0 le_refl list.distinct(1) list.sel(1) parse_buffer.select_convs(3))
qed


lemma new_item_plenty: "outcomes m = [] \<Longrightarrow> \<exists>m'. cJSON_New_Item m = (Some (JItem 0 None 0 (Fin False 0) None []), m') \<and> outcomes m' = []"
  by (simp add: cJSON_New_Item_def malloc_plenty zero_item_def)

lemma separators: "\<not> number_byte 44" "\<not> number_byte 93" "\<not> number_byte 125" "\<not> number_byte 10" "\<not> number_byte 9"
  by (simp_all add: number_byte_def is_digit_def)

lemma render_rest:
  assumes "at b (u @ c # t)" "after b (c # t) b'" "32 < c"
  shows "buffer_skip_whitespace b' = b'"
  using skip_at [of b' "[]" c t] assms by (simp add: after_def advance_def)

lemma elements_read:
  assumes "\<forall>c \<in> set cs. reads fmt c" "those (map (render fmt d) cs) = Some us" "cs \<noteq> []"
    and "at b (w # ws @ join (44 # ws') us @ 93 # t)" "blank ws" "blank ws'"
    and "\<forall>c \<in> set cs. pdepth b + json_levels c \<le> CJSON_NESTING_LIMIT"
    and "2 * length (w # ws @ join (44 # ws') us @ 93 # t) + 1 \<le> n" "outcomes m = []"
  shows "\<exists>b' m'. parse_elements n acc b m = Some (True, acc @ map (reread None) cs, b', m') \<and>
           after b (93 # t) b' \<and> outcomes m' = []"
  using assms
proof (induction cs arbitrary: us b w ws n m acc)
  case (Cons x cs)
  obtain u vs where u: "render fmt d x = Some u" "those (map (render fmt d) cs) = Some vs" "us = u # vs"
    using Cons.prems(2) by (auto simp: those_Cons simp del: those.simps)
  have rd: "reads fmt x" and lv: "pdepth b + json_levels x \<le> CJSON_NESTING_LIMIT" using Cons.prems(1,7) by auto
  obtain c r where r: "join (44 # ws') us @ 93 # t = u @ c # r" "c = (if cs = [] then 93 else 44)"
      "cs = [] \<Longrightarrow> r = t" "cs \<noteq> [] \<Longrightarrow> r = ws' @ join (44 # ws') vs @ 93 # t"
    using u(3) those_Nil_iff [OF u(2)] by (cases vs) auto
  obtain h u' where h: "u = h # u'" "32 < h" using reads_text [OF rd u(1)] opens_range lv by (cases u) auto
  let ?b1 = "buffer_skip_whitespace (advance 1 b)"
  have at0: "at b (w # ws @ h # u' @ c # r)" using Cons.prems(4) r(1) h(1) by simp
  have b1: "after b (u @ c # r) ?b1" using after_token [OF at0 Cons.prems(5) h(2)] h(1) by simp
  obtain k where k: "n = Suc k" "2 * length (u @ c # r) + 2 \<le> k" using Cons.prems(8) r(1) by (cases n) auto
  obtain m1 where m1: "cJSON_New_Item m = (Some (JItem 0 None 0 (Fin False 0) None []), m1)" "outcomes m1 = []"
    using new_item_plenty [OF Cons.prems(9)] by blast
  have "\<not> number_byte c" "32 < c" using r(2) separators by auto
  obtain b2 m2 where v: "parse_value k (JItem 0 None 0 (Fin False 0) None []) ?b1 m1 = Some (True, reread None x, b2, m2)"
    "after ?b1 (c # r) b2" "outcomes m2 = []"
    using readsD [OF rd u(1) after_at(1) [OF b1] \<open>\<not> number_byte c\<close> _ k(2) m1(2)] lv after_at(2) [OF b1] by metis
  have skip: "buffer_skip_whitespace b2 = b2" using render_rest [OF after_at(1) [OF b1] v(2) \<open>32 < c\<close>] .
  have b2: "after b (c # r) b2" using after_trans [OF b1 v(2)] .
  have nx: "next_is b2 e \<longleftrightarrow> c = e" for e using next_is_at [OF after_at(1) [OF b2]] .
  show ?case
  proof (cases "cs = []")
    case True
    then show ?thesis using k(1) m1 v skip nx r b2 by (simp add: Let_def)
  next
    case False
    have at2: "at b2 (44 # ws' @ join (44 # ws') vs @ 93 # t)" using after_at(1) [OF b2] r(2,4) False by simp
    have fuel: "2 * length (44 # ws' @ join (44 # ws') vs @ 93 # t) + 1 \<le> k"
      using k(2) r(2,4) False h(1) by simp
    have lv2: "\<forall>c \<in> set cs. pdepth b2 + json_levels c \<le> CJSON_NESTING_LIMIT" using Cons.prems(7) after_at(2) [OF b2] by simp
    have "\<forall>c \<in> set cs. reads fmt c" using Cons.prems(1) by simp
    from Cons.IH [OF this u(2) False at2 Cons.prems(6,6) lv2 fuel v(3), of "acc @ [reread None x]"]
    obtain b3 m3 where "parse_elements k (acc @ [reread None x]) b2 m2 =
        Some (True, (acc @ [reread None x]) @ map (reread None) cs, b3, m3)" "after b2 (93 # t) b3" "outcomes m3 = []"
      by blast
    then show ?thesis using k(1) m1 v(1) skip nx r(2) False after_trans [OF b2] by (simp add: Let_def)
  qed
qed simp


lemma blank_not_number: "c \<le> 32 \<Longrightarrow> \<not> number_byte c"
  by (auto simp: number_byte_def is_digit_def word_le_nat_alt)

lemma key_reads:
  assumes "at b (w # ws @ quoted s @ 58 # ws' @ h # t)" "blank ws" "blank ws'" "32 < h" "c_text s" "outcomes m = []"
  obtains b2 b3 m' where "outcomes m' = []"
    "parse_string item (buffer_skip_whitespace (advance 1 b)) m =
       Some (True, set_valuestring (Some (text_of s)) (set_type cJSON_String item), b2, m')"
    "buffer_skip_whitespace b2 = b2" "next_is b2 58" "buffer_skip_whitespace (advance 1 b2) = b3" "after b (h # t) b3"
proof -
  let ?b1 = "buffer_skip_whitespace (advance 1 b)"
  have b1: "after b (quoted s @ 58 # ws' @ h # t) ?b1"
    using after_token [of b w ws 34] assms(1,2) by (simp add: quoted_def)
  obtain m' where m': "outcomes m' = []" "parse_string item ?b1 m =
      Some (True, set_valuestring (Some (text_of s)) (set_type cJSON_String item), advance (length (quoted s)) ?b1, m')"
    using parse_string_reads [OF after_at(1) [OF b1] assms(5,6)] by blast
  let ?b2 = "advance (length (quoted s)) ?b1"
  have b2: "after ?b1 (58 # ws' @ h # t) ?b2" using after_at(1) [OF b1] by (intro after_advance) simp_all
  have "buffer_skip_whitespace ?b2 = ?b2" using render_rest [OF after_at(1) [OF b1] b2] by simp
  moreover have "next_is ?b2 58" using next_is_at [OF after_at(1) [OF b2]] by simp
  moreover have "after b (h # t) (buffer_skip_whitespace (advance 1 ?b2))"
    using after_trans [OF after_trans [OF b1 b2] after_token [OF after_at(1) [OF b2] assms(3,4)]] .
  ultimately show thesis using that m' by blast
qed

lemma members_read:
  assumes "\<forall>c \<in> set cs. reads fmt c" "\<forall>c \<in> set cs. c_text (jstring c)" "cs \<noteq> []"
    and "those (map (\<lambda>x. map_option (member_text fmt d (jstring x)) (render fmt d x)) cs) = Some ms"
    and "at b (w # ws @ dropWhile (\<lambda>c. c \<le> 32) (join (44 # ws') ms) @ wt @ 125 # t)" "blank ws" "blank ws'" "blank wt"
    and "\<forall>c \<in> set cs. pdepth b + json_levels c \<le> CJSON_NESTING_LIMIT"
    and "2 * length (w # ws @ dropWhile (\<lambda>c. c \<le> 32) (join (44 # ws') ms) @ wt @ 125 # t) + 1 \<le> n" "outcomes m = []"
  shows "\<exists>b' m'. parse_members n acc b m =
           Some (True, acc @ map (\<lambda>c. reread (Some (text_of (jstring c))) c) cs, b', m') \<and>
           after b (125 # t) b' \<and> outcomes m' = []"
  using assms
proof (induction cs arbitrary: ms b w ws n m acc)
  case (Cons x cs)
  let ?key = "text_of (jstring x)"
  obtain u vs where u: "render fmt d x = Some u" "ms = member_text fmt d (jstring x) u # vs"
    "those (map (\<lambda>x. map_option (member_text fmt d (jstring x)) (render fmt d x)) cs) = Some vs"
    using Cons.prems(4) by (auto simp: those_Cons simp del: those.simps)
  have rd: "reads fmt x" and lv: "pdepth b + json_levels x \<le> CJSON_NESTING_LIMIT" using Cons.prems(1,9) by auto
  define wk wv where "wk = (if fmt then replicate d (9 :: byte) else [])" and "wv = (if fmt then [9 :: byte] else [])"
  have mt: "member_text fmt d (jstring x) u = wk @ quoted (jstring x) @ 58 # wv @ u"
    by (simp add: member_text_def wk_def wv_def)
  have bl: "blank wk" "blank wv" by (auto simp: blank_def wk_def wv_def)
  define wr e r where "wr = (if cs = [] then wt else [])" and "e = (if cs = [] then 125 else 44 :: byte)"
    and "r = (if cs = [] then t else ws' @ join (44 # ws') vs @ wt @ 125 # t)"
  have dw: "dropWhile (\<lambda>c. c \<le> 32) (wk @ quoted (jstring x) @ v) = quoted (jstring x) @ v" for v
    using bl(1) by (induction wk) (auto simp: blank_def quoted_def)
  have r: "dropWhile (\<lambda>c. c \<le> 32) (join (44 # ws') ms) @ wt @ 125 # t = quoted (jstring x) @ 58 # wv @ u @ wr @ e # r"
    using u(2) those_Nil_iff [OF u(3)] dw [of "58 # wv @ u"] dw [of "58 # wv @ u @ 44 # ws' @ join (44 # ws') vs"]
    by (cases vs) (auto simp: wr_def e_def r_def mt)
  obtain c r' where c: "wr @ e # r = c # r'" by (cases wr) auto
  have nb: "\<not> number_byte c"
    using c Cons.prems(8) separators blank_not_number [of c] by (cases wr) (auto simp: wr_def e_def blank_def split: if_splits)
  obtain h u' where h: "u = h # u'" "32 < h" using reads_text [OF rd u(1)] opens_range lv by (cases u) auto
  have at0: "at b (w # ws @ quoted (jstring x) @ 58 # wv @ h # u' @ c # r')"
    using Cons.prems(5) r h(1) c by simp
  obtain k where k: "n = Suc k" "2 * length (u @ c # r') + 2 \<le> k"
    using Cons.prems(10) unfolding r c by (cases n) (auto simp: quoted_def)
  obtain m1 where m1: "cJSON_New_Item m = (Some (JItem 0 None 0 (Fin False 0) None []), m1)" "outcomes m1 = []"
    using new_item_plenty [OF Cons.prems(11)] by blast
  have ct: "c_text (jstring x)" using Cons.prems(2) by simp
  let ?it = "JItem 0 None 0 (Fin False 0) None []"
  obtain b2 b3 m2 where key: "outcomes m2 = []" "parse_string ?it (buffer_skip_whitespace (advance 1 b)) m1 =
      Some (True, set_valuestring (Some ?key) (set_type cJSON_String ?it), b2, m2)"
    "buffer_skip_whitespace b2 = b2" "next_is b2 58" "buffer_skip_whitespace (advance 1 b2) = b3" "after b (h # u' @ c # r') b3"
    by (rule key_reads [OF at0 Cons.prems(6) bl(2) h(2) ct m1(2), of ?it])
  have b3: "after b (u @ c # r') b3" using key(6) h(1) by simp
  obtain b4 m4 where v: "parse_value k (JItem cJSON_String None 0 (Fin False 0) (Some ?key) []) b3 m2 =
      Some (True, reread (Some ?key) x, b4, m4)" "after b3 (c # r') b4" "outcomes m4 = []"
    using readsD [OF rd u(1) after_at(1) [OF b3] nb _ k(2) key(1)] lv after_at(2) [OF b3] by metis
  let ?b = "buffer_skip_whitespace b4"
  have "after b4 (e # r) ?b"
    using v(2) c Cons.prems(8) by (intro after_skip [of b4 wr]) (auto simp: after_def wr_def e_def blank_def split: if_splits)
  then have b: "after b (e # r) ?b" using after_trans [OF after_trans [OF b3 v(2)]] by blast
  have nx: "next_is ?b y \<longleftrightarrow> e = y" for y using next_is_at [OF after_at(1) [OF b]] .
  note step = k(1) m1 key(2-5) v(1) nx
  show ?case
  proof (cases "cs = []")
    case True
    then show ?thesis using step b v(3) by (simp add: Let_def e_def r_def)
  next
    case False
    let ?J = "join (44 # ws') vs"
    let ?w = "ws' @ takeWhile (\<lambda>c. c \<le> 32) ?J"
    have J: "44 # ws' @ ?J @ wt @ 125 # t = 44 # ?w @ dropWhile (\<lambda>c. c \<le> 32) ?J @ wt @ 125 # t"
      using takeWhile_dropWhile_id [of "\<lambda>c. c \<le> 32" ?J] by (metis append.assoc)
    have at2: "at ?b (44 # ?w @ dropWhile (\<lambda>c. c \<le> 32) ?J @ wt @ 125 # t)"
      unfolding J [symmetric] using after_at(1) [OF b] False by (simp add: e_def r_def)
    have fuel: "2 * length (44 # ?w @ dropWhile (\<lambda>c. c \<le> 32) ?J @ wt @ 125 # t) + 1 \<le> k"
      unfolding J [symmetric] using k(2) c [symmetric] False h(1) by (simp add: wr_def e_def r_def)
    have bw: "blank ?w" using Cons.prems(7) by (auto simp: blank_def dest: set_takeWhileD)
    have lv2: "\<forall>c \<in> set cs. pdepth ?b + json_levels c \<le> CJSON_NESTING_LIMIT" using Cons.prems(9) after_at(2) [OF b] by simp
    have "\<forall>c \<in> set cs. reads fmt c" "\<forall>c \<in> set cs. c_text (jstring c)" using Cons.prems(1,2) by simp_all
    from Cons.IH [OF this False u(3) at2 bw Cons.prems(7,8) lv2 fuel v(3), of "acc @ [reread (Some ?key) x]"]
    obtain b5 m5 where "parse_members k (acc @ [reread (Some ?key) x]) ?b m4 =
        Some (True, (acc @ [reread (Some ?key) x]) @ map (\<lambda>c. reread (Some (text_of (jstring c))) c) cs, b5, m5)"
      "after ?b (125 # t) b5" "outcomes m5 = []" by blast
    then show ?thesis using step False after_trans [OF b] by (simp add: Let_def e_def)
  qed
qed simp


lemma not_literal:
  assumes "at b (c # t)"
  shows "c \<noteq> 110 \<Longrightarrow> \<not> literal_at b ''null''" "c \<noteq> 102 \<Longrightarrow> \<not> literal_at b ''false''" "c \<noteq> 116 \<Longrightarrow> \<not> literal_at b ''true''"
  using literal_at_hd [OF _ assms, of "''null''"] literal_at_hd [OF _ assms, of "''false''"]
    literal_at_hd [OF _ assms, of "''true''"] by (auto simp: str_def)

lemma literals_read:
  "at b (str ''null'' @ t) \<Longrightarrow> parse_value (Suc n) item b m = Some (True, set_type cJSON_NULL item, advance 4 b, m)"
  "at b (str ''false'' @ t) \<Longrightarrow> parse_value (Suc n) item b m = Some (True, set_type cJSON_False item, advance 5 b, m)"
  "at b (str ''true'' @ t) \<Longrightarrow> parse_value (Suc n) item b m = Some (True, set_true item, advance 4 b, m)"
proof -
  assume "at b (str ''null'' @ t)"
  then show "parse_value (Suc n) item b m = Some (True, set_type cJSON_NULL item, advance 4 b, m)"
    using literal_at_text [of b "''null''" t] by simp
next
  assume b: "at b (str ''false'' @ t)"
  then have "at b (102 # tl (str ''false'') @ t)" by (simp add: str_def)
  then show "parse_value (Suc n) item b m = Some (True, set_type cJSON_False item, advance 5 b, m)"
    using literal_at_text [OF b] not_literal(1) by simp
next
  assume b: "at b (str ''true'' @ t)"
  then have "at b (116 # tl (str ''true'') @ t)" by (simp add: str_def)
  then show "parse_value (Suc n) item b m = Some (True, set_true item, advance 4 b, m)"
    using literal_at_text [OF b] not_literal(1,2) by simp
qed

text \<open>What a value that is none of the literals does, by its first byte.\<close>

lemma value_by_first:
  assumes "at b (c # t)" "c \<noteq> 110" "c \<noteq> 102" "c \<noteq> 116"
  shows "parse_value (Suc n) item b m =
    (if c = 34 then parse_string item b m
     else if c = 45 \<or> is_digit c then parse_number item b m
     else if c = 91 then open_list 91 93 cJSON_Array (parse_elements n []) item b m
     else if c = 123 then open_list 123 125 cJSON_Object (parse_members n []) item b m
     else Some (False, item, b, m))"
  using not_literal [OF assms(1)] assms(2-4) next_is_at [OF assms(1)] at_Cons [OF assms(1)]
  by (auto simp: can_access_at_index_def is_digit_def)

definition read_back :: "cJSON \<Rightarrow> nat \<Rightarrow> byte list \<Rightarrow> byte list \<Rightarrow> parse_buffer \<Rightarrow> mem \<Rightarrow> bool" where
  "read_back x n u t b m \<longleftrightarrow> u \<noteq> [] \<and> opens (hd u) \<and>
     (\<forall>ty key. \<exists>b' m'. parse_value n (JItem ty None 0 (Fin False 0) key []) b m = Some (True, reread key x, b', m') \<and>
        after b t b' \<and> outcomes m' = [])"

lemma literal_back:
  assumes "at b (str l @ t)" "outcomes m = []"
    and "l = ''null'' \<and> (\<forall>key. reread key x = JItem cJSON_NULL None 0 (Fin False 0) key []) \<or>
         l = ''false'' \<and> (\<forall>key. reread key x = JItem cJSON_False None 0 (Fin False 0) key []) \<or>
         l = ''true'' \<and> (\<forall>key. reread key x = JItem cJSON_True None 1 (Fin False 0) key [])"
  shows "read_back x (Suc n) (str l) t b m"
proof -
  have "after b t (advance (if l = ''false'' then 5 else 4) b)"
    using assms(1,3) by (intro after_advance [of b "str l"]) (auto simp: str_def)
  with assms literals_read [of b t n _ m] show ?thesis
    unfolding read_back_def by (auto simp: str_def set_true_def opens_def simp del: parse_value.simps)
qed

lemma string_back:
  assumes "at b (quoted s @ t)" "outcomes m = []" "c_text s"
    and "\<forall>key. reread key x = JItem cJSON_String (Some (text_of s)) 0 (Fin False 0) key []"
  shows "read_back x (Suc n) (quoted s) t b m"
proof -
  have "after b t (advance (length (quoted s)) b)" using assms(1) by (intro after_advance) simp_all
  moreover have "at b (34 # tl (quoted s) @ t)" using assms(1) by (simp add: quoted_def)
  moreover have "quoted s \<noteq> []" "hd (quoted s) = 34" by (simp_all add: quoted_def)
  ultimately show ?thesis unfolding read_back_def
    using value_by_first [of b 34] parse_string_reads [OF assms(1,3,2)] assms(4)
    by (simp add: opens_def del: parse_value.simps) (metis set_type.simps set_valuestring.simps)
qed

lemma number_back:
  assumes "at b (u @ t)" "outcomes m = []" "double_ok d" "\<not> nan_or_inf d" "number_text d = Some u" "\<not> number_byte (hd t)"
    and "\<forall>key. reread key x = JItem cJSON_Number None (saturate (text_number u)) (text_number u) key []"
  shows "read_back x (Suc n) u t b m"
proof -
  note r = parse_number_reads [OF assms(3,4,5,1,6)]
  have a: "after b t (advance (length u) b)" using assms(1) by (intro after_advance) simp_all
  have at: "at b (hd u # tl u @ t)" using assms(1) r(2) by (cases u) simp_all
  have c: "opens (hd u)" "hd u \<noteq> 34" "hd u \<noteq> 110" "hd u \<noteq> 102" "hd u \<noteq> 116"
    using r(3) by (auto simp: opens_def is_digit_def word_le_nat_alt word_less_nat_alt)
  show ?thesis unfolding read_back_def
    using value_by_first [OF at c(3-5)] c r a assms(2,7) by (simp del: parse_value.simps)
qed


lemma open_list_back:
  assumes b: "at b (l # ws @ h # r)" "blank ws" "32 < h" "h \<noteq> rb" "pdepth b < CJSON_NESTING_LIMIT" and m: "outcomes m = []"
    and el: "\<And>b' m w. at b' (w # h # r) \<Longrightarrow> pdepth b' = pdepth b + 1 \<Longrightarrow> outcomes m = [] \<Longrightarrow>
      \<exists>b'' m''. elements b' m = Some (True, xs, b'', m'') \<and> after b' (rb # t) b'' \<and> outcomes m'' = []"
  shows "\<exists>b' m'. open_list l rb ty elements item b m = Some (True, set_child xs (set_type ty item), b', m') \<and>
    after b t b' \<and> outcomes m' = []"
proof -
  let ?b = "b\<lparr>pdepth := pdepth b + 1\<rparr>"
  let ?s = "buffer_skip_whitespace (advance 1 ?b)"
  let ?e = "?s\<lparr>poffset := poffset ?s - 1\<rparr>"
  have s: "after ?b (h # r) ?s" using b by (intro after_token [of ?b l ws]) simp_all
  have o: "poffset ?s + length (h # r) = poffset b + length (l # ws @ h # r)"
    using after_offset [of ?b "l # ws @ h # r" "h # r" ?s] s b(1) by simp
  have c: "get8 (content b) (poffset b) = Some l" using get8_at [of "poffset b" "content b" l] b(1) by (simp add: at_def)
  have nx: "\<not> next_is ?s rb" using next_is_at [OF after_at(1) [OF s]] b(4) by simp
  have ac: "can_access_at_index ?s 0" using at_Cons(2) [OF after_at(1) [OF s]] by (simp add: can_access_at_index_def)
  have run: "open_list l rb ty elements item b m = close_list ty item (elements ?e m)"
    using b(5) c nx ac o by (simp add: open_list_def Let_def not_le)
  have "at ?e (content b ! poffset ?e # h # r)"
  proof -
    have "poffset ?e < length (content b)" "Suc (poffset ?e) = poffset ?s"
      using at_Cons(2) [OF after_at(1) [OF s]] after_at(3) [OF s] o by simp_all
    then show ?thesis using after_at(1,3) [OF s] Cons_nth_drop_Suc [of "poffset ?e" "content b"] by (simp add: at_def)
  qed
  from el [OF this _ m] after_at(2) [OF s] obtain b'' m'' where
    e: "elements ?e m = Some (True, xs, b'', m'')" "after ?e (rb # t) b''" "outcomes m'' = []" by auto
  have "after b t (advance 1 (b''\<lparr>pdepth := pdepth b'' - 1\<rparr>))"
    using at_advance [of b'' "[rb]" t 1] e(2) after_at(2,3) [OF s] by (auto simp: after_def at_def)
  with run e(1,3) show ?thesis by (simp add: close_list_def)
qed

lemma open_list_empty:
  assumes b: "at b (l # ws @ rb # t)" "blank ws" "32 < rb" "pdepth b < CJSON_NESTING_LIMIT"
  shows "\<exists>b'. open_list l rb ty elements item b m = Some (True, set_child [] (set_type ty item), b', m) \<and> after b t b'"
proof -
  let ?b = "b\<lparr>pdepth := pdepth b + 1\<rparr>"
  let ?s = "buffer_skip_whitespace (advance 1 ?b)"
  have s: "after ?b (rb # t) ?s" using b by (intro after_token [of ?b l ws]) simp_all
  have c: "get8 (content b) (poffset b) = Some l" using get8_at [of "poffset b" "content b" l] b(1) by (simp add: at_def)
  have "next_is ?s rb" using next_is_at [OF after_at(1) [OF s]] by simp
  moreover have "after b t (advance 1 (?s\<lparr>pdepth := pdepth ?s - 1\<rparr>))"
    using at_advance [of ?s "[rb]" t 1] after_at [OF s] by (simp add: after_def at_def)
  ultimately show ?thesis using b(4) c by (simp add: open_list_def Let_def not_le close_list_def)
qed


lemma container_back:
  assumes "\<And>item. \<exists>b' m'. parse_value n item b m = Some (True, set_child xs (set_type ty item), b', m') \<and>
      after b t b' \<and> outcomes m' = []"
    and "u \<noteq> []" "opens (hd u)" "\<forall>key. reread key x = JItem ty None 0 (Fin False 0) key xs"
  shows "read_back x n u t b m"
  unfolding read_back_def
proof (intro conjI allI)
  fix ty' key
  from assms(1) [of "JItem ty' None 0 (Fin False 0) key []"]
  show "\<exists>b' m'. parse_value n (JItem ty' None 0 (Fin False 0) key []) b m = Some (True, reread key x, b', m') \<and>
      after b t b' \<and> outcomes m' = []" using assms(4) by (simp del: parse_value.simps)
qed (use assms(2,3) in simp_all)

lemma array_back:
  assumes cs: "\<forall>c \<in> set cs. reads fmt c" "those (map (render fmt (d + 1)) cs) = Some us"
    and b: "at b (array_text fmt us @ t)" "\<forall>c \<in> set cs. pdepth b + 1 + json_levels c \<le> CJSON_NESTING_LIMIT"
      "pdepth b < CJSON_NESTING_LIMIT" and n: "2 * length (array_text fmt us @ t) + 2 \<le> Suc n" and m: "outcomes m = []"
    and x: "\<forall>key. reread key x = JItem cJSON_Array None 0 (Fin False 0) key (map (reread None) cs)"
  shows "read_back x (Suc n) (array_text fmt us) t b m"
proof -
  let ?ws = "if fmt then [32] else [] :: byte list"
  have txt': "array_text fmt us = 91 # join (44 # ?ws) us @ [93]" by (simp add: array_text_def)
  have at: "at b (91 # join (44 # ?ws) us @ 93 # t)" using b(1) by (simp add: txt')
  have v: "parse_value (Suc n) item b m = open_list 91 93 cJSON_Array (parse_elements n []) item b m" for item
    using value_by_first [OF at] by (simp add: is_digit_def del: parse_value.simps)
  have o: "\<exists>b' m'. open_list 91 93 cJSON_Array (parse_elements n []) item b m =
      Some (True, set_child (map (reread None) cs) (set_type cJSON_Array item), b', m') \<and> after b t b' \<and> outcomes m' = []" for item
  proof (cases "cs = []")
    case True
    then show ?thesis using open_list_empty [of b 91 "[]" 93 t] at cs(2) b(3) m by (fastforce simp: blank_def)
  next
    case False
    then obtain y ys z zs where y: "cs = y # ys" "us = z # zs" "render fmt (d + 1) y = Some z"
      using cs(2) by (cases cs) (auto simp: those_Cons simp del: those.simps)
    have rd: "reads fmt y" "json_levels y \<le> CJSON_NESTING_LIMIT" using cs(1) b(2) y(1) by auto
    from reads_text [OF rd(1) y(3) rd(2)] opens_range obtain h z' where h: "z = h # z'" "32 < h" "h \<noteq> 93"
      by (cases z) auto
    obtain r where r: "join (44 # ?ws) us @ 93 # t = h # r" using y(2) h(1) by (cases zs) auto
    have at1: "at b (91 # [] @ h # r)" using at r by simp
    show ?thesis
    proof (rule open_list_back [OF at1 _ h(2,3) b(3) m])
      fix b' w and m :: mem
      assume "at b' (w # h # r)" "pdepth b' = pdepth b + 1" "outcomes m = []"
      then show "\<exists>b'' m''. parse_elements n [] b' m = Some (True, map (reread None) cs, b'', m'') \<and>
          after b' (93 # t) b'' \<and> outcomes m'' = []"
        using elements_read [OF cs(1,2) False, of b' w "[]" ?ws t n m "[]"] b(2) n r by (simp add: blank_def txt')
    qed (simp add: blank_def)
  qed
  show ?thesis by (rule container_back [OF o [folded v] _ _ x]) (simp_all add: txt' opens_def)
qed


lemma object_back:
  assumes cs: "\<forall>c \<in> set cs. reads fmt c" "\<forall>c \<in> set cs. c_text (jstring c)"
      "those (map (\<lambda>x. map_option (member_text fmt (d + 1) (jstring x)) (render fmt (d + 1) x)) cs) = Some ms"
    and b: "at b (object_text fmt d ms @ t)" "\<forall>c \<in> set cs. pdepth b + 1 + json_levels c \<le> CJSON_NESTING_LIMIT"
      "pdepth b < CJSON_NESTING_LIMIT" and n: "2 * length (object_text fmt d ms @ t) + 2 \<le> Suc n" and m: "outcomes m = []"
    and x: "\<forall>key. reread key x = JItem cJSON_Object None 0 (Fin False 0) key (map (\<lambda>c. reread (Some (text_of (jstring c))) c) cs)"
  shows "read_back x (Suc n) (object_text fmt d ms) t b m"
proof -
  let ?xs = "map (\<lambda>c. reread (Some (text_of (jstring c))) c) cs" and ?P = "\<lambda>c :: byte. c \<le> 32"
  let ?nl = "if fmt then [10] else [] :: byte list" and ?tabs = "if fmt then replicate d 9 else [] :: byte list"
  let ?wt = "(if ms = [] then [] else ?nl) @ ?tabs"
  let ?J = "join (44 # ?nl) ms"
  have txt': "object_text fmt d ms = 123 # ?nl @ ?J @ ?wt @ [125]" by (simp add: object_text_def members_text_def Let_def)
  have at: "at b (123 # ?nl @ ?J @ ?wt @ 125 # t)" using b(1) by (simp add: txt')
  have bl: "blank ?nl" "blank ?wt" by (auto simp: blank_def)
  have v: "parse_value (Suc n) item b m = open_list 123 125 cJSON_Object (parse_members n []) item b m" for item
    using value_by_first [OF at] by (simp add: is_digit_def del: parse_value.simps)
  have o: "\<exists>b' m'. open_list 123 125 cJSON_Object (parse_members n []) item b m =
      Some (True, set_child ?xs (set_type cJSON_Object item), b', m') \<and> after b t b' \<and> outcomes m' = []" for item
  proof (cases "cs = []")
    case True
    then have "ms = []" using cs(3) by simp
    then have "at b (123 # (?nl @ ?tabs) @ 125 # t)" using at by simp
    then show ?thesis using open_list_empty [of b 123 "?nl @ ?tabs" 125 t] True b(3) m by (fastforce simp: blank_def)
  next
    case False
    then obtain z zs where z: "ms = z # zs" "\<exists>ws s v. blank ws \<and> z = ws @ quoted s @ v"
    proof -
      obtain y ys where "cs = y # ys" using False by (cases cs) auto
      then obtain u where "ms = member_text fmt (d + 1) (jstring y) u # tl ms"
        using cs(3) by (auto simp: those_Cons simp del: those.simps)
      moreover have "blank (if fmt then replicate (d + 1) 9 else [])" by (auto simp: blank_def)
      ultimately show thesis using that unfolding member_text_def by blast
    qed
    have "dropWhile ?P (join (44 # ?nl) (z # zs)) \<noteq> [] \<and> hd (dropWhile ?P (join (44 # ?nl) (z # zs))) = 34"
    proof -
      have "\<exists>v. join (44 # ?nl) (z # zs) = z @ v" by (cases zs) auto
      then obtain ws v where "join (44 # ?nl) (z # zs) = ws @ 34 # v" "\<forall>c \<in> set ws. c \<le> 32"
        using z(2) by (fastforce simp: quoted_def blank_def)
      then show ?thesis by (simp add: dropWhile_append)
    qed
    then obtain r where r: "dropWhile ?P ?J @ ?wt @ 125 # t = 34 # r" using z(1) by (cases "dropWhile ?P ?J") auto
    have J: "?nl @ ?J @ ?wt @ 125 # t = (?nl @ takeWhile ?P ?J) @ 34 # r"
      unfolding r [symmetric] using takeWhile_dropWhile_id [of ?P ?J] by (metis append.assoc)
    have at1: "at b (123 # (?nl @ takeWhile ?P ?J) @ 34 # r)" using at unfolding J .
    have bw: "blank (?nl @ takeWhile ?P ?J)" using bl(1) by (auto simp: blank_def dest: set_takeWhileD)
    have len: "length (34 # r) \<le> length (?nl @ ?J @ ?wt @ 125 # t)" unfolding J by simp
    show ?thesis
    proof (rule open_list_back [OF at1 bw _ _ b(3) m])
      fix b' w and m :: mem
      assume b': "at b' (w # 34 # r)" "pdepth b' = pdepth b + 1" and m': "outcomes m = []"
      have at2: "at b' (w # [] @ dropWhile ?P ?J @ ?wt @ 125 # t)" using b'(1) unfolding r by simp
      have lv: "\<forall>c \<in> set cs. pdepth b' + json_levels c \<le> CJSON_NESTING_LIMIT" using b(2) b'(2) by simp
      have fuel: "2 * length (w # [] @ dropWhile ?P ?J @ ?wt @ 125 # t) + 1 \<le> n"
        using n len unfolding r txt' by simp
      show "\<exists>b'' m''. parse_members n [] b' m = Some (True, ?xs, b'', m'') \<and> after b' (125 # t) b'' \<and> outcomes m'' = []"
        using members_read [OF cs(1,2) False cs(3) at2 _ bl lv fuel m', of "[]"] by (simp add: blank_def)
    qed simp_all
  qed
  show ?thesis by (rule container_back [OF o [folded v] _ _ x]) (simp_all add: txt' opens_def)
qed

lemma levels_le:
  "foldr max (map json_levels cs) 0 \<le> k \<Longrightarrow> c \<in> set cs \<Longrightarrow> json_levels c \<le> k"
  by (simp add: foldr_max_le)

lemma value_reads: "json_ok x \<Longrightarrow> rawless x \<Longrightarrow> reads fmt x"
proof (induction x)
  case (JItem tp vs vi vd s cs)
  let ?x = "JItem tp vs vi vd s cs" and ?ty = "tp AND 0xFF"
  have ok: "double_ok vd" "c_text vs" "\<forall>c \<in> set cs. json_ok c \<and> rawless c"
    using JItem.prems by (simp_all add: list_all_iff del: double_ok.simps)
  then have keys: "\<forall>c \<in> set cs. c_text (jstring c)" using json_ok_fields by blast
  have sub: "\<forall>c \<in> set cs. reads fmt c" using JItem.IH ok(3) by blast
  have "read_back ?x n u t b m"
    if u: "render fmt d ?x = Some u" and b: "at b (u @ t)" and t: "t \<noteq> []" "\<not> number_byte (hd t)"
      and lv: "pdepth b + json_levels ?x \<le> CJSON_NESTING_LIMIT" and n: "2 * length (u @ t) + 2 \<le> n" and m: "outcomes m = []"
    for d u t n b m
  proof -
    obtain k where k: "n = Suc k" using n by (cases n) auto
    have raw: "?ty \<noteq> cJSON_Raw" using JItem.prems(2) by simp
    consider (null) "?ty = cJSON_NULL \<or> ?ty = cJSON_Number \<and> nan_or_inf vd" | (false) "?ty = cJSON_False" | (true) "?ty = cJSON_True"
      | (num) "?ty = cJSON_Number" "\<not> nan_or_inf vd" | (string) "?ty = cJSON_String" | (arr) "?ty = cJSON_Array" | (obj) "?ty = cJSON_Object"
      using u raw by (auto simp: render.simps Let_def split: if_splits)
    then show ?thesis
    proof cases
      case null
      then have "u = str ''null''" "\<forall>key. reread key ?x = JItem cJSON_NULL None 0 (Fin False 0) key []"
        using u by (auto simp: render.simps reread.simps json_types number_text_def number_sprintf_def str_def Let_def)
      then show ?thesis using b m literal_back k by simp
    next
      case false
      then have "u = str ''false''" "\<forall>key. reread key ?x = JItem cJSON_False None 0 (Fin False 0) key []"
        using u by (auto simp: render.simps reread.simps json_types Let_def)
      then show ?thesis using b m literal_back k by simp
    next
      case true
      then have "u = str ''true''" "\<forall>key. reread key ?x = JItem cJSON_True None 1 (Fin False 0) key []"
        using u by (auto simp: render.simps reread.simps json_types Let_def)
      then show ?thesis using b m literal_back k by simp
    next
      case num
      then have "number_text vd = Some u"
        "\<forall>key. reread key ?x = JItem cJSON_Number None (saturate (text_number u)) (text_number u) key []"
        using u by (auto simp: render.simps reread.simps json_types Let_def)
      then show ?thesis using b m ok(1) num(2) t(2) k by (auto intro: number_back)
    next
      case string
      then have "u = quoted vs" "\<forall>key. reread key ?x = JItem cJSON_String (Some (text_of vs)) 0 (Fin False 0) key []"
        using u by (auto simp: render.simps reread.simps json_types Let_def)
      then show ?thesis using b m ok(2) k string_back by simp
    next
      case arr
      have r: "\<forall>key. reread key ?x = JItem cJSON_Array None 0 (Fin False 0) key (map (reread None) cs)"
        using arr by (simp add: reread.simps json_types)
      obtain us where us: "those (map (render fmt (d + 1)) cs) = Some us" "u = array_text fmt us"
        using u arr by (auto simp: render.simps json_types)
      have l: "pdepth b + Suc (foldr max (map json_levels cs) 0) \<le> CJSON_NESTING_LIMIT" using lv arr by simp
      then have "\<forall>c \<in> set cs. pdepth b + 1 + json_levels c \<le> CJSON_NESTING_LIMIT" "pdepth b < CJSON_NESTING_LIMIT"
        using levels_le [of cs "CJSON_NESTING_LIMIT - (pdepth b + 1)"] by fastforce+
      from array_back [OF sub us(1) _ this _ m r] b n us(2) k show ?thesis by simp
    next
      case obj
      have r: "\<forall>key. reread key ?x = JItem cJSON_Object None 0 (Fin False 0) key (map (\<lambda>c. reread (Some (text_of (jstring c))) c) cs)"
        using obj by (simp add: reread.simps json_types)
      obtain us where us: "those (map (\<lambda>x. map_option (member_text fmt (d + 1) (jstring x)) (render fmt (d + 1) x)) cs) = Some us"
          "u = object_text fmt d us"
        using u obj by (auto simp: render.simps json_types)
      have l: "pdepth b + Suc (foldr max (map json_levels cs) 0) \<le> CJSON_NESTING_LIMIT" using lv obj by simp
      then have "\<forall>c \<in> set cs. pdepth b + 1 + json_levels c \<le> CJSON_NESTING_LIMIT" "pdepth b < CJSON_NESTING_LIMIT"
        using levels_le [of cs "CJSON_NESTING_LIMIT - (pdepth b + 1)"] by fastforce+
      from object_back [OF sub keys us(1) _ this _ m r] b n us(2) k show ?thesis by simp
    qed
  qed
  then show ?case unfolding reads_def read_back_def by blast
qed


section \<open>Round trip\<close>

text \<open>
  Items the text shows in full, behind the key \<open>key\<close>: no flags in the type, only the fields the
  type uses, members with keys, and numbers that are integers of at most 15 digits.
\<close>

fun canonical :: "cstring option \<Rightarrow> cJSON \<Rightarrow> bool" where
  "canonical key (JItem t vs vi vd s cs) \<longleftrightarrow>
     s = key \<and>
     (if t = cJSON_Number then vs = None \<and> cs = [] \<and> vi = saturate vd \<and> (\<exists>n < 10 ^ 15. vd = double_of_nat n)
      else vi = (if t = cJSON_True then 1 else 0) \<and> vd = Fin False 0 \<and>
        (if t = cJSON_String then vs \<noteq> None \<and> cs = []
         else vs = None \<and>
           (t = cJSON_Array \<and> list_all (canonical None) cs \<or>
            t = cJSON_Object \<and> list_all (\<lambda>c. jstring c \<noteq> None \<and> canonical (jstring c) c) cs \<or>
            t \<in> {cJSON_NULL, cJSON_False, cJSON_True} \<and> cs = [])))"

lemma number_text_int:
  assumes "n < 10 ^ 15"
  shows "number_text (double_of_nat n) = Some (show_nat n)" "text_number (show_nat n) = double_of_nat n"
proof -
  have n: "n < 2 ^ 53" using assms by simp
  have f: "format_g 15 (double_of_nat n) = show_nat n" using assms n by (intro format_g_int) auto
  have s: "strtod (show_nat n) = (double_of_nat n, length (show_nat n))"
    using strtod_nat [OF n, of "[]"] by (simp add: number_end_def)
  have fin: "\<not> nan_or_inf (double_of_nat n)" using double_of_nat_exact [OF n] by (simp add: nan_or_inf_def)
  have "length (show_nat n) \<le> 15" using assms by (intro show_nat_length) auto
  then show "number_text (double_of_nat n) = Some (show_nat n)"
    using f s fin compare_double_refl [OF fin] by (simp add: number_text_def number_sprintf_def)
  show "text_number (show_nat n) = double_of_nat n" using s by (simp add: text_number_def)
qed

lemma reread_canonical: "canonical key x \<Longrightarrow> reread key x = x"
proof (induction x arbitrary: key)
  case (JItem t vs vi vd s cs)
  let ?t = "t AND 0xFF"
  have t: "t \<in> {cJSON_Number, cJSON_String, cJSON_Array, cJSON_Object, cJSON_NULL, cJSON_False, cJSON_True}"
    using JItem.prems by (auto split: if_splits)
  then have ty: "?t = t" by (auto simp: json_types)
  consider (num) n where "t = cJSON_Number" "n < 10 ^ 15" "vd = double_of_nat n" | (str) v where "t = cJSON_String" "vs = Some v"
    | (arr) "t = cJSON_Array" | (obj) "t = cJSON_Object" | (lit) "t \<in> {cJSON_NULL, cJSON_False, cJSON_True}"
    using JItem.prems t by (auto split: if_splits)
  then show ?case
  proof cases
    case num
    have "\<not> nan_or_inf vd" using num(2,3) double_of_nat_exact [of n] by (simp add: nan_or_inf_def)
    with num JItem.prems ty number_text_int [OF num(2)] show ?thesis by (simp add: reread.simps json_types Let_def)
  next
    case str
    with JItem.prems ty show ?thesis by (auto simp: reread.simps json_types text_of_def)
  next
    case arr
    then have "\<forall>c \<in> set cs. reread None c = c" using JItem by (auto simp: list_all_iff json_types)
    then have "map (reread None) cs = cs" by (simp add: map_idI)
    with arr JItem.prems ty show ?thesis by (simp add: reread.simps json_types)
  next
    case obj
    then have "\<forall>c \<in> set cs. reread (Some (text_of (jstring c))) c = c"
      using JItem by (auto simp: list_all_iff json_types text_of_def)
    then have "map (\<lambda>c. reread (Some (text_of (jstring c))) c) cs = cs" by (simp add: map_idI)
    with obj JItem.prems ty show ?thesis by (simp add: reread.simps json_types)
  next
    case lit
    with JItem.prems ty show ?thesis by (auto simp: reread.simps json_types)
  qed
qed

lemma skip_last:
  assumes "at b [0]"
  shows "buffer_skip_whitespace b = b"
proof -
  have "skip_loop (content b) (poffset b) = poffset b + length [0 :: byte]"
    using assms by (intro skip_loop_over [of _ _ _ "[]"]) (auto simp: at_def)
  with at_length [OF assms] show ?thesis by (simp add: buffer_skip_whitespace_def)
qed

lemma parse_render:
  assumes "json_ok x" "rawless x" "json_levels x \<le> CJSON_NESTING_LIMIT" "render fmt 0 x = Some u" "outcomes m = []"
  shows "\<exists>m'. cJSON_ParseWithOpts (Some u) True m = Some (Some (reread None x), length u, m')"
proof -
  let ?b = "\<lparr>content = u @ [0], poffset = 0, pdepth = 0\<rparr>"
  have at: "at ?b (u @ [0])" by (simp add: at_def)
  have rd: "reads fmt x" using value_reads assms(1,2) .
  from reads_text [OF rd assms(4,3)] opens_range obtain h r where h: "u = h # r" "32 < h" "h < 127" by (cases u) auto
  have "text_at ?b = h # takeWhile (\<lambda>c. c \<noteq> 0) (r @ [0])" using h by (auto simp: text_at_def)
  moreover have "uint h < 127" using h(3) by (simp add: word_less_def)
  ultimately have bom: "skip_utf8_bom ?b = Some ?b"
    by (auto simp: skip_utf8_bom_def word_uint_eq_iff numeral_3_eq_3)
  have skip: "buffer_skip_whitespace ?b = ?b" using skip_at [of ?b "[]" h "r @ [0]"] at h by (simp add: advance_def)
  obtain m1 where m1: "cJSON_New_Item m = (Some (JItem 0 None 0 (Fin False 0) None []), m1)" "outcomes m1 = []"
    using new_item_plenty [OF assms(5)] by blast
  have nb: "\<not> number_byte 0" by (simp add: number_byte_def is_digit_def)
  have lv: "pdepth ?b + json_levels x \<le> CJSON_NESTING_LIMIT" using assms(3) by simp
  have fuel: "2 * length (u @ [0]) + 2 \<le> parse_fuel (u @ [0])" by (simp add: parse_fuel_def)
  obtain b' m' where
    v: "parse_value (parse_fuel (u @ [0])) (JItem 0 None 0 (Fin False 0) None []) ?b m1 = Some (True, reread None x, b', m')"
      "after ?b [0] b'" by (rule readsD [OF rd assms(4) at nb lv fuel m1(2), of 0 None])
  have b': "buffer_skip_whitespace b' = b'" "poffset b' = length u" "content b' = u @ [0]"
    using skip_last [OF after_at(1) [OF v(2)]] after_offset [OF at v(2)] after_at(3) [OF v(2)] by simp_all
  have "get8 (u @ [0]) (length u) = Some 0" by (simp add: get8_def)
  then show ?thesis using m1(1) bom skip v(1) b' by (simp add: cJSON_ParseWithOpts_def Let_def)
qed

text \<open>
  C9. Print and parse: what the printer returns for an item without raw text, nested at most
  \<open>CJSON_NESTING_LIMIT\<close> deep, formatted or not, is a C string that the parser, with memory, reads to
  its end into the item the text denotes (\<open>reread\<close>: flags dropped, an absent text read as the empty
  one, NaN and infinities read as null, a number as the double its digits denote). For an item of
  plain types whose numbers are non-negative integers of at most 15 digits that is the item itself.
\<close>

theorem print_parse_roundtrip:
  assumes "json_ok x" "rawless x" "json_levels x \<le> CJSON_NESTING_LIMIT"
    and "cjson_print (Some x) fmt hooks_reallocate m = Some (Some cells, m1)" and "outcomes m2 = []"
  shows "\<exists>s m'. cells = map Some (s @ [0]) \<and> 0 \<notin> set s \<and>
           cJSON_ParseWithOpts (Some s) True m2 = Some (Some (reread None x), length s, m') \<and>
           (canonical None x \<longrightarrow> reread None x = x)"
proof -
  from cjson_print_text [OF assms(1), of fmt hooks_reallocate m] assms(4) obtain s where
    s: "render fmt 0 x = Some s" "cells = map Some (s @ [0])" by auto
  with parse_render [OF assms(1-3) s(1) assms(5)] render_nul_free [OF assms(1) s(1)] reread_canonical show ?thesis
    by blast
qed


theorem print_parse_roundtrip_witness:
  "\<exists>cells m1 s m'. cjson_print (Some demo_item) True True \<lparr>outcomes = [], live = 0\<rparr> = Some (Some cells, m1) \<and>
     cells = map Some (s @ [0]) \<and>
     cJSON_ParseWithOpts (Some s) True \<lparr>outcomes = [], live = 0\<rparr> = Some (Some demo_item, length s, m')"
proof -
  let ?m = "\<lparr>outcomes = [], live = 0\<rparr> :: mem"
  have five: "Fin False (5 * UNITS) = double_of_nat 5" by (simp add: double_of_nat_exact)
  have "double_ok (Fin False (5 * UNITS))" unfolding five by (rule double_of_nat_ok)
  then have ok: "json_ok demo_item"
    using double_of_nat_ok [of 0] by (simp add: demo_item_def str_def double_of_nat_exact del: double_ok.simps)
  have other: "rawless demo_item" "json_levels demo_item \<le> CJSON_NESTING_LIMIT"
    by (simp_all add: demo_item_def json_types CJSON_NESTING_LIMIT_def)
  have "saturate (double_of_nat 5) = 5"
    by (simp add: saturate_def double_ge_def double_le_def double_to_int_def double_of_nat_exact units_of_def)
  moreover have "\<exists>n < 10 ^ 15. double_of_nat 5 = double_of_nat n" by (rule exI [of _ 5]) simp
  ultimately have can: "canonical None demo_item" unfolding demo_item_def five by (simp add: json_types)
  have "\<exists>t. render True 0 demo_item = Some t \<and> length t + 2 \<le> 2147483647"
    unfolding demo_item_def five using show_nat_length [of 1 5]
    by (simp add: render.simps json_types number_text_int object_text_def members_text_def member_text_def
        quoted_def escape_byte_def short_escape_def str_def)
  with cjson_print_text [OF ok, of True True ?m] obtain cells m1 where
    p: "cjson_print (Some demo_item) True True ?m = Some (Some cells, m1)" by auto
  from print_parse_roundtrip [OF ok other p, of ?m] can p show ?thesis by auto
qed

end
