(* ===== verification/Json_Minify.thy ===== *)
theory Json_Minify
  imports Json_Roundtrip
begin

text \<open>
  The minifier of \<open>src/cJSON.c\<close>. It works in place: \<open>i\<close> is the position it reads, \<open>j\<close> the position it
  writes, both in the same buffer; every access is checked, and \<open>None\<close> out of bounds. The theorem says
  that it stays in the buffer and ends for every text, that it leaves the text without whitespace and comments outside
  strings where it finds the ends of the strings, and that it turns the formatted text of an item into the unformatted one.
\<close>

section \<open>Minifying in place\<close>

definition put_at :: "nat \<Rightarrow> byte \<Rightarrow> byte list \<Rightarrow> byte list option" where
  "put_at j c bs = (if j < length bs then Some (bs[j := c]) else None)"

function skip_line :: "byte list \<Rightarrow> nat \<Rightarrow> nat option" where
  "skip_line bs i =
     (case get8 bs i of
        None \<Rightarrow> None
      | Some c \<Rightarrow> if c = 0 then Some i else if c = 10 then Some (i + 1) else skip_line bs (i + 1))"
  by pat_completeness auto
termination
  by (relation "measure (\<lambda>(bs, i). length bs - i)") (auto simp: get8_def split: if_splits)

definition skip_oneline_comment :: "byte list \<Rightarrow> nat \<Rightarrow> nat option" where
  "skip_oneline_comment bs i = skip_line bs (i + 2)"

function skip_block :: "byte list \<Rightarrow> nat \<Rightarrow> nat option" where
  "skip_block bs i =
     (case get8 bs i of
        None \<Rightarrow> None
      | Some c \<Rightarrow>
          if c = 0 then Some i
          else if c = 42 then
            (case get8 bs (i + 1) of
               None \<Rightarrow> None
             | Some d \<Rightarrow> if d = 47 then Some (i + 2) else skip_block bs (i + 1))
          else skip_block bs (i + 1))"
  by pat_completeness auto
termination
  by (relation "measure (\<lambda>(bs, i). length bs - i)") (auto simp: get8_def split: if_splits)

definition skip_multiline_comment :: "byte list \<Rightarrow> nat \<Rightarrow> nat option" where
  "skip_multiline_comment bs i = skip_block bs (i + 2)"

text \<open>The loop of \<open>minify_string\<close>: the buffer and both positions behind the string.\<close>

function copy_string :: "byte list \<Rightarrow> nat \<Rightarrow> nat \<Rightarrow> (byte list \<times> nat \<times> nat) option" where
  "copy_string bs i j =
     (case get8 bs i of
        None \<Rightarrow> None
      | Some c \<Rightarrow>
          if c = 0 then Some (bs, i, j)
          else
            (case put_at j c bs of
               None \<Rightarrow> None
             | Some bs' \<Rightarrow>
                 if c = 34 then Some (bs', i + 1, j + 1)
                 else if c = 92 then
                   (case get8 bs' (i + 1) of
                      None \<Rightarrow> None
                    | Some d \<Rightarrow>
                        if d = 34 then
                          (case put_at (j + 1) d bs' of
                             None \<Rightarrow> None
                           | Some bs'' \<Rightarrow> copy_string bs'' (i + 2) (j + 2))
                        else copy_string bs' (i + 1) (j + 1))
                 else copy_string bs' (i + 1) (j + 1)))"
  by pat_completeness auto
termination
  by (relation "measure (\<lambda>(bs, i, j). length bs - i)") (auto simp: get8_def put_at_def split: if_splits)

definition minify_string :: "byte list \<Rightarrow> nat \<Rightarrow> nat \<Rightarrow> (byte list \<times> nat \<times> nat) option" where
  "minify_string bs i j =
     (case get8 bs i of
        None \<Rightarrow> None
      | Some c \<Rightarrow>
          (case put_at j c bs of
             None \<Rightarrow> None
           | Some bs' \<Rightarrow> copy_string bs' (i + 1) (j + 1)))"

declare skip_line.simps [simp del] skip_block.simps [simp del] copy_string.simps [simp del]

lemma put_at_length: "put_at j c bs = Some bs' \<Longrightarrow> length bs' = length bs"
  by (auto simp: put_at_def split: if_splits)

lemma copy_string_moves:
  "copy_string bs i j = Some (bs', i', j') \<Longrightarrow> i \<le> i' \<and> length bs' = length bs"
proof (induction bs i j arbitrary: bs' i' j' rule: copy_string.induct)
  case (1 bs i j)
  note IH = "1.IH"
  obtain c where c: "get8 bs i = Some c" using "1.prems" by (subst (asm) copy_string.simps) (auto split: option.splits)
  show ?case
  proof (cases "c = 0")
    case True
    with "1.prems" c show ?thesis by (subst (asm) copy_string.simps) simp
  next
    case c0: False
    obtain b1 where b1: "put_at j c bs = Some b1" using "1.prems" c c0 by (subst (asm) copy_string.simps) (auto split: option.splits)
    note step = "1.prems" [unfolded copy_string.simps [of bs i j] c option.case b1 if_not_P [OF c0]]
    consider "c = 34" | (esc) "c = 92" "get8 b1 (i + 1) = Some 34"
      | (slash) d where "c = 92" "get8 b1 (i + 1) = Some d" "d \<noteq> 34" "copy_string b1 (i + 1) (j + 1) = Some (bs', i', j')"
      | (plain) "c \<noteq> 34" "c \<noteq> 92" "copy_string b1 (i + 1) (j + 1) = Some (bs', i', j')"
      using step by (auto split: option.splits if_splits)
    then show ?thesis
    proof cases
      case 1
      with step put_at_length [OF b1] show ?thesis by auto
    next
      case esc
      then obtain b2 where b2: "put_at (j + 1) 34 b1 = Some b2" "copy_string b2 (i + 2) (j + 2) = Some (bs', i', j')"
        using step by (auto split: option.splits)
      from IH(1) [OF c c0 b1 _ esc(1,2) refl b2] esc(1) put_at_length [OF b1] put_at_length [OF b2(1)] show ?thesis by simp
    next
      case slash
      have "c \<noteq> 34" using slash(1) by simp
      from IH(2) [OF c c0 b1 this slash] put_at_length [OF b1] show ?thesis by simp
    next
      case plain
      from IH(3) [OF c c0 b1 plain] put_at_length [OF b1] show ?thesis by simp
    qed
  qed
qed

lemma skip_moves:
  "skip_line bs i = Some k \<Longrightarrow> i \<le> k" "skip_block bs i = Some k \<Longrightarrow> i \<le> k"
proof -
  show "skip_line bs i = Some k \<Longrightarrow> i \<le> k"
  proof (induction bs i rule: skip_line.induct)
    case (1 bs i)
    from "1.prems" show ?case
      by (subst (asm) skip_line.simps) (auto split: option.splits if_splits dest!: "1.IH")
  qed
  show "skip_block bs i = Some k \<Longrightarrow> i \<le> k"
  proof (induction bs i rule: skip_block.induct)
    case (1 bs i)
    obtain c where c: "get8 bs i = Some c" using "1.prems" by (subst (asm) skip_block.simps) (auto split: option.splits)
    show ?case
    proof (cases "c = 42")
      case True
      with "1.prems" [unfolded skip_block.simps [of bs i]] "1.IH"(1) [OF c] c show ?thesis
        by (auto split: option.splits if_splits)
    next
      case False
      with "1.prems" [unfolded skip_block.simps [of bs i]] "1.IH"(2) [OF c] c show ?thesis
        by (auto split: if_splits)
    qed
  qed
qed

function minify_loop :: "byte list \<Rightarrow> nat \<Rightarrow> nat \<Rightarrow> byte list option" where
  "minify_loop bs i j =
     (case get8 bs i of
        None \<Rightarrow> None
      | Some c \<Rightarrow>
          if c = 0 then put_at j 0 bs
          else if c = 32 \<or> c = 9 \<or> c = 13 \<or> c = 10 then minify_loop bs (i + 1) j
          else if c = 47 then
            (case get8 bs (i + 1) of
               None \<Rightarrow> None
             | Some d \<Rightarrow>
                 if d = 47 then (case skip_oneline_comment bs i of None \<Rightarrow> None | Some k \<Rightarrow> minify_loop bs k j)
                 else if d = 42 then (case skip_multiline_comment bs i of None \<Rightarrow> None | Some k \<Rightarrow> minify_loop bs k j)
                 else minify_loop bs (i + 1) j)
          else if c = 34 then
            (case minify_string bs i j of None \<Rightarrow> None | Some (bs', i', j') \<Rightarrow> minify_loop bs' i' j')
          else (case put_at j c bs of None \<Rightarrow> None | Some bs' \<Rightarrow> minify_loop bs' (i + 1) (j + 1)))"
  by pat_completeness auto
termination
  by (relation "measure (\<lambda>(bs, i, j). length bs - i)")
    (auto simp: get8_def skip_oneline_comment_def skip_multiline_comment_def minify_string_def
      split: if_splits option.splits dest!: put_at_length skip_moves copy_string_moves)

declare minify_loop.simps [simp del]

definition cJSON_Minify :: "byte list option \<Rightarrow> byte list option option" where
  "cJSON_Minify json =
     (case json of None \<Rightarrow> Some None | Some bs \<Rightarrow> map_option Some (minify_loop bs 0 0))"

section \<open>What the loop does to a text\<close>

fun after_line :: "byte list \<Rightarrow> byte list" where
  "after_line [] = []"
| "after_line (c # cs) = (if c = 10 then cs else after_line cs)"

fun after_block :: "byte list \<Rightarrow> byte list" where
  "after_block [] = []"
| "after_block (c # cs) = (if c = 42 \<and> cs \<noteq> [] \<and> hd cs = 47 then tl cs else after_block cs)"

text \<open>A string behind its opening quote, as the minifier delimits it, and the text behind it.\<close>

function string_text :: "byte list \<Rightarrow> byte list \<times> byte list" where
  "string_text [] = ([], [])"
| "string_text (c # cs) =
     (if c = 34 then ([34], cs)
      else if c = 92 \<and> cs \<noteq> [] \<and> hd cs = 34 then (let (u, r) = string_text (tl cs) in (92 # 34 # u, r))
      else (let (u, r) = string_text cs in (c # u, r)))"
  by pat_completeness auto
termination
  by (relation "measure length") auto

lemma rest_shorter [simp]:
  "length (after_line cs) \<le> length cs" "length (after_block cs) \<le> length cs" "length (snd (string_text cs)) \<le> length cs"
proof -
  show "length (after_line cs) \<le> length cs" by (induction cs) auto
  show "length (after_block cs) \<le> length cs" by (induction cs) auto
  show "length (snd (string_text cs)) \<le> length cs"
    by (induction cs rule: string_text.induct) (auto simp: split_beta Let_def)
qed

lemma rest_subset:
  "set (after_line cs) \<subseteq> set cs" "set (after_block cs) \<subseteq> set cs" "set (snd (string_text cs)) \<subseteq> set cs"
proof -
  show "set (after_line cs) \<subseteq> set cs" by (induction cs) auto
  show "set (after_block cs) \<subseteq> set cs" by (induction cs) (auto dest: list.set_sel(2) [rotated])
  show "set (snd (string_text cs)) \<subseteq> set cs"
    by (induction cs rule: string_text.induct) (auto simp: split_beta Let_def dest: list.set_sel(2) [rotated])
qed

function minify_text :: "byte list \<Rightarrow> byte list" where
  "minify_text [] = []"
| "minify_text (c # cs) =
     (if c = 32 \<or> c = 9 \<or> c = 13 \<or> c = 10 then minify_text cs
      else if c = 47 then
        (if cs \<noteq> [] \<and> hd cs = 47 then minify_text (after_line (tl cs))
         else if cs \<noteq> [] \<and> hd cs = 42 then minify_text (after_block (tl cs))
         else minify_text cs)
      else if c = 34 then 34 # fst (string_text cs) @ minify_text (snd (string_text cs))
      else c # minify_text cs)"
  by pat_completeness auto
termination
  by (relation "measure length") (auto simp: le_imp_less_Suc intro: le_less_trans [OF rest_shorter(1)] le_less_trans [OF rest_shorter(2)])

declare minify_text.simps [simp del]

section \<open>Reference\<close>

text \<open>
  A string of JSON behind its opening quote, in which a backslash escapes whatever byte follows, and the text behind it.
  \<open>strip_text\<close> drops whitespace and comments outside such strings and keeps every other byte.
\<close>

function lit_text :: "byte list \<Rightarrow> byte list \<times> byte list" where
  "lit_text [] = ([], [])"
| "lit_text (c # cs) =
     (if c = 34 then ([34], cs)
      else if c = 92 \<and> cs \<noteq> [] then (let (u, r) = lit_text (tl cs) in (92 # hd cs # u, r))
      else (let (u, r) = lit_text cs in (c # u, r)))"
  by pat_completeness auto
termination
  by (relation "measure length") auto

lemma lit_shorter [simp]: "length (snd (lit_text cs)) \<le> length cs"
  by (induction cs rule: lit_text.induct) (auto simp: split_beta Let_def)

function strip_text :: "byte list \<Rightarrow> byte list" where
  "strip_text [] = []"
| "strip_text (c # cs) =
     (if c = 32 \<or> c = 9 \<or> c = 13 \<or> c = 10 then strip_text cs
      else if c = 47 \<and> cs \<noteq> [] \<and> hd cs = 47 then strip_text (after_line (tl cs))
      else if c = 47 \<and> cs \<noteq> [] \<and> hd cs = 42 then strip_text (after_block (tl cs))
      else if c = 34 then 34 # fst (lit_text cs) @ strip_text (snd (lit_text cs))
      else c # strip_text cs)"
  by pat_completeness auto
termination
  by (relation "measure length") (auto simp: le_imp_less_Suc intro: le_less_trans [OF rest_shorter(1)] le_less_trans [OF rest_shorter(2)])

declare strip_text.simps [simp del]

text \<open>
  The texts on which the minifier finds the ends of the strings: no string has an escaped backslash in front of a quote,
  and there is no slash outside strings and comments.
\<close>

function closes_plain :: "byte list \<Rightarrow> bool" where
  "closes_plain [] = True"
| "closes_plain (c # cs) =
     (if c = 34 then True
      else if c = 92 \<and> cs \<noteq> [] then \<not> (hd cs = 92 \<and> tl cs \<noteq> [] \<and> hd (tl cs) = 34) \<and> closes_plain (tl cs)
      else closes_plain cs)"
  by pat_completeness auto
termination
  by (relation "measure length") auto

function in_step :: "byte list \<Rightarrow> bool" where
  "in_step [] = True"
| "in_step (c # cs) =
     (if c = 47 then
        (if cs \<noteq> [] \<and> hd cs = 47 then in_step (after_line (tl cs))
         else if cs \<noteq> [] \<and> hd cs = 42 then in_step (after_block (tl cs))
         else False)
      else if c = 34 then closes_plain cs \<and> in_step (snd (lit_text cs))
      else in_step cs)"
  by pat_completeness auto
termination
  by (relation "measure length") (auto simp: le_imp_less_Suc intro: le_less_trans [OF rest_shorter(1)] le_less_trans [OF rest_shorter(2)])

declare in_step.simps [simp del]

lemma string_text_lit: "closes_plain cs \<Longrightarrow> string_text cs = lit_text cs"
proof (induction cs rule: closes_plain.induct)
  case (2 c cs)
  show ?case
  proof (cases "c = 92 \<and> cs \<noteq> []")
    case True
    then obtain d ds where cs: "cs = d # ds" by (cases cs) auto
    have IH: "string_text ds = lit_text ds" using "2.IH"(1) "2.prems" True cs by auto
    have "\<not> (d = 92 \<and> ds \<noteq> [] \<and> hd ds = 34)" using "2.prems" True cs by auto
    then have "string_text cs = (let (u, r) = string_text ds in (d # u, r))" if "d \<noteq> 34"
      using that cs by auto
    with IH True cs show ?thesis by (auto simp: split_beta Let_def)
  qed (use 2 in \<open>auto simp: split_beta Let_def\<close>)
qed simp

lemma minify_is_strip: "in_step t \<Longrightarrow> minify_text t = strip_text t"
proof (induction t rule: in_step.induct)
  case (2 c cs)
  then show ?case
    by (auto simp: minify_text.simps strip_text.simps in_step.simps string_text_lit split: if_splits)
qed (simp add: minify_text.simps strip_text.simps)

lemma minify_bytes: "set (minify_text t) \<subseteq> set t"
proof (induction t rule: minify_text.induct)
  case (2 c cs)
  have fs: "set (fst (string_text ds)) \<subseteq> set ds" for ds
    by (induction ds rule: string_text.induct)
      (auto simp: split_beta Let_def dest: list.set_sel(2) [rotated], metis list.set_sel(1))
  have "set (tl cs) \<subseteq> set cs" by (cases cs) auto
  with 2 fs [of cs] rest_subset [of cs] rest_subset [of "tl cs"] show ?case
    by (subst minify_text.simps) (force split: if_splits)
qed (simp add: minify_text.simps)

section \<open>The minifier in the buffer\<close>

text \<open>Both positions: \<open>out\<close> is written in front of \<open>j\<close>, \<open>rest\<close> is to be read from \<open>i\<close> on.\<close>

definition at_cells :: "byte list \<Rightarrow> nat \<Rightarrow> nat \<Rightarrow> byte list \<Rightarrow> byte list \<Rightarrow> bool" where
  "at_cells bs i j out rest \<longleftrightarrow> j \<le> i \<and> i \<le> length bs \<and> take j bs = out \<and> drop i bs = rest"

lemma cells_get: "at_cells bs i j out (c # rest) \<Longrightarrow> get8 bs i = Some c"
  by (auto simp: at_cells_def intro: get8_at)

lemma cells_length: "at_cells bs i j out rest \<Longrightarrow> length out = j"
  by (auto simp: at_cells_def)

lemma cells_skip: "at_cells bs i j out (c # rest) \<Longrightarrow> at_cells bs (i + 1) j out rest"
  using drop_tail [of i bs "[c]" rest] by (auto simp: at_cells_def) (metis Suc_leI drop_all list.discI not_le)

lemma cells_put:
  assumes "at_cells bs i j out (c # rest)"
  obtains bs' where "put_at j d bs = Some bs'" "at_cells bs' (i + 1) (j + 1) (out @ [d]) rest" "length bs' = length bs"
proof -
  have i: "i < length bs" using assms by (auto simp: at_cells_def not_le [symmetric])
  then have "put_at j d bs = Some (bs[j := d])" using assms by (auto simp: at_cells_def put_at_def)
  moreover have "at_cells (bs[j := d]) (i + 1) (j + 1) (out @ [d]) rest"
    using cells_skip [OF assms] assms i by (auto simp: at_cells_def take_Suc_conv_app_nth take_update_swap list_update_append min_def)
  ultimately show thesis using that by simp
qed

lemma skip_line_reads:
  assumes "at_cells bs i j out (cs @ 0 # z)" "0 \<notin> set cs"
  shows "\<exists>k. skip_line bs i = Some k \<and> at_cells bs k j out (after_line cs @ 0 # z)"
  using assms
proof (induction cs arbitrary: i)
  case Nil
  then show ?case using cells_get [of bs i j out 0 z] by (subst skip_line.simps) simp
next
  case (Cons c cs)
  have a: "at_cells bs i j out (c # cs @ 0 # z)" using Cons.prems(1) by simp
  from Cons.IH [OF cells_skip [OF a]] Cons.prems(2) cells_get [OF a] cells_skip [OF a] show ?case
    by (subst skip_line.simps) auto
qed

lemma skip_block_reads:
  assumes "at_cells bs i j out (cs @ 0 # z)" "0 \<notin> set cs"
  shows "\<exists>k. skip_block bs i = Some k \<and> at_cells bs k j out (after_block cs @ 0 # z)"
  using assms
proof (induction cs arbitrary: i)
  case Nil
  then show ?case using cells_get [of bs i j out 0 z] by (subst skip_block.simps) simp
next
  case (Cons c cs)
  have a: "at_cells bs i j out (c # cs @ 0 # z)" using Cons.prems(1) by simp
  note a1 = cells_skip [OF a]
  have g: "get8 bs (i + 1) = Some (if cs = [] then 0 else hd cs)" using a1 cells_get [of bs "i + 1"] by (cases cs) auto
  have a2: "at_cells bs (i + 2) j out (tl cs @ 0 # z)" if "cs \<noteq> []" using a1 that cells_skip [of bs "i + 1"] by (cases cs) auto
  from Cons.IH [OF a1] Cons.prems(2) cells_get [OF a] g a2 show ?case
    by (subst skip_block.simps) auto
qed

lemma copy_string_reads:
  assumes "at_cells bs i j out (cs @ 0 # z)" "0 \<notin> set cs" "string_text cs = (u, r)"
  shows "\<exists>bs' i'. copy_string bs i j = Some (bs', i', j + length u) \<and> at_cells bs' i' (j + length u) (out @ u) (r @ 0 # z) \<and>
    length bs' = length bs"
  using assms
proof (induction cs arbitrary: bs i j out u rule: string_text.induct)
  case 1
  then show ?case using cells_get [of bs i j out 0 z] by (subst copy_string.simps) simp
next
  case (2 c cs)
  have a: "at_cells bs i j out (c # cs @ 0 # z)" using "2.prems"(1) by simp
  obtain b1 where b1: "put_at j c bs = Some b1" "at_cells b1 (i + 1) (j + 1) (out @ [c]) (cs @ 0 # z)" "length b1 = length bs"
    using cells_put [OF a] .
  have c0: "c \<noteq> 0" "0 \<notin> set cs" using "2.prems"(2) by auto
  have g: "get8 b1 (i + 1) = Some (if cs = [] then 0 else hd cs)" using b1(2) cells_get [of b1 "i + 1"] by (cases cs) auto
  consider "c = 34" | (esc) ds where "c = 92" "cs = 34 # ds" | (plain) "c \<noteq> 34" "\<not> (c = 92 \<and> cs \<noteq> [] \<and> hd cs = 34)"
    by (cases cs) auto
  then show ?case
  proof cases
    case 1
    then show ?thesis using "2.prems"(3) cells_get [OF a] b1 by (subst copy_string.simps) auto
  next
    case esc
    obtain u' where u': "string_text ds = (u', r)" "u = 92 # 34 # u'" using "2.prems"(3) esc by (cases "string_text ds") auto
    have b1': "at_cells b1 (i + 1) (j + 1) (out @ [c]) (34 # ds @ 0 # z)" using b1(2) esc(2) by simp
    obtain b2 where b2: "put_at (j + 1) 34 b1 = Some b2" "at_cells b2 (i + 2) (j + 2) (out @ [92, 34]) (ds @ 0 # z)" "length b2 = length b1"
      using cells_put [OF b1', of 34] esc(1) by auto
    from "2.IH"(1) [of b2 "i + 2" "j + 2" "out @ [92, 34]" u'] esc b2(2) c0(2) u'(1)
    have "\<exists>bs' i'. copy_string b2 (i + 2) (j + 2) = Some (bs', i', j + 2 + length u') \<and>
        at_cells bs' i' (j + 2 + length u') (out @ [92, 34] @ u') (r @ 0 # z) \<and> length bs' = length b2" by auto
    then show ?thesis using cells_get [OF a] b1 b2(1,3) esc g c0(1) u'(2)
      by (subst copy_string.simps) auto
  next
    case plain
    obtain u' where u': "string_text cs = (u', r)" "u = c # u'" using "2.prems"(3) plain by (cases "string_text cs") (auto split: if_splits)
    from "2.IH"(2) [OF plain b1(2) c0(2) u'(1)]
    have "\<exists>bs' i'. copy_string b1 (i + 1) (j + 1) = Some (bs', i', j + 1 + length u') \<and>
        at_cells bs' i' (j + 1 + length u') (out @ c # u') (r @ 0 # z) \<and> length bs' = length b1" by simp
    then show ?thesis using cells_get [OF a] b1 plain g c0(1) u'(2)
      by (subst copy_string.simps) auto
  qed
qed

lemma minify_loop_reads:
  assumes "at_cells bs i j out (t @ 0 # z)" "0 \<notin> set t"
  shows "\<exists>bs'. minify_loop bs i j = Some bs' \<and> length bs' = length bs \<and>
    take (length (out @ minify_text t) + 1) bs' = out @ minify_text t @ [0]"
  using assms
proof (induction t arbitrary: bs i j out rule: minify_text.induct)
  case 1
  then have a: "at_cells bs i j out (0 # z)" by simp
  obtain b1 where "put_at j 0 bs = Some b1" "at_cells b1 (i + 1) (j + 1) (out @ [0]) z" "length b1 = length bs" using cells_put [OF a] .
  then show ?case using cells_get [OF a] cells_length [OF a]
    by (subst minify_loop.simps) (auto simp: at_cells_def minify_text.simps)
next
  case (2 c cs)
  have a: "at_cells bs i j out (c # cs @ 0 # z)" using "2.prems"(1) by simp
  note get = cells_get [OF a] and a1 = cells_skip [OF a]
  have c0: "c \<noteq> 0" "0 \<notin> set cs" using "2.prems"(2) by auto
  have g: "get8 bs (i + 1) = Some (if cs = [] then 0 else hd cs)" using a1 cells_get [of bs "i + 1"] by (cases cs) auto
  have a2: "at_cells bs (i + 2) j out (tl cs @ 0 # z)" if "cs \<noteq> []" using a1 that cells_skip [of bs "i + 1"] by (cases cs) auto
  have tl0: "0 \<notin> set (tl cs)" using c0(2) by (cases cs) auto
  have sub: "0 \<notin> set (after_line (tl cs))" "0 \<notin> set (after_block (tl cs))" "0 \<notin> set (snd (string_text cs))"
    using tl0 c0(2) rest_subset [of "tl cs"] rest_subset [of cs] by auto
  consider (ws) "c = 32 \<or> c = 9 \<or> c = 13 \<or> c = 10" | (line) "c = 47" "cs \<noteq> []" "hd cs = 47" | (block) "c = 47" "cs \<noteq> []" "hd cs = 42"
    | (slash) "c = 47" "\<not> (cs \<noteq> [] \<and> hd cs = 47)" "\<not> (cs \<noteq> [] \<and> hd cs = 42)" | (string) "c = 34"
    | (plain) "\<not> (c = 32 \<or> c = 9 \<or> c = 13 \<or> c = 10)" "c \<noteq> 47" "c \<noteq> 34" by blast
  then show ?case
  proof cases
    case ws
    from "2.IH"(1) [OF ws a1 c0(2)] show ?thesis using ws get c0 by (subst minify_loop.simps) (auto simp: minify_text.simps)
  next
    case line
    obtain k where k: "skip_line bs (i + 2) = Some k" "at_cells bs k j out (after_line (tl cs) @ 0 # z)"
      using skip_line_reads [OF a2 [OF line(2)] tl0] by blast
    from "2.IH"(2) [OF _ line(1) _ k(2) sub(1)] line show ?thesis using get g k(1)
      by (subst minify_loop.simps) (auto simp: minify_text.simps skip_oneline_comment_def)
  next
    case block
    obtain k where k: "skip_block bs (i + 2) = Some k" "at_cells bs k j out (after_block (tl cs) @ 0 # z)"
      using skip_block_reads [OF a2 [OF block(2)] tl0] by blast
    from "2.IH"(3) [OF _ block(1) _ _ k(2) sub(2)] block show ?thesis using get g k(1)
      by (subst minify_loop.simps) (auto simp: minify_text.simps skip_multiline_comment_def)
  next
    case slash
    from "2.IH"(4) [OF _ slash a1 c0(2)] slash show ?thesis using get g
      by (subst minify_loop.simps) (auto simp: minify_text.simps)
  next
    case string
    obtain u r where u: "string_text cs = (u, r)" by fastforce
    obtain b1 where b1: "put_at j c bs = Some b1" "at_cells b1 (i + 1) (j + 1) (out @ [c]) (cs @ 0 # z)" "length b1 = length bs"
      using cells_put [OF a] .
    obtain b2 i2 where b2: "copy_string b1 (i + 1) (j + 1) = Some (b2, i2, j + 1 + length u)"
      "at_cells b2 i2 (j + 1 + length u) (out @ [c] @ u) (r @ 0 # z)" "length b2 = length b1"
      using copy_string_reads [OF b1(2) c0(2) u] by auto
    from "2.IH"(5) [of b2 i2 "j + 1 + length u" "out @ [c] @ u"] string u b2(2) sub(3)
    show ?thesis using get b1 b2(1,3) c0(1) string u
      by (subst minify_loop.simps) (auto simp: minify_text.simps minify_string_def)
  next
    case plain
    obtain b1 where b1: "put_at j c bs = Some b1" "at_cells b1 (i + 1) (j + 1) (out @ [c]) (cs @ 0 # z)" "length b1 = length bs"
      using cells_put [OF a] .
    from "2.IH"(6) [OF plain b1(2) c0(2)] show ?thesis using get c0(1) plain b1(1,3)
      by (subst minify_loop.simps) (auto simp: minify_text.simps)
  qed
qed

section \<open>Formatted text becomes unformatted\<close>

text \<open>A text that leaves \<open>u\<close>, whatever follows it.\<close>

definition squeezes :: "byte list \<Rightarrow> byte list \<Rightarrow> bool" where
  "squeezes t u \<longleftrightarrow> (\<forall>s. minify_text (t @ s) = u @ minify_text s)"

lemma squeezes_Nil: "squeezes [] []"
  by (simp add: squeezes_def)

lemma squeezes_append: "squeezes t u \<Longrightarrow> squeezes t' u' \<Longrightarrow> squeezes (t @ t') (u @ u')"
  by (simp add: squeezes_def)

definition kept_byte :: "byte \<Rightarrow> bool" where
  "kept_byte c \<longleftrightarrow> c \<notin> {32, 9, 13, 10, 47, 34}"

lemma squeezes_kept: "\<forall>c \<in> set t. kept_byte c \<Longrightarrow> squeezes t t"
  by (induction t) (auto simp: squeezes_def kept_byte_def minify_text.simps)

lemma squeezes_blank: "\<forall>c \<in> set t. c \<in> {32, 9, 13, 10} \<Longrightarrow> squeezes t []"
  by (induction t) (auto simp: squeezes_def minify_text.simps)

text \<open>
  A string is copied as it is unless its text ends in a backslash: the minifier takes the second
  backslash of the last escape for the escape of the closing quote.
\<close>

definition minifiable :: "cstring option \<Rightarrow> bool" where
  "minifiable s \<longleftrightarrow> text_of s = [] \<or> last (text_of s) \<noteq> 92"

lemma string_text_plain: "\<forall>c \<in> set v. c \<noteq> 34 \<and> c \<noteq> 92 \<Longrightarrow> string_text (v @ s) = (v @ fst (string_text s), snd (string_text s))"
  by (induction v) (auto simp: split_beta Let_def)

lemma string_text_escape:
  assumes "c \<noteq> 92"
  shows "string_text (escape_byte c @ s) = (escape_byte c @ fst (string_text s), snd (string_text s))"
proof (cases "short_escape c")
  case (Some x)
  then have "escape_byte c = [92, x]" "x \<noteq> 92" using assms by (auto simp: escape_byte_def short_escape_def split: if_splits)
  then show ?thesis by (cases "x = 34") (auto simp: split_beta Let_def)
next
  case None
  show ?thesis
  proof (cases "c < 32")
    case True
    have "unat c < 32" using True by (simp add: word_less_nat_alt)
    then have "unat c div 16 < 16" "unat c mod 16 < 16" by auto
    then have "\<forall>x \<in> set [117, 48, 48, hex_digit (unat c div 16), hex_digit (unat c mod 16)]. x \<noteq> 34 \<and> x \<noteq> 92"
      using hex_val_digit [of "unat c div 16"] hex_val_digit [of "unat c mod 16"] by (auto simp: hex_val_def)
    from string_text_plain [OF this, of s] None True show ?thesis
      by (simp add: escape_byte_def split_beta Let_def)
  next
    case False
    then have "escape_byte c = [c]" "c \<noteq> 34" using None by (auto simp: escape_byte_def short_escape_def split: if_splits)
    then show ?thesis using assms string_text_plain [of "[c]" s] by simp
  qed
qed

text \<open>A backslash that is not the last character: both bytes of its escape are copied.\<close>

lemma escape_first: "\<exists>d v. escape_byte c @ w = d # v \<and> d \<noteq> 34"
  by (auto simp: escape_byte_def short_escape_def)

lemma string_text_quoted:
  "v = [] \<or> last v \<noteq> 92 \<Longrightarrow>
   string_text (concat (map escape_byte v) @ 34 # s) = (concat (map escape_byte v) @ [34], s)"
proof (induction v)
  case (Cons c v)
  then have v: "v = [] \<or> last v \<noteq> 92" by (auto split: if_splits)
  show ?case
  proof (cases "c = 92")
    case False
    then show ?thesis using Cons.IH [OF v] string_text_escape [OF False, of "concat (map escape_byte v) @ 34 # s"] by simp
  next
    case True
    then obtain e w where w: "v = e # w" using Cons.prems by (cases v) auto
    obtain d r where d: "concat (map escape_byte v) @ 34 # s = d # r" "d \<noteq> 34"
      using escape_first [of e "concat (map escape_byte w) @ 34 # s"] w by auto
    have "escape_byte c = [92, 92]" using True by (simp add: escape_byte_def short_escape_def)
    then show ?thesis using Cons.IH [OF v] d by (simp add: split_beta Let_def del: string_text.simps(2) add: string_text.simps(2))
  qed
qed simp

lemma squeezes_quoted: "minifiable s \<Longrightarrow> squeezes (quoted s) (quoted s)"
  using string_text_quoted [of "text_of s"]
  by (auto simp: squeezes_def quoted_def minifiable_def text_of_def minify_text.simps split: option.splits)

section \<open>Items\<close>

text \<open>No text the printer quotes ends in a backslash.\<close>

fun plain_texts :: "cJSON \<Rightarrow> bool" where
  "plain_texts (JItem t vs vi vd s cs) \<longleftrightarrow>
     (t AND 0xFF = cJSON_String \<longrightarrow> minifiable vs) \<and>
     (t AND 0xFF = cJSON_Object \<longrightarrow> list_all (\<lambda>c. minifiable (jstring c)) cs) \<and>
     list_all plain_texts cs"

lemma join_squeezes:
  "list_all2 squeezes ts us \<Longrightarrow> squeezes sep sep' \<Longrightarrow> squeezes (join sep ts) (join sep' us)"
proof (induction sep ts arbitrary: us rule: join.induct)
  case (3 sep t u ts)
  then obtain t' u' ts' where us: "us = t' # u' # ts'" "squeezes t t'" "list_all2 squeezes (u # ts) (u' # ts')"
    by (auto simp: list_all2_Cons1)
  from "3.IH" [OF us(3) "3.prems"(2)] us(1,2) "3.prems"(2) show ?case by (simp add: squeezes_append)
qed (auto simp: squeezes_Nil list_all2_Cons1)

lemma squeezes_const: "kept_byte c \<Longrightarrow> squeezes [c] [c]"
  by (intro squeezes_kept) simp

lemma separators_squeeze:
  "squeezes [44, 32] [44]" "squeezes [44, 10] [44]" "squeezes [58, 9] [58]" "squeezes [123, 10] [123]"
  "squeezes [91] [91]" "squeezes [93] [93]" "squeezes [125] [125]" "squeezes [10] []" "squeezes (replicate n 9) []"
proof -
  have kept: "squeezes [c] [c]" if "c \<in> {44, 58, 123, 91, 93, 125}" for c
    using that by (intro squeezes_const) (auto simp: kept_byte_def)
  have blank: "squeezes [c] []" if "c \<in> {32, 9, 10}" for c using that by (intro squeezes_blank) auto
  show "squeezes [44, 32] [44]" "squeezes [44, 10] [44]" "squeezes [58, 9] [58]" "squeezes [123, 10] [123]"
    "squeezes [91] [91]" "squeezes [93] [93]" "squeezes [125] [125]" "squeezes [10] []"
    using kept [of 44] kept [of 58] kept [of 123] kept [of 91] kept [of 93] kept [of 125] blank [of 32] blank [of 9] blank [of 10]
      squeezes_append [of "[44]" "[44]" "[32]" "[]"] squeezes_append [of "[44]" "[44]" "[10]" "[]"]
      squeezes_append [of "[58]" "[58]" "[9]" "[]"] squeezes_append [of "[123]" "[123]" "[10]" "[]"] by simp_all
  show "squeezes (replicate n 9) []" by (intro squeezes_blank) auto
qed

lemma array_squeezes: "list_all2 squeezes ts us \<Longrightarrow> squeezes (array_text True ts) (array_text False us)"
  using squeezes_append [OF separators_squeeze(5) squeezes_append [OF join_squeezes [OF _ separators_squeeze(1)] separators_squeeze(6)]]
  by (simp add: array_text_def)

lemma member_squeezes:
  "minifiable k \<Longrightarrow> squeezes t u \<Longrightarrow> squeezes (member_text True d k t) (member_text False d k u)"
  using squeezes_append [OF separators_squeeze(9) squeezes_append [OF squeezes_quoted squeezes_append [OF separators_squeeze(3)]]]
  by (simp add: member_text_def)

lemma object_squeezes:
  assumes "list_all2 squeezes ts us"
  shows "squeezes (object_text True d ts) (object_text False d us)"
proof -
  have "squeezes (join [44, 10] ts @ (if ts = [] then [] else [10])) (join [44] us)"
    using squeezes_append [OF join_squeezes [OF assms separators_squeeze(2)] separators_squeeze(8)]
      join_squeezes [OF assms separators_squeeze(2)] by (cases ts) simp_all
  from squeezes_append [OF separators_squeeze(4) squeezes_append [OF this squeezes_append [OF separators_squeeze(9) separators_squeeze(7)]]]
  show ?thesis by (simp add: object_text_def members_text_def Let_def)
qed

lemma number_squeezes: "number_text d = Some t \<Longrightarrow> squeezes t t"
proof (rule squeezes_kept)
  assume t: "number_text d = Some t"
  have null: "\<forall>c \<in> set (str ''null''). kept_byte c" by (simp add: str_def kept_byte_def)
  have chars: "\<forall>c \<in> set (format_g p d). kept_byte c" if "\<not> nan_or_inf d" "0 < p" for p
    using format_g_chars [OF that] by (auto simp: number_char_def kept_byte_def is_digit_def)
  show "\<forall>c \<in> set t. kept_byte c"
    using t null chars [of 15] chars [of 17]
    by (auto simp: number_text_def number_sprintf_def Let_def split: if_splits prod.splits bind_splits)
qed

lemma those_squeezes:
  "(\<And>x t. x \<in> set xs \<Longrightarrow> f x = Some t \<Longrightarrow> \<exists>u. g x = Some u \<and> squeezes t u) \<Longrightarrow> those (map f xs) = Some ts \<Longrightarrow>
   \<exists>us. those (map g xs) = Some us \<and> list_all2 squeezes ts us"
proof (induction xs arbitrary: ts)
  case (Cons x xs)
  from Cons.prems(2) obtain t ts' where t: "f x = Some t" "those (map f xs) = Some ts'" "ts = t # ts'"
    by (auto split: option.splits)
  from Cons.IH [OF Cons.prems(1) t(2)] Cons.prems(1) [of x t] t show ?case by auto
qed simp

lemma render_squeezes:
  "rawless x \<Longrightarrow> plain_texts x \<Longrightarrow> render True d x = Some t \<Longrightarrow> \<exists>u. render False d x = Some u \<and> squeezes t u"
proof (induction x arbitrary: d t)
  case (JItem ty vs vi vd s cs)
  let ?ty = "ty AND 0xFF"
  let ?m = "\<lambda>fmt x. map_option (member_text fmt (d + 1) (jstring x)) (render fmt (d + 1) x)"
  have elem: "\<exists>u. render False (d + 1) x = Some u \<and> squeezes t' u" if "x \<in> set cs" "render True (d + 1) x = Some t'" for x t'
    using JItem that by (auto simp: list_all_iff)
  have lit: "squeezes (str w) (str w)" if "w \<in> {''null'', ''false'', ''true''}" for w
    using that by (intro squeezes_kept) (auto simp: str_def kept_byte_def)
  consider (lit) "?ty \<in> {cJSON_NULL, cJSON_False, cJSON_True}" | (num) "?ty = cJSON_Number" | (string) "?ty = cJSON_String"
    | (array) "?ty = cJSON_Array" | (obj) "?ty = cJSON_Object"
    using JItem.prems by (auto simp: render.simps Let_def split: if_splits)
  then show ?case
  proof cases
    case lit
    then show ?thesis using JItem.prems(3) \<open>\<And>w. w \<in> _ \<Longrightarrow> squeezes (str w) (str w)\<close>
      by (auto simp: render.simps json_types)
  next
    case num
    then show ?thesis using JItem.prems(3) number_squeezes by (simp add: render.simps json_types)
  next
    case string
    then show ?thesis using JItem.prems(2,3) squeezes_quoted by (auto simp: render.simps json_types)
  next
    case array
    then obtain ts where ts: "those (map (render True (d + 1)) cs) = Some ts" "t = array_text True ts"
      using JItem.prems(3) by (auto simp: render.simps json_types)
    from those_squeezes [of cs "render True (d + 1)" "render False (d + 1)", OF elem ts(1)] array_squeezes ts(2) array show ?thesis by (auto simp: render.simps json_types)
  next
    case obj
    then obtain ts where ts: "those (map (?m True) cs) = Some ts" "t = object_text True d ts"
      using JItem.prems(3) by (auto simp: render.simps json_types)
    have "\<exists>u. ?m False x = Some u \<and> squeezes t' u" if x: "x \<in> set cs" and t': "?m True x = Some t'" for x t'
    proof -
      obtain v where v: "render True (d + 1) x = Some v" "t' = member_text True (d + 1) (jstring x) v" using t' by auto
      have "minifiable (jstring x)" using JItem.prems(2) obj x by (auto simp: list_all_iff)
      with elem [OF x v(1)] v(2) member_squeezes show ?thesis by auto
    qed
    from those_squeezes [of cs "?m True" "?m False", OF this ts(1)] object_squeezes ts(2) obj show ?thesis
      by (auto simp: render.simps json_types)
  qed
qed
text \<open>
  A text that ends in a backslash puts the minifier out of step with the strings: here the blank
  inside the second string is dropped.
\<close>

lemma minify_corrupts:
  "render True 0 (JItem cJSON_Array None 0 (Fin False 0) None
     [JItem cJSON_String (Some [92]) 0 (Fin False 0) None [], JItem cJSON_String (Some (str ''a b'')) 0 (Fin False 0) None []]) =
     Some (91 # quoted (Some [92]) @ [44, 32] @ quoted (Some (str ''a b'')) @ [93])"
  "minify_text (91 # quoted (Some [92]) @ [44, 32] @ quoted (Some (str ''a b'')) @ [93]) =
     91 # quoted (Some [92]) @ [44, 32] @ quoted (Some (str ''ab'')) @ [93]"
  by (simp_all add: render.simps json_types array_text_def quoted_def escape_byte_def short_escape_def str_def
      minify_text.simps)

lemma print_is_render:
  assumes "json_ok x" "cjson_print (Some x) fmt hooks_reallocate m = Some (Some cells, m')"
  shows "\<exists>t. render fmt 0 x = Some t \<and> cells = map Some (t @ [0])"
  using cjson_print_text [OF assms(1), of fmt hooks_reallocate m] assms(2) by auto

lemma minified_render:
  "rawless x \<Longrightarrow> plain_texts x \<Longrightarrow> render True 0 x = Some t \<Longrightarrow> render False 0 x = Some (minify_text t)"
  using render_squeezes [of x 0 t] by (auto simp: squeezes_def minify_text.simps dest: spec [of _ "[]"])

text \<open>
  C34. The minifier is safe, ends, and is exact. On every C string, whatever lies behind its
  terminator, \<open>cJSON_Minify\<close> reads and writes inside the buffer and leaves a terminated text in it. That is the text
  without the whitespace and comments outside strings, if no string of the text has an escaped backslash in front of a quote
  and no slash stands outside strings and comments. Applied to what \<open>cJSON_Print\<close> returns it gives what
  \<open>cJSON_PrintUnformatted\<close> returns for the same item, if the item holds no raw texts and no text in it ends in a backslash.
\<close>

theorem minify_exact:
  assumes "0 \<notin> set t"
  shows "\<exists>bs u. cJSON_Minify (Some (t @ 0 # z)) = Some (Some bs) \<and> length bs = length t + 1 + length z \<and>
           0 \<notin> set u \<and> take (length u + 1) bs = u @ [0] \<and> (in_step t \<longrightarrow> u = strip_text t) \<and>
           (\<forall>x m m1 m2 m3 cells. json_ok x \<longrightarrow> rawless x \<longrightarrow> plain_texts x \<longrightarrow>
              cJSON_Print (Some x) m = Some (Some (map Some (t @ [0])), m1) \<longrightarrow>
              cJSON_PrintUnformatted (Some x) m2 = Some (Some cells, m3) \<longrightarrow> cells = map Some (u @ [0]))"
proof -
  have "at_cells (t @ 0 # z) 0 0 [] (t @ 0 # z)" by (simp add: at_cells_def)
  from minify_loop_reads [OF this assms] obtain bs where
    bs: "cJSON_Minify (Some (t @ 0 # z)) = Some (Some bs)" "length bs = length t + 1 + length z"
      "take (length (minify_text t) + 1) bs = minify_text t @ [0]" by (auto simp: cJSON_Minify_def)
  have "0 \<notin> set (minify_text t)" using minify_bytes [of t] assms by blast
  moreover have "cells = map Some (minify_text t @ [0])"
    if x: "json_ok x" "rawless x" "plain_texts x" and p: "cJSON_Print (Some x) m = Some (Some (map Some (t @ [0])), m1)"
      "cJSON_PrintUnformatted (Some x) m2 = Some (Some cells, m3)" for x m m1 m2 m3 cells
  proof -
    from print_is_render [OF x(1) p(1) [unfolded cJSON_Print_def]] have t: "render True 0 x = Some t" by auto
    from print_is_render [OF x(1) p(2) [unfolded cJSON_PrintUnformatted_def]] minified_render [OF x(2,3) t]
    show ?thesis by simp
  qed
  ultimately show ?thesis using bs minify_is_strip [of t] by blast
qed

definition demo_list :: cJSON where
  "demo_list = JItem cJSON_Array None 0 (Fin False 0) None
     [JItem cJSON_True None 1 (Fin False 0) None [], JItem cJSON_String (Some (str ''a b'')) 0 (Fin False 0) None []]"

theorem minify_exact_witness:
  "\<exists>m1 m3 bs cells. let m = \<lparr>outcomes = [], live = 0\<rparr>; t = str ''[true, \"a b\"]'' in
     cJSON_Print (Some demo_list) m = Some (Some (map Some (t @ [0])), m1) \<and>
     cJSON_PrintUnformatted (Some demo_list) m = Some (Some cells, m3) \<and>
     cJSON_Minify (Some (t @ 0 # [7])) = Some (Some bs) \<and> cells = map Some (take 13 bs) \<and>
     take 13 bs = str ''[true,\"a b\"]'' @ [0]"
proof -
  let ?m = "\<lparr>outcomes = [], live = 0\<rparr> :: mem" and ?t = "str ''[true, \"a b\"]''" and ?u = "str ''[true,\"a b\"]''"
  have ok: "json_ok demo_list" "rawless demo_list" "plain_texts demo_list"
    using double_of_nat_ok [of 0]
    by (simp_all add: demo_list_def json_types minifiable_def text_of_def str_def double_of_nat_exact del: double_ok.simps)
  have r: "render True 0 demo_list = Some ?t" "render False 0 demo_list = Some ?u"
    by (simp_all add: demo_list_def render.simps json_types array_text_def quoted_def escape_byte_def short_escape_def str_def)
  have len: "length ?t + 2 \<le> 2147483647" "length ?u + 2 \<le> 2147483647" by (simp_all add: str_def)
  obtain m1 where p: "cJSON_Print (Some demo_list) ?m = Some (Some (map Some (?t @ [0])), m1)"
    using cjson_print_text [OF ok(1), of True True ?m] r(1) len(1) by (auto simp: cJSON_Print_def)
  obtain cells m3 where q: "cJSON_PrintUnformatted (Some demo_list) ?m = Some (Some cells, m3)"
    using cjson_print_text [OF ok(1), of False True ?m] r(2) len(2) by (auto simp: cJSON_PrintUnformatted_def)
  have "strip_text ?t = ?u" "in_step ?t" by code_simp+
  moreover have "0 \<notin> set ?t" "length ?u + 1 = 13" by (simp_all add: str_def)
  ultimately obtain bs where bs: "cJSON_Minify (Some (?t @ 0 # [7])) = Some (Some bs)" "take 13 bs = ?u @ [0]"
      "cells = map Some (?u @ [0])"
    using minify_exact [of ?t "[7]"] ok p q by auto
  from bs(2,3) have "cells = map Some (take 13 bs)" by (simp only:)
  with p q bs(1,2) show ?thesis unfolding Let_def by (intro exI conjI)
qed

end
