(* ===== verification/Json_Hooks.thy ===== *)
theory Json_Hooks
  imports Json_Print
begin

text \<open>
  The allocation hooks of \<open>src/cJSON.c\<close>. A function pointer is the C library's own function or one of the
  client's, known by a number; what the client's functions do is the argument \<open>user\<close>. The printer depends
  on the hooks only in whether it may call \<open>realloc\<close>.
\<close>

section \<open>Hooks\<close>

datatype hook_fn = CLib | User nat

record cJSON_Hooks =
  malloc_fn :: "hook_fn option"
  free_fn :: "hook_fn option"

record internal_hooks =
  allocate :: hook_fn
  deallocate :: hook_fn
  reallocate_fn :: "hook_fn option"

definition global_hooks :: internal_hooks where
  "global_hooks = \<lparr>allocate = CLib, deallocate = CLib, reallocate_fn = Some CLib\<rparr>"

definition cJSON_InitHooks :: "cJSON_Hooks option \<Rightarrow> internal_hooks \<Rightarrow> internal_hooks" where
  "cJSON_InitHooks hooks g =
     (case hooks of
        None \<Rightarrow> g\<lparr>allocate := CLib, deallocate := CLib, reallocate_fn := Some CLib\<rparr>
      | Some h \<Rightarrow>
          (let g = g\<lparr>allocate := CLib\<rparr>;
               g = (case malloc_fn h of None \<Rightarrow> g | Some f \<Rightarrow> g\<lparr>allocate := f\<rparr>);
               g = g\<lparr>deallocate := CLib\<rparr>;
               g = (case free_fn h of None \<Rightarrow> g | Some f \<Rightarrow> g\<lparr>deallocate := f\<rparr>);
               g = g\<lparr>reallocate_fn := None\<rparr>
           in if allocate g = CLib \<and> deallocate g = CLib then g\<lparr>reallocate_fn := Some CLib\<rparr> else g))"

definition cJSON_malloc :: "(nat \<Rightarrow> mem \<Rightarrow> bool \<times> mem) \<Rightarrow> internal_hooks \<Rightarrow> mem \<Rightarrow> bool \<times> mem" where
  "cJSON_malloc user g m = (case allocate g of CLib \<Rightarrow> malloc m | User k \<Rightarrow> user k m)"

definition cJSON_free :: "(nat \<Rightarrow> mem \<Rightarrow> mem) \<Rightarrow> internal_hooks \<Rightarrow> mem \<Rightarrow> mem" where
  "cJSON_free user g m = (case deallocate g of CLib \<Rightarrow> mfree m | User k \<Rightarrow> user k m)"

section \<open>Blocks of one allocator\<close>

text \<open>\<open>realloc\<close> is called only on blocks of the C library: where it is set, so are \<open>malloc\<close> and \<open>free\<close>.\<close>

definition hooks_match :: "internal_hooks \<Rightarrow> bool" where
  "hooks_match g \<longleftrightarrow> reallocate_fn g = (if allocate g = CLib \<and> deallocate g = CLib then Some CLib else None)"

lemma init_hooks_match: "hooks_match global_hooks" "hooks_match (cJSON_InitHooks h g)"
  by (auto simp: hooks_match_def global_hooks_def cJSON_InitHooks_def Let_def split: option.splits)

text \<open>Only the last call counts, and NULL restores the hooks the library starts with.\<close>

lemma init_hooks_last: "cJSON_InitHooks h (cJSON_InitHooks h' g) = cJSON_InitHooks h g"
  by (simp add: cJSON_InitHooks_def Let_def split: option.splits)

lemma init_hooks_reset: "cJSON_InitHooks None g = global_hooks"
  by (cases g) (simp add: cJSON_InitHooks_def global_hooks_def)

lemma init_hooks_fields:
  "allocate (cJSON_InitHooks (Some h) g) = (case malloc_fn h of None \<Rightarrow> CLib | Some f \<Rightarrow> f)"
  "deallocate (cJSON_InitHooks (Some h) g) = (case free_fn h of None \<Rightarrow> CLib | Some f \<Rightarrow> f)"
  by (auto simp: cJSON_InitHooks_def Let_def split: option.splits)

lemma after_hooks_match: "hooks_match (fold cJSON_InitHooks hs global_hooks)"
  by (induction hs rule: rev_induct) (simp_all add: init_hooks_match)

end
