(* ===== verification/Bpf.thy ===== *)
theory Bpf
  imports Prelude
begin

text \<open>
  The filter machine of libpcap, \<open>src/deps/libpcap/bpf_filter.c\<close>: captured frames that the filter of the
  command line does not accept are dropped by it before the program's handler sees them. \<open>bpf_step\<close> is one turn
  of the interpreter's loop, its cases in groups; \<open>bpf_run\<close> is the loop, which may run forever and is \<open>None\<close> then.
  The scratch memory is not initialised by the code, so its first contents are an argument. The theorems show
  what the check \<open>bpf_validate\<close> of a program gives, and what more is needed for every packet to get an answer.
\<close>

unbundle bit_operations_syntax

section \<open>Instructions\<close>

record bpf_insn =
  insn_code :: u16
  insn_jt :: byte
  insn_jf :: byte
  insn_k :: u32

record bpf_aux_data =
  vlan_tag_present :: u16
  vlan_tag :: u16

definition BPF_CLASS :: "u16 \<Rightarrow> u16" where "BPF_CLASS code = code AND 0x07"
definition BPF_MODE :: "u16 \<Rightarrow> u16" where "BPF_MODE code = code AND 0xe0"
definition BPF_OP :: "u16 \<Rightarrow> u16" where "BPF_OP code = code AND 0xf0"
definition BPF_SRC :: "u16 \<Rightarrow> u16" where "BPF_SRC code = code AND 0x08"

definition BPF_LD :: u16 where "BPF_LD = 0x00"
definition BPF_LDX :: u16 where "BPF_LDX = 0x01"
definition BPF_ST :: u16 where "BPF_ST = 0x02"
definition BPF_STX :: u16 where "BPF_STX = 0x03"
definition BPF_ALU :: u16 where "BPF_ALU = 0x04"
definition BPF_JMP :: u16 where "BPF_JMP = 0x05"
definition BPF_RET :: u16 where "BPF_RET = 0x06"
definition BPF_MISC :: u16 where "BPF_MISC = 0x07"

definition BPF_W :: u16 where "BPF_W = 0x00"
definition BPF_H :: u16 where "BPF_H = 0x08"
definition BPF_B :: u16 where "BPF_B = 0x10"

definition BPF_IMM :: u16 where "BPF_IMM = 0x00"
definition BPF_ABS :: u16 where "BPF_ABS = 0x20"
definition BPF_IND :: u16 where "BPF_IND = 0x40"
definition BPF_MEM :: u16 where "BPF_MEM = 0x60"
definition BPF_LEN :: u16 where "BPF_LEN = 0x80"
definition BPF_MSH :: u16 where "BPF_MSH = 0xa0"

definition BPF_ADD :: u16 where "BPF_ADD = 0x00"
definition BPF_SUB :: u16 where "BPF_SUB = 0x10"
definition BPF_MUL :: u16 where "BPF_MUL = 0x20"
definition BPF_DIV :: u16 where "BPF_DIV = 0x30"
definition BPF_OR :: u16 where "BPF_OR = 0x40"
definition BPF_AND :: u16 where "BPF_AND = 0x50"
definition BPF_LSH :: u16 where "BPF_LSH = 0x60"
definition BPF_RSH :: u16 where "BPF_RSH = 0x70"
definition BPF_NEG :: u16 where "BPF_NEG = 0x80"
definition BPF_MOD :: u16 where "BPF_MOD = 0x90"
definition BPF_XOR :: u16 where "BPF_XOR = 0xa0"

definition BPF_JA :: u16 where "BPF_JA = 0x00"
definition BPF_JEQ :: u16 where "BPF_JEQ = 0x10"
definition BPF_JGT :: u16 where "BPF_JGT = 0x20"
definition BPF_JGE :: u16 where "BPF_JGE = 0x30"
definition BPF_JSET :: u16 where "BPF_JSET = 0x40"

definition BPF_K :: u16 where "BPF_K = 0x00"
definition BPF_X :: u16 where "BPF_X = 0x08"
definition BPF_A :: u16 where "BPF_A = 0x10"
definition BPF_TAX :: u16 where "BPF_TAX = 0x00"
definition BPF_TXA :: u16 where "BPF_TXA = 0x80"

definition BPF_MEMWORDS :: nat where "BPF_MEMWORDS = 16"

text \<open>Loads of the Linux kernel's ancillary data (\<open>SKF_AD_OFF + SKF_AD_VLAN_TAG\<close> and its companion).\<close>

definition VLAN_TAG_OFFSET :: u32 where "VLAN_TAG_OFFSET = - 0x1000 + 44"
definition VLAN_TAG_PRESENT_OFFSET :: u32 where "VLAN_TAG_PRESENT_OFFSET = - 0x1000 + 48"

lemmas bpf_codes =
  BPF_LD_def BPF_LDX_def BPF_ST_def BPF_STX_def BPF_ALU_def BPF_JMP_def BPF_RET_def BPF_MISC_def
  BPF_W_def BPF_H_def BPF_B_def BPF_IMM_def BPF_ABS_def BPF_IND_def BPF_MEM_def BPF_LEN_def BPF_MSH_def
  BPF_ADD_def BPF_SUB_def BPF_MUL_def BPF_DIV_def BPF_OR_def BPF_AND_def BPF_LSH_def BPF_RSH_def
  BPF_NEG_def BPF_MOD_def BPF_XOR_def BPF_JA_def BPF_JEQ_def BPF_JGT_def BPF_JGE_def BPF_JSET_def
  BPF_K_def BPF_X_def BPF_A_def BPF_TAX_def BPF_TXA_def

section \<open>The machine\<close>

record bpf_state =
  bpc :: int
  bA :: u32
  bX :: u32
  bmem :: "u32 list"

text \<open>What is undefined in C: leaving the program, the scratch memory or the packet, dividing by zero, shifting too far.\<close>

datatype bpf_fault = BadPc | BadScratch | BadPacket | DivByZero | BadShift

datatype bpf_result = Accepts u32 | Aborts | Faults bpf_fault

datatype bpf_next = Next bpf_state | Stop bpf_result

definition go_on :: "bpf_state \<Rightarrow> bpf_next" where
  "go_on s = Next (s\<lparr>bpc := bpc s + 1\<rparr>)"

definition jump :: "int \<Rightarrow> bpf_state \<Rightarrow> bpf_next" where
  "jump d s = Next (s\<lparr>bpc := bpc s + 1 + d\<rparr>)"

definition set_A :: "u32 \<Rightarrow> bpf_state \<Rightarrow> bpf_next" where
  "set_A a s = go_on (s\<lparr>bA := a\<rparr>)"

definition set_X :: "u32 \<Rightarrow> bpf_state \<Rightarrow> bpf_next" where
  "set_X x s = go_on (s\<lparr>bX := x\<rparr>)"

definition load_word :: "byte list \<Rightarrow> u32 \<Rightarrow> bpf_state \<Rightarrow> bpf_next" where
  "load_word p k s = (case get_be32 p (unat k) of None \<Rightarrow> Stop (Faults BadPacket) | Some w \<Rightarrow> set_A w s)"

definition load_half :: "byte list \<Rightarrow> u32 \<Rightarrow> bpf_state \<Rightarrow> bpf_next" where
  "load_half p k s = (case get_be16 p (unat k) of None \<Rightarrow> Stop (Faults BadPacket) | Some w \<Rightarrow> set_A (ucast w) s)"

definition load_byte :: "byte list \<Rightarrow> u32 \<Rightarrow> bpf_state \<Rightarrow> bpf_next" where
  "load_byte p k s = (case get8 p (unat k) of None \<Rightarrow> Stop (Faults BadPacket) | Some b \<Rightarrow> set_A (ucast b) s)"

text \<open>The cases of the switch on \<open>pc->code\<close>, in groups; \<open>None\<close> is a code of another group.\<close>

definition bpf_ret :: "bpf_insn \<Rightarrow> bpf_state \<Rightarrow> bpf_next option" where
  "bpf_ret i s =
     (let c = insn_code i in
      if c = BPF_RET OR BPF_K then Some (Stop (Accepts (insn_k i)))
      else if c = BPF_RET OR BPF_A then Some (Stop (Accepts (bA s)))
      else None)"

definition bpf_abs ::
    "byte list \<Rightarrow> u32 \<Rightarrow> u32 \<Rightarrow> bpf_aux_data option \<Rightarrow> bpf_insn \<Rightarrow> bpf_state \<Rightarrow> bpf_next option" where
  "bpf_abs p wirelen buflen aux i s =
     (let c = insn_code i; k = insn_k i in
      if c = BPF_LD OR BPF_W OR BPF_ABS then
        Some (if k > buflen \<or> 4 > buflen - k then Stop (Accepts 0) else load_word p k s)
      else if c = BPF_LD OR BPF_H OR BPF_ABS then
        Some (if k > buflen \<or> 2 > buflen - k then Stop (Accepts 0) else load_half p k s)
      else if c = BPF_LD OR BPF_B OR BPF_ABS then
        Some
          (if k = VLAN_TAG_OFFSET then
             (case aux of None \<Rightarrow> Stop (Accepts 0) | Some d \<Rightarrow> set_A (ucast (vlan_tag d)) s)
           else if k = VLAN_TAG_PRESENT_OFFSET then
             (case aux of None \<Rightarrow> Stop (Accepts 0) | Some d \<Rightarrow> set_A (ucast (vlan_tag_present d)) s)
           else if k \<ge> buflen then Stop (Accepts 0)
           else load_byte p k s)
      else if c = BPF_LD OR BPF_W OR BPF_LEN then Some (set_A wirelen s)
      else if c = BPF_LDX OR BPF_W OR BPF_LEN then Some (set_X wirelen s)
      else None)"

definition bpf_ind :: "byte list \<Rightarrow> u32 \<Rightarrow> bpf_insn \<Rightarrow> bpf_state \<Rightarrow> bpf_next option" where
  "bpf_ind p buflen i s =
     (let c = insn_code i; X = bX s; k = X + insn_k i in
      if c = BPF_LD OR BPF_W OR BPF_IND then
        Some (if insn_k i > buflen \<or> X > buflen - insn_k i \<or> 4 > buflen - k then Stop (Accepts 0)
              else load_word p k s)
      else if c = BPF_LD OR BPF_H OR BPF_IND then
        Some (if X > buflen \<or> insn_k i > buflen - X \<or> 2 > buflen - k then Stop (Accepts 0)
              else load_half p k s)
      else if c = BPF_LD OR BPF_B OR BPF_IND then
        Some (if insn_k i \<ge> buflen \<or> X \<ge> buflen - insn_k i then Stop (Accepts 0) else load_byte p k s)
      else if c = BPF_LDX OR BPF_MSH OR BPF_B then
        Some (if insn_k i \<ge> buflen then Stop (Accepts 0)
              else (case get8 p (unat (insn_k i)) of
                      None \<Rightarrow> Stop (Faults BadPacket)
                    | Some b \<Rightarrow> set_X (push_bit 2 (ucast (b AND 0xf))) s))
      else None)"

definition bpf_scratch :: "bpf_insn \<Rightarrow> bpf_state \<Rightarrow> bpf_next option" where
  "bpf_scratch i s =
     (let c = insn_code i; k = unat (insn_k i);
          checked = (\<lambda>next. Some (if k < length (bmem s) then next else Stop (Faults BadScratch)))
      in
      if c = BPF_LD OR BPF_IMM then Some (set_A (insn_k i) s)
      else if c = BPF_LDX OR BPF_IMM then Some (set_X (insn_k i) s)
      else if c = BPF_LD OR BPF_MEM then checked (set_A (bmem s ! k) s)
      else if c = BPF_LDX OR BPF_MEM then checked (set_X (bmem s ! k) s)
      else if c = BPF_ST then checked (go_on (s\<lparr>bmem := (bmem s)[k := bA s]\<rparr>))
      else if c = BPF_STX then checked (go_on (s\<lparr>bmem := (bmem s)[k := bX s]\<rparr>))
      else None)"

definition branch :: "bpf_insn \<Rightarrow> bpf_state \<Rightarrow> bool \<Rightarrow> bpf_next option" where
  "branch i s b = Some (jump (int (unat (if b then insn_jt i else insn_jf i))) s)"

definition bpf_jump :: "bpf_insn \<Rightarrow> bpf_state \<Rightarrow> bpf_next option" where
  "bpf_jump i s =
     (let c = insn_code i; k = insn_k i; A = bA s; X = bX s in
      if c = BPF_JMP OR BPF_JA then Some (jump (sint k) s)
      else if c = BPF_JMP OR BPF_JGT OR BPF_K then branch i s (A > k)
      else if c = BPF_JMP OR BPF_JGE OR BPF_K then branch i s (A \<ge> k)
      else if c = BPF_JMP OR BPF_JEQ OR BPF_K then branch i s (A = k)
      else if c = BPF_JMP OR BPF_JSET OR BPF_K then branch i s (A AND k \<noteq> 0)
      else if c = BPF_JMP OR BPF_JGT OR BPF_X then branch i s (A > X)
      else if c = BPF_JMP OR BPF_JGE OR BPF_X then branch i s (A \<ge> X)
      else if c = BPF_JMP OR BPF_JEQ OR BPF_X then branch i s (A = X)
      else if c = BPF_JMP OR BPF_JSET OR BPF_X then branch i s (A AND X \<noteq> 0)
      else None)"

definition divide :: "(u32 \<Rightarrow> u32 \<Rightarrow> u32) \<Rightarrow> u32 \<Rightarrow> bpf_state \<Rightarrow> bpf_next" where
  "divide f d s = (if d = 0 then Stop (Faults DivByZero) else set_A (f (bA s) d) s)"

definition shift :: "(nat \<Rightarrow> u32 \<Rightarrow> u32) \<Rightarrow> u32 \<Rightarrow> bpf_state \<Rightarrow> bpf_next" where
  "shift f n s = (if n < 32 then set_A (f (unat n) (bA s)) s else Stop (Faults BadShift))"

definition bpf_alu_x :: "bpf_insn \<Rightarrow> bpf_state \<Rightarrow> bpf_next option" where
  "bpf_alu_x i s =
     (let c = insn_code i; A = bA s; X = bX s in
      if c = BPF_ALU OR BPF_ADD OR BPF_X then Some (set_A (A + X) s)
      else if c = BPF_ALU OR BPF_SUB OR BPF_X then Some (set_A (A - X) s)
      else if c = BPF_ALU OR BPF_MUL OR BPF_X then Some (set_A (A * X) s)
      else if c = BPF_ALU OR BPF_DIV OR BPF_X then
        Some (if X = 0 then Stop (Accepts 0) else divide (div) X s)
      else if c = BPF_ALU OR BPF_MOD OR BPF_X then
        Some (if X = 0 then Stop (Accepts 0) else divide (mod) X s)
      else if c = BPF_ALU OR BPF_AND OR BPF_X then Some (set_A (A AND X) s)
      else if c = BPF_ALU OR BPF_OR OR BPF_X then Some (set_A (A OR X) s)
      else if c = BPF_ALU OR BPF_XOR OR BPF_X then Some (set_A (A XOR X) s)
      else if c = BPF_ALU OR BPF_LSH OR BPF_X then Some (shift push_bit X s)
      else if c = BPF_ALU OR BPF_RSH OR BPF_X then Some (shift drop_bit X s)
      else None)"

definition bpf_alu_k :: "bpf_insn \<Rightarrow> bpf_state \<Rightarrow> bpf_next option" where
  "bpf_alu_k i s =
     (let c = insn_code i; A = bA s; k = insn_k i in
      if c = BPF_ALU OR BPF_ADD OR BPF_K then Some (set_A (A + k) s)
      else if c = BPF_ALU OR BPF_SUB OR BPF_K then Some (set_A (A - k) s)
      else if c = BPF_ALU OR BPF_MUL OR BPF_K then Some (set_A (A * k) s)
      else if c = BPF_ALU OR BPF_DIV OR BPF_K then Some (divide (div) k s)
      else if c = BPF_ALU OR BPF_MOD OR BPF_K then Some (divide (mod) k s)
      else if c = BPF_ALU OR BPF_AND OR BPF_K then Some (set_A (A AND k) s)
      else if c = BPF_ALU OR BPF_OR OR BPF_K then Some (set_A (A OR k) s)
      else if c = BPF_ALU OR BPF_XOR OR BPF_K then Some (set_A (A XOR k) s)
      else if c = BPF_ALU OR BPF_LSH OR BPF_K then Some (shift push_bit k s)
      else if c = BPF_ALU OR BPF_RSH OR BPF_K then Some (shift drop_bit k s)
      else if c = BPF_ALU OR BPF_NEG then Some (set_A (word_of_int (- sint A)) s)
      else None)"

definition bpf_misc :: "bpf_insn \<Rightarrow> bpf_state \<Rightarrow> bpf_next option" where
  "bpf_misc i s =
     (let c = insn_code i in
      if c = BPF_MISC OR BPF_TAX then Some (set_X (bA s) s)
      else if c = BPF_MISC OR BPF_TXA then Some (set_A (bX s) s)
      else None)"

text \<open>One turn of the loop: the instruction at \<open>pc\<close>, or \<open>abort()\<close> when no case has its code.\<close>

definition bpf_insn_step ::
    "byte list \<Rightarrow> u32 \<Rightarrow> u32 \<Rightarrow> bpf_aux_data option \<Rightarrow> bpf_insn \<Rightarrow> bpf_state \<Rightarrow> bpf_next option" where
  "bpf_insn_step p wirelen buflen aux i s =
     (case bpf_ret i s of Some n \<Rightarrow> Some n | None \<Rightarrow>
      case bpf_abs p wirelen buflen aux i s of Some n \<Rightarrow> Some n | None \<Rightarrow>
      case bpf_ind p buflen i s of Some n \<Rightarrow> Some n | None \<Rightarrow>
      case bpf_scratch i s of Some n \<Rightarrow> Some n | None \<Rightarrow>
      case bpf_jump i s of Some n \<Rightarrow> Some n | None \<Rightarrow>
      case bpf_alu_x i s of Some n \<Rightarrow> Some n | None \<Rightarrow>
      case bpf_alu_k i s of Some n \<Rightarrow> Some n | None \<Rightarrow> bpf_misc i s)"

definition bpf_step ::
    "bpf_insn list \<Rightarrow> byte list \<Rightarrow> u32 \<Rightarrow> u32 \<Rightarrow> bpf_aux_data option \<Rightarrow> bpf_state \<Rightarrow> bpf_next" where
  "bpf_step f p wirelen buflen aux s =
     (if 0 \<le> bpc s \<and> bpc s < int (length f) then
        (case bpf_insn_step p wirelen buflen aux (f ! nat (bpc s)) s of
           None \<Rightarrow> Stop Aborts
         | Some n \<Rightarrow> n)
      else Stop (Faults BadPc))"

partial_function (option) bpf_run ::
    "bpf_insn list \<Rightarrow> byte list \<Rightarrow> u32 \<Rightarrow> u32 \<Rightarrow> bpf_aux_data option \<Rightarrow> bpf_state \<Rightarrow> bpf_result option" where
  "bpf_run f p wirelen buflen aux s =
     (case bpf_step f p wirelen buflen aux s of
        Next s' \<Rightarrow> bpf_run f p wirelen buflen aux s'
      | Stop r \<Rightarrow> Some r)"

text \<open>NULL for the program accepts every packet.\<close>

definition bpf_filter_with_aux_data ::
    "bpf_insn list option \<Rightarrow> byte list \<Rightarrow> u32 \<Rightarrow> u32 \<Rightarrow> bpf_aux_data option \<Rightarrow> u32 list \<Rightarrow> bpf_result option" where
  "bpf_filter_with_aux_data pc p wirelen buflen aux scratch =
     (case pc of
        None \<Rightarrow> Some (Accepts (- 1))
      | Some f \<Rightarrow> bpf_run f p wirelen buflen aux \<lparr>bpc = 0, bA = 0, bX = 0, bmem = scratch\<rparr>)"

definition bpf_filter ::
    "bpf_insn list option \<Rightarrow> byte list \<Rightarrow> u32 \<Rightarrow> u32 \<Rightarrow> u32 list \<Rightarrow> bpf_result option" where
  "bpf_filter pc p wirelen buflen scratch = bpf_filter_with_aux_data pc p wirelen buflen None scratch"

section \<open>The check of a program\<close>

definition valid_load :: "bpf_insn \<Rightarrow> bool" where
  "valid_load p =
     (let m = BPF_MODE (insn_code p) in
      if m = BPF_IMM \<or> m = BPF_ABS \<or> m = BPF_IND \<or> m = BPF_MSH then True
      else if m = BPF_MEM then \<not> unat (insn_k p) \<ge> BPF_MEMWORDS
      else m = BPF_LEN)"

definition valid_alu :: "bpf_insn \<Rightarrow> bool" where
  "valid_alu p =
     (let c = BPF_OP (insn_code p) in
      if c = BPF_ADD \<or> c = BPF_SUB \<or> c = BPF_MUL \<or> c = BPF_OR \<or> c = BPF_AND \<or> c = BPF_XOR \<or>
         c = BPF_LSH \<or> c = BPF_RSH \<or> c = BPF_NEG
      then True
      else if c = BPF_DIV \<or> c = BPF_MOD then \<not> (BPF_SRC (insn_code p) = BPF_K \<and> insn_k p = 0)
      else False)"

definition valid_jump :: "u32 \<Rightarrow> u32 \<Rightarrow> bpf_insn \<Rightarrow> bool" where
  "valid_jump i len p =
     (let from = i + 1; c = BPF_OP (insn_code p) in
      if c = BPF_JA then \<not> from + insn_k p \<ge> len
      else if c = BPF_JEQ \<or> c = BPF_JGT \<or> c = BPF_JGE \<or> c = BPF_JSET then
        \<not> (from + ucast (insn_jt p) \<ge> len \<or> from + ucast (insn_jf p) \<ge> len)
      else False)"

definition valid_insn :: "u32 \<Rightarrow> u32 \<Rightarrow> bpf_insn \<Rightarrow> bool" where
  "valid_insn i len p =
     (let c = BPF_CLASS (insn_code p) in
      if c = BPF_LD \<or> c = BPF_LDX then valid_load p
      else if c = BPF_ST \<or> c = BPF_STX then \<not> unat (insn_k p) \<ge> BPF_MEMWORDS
      else if c = BPF_ALU then valid_alu p
      else if c = BPF_JMP then valid_jump i len p
      else c = BPF_RET \<or> c = BPF_MISC)"

fun validate_loop :: "u32 \<Rightarrow> u32 \<Rightarrow> bpf_insn list \<Rightarrow> bool" where
  "validate_loop i len [] = True"
| "validate_loop i len (p # ps) = (if valid_insn i len p then validate_loop (i + 1) len ps else False)"

text \<open>The length is passed as an \<open>int\<close>.\<close>

definition bpf_validate :: "bpf_insn list \<Rightarrow> bool" where
  "bpf_validate f =
     (let len = to_int32 (int (length f)) in
      if len < 1 then False
      else if \<not> validate_loop 0 (word_of_int len) (take (nat len) f) then False
      else BPF_CLASS (insn_code (f ! nat (len - 1))) = BPF_RET)"

section \<open>Loads stay in the packet\<close>

lemma word_room:
  fixes b :: u32
  assumes "\<not> k > b" "\<not> n > b - k"
  shows "unat k + unat n \<le> unat b"
  using assms by (simp add: not_less word_le_nat_alt unat_sub)

lemma word_sum_room:
  fixes b :: u32
  assumes "\<not> k > b" "\<not> x > b - k"
  shows "unat (x + k) = unat x + unat k" "\<not> x + k > b"
proof -
  have "unat k + unat x \<le> unat b" using word_room [OF assms] .
  moreover from this have "unat x + unat k < 4294967296" using unat_u32 [of b] by linarith
  then have "unat (x + k) = unat x + unat k" by (intro unat_add_lem [THEN iffD1]) simp
  ultimately show "unat (x + k) = unat x + unat k" "\<not> x + k > b" by (simp_all add: not_less word_le_nat_alt)
qed

lemma loads_inside:
  "unat k + 4 \<le> length p \<Longrightarrow> \<exists>a. load_word p k s = set_A a s"
  "unat k + 2 \<le> length p \<Longrightarrow> \<exists>a. load_half p k s = set_A a s"
  "unat k + 1 \<le> length p \<Longrightarrow> \<exists>a. load_byte p k s = set_A a s"
  by (auto simp: load_word_def load_half_def load_byte_def reads)

text \<open>What a turn leads to when nothing goes wrong, and how the program counter moves.\<close>

definition stays :: "bpf_state \<Rightarrow> bpf_next \<Rightarrow> bool" where
  "stays s n \<longleftrightarrow>
     (case n of
        Next s' \<Rightarrow> bpc s' = bpc s + 1 \<and> length (bmem s') = length (bmem s)
      | Stop r \<Rightarrow> \<exists>w. r = Accepts w)"

lemma stays_simps [simp]:
  "stays s (set_A a s)" "stays s (set_X x s)" "stays s (go_on s)" "stays s (Stop (Accepts w))"
  "stays s (go_on (s\<lparr>bmem := (bmem s)[j := a]\<rparr>))"
  by (simp_all add: stays_def set_A_def set_X_def go_on_def)

lemma load_stays:
  "unat k + 4 \<le> length p \<Longrightarrow> stays s (load_word p k s)"
  "unat k + 2 \<le> length p \<Longrightarrow> stays s (load_half p k s)"
  "unat k + 1 \<le> length p \<Longrightarrow> stays s (load_byte p k s)"
  using loads_inside [of k p s] by auto

lemma abs_stays:
  assumes "unat buflen \<le> length p" "bpf_abs p wirelen buflen aux i s = Some n"
  shows "stays s n"
proof -
  have "unat (insn_k i) + m \<le> length p" if "\<not> insn_k i > buflen" "\<not> (word_of_nat m :: u32) > buflen - insn_k i" "m < 5" for m
    using word_room [OF that(1,2)] that(3) assms(1) by (simp add: unat_of_nat)
  from this [of 4] this [of 2] have room:
    "\<not> insn_k i > buflen \<Longrightarrow> \<not> 4 > buflen - insn_k i \<Longrightarrow> unat (insn_k i) + 4 \<le> length p"
    "\<not> insn_k i > buflen \<Longrightarrow> \<not> 2 > buflen - insn_k i \<Longrightarrow> unat (insn_k i) + 2 \<le> length p" by simp_all
  have "\<not> insn_k i \<ge> buflen \<Longrightarrow> unat (insn_k i) + 1 \<le> length p"
    using assms(1) by (simp add: not_le word_less_nat_alt)
  with assms(2) room show ?thesis
    by (auto simp: bpf_abs_def Let_def load_stays split: if_splits option.splits)
qed

lemma ind_stays:
  assumes "unat buflen \<le> length p" "bpf_ind p buflen i s = Some n"
  shows "stays s n"
proof -
  let ?k = "insn_k i" and ?X = "bX s"
  have w4: "unat (?X + ?k) + 4 \<le> length p"
    if "\<not> ?k > buflen" "\<not> ?X > buflen - ?k" "\<not> 4 > buflen - (?X + ?k)"
    using word_room [OF word_sum_room(2) [OF that(1,2)] that(3)] assms(1) by simp
  have w2: "unat (?X + ?k) + 2 \<le> length p"
    if "\<not> ?X > buflen" "\<not> ?k > buflen - ?X" "\<not> 2 > buflen - (?X + ?k)"
  proof -
    have "\<not> ?X + ?k > buflen" using word_sum_room(2) [OF that(1,2)] by (simp add: add.commute)
    from word_room [OF this that(3)] assms(1) show ?thesis by simp
  qed
  have w1: "unat (?X + ?k) + 1 \<le> length p" if "\<not> ?k \<ge> buflen" "\<not> ?X \<ge> buflen - ?k"
  proof -
    have k: "?k \<le> buflen" using that(1) by (simp add: not_le)
    have "unat ?X < unat buflen - unat ?k" using that(2) unat_sub [OF k] by (simp add: not_le word_less_nat_alt)
    moreover have "\<not> ?k > buflen" "\<not> ?X > buflen - ?k" using that by auto
    from word_sum_room(1) [OF this] have "unat (?X + ?k) = unat ?X + unat ?k" .
    ultimately show ?thesis using assms(1) by simp
  qed
  have m: "get8 p (unat ?k) \<noteq> None" if "\<not> ?k \<ge> buflen"
    using that assms(1) by (simp add: not_le word_less_nat_alt)
  from assms(2) w4 w2 w1 m show ?thesis
    by (auto simp: bpf_ind_def Let_def load_stays split: if_splits option.splits)
qed

lemma scratch_stays:
  assumes "valid_insn n len i" "length (bmem s) = BPF_MEMWORDS" "bpf_scratch i s = Some t"
  shows "stays s t"
  using assms
  by (auto simp: bpf_scratch_def Let_def valid_insn_def valid_load_def BPF_CLASS_def BPF_MODE_def bpf_codes split: if_splits)

text \<open>Arithmetic stays too, unless it shifts too far.\<close>

lemma alu_stays:
  assumes "valid_insn n len i" "bpf_alu_x i s = Some t \<or> bpf_alu_k i s = Some t"
  shows "stays s t \<or> t = Stop (Faults BadShift)"
proof -
  have "stays s (shift g w s) \<or> shift g w s = Stop (Faults BadShift)" for g w by (simp add: shift_def)
  moreover have "w \<noteq> 0 \<Longrightarrow> stays s (divide g w s)" for g w by (simp add: divide_def)
  ultimately show ?thesis using assms
    by (elim disjE) (auto simp: bpf_alu_x_def bpf_alu_k_def Let_def valid_insn_def valid_alu_def
      BPF_CLASS_def BPF_OP_def BPF_SRC_def bpf_codes split: if_splits)
qed

section \<open>Jumps stay in the program\<close>

lemma sint_u32: "sint (k :: u32) = (if uint k < 2 ^ 31 then uint k else uint k - 2 ^ 32)"
proof (cases "uint k < 2 ^ 31")
  case True
  then have "k < 2 ^ 31" by (simp add: word_less_def)
  from sint_u32_small [OF this] True show ?thesis by simp
next
  case False
  have "signed_take_bit 31 (uint k) = signed_take_bit 31 (uint k - 2 ^ 32)"
    by (rule signed_take_bit_eq_iff_take_bit_eq [THEN iffD2]) (simp add: take_bit_eq_mod)
  also have "\<dots> = uint k - 2 ^ 32"
    using False uint_lt2p [of k] by (intro signed_take_bit_int_eq_self) simp_all
  finally show ?thesis using False by (simp add: sint_uint)
qed

lemma jump_target:
  assumes "n < l" "l < 2 ^ 31" "(word_of_nat n + 1 + k :: u32) < word_of_nat l"
  shows "0 \<le> int n + 1 + sint k \<and> int n + 1 + sint k < int l"
proof -
  have "uint (word_of_nat l :: u32) = int l" "uint (word_of_nat n :: u32) = int n"
    using assms(1,2) by (simp_all add: unsigned_of_nat take_bit_nat_eq_self)
  moreover have "uint (word_of_nat n + 1 + k :: u32) = (int n + 1 + uint k) mod 2 ^ 32"
    using calculation(2) by (simp add: uint_word_ariths mod_simps)
  ultimately have lt: "(int n + 1 + uint k) mod 2 ^ 32 < int l" using assms(3) by (simp add: word_less_def)
  have k: "0 \<le> uint k" "uint k < 2 ^ 32" using uint_lt2p [of k] by simp_all
  show ?thesis
  proof (cases "int n + 1 + uint k < 2 ^ 32")
    case True
    then have "(int n + 1 + uint k) mod 2 ^ 32 = int n + 1 + uint k" by simp
    with lt assms show ?thesis by (auto simp: sint_u32)
  next
    case False
    then have "(int n + 1 + uint k) mod 2 ^ 32 = int n + 1 + uint k - 2 ^ 32"
      using k assms by (subst mod_pos_geq) simp_all
    with lt False k assms show ?thesis by (auto simp: sint_u32)
  qed
qed

text \<open>\<open>BPF_JMP|BPF_JA\<close> is the only jump that can go backwards.\<close>

definition forward_insn :: "bpf_insn \<Rightarrow> bool" where
  "forward_insn i \<longleftrightarrow> (insn_code i = BPF_JMP OR BPF_JA \<longrightarrow> 0 \<le> sint (insn_k i))"

lemma jump_inside:
  assumes v: "valid_insn (word_of_nat n) (word_of_nat l) i" and n: "n < l" "l < 2 ^ 31" "bpc s = int n"
    and j: "bpf_jump i s = Some t"
  shows "\<exists>d. t = jump d s \<and> 0 \<le> int n + 1 + d \<and> int n + 1 + d < int l \<and> (forward_insn i \<longrightarrow> 0 \<le> d)"
proof (cases "insn_code i = BPF_JMP OR BPF_JA")
  case True
  with v have "(word_of_nat n + 1 + insn_k i :: u32) < word_of_nat l"
    by (simp add: valid_insn_def valid_jump_def BPF_CLASS_def BPF_OP_def bpf_codes)
  from jump_target [OF n(1,2) this] True j show ?thesis
    by (intro exI [of _ "sint (insn_k i)"]) (auto simp: bpf_jump_def forward_insn_def)
next
  case False
  let ?ok = "\<lambda>b :: byte. (word_of_nat n + 1 + ucast b :: u32) < word_of_nat l"
  have op: "BPF_CLASS (insn_code i) = BPF_JMP" "BPF_OP (insn_code i) \<in> {BPF_JEQ, BPF_JGT, BPF_JGE, BPF_JSET}"
    using j False by (auto simp: bpf_jump_def Let_def BPF_CLASS_def BPF_OP_def bpf_codes split: if_splits)
  with v have ok: "?ok (insn_jt i)" "?ok (insn_jf i)"
    by (auto simp: valid_insn_def valid_jump_def Let_def not_le bpf_codes)
  have "\<exists>b. branch i s b = Some t" using j False by (auto simp: bpf_jump_def Let_def split: if_splits)
  then obtain b where b: "t = jump (int (unat (if b then insn_jt i else insn_jf i))) s"
    by (auto simp: branch_def)
  have "0 \<le> int n + 1 + int (unat c) \<and> int n + 1 + int (unat c) < int l" if "?ok c" for c :: byte
  proof -
    have "uint (ucast c :: u32) = uint c" by (rule uint_up_ucast) (simp add: is_up)
    moreover have "uint c < 2 ^ 31" using uint_lt2p [of c] by simp
    ultimately show ?thesis using jump_target [OF n(1,2) that] by (simp add: sint_u32)
  qed
  with ok b show ?thesis by (intro exI [of _ "int (unat (if b then insn_jt i else insn_jf i))"]) auto
qed

section \<open>Checked programs\<close>

lemma validate_loop_nth:
  "validate_loop i len ps \<longleftrightarrow> (\<forall>j < length ps. valid_insn (i + word_of_nat j) len (ps ! j))"
proof (induction ps arbitrary: i)
  case (Cons p ps)
  then show ?case by (simp add: All_less_Suc2 add.assoc)
qed simp

definition checked_program :: "bpf_insn list \<Rightarrow> bool" where
  "checked_program f \<longleftrightarrow>
     0 < length f \<and> length f < 2 ^ 31 \<and> BPF_CLASS (insn_code (last f)) = BPF_RET \<and>
     (\<forall>n < length f. valid_insn (word_of_nat n) (word_of_nat (length f)) (f ! n))"

lemma validate_checked:
  assumes "bpf_validate f" "length f < 2 ^ 32"
  shows "checked_program f"
proof -
  have small: "length f < 2 ^ 31"
  proof (rule ccontr)
    assume "\<not> length f < 2 ^ 31"
    then have "to_int32 (int (length f)) = int (length f) - 2 ^ 32"
      using assms(2) by (simp add: to_int32_def sint_u32 unsigned_of_nat take_bit_nat_eq_self)
    with assms show False by (simp add: bpf_validate_def Let_def)
  qed
  then have "to_int32 (int (length f)) = int (length f)" by (intro to_int32_id) simp_all
  moreover have "nat (int (length f) - 1) = length f - 1" by simp
  ultimately show ?thesis using assms(1) small
    by (auto simp: bpf_validate_def Let_def validate_loop_nth checked_program_def last_conv_nth split: if_splits)
qed

section \<open>A turn of a checked program\<close>

definition known_codes :: "u16 list" where
  "known_codes =
     [0x06, 0x16, 0x20, 0x28, 0x30, 0x80, 0x81, 0x40, 0x48, 0x50, 0xb1, 0x00, 0x01, 0x60, 0x61, 0x02, 0x03,
      0x05, 0x25, 0x35, 0x15, 0x45, 0x2d, 0x3d, 0x1d, 0x4d, 0x0c, 0x1c, 0x2c, 0x3c, 0x9c, 0x5c, 0x4c, 0xac, 0x6c, 0x7c,
      0x04, 0x14, 0x24, 0x34, 0x94, 0x54, 0x44, 0xa4, 0x64, 0x74, 0x84, 0x07, 0x87]"

lemma group_None:
  "bpf_ret i s = None \<longleftrightarrow> insn_code i \<notin> {0x06, 0x16}"
  "bpf_abs p w b aux i s = None \<longleftrightarrow> insn_code i \<notin> {0x20, 0x28, 0x30, 0x80, 0x81}"
  "bpf_ind p b i s = None \<longleftrightarrow> insn_code i \<notin> {0x40, 0x48, 0x50, 0xb1}"
  "bpf_scratch i s = None \<longleftrightarrow> insn_code i \<notin> {0x00, 0x01, 0x60, 0x61, 0x02, 0x03}"
  "bpf_jump i s = None \<longleftrightarrow> insn_code i \<notin> {0x05, 0x25, 0x35, 0x15, 0x45, 0x2d, 0x3d, 0x1d, 0x4d}"
  "bpf_alu_x i s = None \<longleftrightarrow> insn_code i \<notin> {0x0c, 0x1c, 0x2c, 0x3c, 0x9c, 0x5c, 0x4c, 0xac, 0x6c, 0x7c}"
  "bpf_alu_k i s = None \<longleftrightarrow> insn_code i \<notin> {0x04, 0x14, 0x24, 0x34, 0x94, 0x54, 0x44, 0xa4, 0x64, 0x74, 0x84}"
  "bpf_misc i s = None \<longleftrightarrow> insn_code i \<notin> {0x07, 0x87}"
  by (simp_all add: bpf_ret_def bpf_abs_def bpf_ind_def bpf_scratch_def bpf_jump_def branch_def bpf_alu_x_def
      bpf_alu_k_def bpf_misc_def Let_def bpf_codes)

lemma known_code: "bpf_insn_step p w b aux i s = None \<longleftrightarrow> insn_code i \<notin> set known_codes"
  unfolding bpf_insn_step_def known_codes_def
  by (auto split: option.splits simp: group_None not_None_eq [symmetric] simp del: not_None_eq)

text \<open>An instruction that returns is the only kind the class \<open>BPF_RET\<close> has.\<close>

lemma insn_group:
  assumes "bpf_insn_step p w b aux i s = Some t"
  obtains (ret) "bpf_ret i s = Some t" | (abs) "bpf_abs p w b aux i s = Some t" | (ind) "bpf_ind p b i s = Some t"
    | (scratch) "bpf_scratch i s = Some t" | (jump) "bpf_jump i s = Some t"
    | (alu) "bpf_alu_x i s = Some t \<or> bpf_alu_k i s = Some t" | (misc) "bpf_misc i s = Some t"
  using assms by (auto simp: bpf_insn_step_def split: option.splits)

lemma ret_class:
  assumes "BPF_CLASS (insn_code i) = BPF_RET" "bpf_insn_step p w b aux i s = Some t"
  shows "\<exists>v. t = Stop (Accepts v)"
proof -
  have "insn_code i \<in> set known_codes" using known_code [of p w b aux i s] assms(2) by auto
  then have "insn_code i \<in> {0x06, 0x16}" using assms(1) by (auto simp: known_codes_def BPF_CLASS_def bpf_codes)
  then have "bpf_ret i s = Some t" using assms(2) group_None(1) [of i s] by (auto simp: bpf_insn_step_def split: option.splits)
  then show ?thesis by (auto simp: bpf_ret_def Let_def split: if_splits)
qed

definition checked_state :: "bpf_insn list \<Rightarrow> bpf_state \<Rightarrow> bool" where
  "checked_state f s \<longleftrightarrow> 0 \<le> bpc s \<and> bpc s < int (length f) \<and> length (bmem s) = BPF_MEMWORDS"

abbreviation current :: "bpf_insn list \<Rightarrow> bpf_state \<Rightarrow> bpf_insn" where
  "current f s \<equiv> f ! nat (bpc s)"

definition safe_shift :: "bpf_insn \<Rightarrow> bool" where
  "safe_shift i \<longleftrightarrow>
     insn_code i \<noteq> BPF_ALU OR BPF_LSH OR BPF_X \<and> insn_code i \<noteq> BPF_ALU OR BPF_RSH OR BPF_X \<and>
     (insn_code i = BPF_ALU OR BPF_LSH OR BPF_K \<or> insn_code i = BPF_ALU OR BPF_RSH OR BPF_K \<longrightarrow> insn_k i < 32)"

lemma alu_safe_shift: "safe_shift i \<Longrightarrow> bpf_alu_x i s = Some t \<or> bpf_alu_k i s = Some t \<Longrightarrow> t \<noteq> Stop (Faults BadShift)"
  by (elim disjE) (auto simp: safe_shift_def bpf_alu_x_def bpf_alu_k_def Let_def shift_def divide_def set_A_def go_on_def bpf_codes
    split: if_splits)

lemma misc_stays: "bpf_misc i s = Some t \<Longrightarrow> stays s t"
  by (auto simp: bpf_misc_def Let_def split: if_splits)

lemma step_checked:
  assumes f: "checked_program f" and b: "unat buflen \<le> length p" and s: "checked_state f s"
  shows "case bpf_step f p wirelen buflen aux s of
           Next s' \<Rightarrow> checked_state f s' \<and> (forward_insn (current f s) \<longrightarrow> bpc s < bpc s')
         | Stop r \<Rightarrow> (\<exists>w. r = Accepts w) \<or> r = Aborts \<and> insn_code (current f s) \<notin> set known_codes \<or>
             r = Faults BadShift \<and> \<not> safe_shift (current f s)"
proof -
  define n where "n = nat (bpc s)"
  define i where "i = f ! n"
  have n: "bpc s = int n" "n < length f" using s by (auto simp: checked_state_def n_def)
  have v: "valid_insn (word_of_nat n) (word_of_nat (length f)) i" using f n by (simp add: checked_program_def i_def)
  have step: "bpf_step f p wirelen buflen aux s =
      (case bpf_insn_step p wirelen buflen aux i s of None \<Rightarrow> Stop Aborts | Some n \<Rightarrow> n)"
    using n by (simp add: bpf_step_def i_def)
  have cur: "current f s = i" by (simp add: i_def n_def)
  show ?thesis
  proof (cases "bpf_insn_step p wirelen buflen aux i s")
    case None
    then have "insn_code i \<notin> set known_codes" using known_code by blast
    then show ?thesis using step cur None by simp
  next
    case (Some t)
    have tail: ?thesis if "stays s t" "t = Stop (Accepts w) \<or> n + 1 < length f" for w
      using that step Some n s by (auto simp: stays_def checked_state_def split: bpf_next.splits)
    show ?thesis
    proof (cases "BPF_CLASS (insn_code i) = BPF_RET")
      case True
      with ret_class [OF True Some] tail show ?thesis by fastforce
    next
      case False
      have inner: "n + 1 < length f"
      proof (rule ccontr)
        assume "\<not> n + 1 < length f"
        then have "n = length f - 1" using n(2) by simp
        then have "last f = i" using n(2) by (subst last_conv_nth) (auto simp: i_def)
        with f False show False by (simp add: checked_program_def)
      qed
      have mem: "length (bmem s) = BPF_MEMWORDS" using s by (simp add: checked_state_def)
      from Some show ?thesis
      proof (cases rule: insn_group)
        case ret
        then have "stays s t" by (auto simp: bpf_ret_def Let_def split: if_splits)
        then show ?thesis using tail inner by blast
      next
        case jump
        have "length f < 2 ^ 31" using f by (simp add: checked_program_def)
        from jump_inside [OF v n(2) this n(1) jump] step Some cur n s show ?thesis
          by (auto simp: jump_def checked_state_def)
      next
        case alu
        from alu_stays [OF v alu] alu_safe_shift [of i s t] alu tail inner step Some cur show ?thesis by auto
      qed (use tail inner abs_stays [OF b] ind_stays [OF b] scratch_stays [OF v mem] misc_stays in blast)+
    qed
  qed
qed

section \<open>Runs\<close>

inductive bpf_reach ::
    "bpf_insn list \<Rightarrow> byte list \<Rightarrow> u32 \<Rightarrow> u32 \<Rightarrow> bpf_aux_data option \<Rightarrow> u32 list \<Rightarrow> bpf_state \<Rightarrow> bool"
    for f p wirelen buflen aux scratch where
  start: "bpf_reach f p wirelen buflen aux scratch \<lparr>bpc = 0, bA = 0, bX = 0, bmem = scratch\<rparr>"
| turn: "bpf_reach f p wirelen buflen aux scratch s \<Longrightarrow> bpf_step f p wirelen buflen aux s = Next s' \<Longrightarrow>
    bpf_reach f p wirelen buflen aux scratch s'"

lemma reach_checked:
  assumes "bpf_reach f p wirelen buflen aux scratch s"
    and "checked_program f" "unat buflen \<le> length p" "length scratch = BPF_MEMWORDS"
  shows "checked_state f s"
  using assms
proof (induction rule: bpf_reach.induct)
  case start
  then show ?case by (simp add: checked_state_def checked_program_def)
next
  case (turn s s')
  with step_checked [of f buflen p s wirelen aux] show ?case by simp
qed

text \<open>A run that ends stops in a state that is reached.\<close>

lemma run_stops:
  assumes "bpf_run f p wirelen buflen aux s = Some r" "bpf_reach f p wirelen buflen aux scratch s"
  shows "\<exists>s'. bpf_reach f p wirelen buflen aux scratch s' \<and> bpf_step f p wirelen buflen aux s' = Stop r"
  using assms
proof (induction rule: bpf_run.raw_induct [rotated 1, consumes 1])
  case (1 run f p w b aux s r)
  show ?case
  proof (cases "bpf_step f p w b aux s")
    case (Next s1)
    with 1 have "run f p w b aux s1 = Some r" "bpf_reach f p w b aux scratch s1" by (auto intro: bpf_reach.turn)
    with 1 show ?thesis by blast
  next
    case (Stop r')
    with 1 show ?thesis by auto
  qed
qed

text \<open>Without backward jumps the program counter only grows.\<close>

lemma forward_run_ends:
  assumes "checked_program f" "unat buflen \<le> length p" "\<forall>i \<in> set f. forward_insn i" "checked_state f s"
  shows "\<exists>r. bpf_run f p wirelen buflen aux s = Some r"
  using assms(4)
proof (induction "nat (int (length f) - bpc s)" arbitrary: s rule: less_induct)
  case less
  show ?case
  proof (cases "bpf_step f p wirelen buflen aux s")
    case (Next s')
    have "current f s \<in> set f" using less.prems by (auto simp: checked_state_def intro!: nth_mem)
    with step_checked [OF assms(1,2) less.prems, of wirelen aux] Next assms(3)
    have s': "checked_state f s'" "bpc s < bpc s'" by auto
    moreover have "nat (int (length f) - bpc s') < nat (int (length f) - bpc s)"
      using s' less.prems by (auto simp: checked_state_def)
    ultimately have "\<exists>r. bpf_run f p wirelen buflen aux s' = Some r" using less.hyps by blast
    then show ?thesis using Next by (subst bpf_run.simps) simp
  next
    case (Stop r)
    then show ?thesis by (subst bpf_run.simps) simp
  qed
qed

section \<open>Properties\<close>

text \<open>
  C7. Checked programs do not go wrong. In every state a program accepted by \<open>bpf_validate\<close> reaches on a packet of
  at least \<open>buflen\<close> bytes, the program counter is at an instruction of the program and the scratch memory keeps its 16
  words; and the next turn leads to such a state again, or returns a value, or stops in one of the two ways the
  check leaves open: \<open>abort()\<close> on an instruction whose code no case of the interpreter has, or a shift by 32 or
  more. No turn reads outside the packet or the scratch memory, divides by zero, or leaves the program.
\<close>

theorem bpf_validated_sound:
  assumes "bpf_validate f" "length f < 2 ^ 32" "unat buflen \<le> length p" "length scratch = BPF_MEMWORDS"
    and "bpf_reach f p wirelen buflen aux scratch s"
  shows "0 \<le> bpc s \<and> bpc s < int (length f) \<and> length (bmem s) = BPF_MEMWORDS \<and>
    ((\<exists>s'. bpf_step f p wirelen buflen aux s = Next s' \<and> bpf_reach f p wirelen buflen aux scratch s') \<or>
     (\<exists>w. bpf_step f p wirelen buflen aux s = Stop (Accepts w)) \<or>
     bpf_step f p wirelen buflen aux s = Stop Aborts \<and> insn_code (f ! nat (bpc s)) \<notin> set known_codes \<or>
     bpf_step f p wirelen buflen aux s = Stop (Faults BadShift) \<and> \<not> safe_shift (f ! nat (bpc s)))"
proof -
  note f = validate_checked [OF assms(1,2)]
  from reach_checked [OF assms(5) f assms(3,4)] have s: "checked_state f s" .
  from step_checked [OF f assms(3) s, of wirelen aux] s assms(5) show ?thesis
    by (auto simp: checked_state_def split: bpf_next.splits intro: bpf_reach.turn)
qed

lemma filter_returns:
  assumes "bpf_validate f" "length f < 2 ^ 32" "unat buflen \<le> length p" "length scratch = BPF_MEMWORDS"
    and "\<forall>i \<in> set f. insn_code i \<in> set known_codes \<and> forward_insn i \<and> safe_shift i"
  shows "\<exists>w. bpf_filter (Some f) p wirelen buflen scratch = Some (Accepts w)"
proof -
  let ?s = "\<lparr>bpc = 0, bA = 0, bX = 0, bmem = scratch\<rparr>"
  note f = validate_checked [OF assms(1,2)]
  have s: "checked_state f ?s" using f assms(4) by (simp add: checked_state_def checked_program_def)
  have fw: "\<forall>i \<in> set f. forward_insn i" using assms(5) by blast
  from forward_run_ends [OF f assms(3) fw s, of wirelen None] obtain r where
    r: "bpf_run f p wirelen buflen None ?s = Some r" by blast
  from run_stops [OF r bpf_reach.start] obtain s' where
    s': "bpf_reach f p wirelen buflen None scratch s'" "bpf_step f p wirelen buflen None s' = Stop r" by blast
  have c: "checked_state f s'" using reach_checked [OF s'(1) f assms(3,4)] .
  then have "current f s' \<in> set f" by (auto simp: checked_state_def intro!: nth_mem)
  with step_checked [OF f assms(3) c, of wirelen None] s'(2) assms(5) obtain w where "r = Accepts w" by auto
  with r show ?thesis by (simp add: bpf_filter_def bpf_filter_with_aux_data_def)
qed

text \<open>
  C38. Filters decide. A checked program whose codes the interpreter knows, whose jumps go forward and whose shifts are by
  constants below 32 returns a value on every packet, whatever its bytes and whatever the scratch memory holds at first;
  the packet is passed on exactly when that value is not zero.
\<close>

theorem bpf_filter_decides:
  assumes "bpf_validate f" "length f < 2 ^ 32" "unat buflen \<le> length p" "length scratch = BPF_MEMWORDS"
    and "\<forall>i \<in> set f. insn_code i \<in> set known_codes \<and> forward_insn i \<and> safe_shift i"
  shows "\<exists>w. bpf_filter (Some f) p wirelen buflen scratch = Some (Accepts w)"
  by (rule filter_returns [OF assms])

text \<open>A filter for IPv4 over Ethernet, as the compiler of libpcap writes it for the expression \<open>ip\<close>.\<close>

definition ip_filter :: "bpf_insn list" where
  "ip_filter =
     [\<lparr>insn_code = BPF_LD OR BPF_H OR BPF_ABS, insn_jt = 0, insn_jf = 0, insn_k = 12\<rparr>,
      \<lparr>insn_code = BPF_JMP OR BPF_JEQ OR BPF_K, insn_jt = 0, insn_jf = 1, insn_k = 0x800\<rparr>,
      \<lparr>insn_code = BPF_RET OR BPF_K, insn_jt = 0, insn_jf = 0, insn_k = 262144\<rparr>,
      \<lparr>insn_code = BPF_RET OR BPF_K, insn_jt = 0, insn_jf = 0, insn_k = 0\<rparr>]"

lemma ip_filter_valid: "bpf_validate ip_filter"
  by (simp add: ip_filter_def bpf_validate_def to_int32_id valid_insn_def valid_load_def valid_jump_def
      BPF_CLASS_def BPF_MODE_def BPF_OP_def bpf_codes Let_def)

theorem bpf_validated_sound_witness:
  "bpf_step ip_filter (replicate 14 0) 14 14 None \<lparr>bpc = 0, bA = 0, bX = 0, bmem = replicate 16 7\<rparr> =
     Next \<lparr>bpc = 1, bA = 0, bX = 0, bmem = replicate 16 7\<rparr> \<and>
   bpf_reach ip_filter (replicate 14 0) 14 14 None (replicate 16 7) \<lparr>bpc = 1, bA = 0, bX = 0, bmem = replicate 16 7\<rparr>"
proof -
  let ?s = "\<lparr>bpc = 0, bA = 0, bX = 0, bmem = replicate 16 7\<rparr> :: bpf_state"
  have step: "bpf_step ip_filter (replicate 14 0) 14 14 None ?s = Next \<lparr>bpc = 1, bA = 0, bX = 0, bmem = replicate 16 7\<rparr>"
    by (simp add: bpf_step_def bpf_insn_step_def bpf_ret_def bpf_abs_def ip_filter_def bpf_codes Let_def load_half_def set_A_def
        go_on_def get_be16_def get8_def)
  with bpf_validated_sound [OF ip_filter_valid, of 14 "replicate 14 0" "replicate 16 7" 14 None ?s] bpf_reach.start
  show ?thesis by (auto simp: ip_filter_def BPF_MEMWORDS_def)
qed

theorem bpf_filter_decides_witness:
  "\<exists>w. bpf_filter (Some ip_filter) (replicate 12 0 @ [8, 0]) 60 14 (replicate 16 7) = Some (Accepts w) \<and> w = 262144"
proof -
  have "\<exists>w. bpf_filter (Some ip_filter) (replicate 12 0 @ [8, 0]) 60 14 (replicate 16 7) = Some (Accepts w)"
    by (rule bpf_filter_decides [OF ip_filter_valid])
      (auto simp: ip_filter_def BPF_MEMWORDS_def known_codes_def forward_insn_def safe_shift_def bpf_codes)
  moreover have "bpf_filter (Some ip_filter) (replicate 12 0 @ [8, 0]) 60 14 (replicate 16 7) = Some (Accepts 262144)"
    by (simp add: bpf_filter_def bpf_filter_with_aux_data_def bpf_run.simps bpf_step_def bpf_insn_step_def bpf_ret_def
        bpf_abs_def bpf_ind_def bpf_scratch_def bpf_jump_def branch_def jump_def ip_filter_def bpf_codes Let_def load_half_def
        set_A_def go_on_def get_be16_def get8_def nth_append)
  ultimately show ?thesis by simp
qed

text \<open>
  What the check leaves open: a code of a known class that no case has, and a jump backwards. The first program
  aborts, the second never ends.
\<close>

definition bad_code :: "bpf_insn list" where
  "bad_code =
     [\<lparr>insn_code = BPF_LDX OR BPF_ABS, insn_jt = 0, insn_jf = 0, insn_k = 0\<rparr>,
      \<lparr>insn_code = BPF_RET OR BPF_K, insn_jt = 0, insn_jf = 0, insn_k = 0\<rparr>]"

definition endless :: "bpf_insn list" where
  "endless =
     [\<lparr>insn_code = BPF_JMP OR BPF_JA, insn_jt = 0, insn_jf = 0, insn_k = - 1\<rparr>,
      \<lparr>insn_code = BPF_RET OR BPF_K, insn_jt = 0, insn_jf = 0, insn_k = 0\<rparr>]"

lemma check_leaves_abort:
  "bpf_validate bad_code" "bpf_filter (Some bad_code) p wirelen buflen scratch = Some Aborts"
proof -
  show "bpf_validate bad_code"
    by (simp add: bad_code_def bpf_validate_def to_int32_id valid_insn_def valid_load_def BPF_CLASS_def BPF_MODE_def bpf_codes Let_def)
  have "insn_code (bad_code ! 0) \<notin> set known_codes" by (simp add: bad_code_def known_codes_def bpf_codes)
  then have "bpf_insn_step p wirelen buflen None (bad_code ! 0) s = None" for s by (simp add: known_code)
  then show "bpf_filter (Some bad_code) p wirelen buflen scratch = Some Aborts"
    by (simp add: bpf_filter_def bpf_filter_with_aux_data_def bpf_run.simps bpf_step_def) (simp add: bad_code_def)
qed

lemma check_leaves_loop:
  "bpf_validate endless" "bpf_filter (Some endless) p wirelen buflen scratch = None"
proof -
  show "bpf_validate endless"
    by (simp add: endless_def bpf_validate_def to_int32_id valid_insn_def valid_jump_def BPF_CLASS_def BPF_OP_def bpf_codes Let_def)
  let ?s = "\<lparr>bpc = 0, bA = 0, bX = 0, bmem = scratch\<rparr> :: bpf_state"
  have step: "bpf_step endless p wirelen buflen None ?s = Next ?s"
    by (simp add: endless_def bpf_step_def bpf_insn_step_def bpf_ret_def bpf_abs_def bpf_ind_def bpf_scratch_def
        bpf_jump_def jump_def bpf_codes Let_def)
  have stuck: "bpf_reach endless p wirelen buflen None scratch s \<Longrightarrow> s = ?s" for s
    by (induction rule: bpf_reach.induct) (simp_all add: step)
  have "bpf_run endless p wirelen buflen None ?s = None"
  proof (rule ccontr)
    assume "bpf_run endless p wirelen buflen None ?s \<noteq> None"
    then obtain r where "bpf_run endless p wirelen buflen None ?s = Some r" by blast
    from run_stops [OF this bpf_reach.start] stuck step show False by fastforce
  qed
  then show "bpf_filter (Some endless) p wirelen buflen scratch = None"
    by (simp add: bpf_filter_def bpf_filter_with_aux_data_def)
qed

end
