(* ===== verification/Link_Types.thy ===== *)
theory Link_Types
  imports Prelude
begin

text \<open>
  \<open>src/deps/libpcap/pcap-common.c\<close>: the numbers of link-layer types in savefiles and in memory, the largest
  packet of a type, and the change of byte order of the pseudo-headers some types have. Values are those of
  \<open>pcap/dlt.h\<close> on Linux. A frame is the list of its captured bytes; reading or writing outside it is \<open>None\<close>.
\<close>

unbundle bit_operations_syntax

section \<open>Link-layer types\<close>

definition DLT_EN10MB :: int where "DLT_EN10MB = 1"
definition DLT_LINUX_SLL :: int where "DLT_LINUX_SLL = 113"
definition DLT_USB_LINUX :: int where "DLT_USB_LINUX = 189"
definition DLT_USB_LINUX_MMAPPED :: int where "DLT_USB_LINUX_MMAPPED = 220"
definition DLT_DBUS :: int where "DLT_DBUS = 231"
definition DLT_NFLOG :: int where "DLT_NFLOG = 239"
definition DLT_PFSYNC :: int where "DLT_PFSYNC = 246"
definition DLT_PKTAP :: int where "DLT_PKTAP = 258"
definition DLT_MATCHING_MIN :: int where "DLT_MATCHING_MIN = 104"
definition DLT_MATCHING_MAX :: int where "DLT_MATCHING_MAX = 275"
definition LINKTYPE_PFSYNC :: int where "LINKTYPE_PFSYNC = 246"
definition LINKTYPE_PKTAP :: int where "LINKTYPE_PKTAP = 258"
definition LINKTYPE_MATCHING_MIN :: int where "LINKTYPE_MATCHING_MIN = 104"
definition LINKTYPE_MATCHING_MAX :: int where "LINKTYPE_MATCHING_MAX = 275"

text \<open>The pairs of a \<open>DLT_\<close> and a \<open>LINKTYPE_\<close> number, without the end mark.\<close>

definition linktype_map :: "(int \<times> int) list" where
  "linktype_map =
     [(0, 0), (1, 1), (2, 2), (3, 3), (4, 4), (5, 5), (6, 6), (7, 7), (8, 8), (9, 9), (10, 10), (99, 99),
      (11, 100), (12, 101), (15, 102), (16, 103), (104, 104), (19, 106), (50, 50), (51, 51)]"

fun map_dlt :: "(int \<times> int) list \<Rightarrow> int \<Rightarrow> int" where
  "map_dlt [] d = - 1"
| "map_dlt ((dlt, linktype) # ms) d = (if dlt = d then linktype else map_dlt ms d)"

fun map_linktype :: "(int \<times> int) list \<Rightarrow> int \<Rightarrow> int" where
  "map_linktype [] l = l"
| "map_linktype ((dlt, linktype) # ms) l = (if linktype = l then dlt else map_linktype ms l)"

definition dlt_to_linktype :: "int \<Rightarrow> int" where
  "dlt_to_linktype dlt =
     (if dlt = DLT_PFSYNC then LINKTYPE_PFSYNC
      else if dlt = DLT_PKTAP then LINKTYPE_PKTAP
      else if dlt \<ge> DLT_MATCHING_MIN \<and> dlt \<le> DLT_MATCHING_MAX then dlt
      else map_dlt linktype_map dlt)"

definition linktype_to_dlt :: "int \<Rightarrow> int" where
  "linktype_to_dlt linktype =
     (if linktype = LINKTYPE_PFSYNC then DLT_PFSYNC
      else if linktype = LINKTYPE_PKTAP then DLT_PKTAP
      else if linktype \<ge> LINKTYPE_MATCHING_MIN \<and> linktype \<le> LINKTYPE_MATCHING_MAX then linktype
      else map_linktype linktype_map linktype)"

definition MAXIMUM_SNAPLEN :: nat where "MAXIMUM_SNAPLEN = 262144"

definition max_snaplen_for_dlt :: "int \<Rightarrow> nat" where
  "max_snaplen_for_dlt dlt = (if dlt = DLT_DBUS then 134217728 else MAXIMUM_SNAPLEN)"

lemmas link_types =
  DLT_EN10MB_def DLT_LINUX_SLL_def DLT_USB_LINUX_def DLT_USB_LINUX_MMAPPED_def DLT_DBUS_def DLT_NFLOG_def
  DLT_PFSYNC_def DLT_PKTAP_def DLT_MATCHING_MIN_def DLT_MATCHING_MAX_def LINKTYPE_PFSYNC_def LINKTYPE_PKTAP_def
  LINKTYPE_MATCHING_MIN_def LINKTYPE_MATCHING_MAX_def

text \<open>
  A type with a number in savefiles is read back as itself, with one exception: 19, \<open>DLT_ATM_CLIP\<close>, is
  written as 106, which is in the matching range and read as 106.
\<close>

lemma dlt_roundtrip:
  assumes "dlt_to_linktype dlt \<noteq> - 1" "dlt \<noteq> 19"
  shows "linktype_to_dlt (dlt_to_linktype dlt) = dlt" "0 \<le> dlt_to_linktype dlt" "dlt_to_linktype dlt < 276"
  using assms by (auto simp: dlt_to_linktype_def linktype_to_dlt_def link_types linktype_map_def split: if_splits)

lemma atm_clip_lost: "linktype_to_dlt (dlt_to_linktype 19) = 106"
  by (simp add: dlt_to_linktype_def linktype_to_dlt_def link_types linktype_map_def)

lemma max_snaplen_bounds: "0 < max_snaplen_for_dlt dlt" "max_snaplen_for_dlt dlt \<le> 2 ^ 27"
  by (simp_all add: max_snaplen_for_dlt_def MAXIMUM_SNAPLEN_def)

section \<open>Byte order\<close>

definition SWAPLONG :: "u32 \<Rightarrow> u32" where
  "SWAPLONG y =
     push_bit 24 (y AND 0xff) OR push_bit 8 (y AND 0xff00) OR drop_bit 8 (y AND 0xff0000) OR (drop_bit 24 y AND 0xff)"

definition SWAPSHORT :: "u16 \<Rightarrow> u16" where
  "SWAPSHORT y = push_bit 8 (y AND 0xff) OR drop_bit 8 (y AND 0xff00)"

definition le16 :: "byte \<Rightarrow> byte \<Rightarrow> u16" where
  "le16 a b = word_of_nat (unat a + unat b * 256)"

definition get_le16 :: "byte list \<Rightarrow> nat \<Rightarrow> u16 option" where
  "get_le16 bs i = do { a \<leftarrow> get8 bs i; b \<leftarrow> get8 bs (i + 1); Some (le16 a b) }"

definition put_le16 :: "u16 \<Rightarrow> byte list" where
  "put_le16 w = rev (put_be16 w)"

lemma byte_bits: "bit (b :: byte) n \<Longrightarrow> n < 8" "8 \<le> n \<Longrightarrow> \<not> bit (b :: byte) n"
  using bit_imp_le_length [of b n] by auto

lemma le32_bits: "le32 a b c d = ucast a OR push_bit 8 (ucast b) OR push_bit 16 (ucast c) OR push_bit 24 (ucast d)"
proof -
  let ?a = "ucast a :: u32" and ?b = "push_bit 8 (ucast b) :: u32" and ?c = "push_bit 16 (ucast c) :: u32" and ?d = "push_bit 24 (ucast d) :: u32"
  have dis: "?a AND ?b = 0" "(?a OR ?b) AND ?c = 0" "(?a OR ?b OR ?c) AND ?d = 0"
    by (auto intro!: bit_word_eqI simp: bit_simps byte_bits(2))
  have "le32 a b c d = ?a + ?b + ?c + ?d" by (simp add: le32_def push_bit_eq_mult mult.commute)
  also have "\<dots> = ?a OR ?b OR ?c OR ?d" using dis by (simp add: disjunctive_add_eq_or or.assoc)
  finally show ?thesis .
qed

lemma le32_pieces:
  "le32 a b c d AND mask 8 = ucast a" "le32 a b c d AND push_bit 8 (mask 8) = push_bit 8 (ucast b)"
  "le32 a b c d AND push_bit 16 (mask 8) = push_bit 16 (ucast c)" "drop_bit 24 (le32 a b c d) AND mask 8 = ucast d"
  unfolding le32_bits
  by (rule bit_word_eqI; auto simp: bit_simps byte_bits(2); (drule byte_bits(1))+; linarith)+

lemma SWAPLONG_le32: "SWAPLONG (le32 a b c d) = le32 d c b a"
proof -
  have masks: "(0xff :: u32) = mask 8" "(0xff00 :: u32) = push_bit 8 (mask 8)" "(0xff0000 :: u32) = push_bit 16 (mask 8)"
    by (simp_all add: mask_eq_exp_minus_1)
  have "drop_bit 8 (push_bit 16 (ucast c)) = (push_bit 8 (ucast c) :: u32)"
    by (rule bit_word_eqI; auto simp: bit_simps byte_bits(2); (drule byte_bits(1))+; linarith)
  then show ?thesis unfolding SWAPLONG_def masks le32_pieces by (simp add: le32_bits ac_simps)
qed

lemma le16_bits: "le16 a b = ucast a OR push_bit 8 (ucast b)"
proof -
  have "ucast a AND push_bit 8 (ucast b :: u16) = 0" by (auto intro!: bit_word_eqI simp: bit_simps byte_bits(2))
  then show ?thesis by (simp add: le16_def push_bit_eq_mult mult.commute flip: disjunctive_add_eq_or)
qed

lemma SWAPSHORT_le16: "SWAPSHORT (le16 a b) = le16 b a"
proof -
  have masks: "(0xff :: u16) = mask 8" "(0xff00 :: u16) = push_bit 8 (mask 8)" by (simp_all add: mask_eq_exp_minus_1)
  have "le16 a b AND mask 8 = ucast a" "drop_bit 8 (le16 a b AND push_bit 8 (mask 8)) = ucast b"
    unfolding le16_bits by (rule bit_word_eqI; auto simp: bit_simps byte_bits(2); (drule byte_bits(1))+; linarith)+
  then show ?thesis unfolding SWAPSHORT_def masks by (simp add: le16_bits ac_simps)
qed

text \<open>Fields in either byte order, read in that of the host.\<close>

lemma put_le32_bytes: "\<exists>a b c d. put_le32 w = [a, b, c, d] \<and> put_be32 w = [d, c, b, a] \<and> le32 a b c d = w"
  using get_le32_put [of w "[]"] by (auto simp: put_le32_def put_be32_def get_le32_def get8_def)

lemma get_le32_put_be: "get_le32 (put_be32 w @ xs) 0 = Some (SWAPLONG w)"
proof -
  obtain a b c d where w: "put_be32 w = [d, c, b, a]" "le32 a b c d = w" using put_le32_bytes by blast
  then have "SWAPLONG w = le32 d c b a" using SWAPLONG_le32 by blast
  with w(1) show ?thesis by (simp add: get_le32_def get8_def)
qed

lemma SWAPLONG_SWAPLONG [simp]: "SWAPLONG (SWAPLONG w) = w"
proof -
  obtain a b c d where "le32 a b c d = w" using put_le32_bytes by blast
  then show ?thesis using SWAPLONG_le32 by metis
qed

lemma put_le16_bytes: "\<exists>a b. put_le16 w = [a, b] \<and> put_be16 w = [b, a] \<and> le16 a b = w"
proof -
  have "unat w div 256 < 256" using unat_u16 [of w] by (simp add: div_less_iff_less_mult)
  then have "le16 (word_of_nat (unat w mod 256)) (word_of_nat (unat w div 256)) = word_of_nat (unat w mod 256 + unat w div 256 * 256)"
    by (simp add: le16_def unat_of_nat_byte del: of_nat_add of_nat_mult)
  also have "\<dots> = w" by (simp only: mod_div_mult_eq) simp
  finally show ?thesis by (auto simp: put_le16_def put_be16_def)
qed

lemma get_le16_put: "get_le16 (put_le16 w @ xs) 0 = Some w" "get_le16 (put_be16 w @ xs) 0 = Some (SWAPSHORT w)"
proof -
  obtain a b where w: "put_le16 w = [a, b]" "put_be16 w = [b, a]" "le16 a b = w" using put_le16_bytes by blast
  then have "SWAPSHORT w = le16 b a" using SWAPSHORT_le16 by blast
  with w show "get_le16 (put_le16 w @ xs) 0 = Some w" "get_le16 (put_be16 w @ xs) 0 = Some (SWAPSHORT w)"
    by (simp_all add: get_le16_def get8_def le16_def)
qed

lemma SWAPSHORT_SWAPSHORT [simp]: "SWAPSHORT (SWAPSHORT w) = w"
proof -
  obtain a b where "le16 a b = w" using put_le16_bytes by blast
  then show ?thesis using SWAPSHORT_le16 by metis
qed

text \<open>
  A field of \<open>w\<close> bytes at \<open>o\<close> is read, swapped and written back: its bytes are reversed, which is what the
  macros \<open>SWAPSHORT\<close>, \<open>SWAPLONG\<close> and \<open>SWAPLL\<close> do to the value they represent.
\<close>

definition swap_at :: "nat \<Rightarrow> nat \<Rightarrow> byte list \<Rightarrow> byte list option" where
  "swap_at k w bs = (if k + w \<le> length bs then Some (take k bs @ rev (take w (drop k bs)) @ drop (k + w) bs) else None)"

lemma digit256: "(r :: nat) < 256 \<Longrightarrow> (r + 256 * q) mod 256 = r" "(r :: nat) < 256 \<Longrightarrow> (r + 256 * q) div 256 = q"
  by simp_all

lemma put_le32_le32: "put_le32 (le32 a b c d) = [a, b, c, d]"
proof -
  let ?n = "unat (le32 a b c d)"
  have "unat a + unat b * 256 + unat c * 65536 + unat d * 16777216 < 4294967296"
    using unat_byte [of a] unat_byte [of b] unat_byte [of c] unat_byte [of d] by linarith
  then have "?n = unat a + unat b * 256 + unat c * 65536 + unat d * 16777216"
    by (simp add: le32_def unat_of_nat del: of_nat_add of_nat_mult)
  then have n: "?n = unat a + 256 * (unat b + 256 * (unat c + 256 * unat d))" by simp
  have "?n div 65536 = ?n div 256 div 256" "?n div 16777216 = ?n div 256 div 256 div 256"
    by (simp_all flip: div_mult2_eq)
  then have "?n mod 256 = unat a" "?n div 256 mod 256 = unat b" "?n div 65536 mod 256 = unat c" "?n div 16777216 mod 256 = unat d"
    unfolding n by (simp_all only: digit256 unat_byte mod_less)
  then show ?thesis by (simp add: put_le32_def put_be32_def word_unat_eq_iff unat_of_nat)
qed

lemma swap_at_long:
  assumes "get_le32 bs k = Some w"
  shows "swap_at k 4 bs = Some (take k bs @ put_le32 (SWAPLONG w) @ drop (k + 4) bs)"
proof -
  have k: "k + 3 < length bs" using assms by (auto simp: get_le32_def get8_def split: if_splits bind_splits)
  then have "take 4 (drop k bs) = [bs ! k, bs ! (k + 1), bs ! (k + 2), bs ! (k + 3)]"
    by (intro nth_equalityI) (auto simp: less_Suc_eq numeral_eq_Suc)
  moreover have "w = le32 (bs ! k) (bs ! (k + 1)) (bs ! (k + 2)) (bs ! (k + 3))" using assms k by (simp add: get_le32_Some)
  ultimately show ?thesis using k by (simp add: swap_at_def SWAPLONG_le32 put_le32_le32)
qed

section \<open>Pseudo-headers\<close>

definition swap_linux_sll_header :: "u32 \<Rightarrow> u32 \<Rightarrow> byte list \<Rightarrow> byte list option" where
  "swap_linux_sll_header caplen len buf =
     (if caplen < 16 \<or> len < 16 then Some buf
      else do {
        protocol \<leftarrow> get_be16 buf 14;
        if protocol \<noteq> 0x000C \<and> protocol \<noteq> 0x000D then Some buf
        else if caplen < 20 \<or> len < 20 then Some buf
        else swap_at 16 4 buf
      })"

text \<open>
  The fields of a USB header one after the other: the next is \<open>w\<close> bytes long and ends at \<open>offset\<close>; the first one that
  was not captured ends the function. \<open>Inl\<close> is the value at an early return.
\<close>

definition swap_field :: "u32 \<Rightarrow> nat \<Rightarrow> nat \<Rightarrow> byte list \<Rightarrow> (byte list + byte list) option" where
  "swap_field caplen offset w buf =
     (if unat caplen < offset then Some (Inl buf) else map_option Inr (swap_at (offset - w) w buf))"

fun swap_fields :: "u32 \<Rightarrow> (nat \<times> nat) list \<Rightarrow> byte list \<Rightarrow> (byte list + byte list) option" where
  "swap_fields caplen [] buf = Some (Inr buf)"
| "swap_fields caplen ((offset, w) # fs) buf =
     (case swap_field caplen offset w buf of
        None \<Rightarrow> None
      | Some (Inl buf) \<Rightarrow> Some (Inl buf)
      | Some (Inr buf) \<Rightarrow> swap_fields caplen fs buf)"

fun swap_isodesc :: "u32 \<Rightarrow> nat \<Rightarrow> nat \<Rightarrow> byte list \<Rightarrow> byte list option" where
  "swap_isodesc caplen offset 0 buf = Some buf"
| "swap_isodesc caplen offset (Suc n) buf =
     (case swap_fields caplen [(offset + 4, 4), (offset + 8, 4), (offset + 12, 4)] buf of
        None \<Rightarrow> None
      | Some (Inl buf) \<Rightarrow> Some buf
      | Some (Inr buf) \<Rightarrow> swap_isodesc caplen (offset + 16) n buf)"

definition URB_ISOCHRONOUS :: byte where "URB_ISOCHRONOUS = 0"

definition swap_linux_usb_header :: "u32 \<Rightarrow> byte list \<Rightarrow> bool \<Rightarrow> byte list option" where
  "swap_linux_usb_header caplen buf header_len_64_bytes =
     (case swap_fields caplen [(8, 8), (14, 2), (24, 8), (28, 4), (32, 4), (36, 4), (40, 4)] buf of
        None \<Rightarrow> None
      | Some (Inl buf) \<Rightarrow> Some buf
      | Some (Inr buf) \<Rightarrow>
          do {
            transfer_type \<leftarrow> get8 buf 9;
            r \<leftarrow> (if transfer_type = URB_ISOCHRONOUS then swap_fields caplen [(44, 4), (48, 4)] buf else Some (Inr buf));
            case r of
              Inl buf \<Rightarrow> Some buf
            | Inr buf \<Rightarrow>
                if \<not> header_len_64_bytes then Some buf
                else
                  (case swap_fields caplen [(52, 4), (56, 4), (60, 4), (64, 4)] buf of
                     None \<Rightarrow> None
                   | Some (Inl buf) \<Rightarrow> Some buf
                   | Some (Inr buf) \<Rightarrow>
                       do {
                         transfer_type \<leftarrow> get8 buf 9;
                         ndesc \<leftarrow> get_le32 buf 60;
                         if transfer_type = URB_ISOCHRONOUS then swap_isodesc caplen 64 (unat ndesc) buf else Some buf
                       })
          })"

text \<open>The TLVs of an NFLOG header from \<open>p\<close> on, with \<open>caplen\<close> and \<open>len\<close> bytes left.\<close>

definition tlv_size :: "u16 \<Rightarrow> u16" where
  "tlv_size n = (if n mod 4 \<noteq> 0 then n + (4 - n mod 4) else n)"

function swap_tlvs :: "nat \<Rightarrow> nat \<Rightarrow> nat \<Rightarrow> byte list \<Rightarrow> byte list option" where
  "swap_tlvs caplen len p buf =
     (if caplen < 4 then Some buf
      else
        (case swap_at (p + 2) 2 buf of
           None \<Rightarrow> None
         | Some buf \<Rightarrow>
             (case swap_at p 2 buf of
                None \<Rightarrow> None
              | Some buf \<Rightarrow>
                  (case get_le16 buf p of
                     None \<Rightarrow> None
                   | Some tlv_length \<Rightarrow>
                       (let sz = unat (tlv_size tlv_length) in
                        if sz < 4 then Some buf
                        else if caplen < sz \<or> len < sz then Some buf
                        else swap_tlvs (caplen - sz) (len - sz) (p + sz) buf)))))"
  by pat_completeness auto
termination
  by (relation "measure (\<lambda>(caplen, len, p, buf). caplen)") auto

declare swap_tlvs.simps [simp del]

definition swap_nflog_header :: "u32 \<Rightarrow> u32 \<Rightarrow> byte list \<Rightarrow> byte list option" where
  "swap_nflog_header caplen len buf =
     (if caplen < 4 \<or> len < 4 then Some buf
      else do {
        nflog_version \<leftarrow> get8 buf 1;
        if nflog_version \<noteq> 0 then Some buf
        else swap_tlvs (unat caplen - 4) (unat len - 4) 4 buf
      })"

definition swap_pseudo_headers :: "int \<Rightarrow> u32 \<Rightarrow> u32 \<Rightarrow> byte list \<Rightarrow> byte list option" where
  "swap_pseudo_headers linktype caplen len data =
     (if linktype = DLT_LINUX_SLL then swap_linux_sll_header caplen len data
      else if linktype = DLT_USB_LINUX then swap_linux_usb_header caplen data False
      else if linktype = DLT_USB_LINUX_MMAPPED then swap_linux_usb_header caplen data True
      else if linktype = DLT_NFLOG then swap_nflog_header caplen len data
      else Some data)"

section \<open>They stay in the frame\<close>

lemma swap_at_length: "swap_at k w bs = Some bs' \<Longrightarrow> length bs' = length bs"
  by (auto simp: swap_at_def split: if_splits)

lemma swap_at_Some: "k + w \<le> length bs \<Longrightarrow> \<exists>bs'. swap_at k w bs = Some bs' \<and> length bs' = length bs"
  by (auto simp: swap_at_def)

definition kept_length :: "byte list \<Rightarrow> (byte list + byte list) option \<Rightarrow> bool" where
  "kept_length buf r \<longleftrightarrow> (\<exists>b. (r = Some (Inl b) \<or> r = Some (Inr b)) \<and> length b = length buf)"

lemma swap_fields_kept:
  "unat caplen \<le> length buf \<Longrightarrow> \<forall>(offset, w) \<in> set fs. w \<le> offset \<Longrightarrow> kept_length buf (swap_fields caplen fs buf)"
proof (induction fs arbitrary: buf)
  case (Cons f fs)
  obtain offset w where f: "f = (offset, w)" by fastforce
  show ?case
  proof (cases "unat caplen < offset")
    case False
    with Cons.prems f have "offset - w + w \<le> length buf" by auto
    then obtain b where "swap_at (offset - w) w buf = Some b" "length b = length buf" using swap_at_Some by blast
    with Cons.IH [of b] Cons.prems False f show ?thesis by (auto simp: swap_field_def kept_length_def)
  qed (simp add: f swap_field_def kept_length_def)
qed (simp add: kept_length_def)

lemma swap_fields_Inr: "swap_fields caplen fs buf = Some (Inr b) \<Longrightarrow> \<forall>(offset, w) \<in> set fs. offset \<le> unat caplen"
proof (induction fs arbitrary: buf)
  case (Cons f fs)
  then show ?case by (cases f) (auto simp: swap_field_def split: if_splits option.splits sum.splits)
qed simp

lemma swap_isodesc_kept:
  "unat caplen \<le> length buf \<Longrightarrow> \<exists>b. swap_isodesc caplen offset n buf = Some b \<and> length b = length buf"
proof (induction n arbitrary: offset buf)
  case (Suc n)
  let ?fs = "[(offset + 4, 4), (offset + 8, 4), (offset + 12, 4)]"
  from swap_fields_kept [OF Suc.prems, of ?fs] obtain b where
    b: "swap_fields caplen ?fs buf = Some (Inl b) \<or> swap_fields caplen ?fs buf = Some (Inr b)" "length b = length buf"
    unfolding kept_length_def by auto
  with Suc.IH [of b "offset + 16"] Suc.prems show ?case by (auto simp del: swap_fields.simps)
qed simp

lemma swap_usb_kept:
  assumes "unat caplen \<le> length buf"
  shows "\<exists>b. swap_linux_usb_header caplen buf big = Some b \<and> length b = length buf"
proof -
  let ?F = "[(8, 8), (14, 2), (24, 8), (28, 4), (32, 4), (36, 4), (40, 4)]" and ?G = "[(44, 4), (48, 4)]"
    and ?H = "[(52, 4), (56, 4), (60, 4), (64, 4)] :: (nat \<times> nat) list"
  from swap_fields_kept [OF assms, of ?F] consider (stop) b where "swap_fields caplen ?F buf = Some (Inl b)" "length b = length buf"
    | (go) b where "swap_fields caplen ?F buf = Some (Inr b)" "length b = length buf" by (auto simp: kept_length_def simp del: swap_fields.simps)
  then show ?thesis
  proof cases
    case stop
    then show ?thesis by (simp add: swap_linux_usb_header_def del: swap_fields.simps)
  next
    case (go b)
    have "40 \<le> unat caplen" using swap_fields_Inr [OF go(1)] by simp
    then have len: "unat caplen \<le> length b" "9 < length b" using assms go(2) by auto
    define r where "r = (if b ! 9 = URB_ISOCHRONOUS then swap_fields caplen ?G b else Some (Inr b))"
    have r: "kept_length b r" using swap_fields_kept [OF len(1), of ?G] by (simp add: r_def kept_length_def)
    have start: "swap_linux_usb_header caplen buf big =
        (case r of None \<Rightarrow> None | Some (Inl c) \<Rightarrow> Some c | Some (Inr c) \<Rightarrow>
           if \<not> big then Some c
           else (case swap_fields caplen ?H c of None \<Rightarrow> None | Some (Inl c) \<Rightarrow> Some c
                 | Some (Inr c) \<Rightarrow> do { t \<leftarrow> get8 c 9; n \<leftarrow> get_le32 c 60;
                     if t = URB_ISOCHRONOUS then swap_isodesc caplen 64 (unat n) c else Some c }))"
      using go(1) len(2) unfolding swap_linux_usb_header_def r_def
      by (simp add: get8_Some del: swap_fields.simps split: option.splits sum.splits)
    have rest: "\<exists>c'. (case swap_fields caplen ?H c of None \<Rightarrow> None | Some (Inl c) \<Rightarrow> Some c
                 | Some (Inr c) \<Rightarrow> do { t \<leftarrow> get8 c 9; n \<leftarrow> get_le32 c 60;
                     if t = URB_ISOCHRONOUS then swap_isodesc caplen 64 (unat n) c else Some c }) = Some c' \<and> length c' = length c"
      if c: "length c = length b" for c
    proof -
      have l: "unat caplen \<le> length c" using len(1) c by simp
      from swap_fields_kept [OF l, of ?H] consider (stop) d where "swap_fields caplen ?H c = Some (Inl d)" "length d = length c"
        | (go) d where "swap_fields caplen ?H c = Some (Inr d)" "length d = length c" by (auto simp: kept_length_def simp del: swap_fields.simps)
      then show ?thesis
      proof cases
        case (go d)
        have "64 \<le> unat caplen" using swap_fields_Inr [OF go(1)] by simp
        then have "unat caplen \<le> length d" "9 < length d" "60 + 3 < length d" using l go(2) by auto
        then show ?thesis using go swap_isodesc_kept [of caplen d 64] by (simp add: get8_Some get_le32_Some del: swap_fields.simps)
      qed (simp del: swap_fields.simps)
    qed
    from r start rest go(2) show ?thesis by (auto simp: kept_length_def)
  qed
qed

lemma swap_tlvs_kept:
  "p + caplen \<le> length buf \<Longrightarrow> \<exists>b. swap_tlvs caplen len p buf = Some b \<and> length b = length buf"
proof (induction caplen len p buf rule: swap_tlvs.induct)
  case (1 caplen len p buf)
  show ?case
  proof (cases "caplen < 4")
    case False
    with "1.prems" obtain b1 where b1: "swap_at (p + 2) 2 buf = Some b1" "length b1 = length buf" using swap_at_Some [of "p + 2" 2 buf] by auto
    then obtain b2 where b2: "swap_at p 2 b1 = Some b2" "length b2 = length b1" using swap_at_Some [of p 2 b1] False "1.prems" by auto
    obtain t where t: "get_le16 b2 p = Some t" using False "1.prems" b1 b2 by (simp add: get_le16_def get8_Some)
    from "1.IH" [OF False b1(1) b2(1) t refl] "1.prems" b1 b2 t False show ?thesis
      by (subst swap_tlvs.simps) (auto simp: Let_def)
  qed (subst swap_tlvs.simps, simp)
qed

lemma swap_pseudo_headers_kept:
  assumes "unat caplen \<le> length data"
  shows "\<exists>b. swap_pseudo_headers linktype caplen len data = Some b \<and> length b = length data"
proof -
  have nat: "\<not> caplen < 4 \<Longrightarrow> 4 \<le> unat caplen" "\<not> caplen < 16 \<Longrightarrow> 16 \<le> unat caplen" "\<not> caplen < 20 \<Longrightarrow> 20 \<le> unat caplen"
    by (simp_all add: not_less word_le_nat_alt)
  have "\<exists>b. swap_linux_sll_header caplen len data = Some b \<and> length b = length data"
    using nat assms swap_at_Some [of 16 4 data] by (auto simp: swap_linux_sll_header_def get_be16_Some)
  moreover have "\<exists>b. swap_nflog_header caplen len data = Some b \<and> length b = length data"
    using nat(1) assms swap_tlvs_kept [of 4 "unat caplen - 4" data "unat len - 4"]
    by (auto simp: swap_nflog_header_def get8_Some)
  ultimately show ?thesis using swap_usb_kept [OF assms] by (simp add: swap_pseudo_headers_def)
qed

end
