(* ===== verification/Savefile.thy ===== *)
theory Savefile
  imports Sniffer Bpf Link_Types
begin

text \<open>
  Savefiles of libpcap, \<open>src/deps/libpcap/sf-pcap.c\<close>: the format the program's option to record a capture
  writes through \<open>pcap_dump\<close>, and how its header and its packets are read. A stream
  that is read is the list of the bytes to come and whether they end in a read error; one that is written
  is the list of the bytes written and how many more it takes. A store outside the packet buffer is \<open>None\<close>.
\<close>

unbundle bit_operations_syntax

section \<open>Streams\<close>

record rstream =
  st_data :: "byte list"
  st_error :: bool

definition fread :: "nat \<Rightarrow> rstream \<Rightarrow> byte list \<times> rstream" where
  "fread n fp = (take n (st_data fp), fp\<lparr>st_data := drop n (st_data fp)\<rparr>)"

record wfile =
  written :: "byte list"
  space :: "nat option"

definition fwrite :: "byte list \<Rightarrow> wfile \<Rightarrow> bool \<times> wfile" where
  "fwrite bs f =
     (let n = (case space f of None \<Rightarrow> length bs | Some k \<Rightarrow> min k (length bs))
      in (n = length bs, f\<lparr>written := written f @ take n bs, space := map_option (\<lambda>k. k - n) (space f)\<rparr>))"

section \<open>Handles\<close>

definition TCPDUMP_MAGIC :: u32 where "TCPDUMP_MAGIC = 0xa1b2c3d4"
definition KUZNETZOV_TCPDUMP_MAGIC :: u32 where "KUZNETZOV_TCPDUMP_MAGIC = 0xa1b2cd34"
definition NSEC_TCPDUMP_MAGIC :: u32 where "NSEC_TCPDUMP_MAGIC = 0xa1b23c4d"
definition PCAP_VERSION_MAJOR :: u16 where "PCAP_VERSION_MAJOR = 2"
definition PCAP_VERSION_MINOR :: u16 where "PCAP_VERSION_MINOR = 4"
definition PCAP_TSTAMP_PRECISION_MICRO :: u32 where "PCAP_TSTAMP_PRECISION_MICRO = 0"
definition PCAP_TSTAMP_PRECISION_NANO :: u32 where "PCAP_TSTAMP_PRECISION_NANO = 1"

definition LT_LINKTYPE :: "u32 \<Rightarrow> u32" where "LT_LINKTYPE x = x AND 0x03FFFFFF"
definition LT_LINKTYPE_EXT :: "u32 \<Rightarrow> u32" where "LT_LINKTYPE_EXT x = x AND 0xFC000000"

datatype swapped_type_t = NOT_SWAPPED | SWAPPED | MAYBE_SWAPPED

datatype tstamp_scale_type_t = PASS_THROUGH | SCALE_UP | SCALE_DOWN

text \<open>The two layouts of a packet header, and their sizes.\<close>

datatype sf_hdr = Plain_Hdr | Patched_Hdr

fun hdrsize :: "sf_hdr \<Rightarrow> nat" where
  "hdrsize Plain_Hdr = 16"
| "hdrsize Patched_Hdr = 24"

record file_header =
  fh_major :: u16
  fh_minor :: u16
  fh_thiszone :: u32
  fh_sigfigs :: u32
  fh_snaplen :: u32
  fh_linktype :: u32

text \<open>What the reader of the other format, pcapng, keeps: its interfaces, and how much room its block buffer has.\<close>

datatype ng_scale_type = NG_PASS_THROUGH | SCALE_UP_DEC | SCALE_DOWN_DEC | SCALE_UP_BIN | SCALE_DOWN_BIN

record pcap_ng_if =
  tsresol :: u64
  scale_type :: ng_scale_type
  scale_factor :: u64
  tsoffset :: u64

record pcap_ng_sf =
  user_tsresol :: u64
  max_blocksize :: u32
  ifcount :: u32
  ifaces_size :: u32
  ifaces :: "pcap_ng_if option list"
  block_room :: nat

text \<open>A handle; \<open>pt_ng\<close> is the private data of a pcapng file, \<open>pt_hdr\<close>, \<open>pt_lengths\<close> and \<open>pt_scale\<close> those of the others.\<close>

record pcap_t =
  pt_swapped :: bool
  pt_major :: u16
  pt_minor :: u16
  pt_tzoff :: int
  pt_snapshot :: int
  pt_linktype :: int
  pt_linktype_ext :: u32
  pt_precision :: u32
  pt_hdr :: sf_hdr
  pt_lengths :: swapped_type_t
  pt_scale :: tstamp_scale_type_t
  pt_bufsize :: nat
  pt_rfile :: rstream
  pt_fcode :: "bpf_insn list option"
  pt_break :: bool
  pt_activated :: bool
  pt_ng :: "pcap_ng_sf option"

text \<open>The error texts, with the numbers they show.\<close>

datatype sf_error =
    Read_Error
  | Truncated_Header nat nat
  | Archaic_Format
  | Unsupported_Version u16 u16
  | Unknown_Resolution u32
  | Out_Of_Memory
  | Truncated_Record nat nat
  | Caplen_Over_Snaplen u32 int
  | Caplen_Over_Maximum u32 nat
  | Truncated_Packet nat nat
  | Unknown_Format
  | Truncated_Read nat nat
  | Block_Too_Big u32
  | Block_Too_Small u32
  | Block_Over_Maximum u32
  | Block_Too_Short u32
  | Endofopt_Length u16
  | Tsresol_Length u16
  | Tsresol_Repeated
  | Tsresol_Too_High bool byte
  | Tsoffset_Length u16
  | Tsoffset_Repeated
  | Too_Many_Interfaces
  | No_Memory_For_Interfaces u32
  | Section_Too_Short u32
  | No_Interfaces
  | Packet_Before_Interfaces
  | Different_Linktype u16
  | Different_Snaplen u32
  | Different_Byte_Order
  | Bad_Byte_Order_Magic
  | Unknown_Major_Version u16
  | Unknown_Interface u32

datatype 'p opened = Not_Mine | Failed sf_error | Opened 'p

section \<open>Opening\<close>

definition decode_file_header :: "byte list \<Rightarrow> file_header option" where
  "decode_file_header bs = do {
     major \<leftarrow> get_le16 bs 0;
     minor \<leftarrow> get_le16 bs 2;
     thiszone \<leftarrow> get_le32 bs 4;
     sigfigs \<leftarrow> get_le32 bs 8;
     snaplen \<leftarrow> get_le32 bs 12;
     linktype \<leftarrow> get_le32 bs 16;
     Some \<lparr>fh_major = major, fh_minor = minor, fh_thiszone = thiszone, fh_sigfigs = sigfigs,
           fh_snaplen = snaplen, fh_linktype = linktype\<rparr>
   }"

definition swap_file_header :: "file_header \<Rightarrow> file_header" where
  "swap_file_header h =
     \<lparr>fh_major = SWAPSHORT (fh_major h), fh_minor = SWAPSHORT (fh_minor h), fh_thiszone = SWAPLONG (fh_thiszone h),
      fh_sigfigs = SWAPLONG (fh_sigfigs h), fh_snaplen = SWAPLONG (fh_snaplen h), fh_linktype = SWAPLONG (fh_linktype h)\<rparr>"

definition pcap_magic :: "u32 \<Rightarrow> bool" where
  "pcap_magic m \<longleftrightarrow> m = TCPDUMP_MAGIC \<or> m = KUZNETZOV_TCPDUMP_MAGIC \<or> m = NSEC_TCPDUMP_MAGIC"

definition scale_for :: "u32 \<Rightarrow> u32 \<Rightarrow> tstamp_scale_type_t option" where
  "scale_for precision magic =
     (if precision = PCAP_TSTAMP_PRECISION_MICRO then
        Some (if magic = NSEC_TCPDUMP_MAGIC then SCALE_DOWN else PASS_THROUGH)
      else if precision = PCAP_TSTAMP_PRECISION_NANO then
        Some (if magic = NSEC_TCPDUMP_MAGIC then PASS_THROUGH else SCALE_UP)
      else None)"

definition lengths_for :: "file_header \<Rightarrow> swapped_type_t" where
  "lengths_for h =
     (if fh_major h = 2 then
        (if fh_minor h < 3 then SWAPPED else if fh_minor h = 3 then MAYBE_SWAPPED else NOT_SWAPPED)
      else if fh_major h = 543 then SWAPPED
      else NOT_SWAPPED)"

text \<open>The fields of the handle; \<open>snapshot += 14\<close> wraps around for the largest lengths.\<close>

definition sf_handle ::
    "bool \<Rightarrow> u32 \<Rightarrow> u32 \<Rightarrow> tstamp_scale_type_t \<Rightarrow> file_header \<Rightarrow> rstream \<Rightarrow> pcap_t" where
  "sf_handle swapped magic precision scale hdr fp =
     (let snapshot = sint (fh_snaplen hdr);
          snapshot = (if snapshot \<le> 0 then int (max_snaplen_for_dlt (sint (fh_linktype hdr))) else snapshot);
          linktype = linktype_to_dlt (sint (LT_LINKTYPE (fh_linktype hdr)));
          patched = (magic = KUZNETZOV_TCPDUMP_MAGIC);
          snapshot = (if patched \<and> linktype = DLT_EN10MB then to_int32 (snapshot + 14) else snapshot)
      in \<lparr>pt_swapped = swapped, pt_major = fh_major hdr, pt_minor = fh_minor hdr, pt_tzoff = sint (fh_thiszone hdr),
          pt_snapshot = snapshot, pt_linktype = linktype, pt_linktype_ext = LT_LINKTYPE_EXT (fh_linktype hdr),
          pt_precision = precision, pt_hdr = (if patched then Patched_Hdr else Plain_Hdr), pt_lengths = lengths_for hdr,
          pt_scale = scale, pt_bufsize = min 2048 (unat (word_of_int snapshot :: u32)), pt_rfile = fp, pt_fcode = None,
          pt_break = False, pt_activated = False, pt_ng = None\<rparr>)"

definition pcap_check_header ::
    "u32 \<Rightarrow> rstream \<Rightarrow> u32 \<Rightarrow> mem \<Rightarrow> (pcap_t opened \<times> rstream \<times> mem) option" where
  "pcap_check_header magic fp precision m =
     (let swapped = (\<not> pcap_magic magic);
          magic = (if swapped then SWAPLONG magic else magic)
      in
      if \<not> pcap_magic magic then Some (Not_Mine, fp, m)
      else
        (case fread 20 fp of
           (bytes, fp) \<Rightarrow>
             if length bytes \<noteq> 20 then
               Some (Failed (if st_error fp then Read_Error else Truncated_Header 24 (length bytes)), fp, m)
             else
               (case decode_file_header bytes of
                  None \<Rightarrow> None
                | Some hdr \<Rightarrow>
                    (let hdr = (if swapped then swap_file_header hdr else hdr) in
                     if fh_major hdr < PCAP_VERSION_MAJOR then Some (Failed Archaic_Format, fp, m)
                     else if \<not> (fh_major hdr = PCAP_VERSION_MAJOR \<and> fh_minor hdr \<le> PCAP_VERSION_MINOR \<or>
                                fh_major hdr = 543 \<and> fh_minor hdr = 0)
                     then Some (Failed (Unsupported_Version (fh_major hdr) (fh_minor hdr)), fp, m)
                     else
                       (case malloc m of
                          (False, m) \<Rightarrow> Some (Failed Out_Of_Memory, fp, m)
                        | (True, m) \<Rightarrow>
                            (case scale_for precision magic of
                               None \<Rightarrow> Some (Failed (Unknown_Resolution precision), fp, mfree m)
                             | Some scale \<Rightarrow>
                                 (case malloc m of
                                    (False, m) \<Rightarrow> Some (Failed Out_Of_Memory, fp, mfree m)
                                  | (True, m) \<Rightarrow>
                                      Some (Opened (sf_handle swapped magic precision scale hdr fp), fp, m)))))))) "

section \<open>Reading a packet\<close>

datatype sf_next = Packet pkthdr "byte list" | End_Of_File | Read_Failed sf_error

definition decode_pkthdr :: "byte list \<Rightarrow> (u32 \<times> u32 \<times> u32 \<times> u32) option" where
  "decode_pkthdr bs = do {
     sec \<leftarrow> get_le32 bs 0;
     usec \<leftarrow> get_le32 bs 4;
     caplen \<leftarrow> get_le32 bs 8;
     len \<leftarrow> get_le32 bs 12;
     Some (sec, usec, caplen, len)
   }"

text \<open>Times in the file are signed in the host's order, and taken as unsigned by the macro that swaps them.\<close>

definition host_pkthdr :: "bool \<Rightarrow> u32 \<times> u32 \<times> u32 \<times> u32 \<Rightarrow> pkthdr" where
  "host_pkthdr swapped h =
     (case h of
        (sec, usec, caplen, len) \<Rightarrow>
          if swapped then
            \<lparr>ph_ts = \<lparr>tv_sec = uint (SWAPLONG sec), tv_usec = uint (SWAPLONG usec)\<rparr>,
             ph_caplen = SWAPLONG caplen, ph_len = SWAPLONG len\<rparr>
          else
            \<lparr>ph_ts = \<lparr>tv_sec = sint sec, tv_usec = sint usec\<rparr>, ph_caplen = caplen, ph_len = len\<rparr>)"

text \<open>Division of C, towards zero.\<close>

definition quot :: "int \<Rightarrow> int \<Rightarrow> int" where
  "quot a b = (if 0 \<le> a then a div b else - (- a div b))"

definition scale_time :: "tstamp_scale_type_t \<Rightarrow> pkthdr \<Rightarrow> pkthdr" where
  "scale_time s h =
     (case s of
        PASS_THROUGH \<Rightarrow> h
      | SCALE_UP \<Rightarrow> h\<lparr>ph_ts := (ph_ts h)\<lparr>tv_usec := to_int64 (tv_usec (ph_ts h) * 1000)\<rparr>\<rparr>
      | SCALE_DOWN \<Rightarrow> h\<lparr>ph_ts := (ph_ts h)\<lparr>tv_usec := quot (tv_usec (ph_ts h)) 1000\<rparr>\<rparr>)"

definition swap_lengths :: "swapped_type_t \<Rightarrow> pkthdr \<Rightarrow> pkthdr" where
  "swap_lengths s h =
     (case s of
        NOT_SWAPPED \<Rightarrow> h
      | MAYBE_SWAPPED \<Rightarrow> if ph_caplen h \<le> ph_len h then h else h\<lparr>ph_caplen := ph_len h, ph_len := ph_caplen h\<rparr>
      | SWAPPED \<Rightarrow> h\<lparr>ph_caplen := ph_len h, ph_len := ph_caplen h\<rparr>)"

definition grow_buffer :: "nat \<Rightarrow> pcap_t \<Rightarrow> mem \<Rightarrow> bool \<times> pcap_t \<times> mem" where
  "grow_buffer bufsize p m =
     (case mrealloc m of
        (False, m) \<Rightarrow> (False, p, m)
      | (True, m) \<Rightarrow> (True, p\<lparr>pt_bufsize := bufsize\<rparr>, m))"

definition round_up :: "u32 \<Rightarrow> u32" where
  "round_up n =
     (let n = n - 1; n = n OR drop_bit 1 n; n = n OR drop_bit 2 n; n = n OR drop_bit 4 n;
          n = n OR drop_bit 8 n; n = n OR drop_bit 16 n
      in n + 1)"

text \<open>\<open>fread\<close> into the packet buffer.\<close>

definition read_buffer :: "nat \<Rightarrow> pcap_t \<Rightarrow> (byte list \<times> pcap_t) option" where
  "read_buffer n p =
     (if n \<le> pt_bufsize p then
        (case fread n (pt_rfile p) of (bs, fp) \<Rightarrow> Some (bs, p\<lparr>pt_rfile := fp\<rparr>))
      else None)"

function discard :: "nat \<Rightarrow> nat \<Rightarrow> rstream \<Rightarrow> bool \<times> nat \<times> rstream" where
  "discard n bytes_read fp =
     (if n = 0 then (True, bytes_read, fp)
      else
        (case fread (min n 4096) fp of
           (bs, fp) \<Rightarrow>
             if length bs \<noteq> min n 4096 then (False, bytes_read + length bs, fp)
             else discard (n - length bs) (bytes_read + length bs) fp))"
  by pat_completeness auto
termination
  by (relation "measure (\<lambda>(n, k, fp). n)") auto

declare discard.simps [simp del]

definition read_failed :: "rstream \<Rightarrow> sf_error \<Rightarrow> sf_next" where
  "read_failed fp e = Read_Failed (if st_error fp then Read_Error else e)"

text \<open>A packet longer than the snapshot length: its first bytes, the rest is dropped.\<close>

definition read_over :: "pkthdr \<Rightarrow> pcap_t \<Rightarrow> mem \<Rightarrow> ((sf_next + pkthdr \<times> byte list) \<times> pcap_t \<times> mem) option" where
  "read_over hdr p m =
     (let snap = nat (pt_snapshot p);
          (ok, p, m) = (if unat (ph_caplen hdr) > pt_bufsize p then grow_buffer snap p m else (True, p, m))
      in
      if \<not> ok then Some (Inl (Read_Failed Out_Of_Memory), p, m)
      else
        (case read_buffer snap p of
           None \<Rightarrow> None
         | Some (bs, p) \<Rightarrow>
             if length bs \<noteq> snap then
               Some (Inl (read_failed (pt_rfile p) (Truncated_Packet snap (length bs))), p, m)
             else
               (case discard (unat (ph_caplen hdr) - snap) (length bs) (pt_rfile p) of
                  (done, bytes_read, fp) \<Rightarrow>
                    if \<not> done then
                      Some (Inl (read_failed fp (Truncated_Packet (unat (ph_caplen hdr)) bytes_read)), p\<lparr>pt_rfile := fp\<rparr>, m)
                    else Some (Inr (hdr\<lparr>ph_caplen := word_of_nat snap\<rparr>, bs), p\<lparr>pt_rfile := fp\<rparr>, m))))"

definition read_whole :: "pkthdr \<Rightarrow> pcap_t \<Rightarrow> mem \<Rightarrow> ((sf_next + pkthdr \<times> byte list) \<times> pcap_t \<times> mem) option" where
  "read_whole hdr p m =
     (let caplen = unat (ph_caplen hdr);
          new_bufsize = round_up (ph_caplen hdr);
          new_bufsize = (if new_bufsize > word_of_int (pt_snapshot p) then word_of_int (pt_snapshot p) else new_bufsize);
          (ok, p, m) = (if caplen > pt_bufsize p then grow_buffer (unat new_bufsize) p m else (True, p, m))
      in
      if \<not> ok then Some (Inl (Read_Failed Out_Of_Memory), p, m)
      else
        (case read_buffer caplen p of
           None \<Rightarrow> None
         | Some (bs, p) \<Rightarrow>
             if length bs \<noteq> caplen then
               Some (Inl (read_failed (pt_rfile p) (Truncated_Packet caplen (length bs))), p, m)
             else Some (Inr (hdr, bs), p, m)))"

definition next_header :: "pcap_t \<Rightarrow> ((sf_next + pkthdr) \<times> pcap_t) option" where
  "next_header p =
     (let size = hdrsize (pt_hdr p) in
      case fread size (pt_rfile p) of
        (bytes, fp) \<Rightarrow>
          (let p = p\<lparr>pt_rfile := fp\<rparr> in
           if length bytes \<noteq> size then
             Some (Inl (if st_error fp then Read_Failed Read_Error
                        else if bytes \<noteq> [] then Read_Failed (Truncated_Record size (length bytes))
                        else End_Of_File), p)
           else
             (case decode_pkthdr bytes of
                None \<Rightarrow> None
              | Some h \<Rightarrow>
                  Some (Inr (swap_lengths (pt_lengths p) (scale_time (pt_scale p) (host_pkthdr (pt_swapped p) h))), p))))"

definition pcap_next_packet :: "pcap_t \<Rightarrow> mem \<Rightarrow> (sf_next \<times> pcap_t \<times> mem) option" where
  "pcap_next_packet p m =
     (case next_header p of
        None \<Rightarrow> None
      | Some (Inl r, p) \<Rightarrow> Some (r, p, m)
      | Some (Inr hdr, p) \<Rightarrow>
          (let snap = word_of_int (pt_snapshot p); top = max_snaplen_for_dlt (pt_linktype p) in
           if unat (ph_caplen hdr) > top then
             Some (Read_Failed (if ph_caplen hdr > snap then Caplen_Over_Snaplen (ph_caplen hdr) (pt_snapshot p)
                                else Caplen_Over_Maximum (ph_caplen hdr) top), p, m)
           else
             (case (if ph_caplen hdr > snap then read_over hdr p m else read_whole hdr p m) of
                None \<Rightarrow> None
              | Some (Inl r, p, m) \<Rightarrow> Some (r, p, m)
              | Some (Inr (hdr, data), p, m) \<Rightarrow>
                  if pt_swapped p then
                    (case swap_pseudo_headers (pt_linktype p) (ph_caplen hdr) (ph_len hdr) data of
                       None \<Rightarrow> None
                     | Some data \<Rightarrow> Some (Packet hdr data, p, m))
                  else Some (Packet hdr data, p, m))))"

section \<open>Reading is safe\<close>

definition sf_ok :: "pcap_t \<Rightarrow> bool" where
  "sf_ok p \<longleftrightarrow> - (2 ^ 31) \<le> pt_snapshot p \<and> pt_snapshot p < 2 ^ 31"

definition left :: "pcap_t \<Rightarrow> nat" where
  "left p = length (st_data (pt_rfile p))"

text \<open>What reading keeps of a handle.\<close>

definition same_file :: "pcap_t \<Rightarrow> pcap_t \<Rightarrow> bool" where
  "same_file p q \<longleftrightarrow>
     pt_snapshot q = pt_snapshot p \<and> pt_linktype q = pt_linktype p \<and> pt_swapped q = pt_swapped p \<and>
     pt_hdr q = pt_hdr p \<and> pt_lengths q = pt_lengths p \<and> pt_scale q = pt_scale p \<and> pt_fcode q = pt_fcode p \<and>
     pt_break q = pt_break p \<and> (pt_ng q = None \<longleftrightarrow> pt_ng p = None) \<and> st_error (pt_rfile q) = st_error (pt_rfile p) \<and> left q \<le> left p"

lemma same_file_refl [simp]: "same_file p p"
  by (simp add: same_file_def)

lemma same_file_trans: "same_file p q \<Longrightarrow> same_file q r \<Longrightarrow> same_file p r"
  by (auto simp: same_file_def)

lemma same_file_ok: "same_file p q \<Longrightarrow> sf_ok q = sf_ok p"
  by (simp add: same_file_def sf_ok_def)

lemma same_file_read: "fread n (pt_rfile p) = (bs, fp) \<Longrightarrow> same_file p (p\<lparr>pt_rfile := fp\<rparr>)"
  by (auto simp: same_file_def fread_def left_def)

lemma grow_buffer_same:
  assumes "grow_buffer n p m = (ok, q, m')"
  shows "same_file p q \<and> (ok \<longrightarrow> pt_bufsize q = n) \<and> pt_rfile q = pt_rfile p \<and> live m' = live m"
  using assms mrealloc_live [of m] by (auto simp: grow_buffer_def same_file_def left_def split: prod.splits bool.splits)

lemma or_drop_small:
  assumes "unat x < 2 ^ 27"
  shows "unat (x OR drop_bit j x :: u32) < 2 ^ 27"
proof -
  have "unat (drop_bit j x) \<le> unat x" by (simp add: drop_bit_eq_div unat_div div_le_dividend unsigned_drop_bit_eq)
  then have t: "take_bit 27 (unat (drop_bit j x)) = unat (drop_bit j x)" "take_bit 27 (unat x) = unat x"
    using assms by (simp_all only: take_bit_nat_eq_self_iff)
  have "unat (x OR drop_bit j x) = unat x OR unat (drop_bit j x)" by (rule unsigned_or_eq)
  then have "take_bit 27 (unat (x OR drop_bit j x)) = unat (x OR drop_bit j x)" using t by (simp only: take_bit_or)
  then show ?thesis by (simp only: take_bit_nat_eq_self_iff)
qed

lemma round_up_covers:
  assumes "0 < unat n" "unat n \<le> 2 ^ 27"
  shows "unat n \<le> unat (round_up n)"
proof -
  define k where "k = n - 1"
  define t where "t = (let n = k; n = n OR drop_bit 1 n; n = n OR drop_bit 2 n; n = n OR drop_bit 4 n;
          n = n OR drop_bit 8 n in n OR drop_bit 16 n)"
  have up: "x \<le> x OR y" for x y :: u32 by (rule le_word_or2)
  have kt: "k \<le> t" unfolding t_def Let_def using up by (meson order_trans)
  have n0: "n \<noteq> 0" using assms(1) by auto
  have k: "unat k = unat n - 1" using n0 by (simp add: k_def unat_minus_one)
  then have "unat k < 2 ^ 27" using assms by linarith
  then have t: "unat t < 2 ^ 27" unfolding t_def Let_def by (intro or_drop_small)
  then have "unat (t + 1) = unat t + 1" by (simp add: unat_word_ariths)
  moreover have "round_up n = t + 1" by (simp add: round_up_def t_def k_def Let_def)
  ultimately show ?thesis using kt k assms(1) by (simp add: word_le_nat_alt)
qed

lemma decode_pkthdr_Some: "16 \<le> length bs \<Longrightarrow> \<exists>h. decode_pkthdr bs = Some h"
  by (simp add: decode_pkthdr_def get_le32_Some)

lemma hdrsize_bounds: "16 \<le> hdrsize k" "hdrsize k \<le> 24"
  by (cases k; simp)+

lemma next_header_ok:
  "\<exists>r q. next_header p = Some (r, q) \<and> same_file p q \<and>
     (case r of Inl s \<Rightarrow> s = End_Of_File \<or> (\<exists>e. s = Read_Failed e) | Inr h \<Rightarrow> left q < left p)"
proof -
  let ?n = "hdrsize (pt_hdr p)"
  obtain bs fp where r: "fread ?n (pt_rfile p) = (bs, fp)" by fastforce
  note s = same_file_read [OF r]
  show ?thesis
  proof (cases "length bs = ?n")
    case False
    then show ?thesis using r s by (auto simp: next_header_def Let_def)
  next
    case True
    then obtain h where h: "decode_pkthdr bs = Some h" using decode_pkthdr_Some hdrsize_bounds(1) by metis
    have "left (p\<lparr>pt_rfile := fp\<rparr>) < left p"
      using r True hdrsize_bounds(1) [of "pt_hdr p"] by (auto simp: fread_def left_def)
    with True r h s show ?thesis by (simp add: next_header_def Let_def)
  qed
qed

lemma discard_keeps: "discard n k fp = (ok, j, fp') \<Longrightarrow> length (st_data fp') \<le> length (st_data fp) \<and> st_error fp' = st_error fp"
proof (induction n k fp rule: discard.induct)
  case (1 n k fp)
  obtain bs fp1 where r: "fread (min n 4096) fp = (bs, fp1)" by fastforce
  then have "length (st_data fp1) \<le> length (st_data fp)" "st_error fp1 = st_error fp" by (auto simp: fread_def)
  with "1.IH" [OF _ r [symmetric]] "1.prems" r show ?case
    by (subst (asm) discard.simps) (auto split: if_splits)
qed

text \<open>What both ways of reading the captured bytes give.\<close>

definition body_ok :: "pkthdr \<Rightarrow> pcap_t \<Rightarrow> mem \<Rightarrow> ((sf_next + pkthdr \<times> byte list) \<times> pcap_t \<times> mem) option \<Rightarrow> bool" where
  "body_ok hdr p m res \<longleftrightarrow>
     (\<exists>r q m'. res = Some (r, q, m') \<and> same_file p q \<and> live m' = live m \<and>
        (case r of
           Inl s \<Rightarrow> \<exists>e. s = Read_Failed e
         | Inr (h, d) \<Rightarrow> length d = unat (ph_caplen h) \<and> ph_caplen h \<le> ph_caplen hdr \<and> ph_len h = ph_len hdr \<and> ph_ts h = ph_ts hdr))"

lemma read_buffer_room:
  assumes "n \<le> pt_bufsize p"
  obtains bs q where "read_buffer n p = Some (bs, q)" "same_file p q" "length bs \<le> n"
proof -
  obtain bs fp where r: "fread n (pt_rfile p) = (bs, fp)" by fastforce
  with same_file_read [OF r] assms that show thesis by (auto simp: read_buffer_def fread_def)
qed

lemma read_whole_ok:
  assumes "unat (ph_caplen hdr) \<le> 2 ^ 27" "\<not> ph_caplen hdr > word_of_int (pt_snapshot p)"
  shows "body_ok hdr p m (read_whole hdr p m)"
proof -
  let ?c = "ph_caplen hdr" and ?s = "word_of_int (pt_snapshot p) :: u32"
  let ?n = "if round_up ?c > ?s then ?s else round_up ?c"
  obtain ok q m' where g: "(if unat ?c > pt_bufsize p then grow_buffer (unat ?n) p m else (True, p, m)) = (ok, q, m')"
    using prod_cases3 by metis
  then have q: "same_file p q" "live m' = live m" using grow_buffer_same [of "unat ?n" p m] by (auto split: if_splits)
  have eq: "read_whole hdr p m =
      (if \<not> ok then Some (Inl (Read_Failed Out_Of_Memory), q, m')
       else (case read_buffer (unat ?c) q of None \<Rightarrow> None
         | Some (bs, p) \<Rightarrow> if length bs \<noteq> unat ?c then Some (Inl (read_failed (pt_rfile p) (Truncated_Packet (unat ?c) (length bs))), p, m')
             else Some (Inr (hdr, bs), p, m')))"
    unfolding read_whole_def Let_def g by simp
  show ?thesis
  proof (cases ok)
    case True
    have "unat ?c \<le> pt_bufsize q"
    proof (cases "unat ?c > pt_bufsize p")
      case over: True
      then have "unat ?c \<le> unat (round_up ?c)" using assms(1) by (intro round_up_covers) auto
      moreover have "unat ?c \<le> unat ?s" using assms(2) by (simp add: not_less word_le_nat_alt)
      ultimately have "unat ?c \<le> unat ?n" by simp
      with over g True grow_buffer_same [of "unat ?n" p m ok q m'] show ?thesis by simp
    qed (use g in auto)
    then obtain bs q' where r: "read_buffer (unat ?c) q = Some (bs, q')" "same_file q q'" using read_buffer_room by metis
    with eq True q same_file_trans [OF q(1) r(2)] show ?thesis
      by (auto simp: body_ok_def read_failed_def)
  qed (use eq q in \<open>auto simp: body_ok_def\<close>)
qed

lemma read_over_ok:
  assumes "unat (ph_caplen hdr) \<le> 2 ^ 27" "ph_caplen hdr > word_of_int (pt_snapshot p)" "sf_ok p"
  shows "body_ok hdr p m (read_over hdr p m)"
proof -
  let ?c = "ph_caplen hdr" and ?n = "nat (pt_snapshot p)"
  have lt: "unat (word_of_int (pt_snapshot p) :: u32) < unat ?c" using assms(2) by (simp add: word_less_nat_alt)
  have s0: "0 \<le> pt_snapshot p"
  proof (rule ccontr)
    assume neg: "\<not> 0 \<le> pt_snapshot p"
    then have "uint (word_of_int (pt_snapshot p) :: u32) = pt_snapshot p + 2 ^ 32"
      using assms(3) by (simp add: sf_ok_def uint_word_of_int) (subst mod_add_self2 [symmetric], subst mod_pos_pos_trivial, auto)
    then have "int (unat (word_of_int (pt_snapshot p) :: u32)) = pt_snapshot p + 4294967296" by (simp only: uint_nat) simp
    moreover have "- 2147483648 \<le> pt_snapshot p" using assms(3) by (simp add: sf_ok_def)
    moreover have "unat (ph_caplen hdr) \<le> 134217728" using assms(1) by simp
    ultimately show False using lt by linarith
  qed
  then have n: "unat (word_of_int (pt_snapshot p) :: u32) = ?n" using assms(3) by (simp add: sf_ok_def unat_eq_nat_uint uint_word_of_int)
  obtain ok q m' where g: "(if unat ?c > pt_bufsize p then grow_buffer ?n p m else (True, p, m)) = (ok, q, m')"
    using prod_cases3 by metis
  then have q: "same_file p q" "live m' = live m" using grow_buffer_same [of ?n p m] by (auto split: if_splits)
  show ?thesis
  proof (cases ok)
    case True
    have "?n \<le> pt_bufsize q" using g True n lt grow_buffer_same [of ?n p m ok q m'] by (auto split: if_splits)
    then obtain bs q' where r: "read_buffer ?n q = Some (bs, q')" "same_file q q'" using read_buffer_room by metis
    obtain fin k fp where d: "discard (unat ?c - ?n) (length bs) (pt_rfile q') = (fin, k, fp)" using prod_cases3 by metis
    have q'': "same_file p (q'\<lparr>pt_rfile := fp\<rparr>)" "same_file p q'"
      using discard_keeps [OF d] same_file_trans [OF q(1) r(2)] by (auto simp: same_file_def left_def)
    have w: "unat (word_of_nat ?n :: u32) = ?n" using n unat_u32 [of "word_of_int (pt_snapshot p)"] by (simp only: unat_of_nat) simp
    then have "word_of_nat ?n \<le> ?c" using lt n by (simp add: word_le_nat_alt)
    with r d q'' q(2) w True show ?thesis
      unfolding read_over_def Let_def g by (auto simp: body_ok_def read_failed_def)
  qed (use g q in \<open>auto simp: body_ok_def read_over_def Let_def\<close>)
qed

lemma next_packet_ok:
  assumes "sf_ok p"
  obtains r q m' where "pcap_next_packet p m = Some (r, q, m')" "same_file p q" "live m' = live m"
    "\<And>h d. r = Packet h d \<Longrightarrow> left q < left p \<and> captured_ok (h, d)"
proof -
  obtain r q where h: "next_header p = Some (r, q)" "same_file p q"
    "case r of Inl s \<Rightarrow> s = End_Of_File \<or> (\<exists>e. s = Read_Failed e) | Inr h \<Rightarrow> left q < left p"
    using next_header_ok by blast
  show thesis
  proof (cases r)
    case (Inl s)
    with h show thesis by (intro that [of s q m]) (auto simp: pcap_next_packet_def)
  next
    case (Inr hdr)
    let ?over = "ph_caplen hdr > word_of_int (pt_snapshot q)"
    let ?body = "if ?over then read_over hdr q m else read_whole hdr q m"
    show thesis
    proof (cases "unat (ph_caplen hdr) > max_snaplen_for_dlt (pt_linktype q)")
      case True
      with h Inr show thesis
        by (intro that [of "Read_Failed (if ?over then Caplen_Over_Snaplen (ph_caplen hdr) (pt_snapshot q)
            else Caplen_Over_Maximum (ph_caplen hdr) (max_snaplen_for_dlt (pt_linktype q)))" q m])
          (auto simp: pcap_next_packet_def Let_def)
    next
      case False
      then have c: "unat (ph_caplen hdr) \<le> 2 ^ 27" using max_snaplen_bounds(2) [of "pt_linktype q"] by linarith
      have ok: "sf_ok q" using assms same_file_ok [OF h(2)] by simp
      have "body_ok hdr q m ?body" using read_over_ok [OF c _ ok] read_whole_ok [OF c] by simp
      then obtain b q' m' where b: "?body = Some (b, q', m')" "same_file q q'" "live m' = live m"
        "case b of Inl s \<Rightarrow> \<exists>e. s = Read_Failed e
         | Inr (h, d) \<Rightarrow> length d = unat (ph_caplen h) \<and> ph_caplen h \<le> ph_caplen hdr \<and> ph_len h = ph_len hdr \<and> ph_ts h = ph_ts hdr"
        unfolding body_ok_def by blast
      note pq = same_file_trans [OF h(2) b(2)]
      have step: "pcap_next_packet p m =
          (case b of Inl r \<Rightarrow> Some (r, q', m')
           | Inr (hdr, data) \<Rightarrow> if pt_swapped q' then
               (case swap_pseudo_headers (pt_linktype q') (ph_caplen hdr) (ph_len hdr) data of None \<Rightarrow> None
                | Some data \<Rightarrow> Some (Packet hdr data, q', m'))
             else Some (Packet hdr data, q', m'))"
        using h(1) Inr False b(1) by (cases b) (auto simp: pcap_next_packet_def Let_def)
      show thesis
      proof (cases b)
        case (Inl s)
        with step b(3,4) pq show thesis by (intro that [of s q' m']) auto
      next
        case bd: (Inr hd)
        obtain h' d where hd: "hd = (h', d)" by fastforce
        have fr: "length d = unat (ph_caplen h')" "unat (ph_caplen h') \<le> 2 ^ 27" using b(4) bd hd c by (auto simp: word_le_nat_alt)
        have less: "left q' < left p" using h(3) Inr b(2) by (auto simp: same_file_def)
        obtain d' where d': "swap_pseudo_headers (pt_linktype q') (ph_caplen h') (ph_len h') d = Some d'" "length d' = length d"
          using swap_pseudo_headers_kept [of "ph_caplen h'" d] fr(1) by auto
        have "ph_caplen h' < 2 ^ 31" using fr(2) by (simp add: word_less_nat_alt)
        then have "captured_ok (h', d)" "captured_ok (h', d')" using fr(1) d'(2) by (simp_all add: captured_ok_def)
        with step bd hd d' less pq b(3) show thesis
          by (cases "pt_swapped q'") (intro that [of "Packet h' d'" q' m'] that [of "Packet h' d" q' m']; auto)+
      qed
    qed
  qed
qed

lemma read_buffer_left: "read_buffer n p = Some (bs, q) \<Longrightarrow> left q \<le> left p"
  by (auto simp: read_buffer_def fread_def left_def split: if_splits)

lemma read_body_left:
  "read_whole hdr p m = Some (r, q, m') \<Longrightarrow> left q \<le> left p"
  "read_over hdr p m = Some (r, q, m') \<Longrightarrow> left q \<le> left p"
proof -
  have g: "left q1 = left p" if "grow_buffer n p m = (ok, q1, m1)" for n ok q1 m1
    using grow_buffer_same [OF that] by (simp add: left_def)
  show "left q \<le> left p" if "read_whole hdr p m = Some (r, q, m')"
    using that unfolding read_whole_def Let_def
    by (auto split: prod.splits if_splits option.splits dest!: g read_buffer_left)
  show "left q \<le> left p" if "read_over hdr p m = Some (r, q, m')"
    using that unfolding read_over_def Let_def
    by (auto split: prod.splits if_splits option.splits dest!: g read_buffer_left discard_keeps simp: left_def)
qed

lemma next_packet_shrinks:
  assumes "pcap_next_packet p m = Some (Packet h d, q, m')"
  shows "left q < left p"
proof -
  obtain r p1 where h: "next_header p = Some (r, p1)"
    "case r of Inl s \<Rightarrow> s = End_Of_File \<or> (\<exists>e. s = Read_Failed e) | Inr h \<Rightarrow> left p1 < left p" using next_header_ok by blast
  with assms show ?thesis
    by (auto simp: pcap_next_packet_def Let_def split: sum.splits if_splits option.splits prod.splits
      dest!: read_body_left)
qed

lemma next_packet_left:
  assumes "pcap_next_packet p m = Some (r, q, m')"
  shows "left q \<le> left p"
proof -
  obtain r p1 where h: "next_header p = Some (r, p1)" "same_file p p1" using next_header_ok by blast
  then have "left p1 \<le> left p" by (simp add: same_file_def)
  with h(1) assms show ?thesis
    by (auto simp: pcap_next_packet_def Let_def split: sum.splits if_splits option.splits prod.splits
      dest!: read_body_left)
qed

section \<open>Writing a file\<close>

datatype dump_error = Not_Activated | No_Linktype int | Null_Name | Cannot_Open | Cannot_Write

definition sf_write_header :: "pcap_t \<Rightarrow> wfile \<Rightarrow> int \<Rightarrow> int \<Rightarrow> int \<Rightarrow> bool \<times> wfile" where
  "sf_write_header p fp linktype thiszone snaplen =
     fwrite (put_le32 (if pt_precision p = PCAP_TSTAMP_PRECISION_NANO then NSEC_TCPDUMP_MAGIC else TCPDUMP_MAGIC) @
             put_le16 PCAP_VERSION_MAJOR @ put_le16 PCAP_VERSION_MINOR @ put_le32 (word_of_int thiszone) @
             put_le32 0 @ put_le32 (word_of_int snaplen) @ put_le32 (word_of_int linktype)) fp"

text \<open>The two writes of a packet, whose results are ignored; \<open>None\<close> if fewer bytes than captured are given.\<close>

definition dump_packet :: "pkthdr \<Rightarrow> byte list \<Rightarrow> wfile \<Rightarrow> wfile option" where
  "dump_packet h sp f =
     (let f = snd (fwrite (put_le32 (word_of_int (tv_sec (ph_ts h))) @ put_le32 (word_of_int (tv_usec (ph_ts h))) @
                           put_le32 (ph_caplen h) @ put_le32 (ph_len h)) f)
      in if unat (ph_caplen h) \<le> length sp then Some (snd (fwrite (take (unat (ph_caplen h)) sp) f)) else None)"

definition pcap_setup_dump :: "pcap_t \<Rightarrow> int \<Rightarrow> wfile \<Rightarrow> dump_error + wfile" where
  "pcap_setup_dump p linktype f =
     (case sf_write_header p f linktype (pt_tzoff p) (pt_snapshot p) of
        (False, f) \<Rightarrow> Inl Cannot_Write
      | (True, f) \<Rightarrow> Inr f)"

text \<open>\<open>fopen\<close> is the result of opening a file to write, \<open>stdout\<close> the standard output.\<close>

definition dump_open :: "pcap_t \<Rightarrow> cstring option \<Rightarrow> (cstring \<Rightarrow> wfile option) \<Rightarrow> wfile \<Rightarrow> dump_error + wfile" where
  "dump_open p fname fopen stdout =
     (if \<not> pt_activated p then Inl Not_Activated
      else
        (let linktype = dlt_to_linktype (pt_linktype p) in
         if linktype = - 1 then Inl (No_Linktype (pt_linktype p))
         else
           (let linktype = linktype OR sint (pt_linktype_ext p) in
            case fname of
              None \<Rightarrow> Inl Null_Name
            | Some name \<Rightarrow>
                if name = str ''-'' then pcap_setup_dump p linktype stdout
                else
                  (case fopen name of
                     None \<Rightarrow> Inl Cannot_Open
                   | Some f \<Rightarrow> pcap_setup_dump p linktype f))))"

end
