(* ===== verification/Pcapng.thy ===== *)
theory Pcapng
  imports Savefile
begin

text \<open>
  The other format of savefiles, \<open>src/deps/libpcap/sf-pcapng.c\<close>: a file of blocks, in sections that each describe their
  interfaces before the packets of them. A block is read into a buffer and taken apart from there; as in \<open>Savefile\<close> an
  access outside is \<open>None\<close>, and so is the use of an interface that was never described or a division by zero.
\<close>

unbundle bit_operations_syntax

section \<open>Blocks\<close>

definition BT_SHB :: u32 where "BT_SHB = 0x0A0D0D0A"
definition BT_IDB :: u32 where "BT_IDB = 1"
definition BT_PB :: u32 where "BT_PB = 2"
definition BT_SPB :: u32 where "BT_SPB = 3"
definition BT_EPB :: u32 where "BT_EPB = 6"
definition BYTE_ORDER_MAGIC :: u32 where "BYTE_ORDER_MAGIC = 0x1A2B3C4D"
definition PCAP_NG_VERSION_MAJOR :: u16 where "PCAP_NG_VERSION_MAJOR = 1"
definition PCAP_NG_VERSION_MINOR :: u16 where "PCAP_NG_VERSION_MINOR = 0"
definition OPT_ENDOFOPT :: u16 where "OPT_ENDOFOPT = 0"
definition IF_TSRESOL :: u16 where "IF_TSRESOL = 9"
definition IF_TSOFFSET :: u16 where "IF_TSOFFSET = 14"

definition MAX_BLOCKSIZE :: "nat \<Rightarrow> nat" where
  "MAX_BLOCKSIZE max_snaplen = 8 + 20 + max_snaplen + 131072 + 4"

definition SWAPLL :: "u64 \<Rightarrow> u64" where
  "SWAPLL ull =
     drop_bit 56 (ull AND 0xff00000000000000) OR drop_bit 40 (ull AND 0x00ff000000000000) OR
     drop_bit 24 (ull AND 0x0000ff0000000000) OR drop_bit 8 (ull AND 0x000000ff00000000) OR
     push_bit 8 (ull AND 0x00000000ff000000) OR push_bit 24 (ull AND 0x0000000000ff0000) OR
     push_bit 40 (ull AND 0x000000000000ff00) OR push_bit 56 (ull AND 0x00000000000000ff)"

text \<open>Numbers as the file has them, in the order of this host.\<close>

definition field16 :: "bool \<Rightarrow> byte list \<Rightarrow> nat \<Rightarrow> u16 option" where
  "field16 swapped bs k = map_option (\<lambda>w. if swapped then SWAPSHORT w else w) (get_le16 bs k)"

definition field32 :: "bool \<Rightarrow> byte list \<Rightarrow> nat \<Rightarrow> u32 option" where
  "field32 swapped bs k = map_option (\<lambda>w. if swapped then SWAPLONG w else w) (get_le32 bs k)"

definition get_le64 :: "byte list \<Rightarrow> nat \<Rightarrow> u64 option" where
  "get_le64 bs k = do {
     low \<leftarrow> get_le32 bs k;
     high \<leftarrow> get_le32 bs (k + 4);
     Some (push_bit 32 (ucast high) OR ucast low)
   }"

definition field64 :: "bool \<Rightarrow> byte list \<Rightarrow> nat \<Rightarrow> u64 option" where
  "field64 swapped bs k = map_option (\<lambda>w. if swapped then SWAPLL w else w) (get_le64 bs k)"

text \<open>\<open>Inl None\<close> is the end of the file, \<open>Inl (Some e)\<close> an error.\<close>

definition read_bytes :: "nat \<Rightarrow> bool \<Rightarrow> rstream \<Rightarrow> (sf_error option + byte list) \<times> rstream" where
  "read_bytes n fail_on_eof fp =
     (case fread n fp of
        (bs, fp) \<Rightarrow>
          if length bs \<noteq> n then
            (Inl (if st_error fp then Some Read_Error
                  else if bs = [] \<and> \<not> fail_on_eof then None
                  else Some (Truncated_Read n (length bs))), fp)
          else (Inr bs, fp))"

record block_cursor =
  cur_data :: "byte list"
  data_remaining :: nat
  block_type :: u32

text \<open>The buffer is made as large as a block that does not fit in \<open>bufsize\<close>, which keeps its value.\<close>

definition block_buffer :: "u32 \<Rightarrow> pcap_t \<Rightarrow> pcap_ng_sf \<Rightarrow> mem \<Rightarrow> sf_error option \<times> pcap_ng_sf \<times> mem" where
  "block_buffer total_length p ps m =
     (if pt_bufsize p < unat total_length then
        (if total_length > max_blocksize ps then (Some (Block_Over_Maximum (max_blocksize ps)), ps, m)
         else
           (case mrealloc m of
              (False, m) \<Rightarrow> (Some Out_Of_Memory, ps, m)
            | (True, m) \<Rightarrow> (None, ps\<lparr>block_room := unat total_length\<rparr>, m)))
      else (None, ps, m))"

definition read_block ::
    "rstream \<Rightarrow> pcap_t \<Rightarrow> pcap_ng_sf \<Rightarrow> mem \<Rightarrow> ((sf_error option + block_cursor) \<times> rstream \<times> pcap_ng_sf \<times> mem) option" where
  "read_block fp p ps m =
     (case read_bytes 8 False fp of
        (Inl e, fp) \<Rightarrow> Some (Inl e, fp, ps, m)
      | (Inr bhdr, fp) \<Rightarrow>
          do {
            type \<leftarrow> field32 (pt_swapped p) bhdr 0;
            total_length \<leftarrow> field32 (pt_swapped p) bhdr 4;
            if total_length > 16 * 1024 * 1024 then Some (Inl (Some (Block_Too_Big total_length)), fp, ps, m)
            else if total_length < 12 then Some (Inl (Some (Block_Too_Small total_length)), fp, ps, m)
            else
              (case block_buffer total_length p ps m of
                 (Some e, ps, m) \<Rightarrow> Some (Inl (Some e), fp, ps, m)
               | (None, ps, m) \<Rightarrow>
                   if unat total_length > block_room ps then None
                   else
                     (case read_bytes (unat total_length - 8) True fp of
                        (Inl e, fp) \<Rightarrow> Some (Inl e, fp, ps, m)
                      | (Inr bdata, fp) \<Rightarrow>
                          Some (Inr \<lparr>cur_data = bdata, data_remaining = unat total_length - 12, block_type = type\<rparr>,
                                fp, ps, m)))
          })"

definition get_from_block_data :: "block_cursor \<Rightarrow> nat \<Rightarrow> sf_error + byte list \<times> block_cursor" where
  "get_from_block_data cursor chunk_size =
     (if data_remaining cursor < chunk_size then Inl (Block_Too_Short (block_type cursor))
      else Inr (take chunk_size (cur_data cursor),
                cursor\<lparr>cur_data := drop chunk_size (cur_data cursor), data_remaining := data_remaining cursor - chunk_size\<rparr>))"

section \<open>Interfaces\<close>

text \<open>The header of an option, its code and length.\<close>

definition get_opthdr_from_block_data :: "bool \<Rightarrow> block_cursor \<Rightarrow> (sf_error + (u16 \<times> u16) \<times> block_cursor) option" where
  "get_opthdr_from_block_data swapped cursor =
     (case get_from_block_data cursor 4 of
        Inl e \<Rightarrow> Some (Inl e)
      | Inr (bs, cursor) \<Rightarrow>
          do {
            code \<leftarrow> field16 swapped bs 0;
            len \<leftarrow> field16 swapped bs 2;
            Some (Inr ((code, len), cursor))
          })"

definition get_optvalue_from_block_data :: "block_cursor \<Rightarrow> u16 \<Rightarrow> sf_error + byte list \<times> block_cursor" where
  "get_optvalue_from_block_data cursor option_length = get_from_block_data cursor ((unat option_length + 3) div 4 * 4)"

text \<open>The resolution an \<open>if_tsresol\<close> option gives, and whether it is a power of two.\<close>

definition tsresol_of :: "byte \<Rightarrow> sf_error + u64 \<times> bool" where
  "tsresol_of opt =
     (if opt AND 0x80 \<noteq> 0 then
        (let shift = opt AND 0x7F in
         if shift > 63 then Inl (Tsresol_Too_High True shift) else Inr (push_bit (unat shift) 1, True))
      else if opt > 19 then Inl (Tsresol_Too_High False opt)
      else Inr (10 ^ unat opt, False))"

record idb_times =
  it_tsresol :: u64
  it_tsoffset :: u64
  it_binary :: bool

function process_idb_options ::
    "bool \<Rightarrow> block_cursor \<Rightarrow> bool \<Rightarrow> bool \<Rightarrow> idb_times \<Rightarrow> (sf_error + idb_times) option" where
  "process_idb_options swapped cursor saw_tsresol saw_tsoffset it =
     (if data_remaining cursor = 0 then Some (Inr it)
      else
        (case get_opthdr_from_block_data swapped cursor of
           None \<Rightarrow> None
         | Some (Inl e) \<Rightarrow> Some (Inl e)
         | Some (Inr ((code, len), cursor1)) \<Rightarrow>
             (case get_optvalue_from_block_data cursor1 len of
                Inl e \<Rightarrow> Some (Inl e)
              | Inr (optvalue, cursor2) \<Rightarrow>
                  if code = OPT_ENDOFOPT then
                    Some (if len \<noteq> 0 then Inl (Endofopt_Length len) else Inr it)
                  else if code = IF_TSRESOL then
                    (if len \<noteq> 1 then Some (Inl (Tsresol_Length len))
                     else if saw_tsresol then Some (Inl Tsresol_Repeated)
                     else
                       (case get8 optvalue 0 of
                          None \<Rightarrow> None
                        | Some opt \<Rightarrow>
                            (case tsresol_of opt of
                               Inl e \<Rightarrow> Some (Inl e)
                             | Inr (res, bin) \<Rightarrow>
                                 process_idb_options swapped cursor2 True saw_tsoffset
                                   (it\<lparr>it_tsresol := res, it_binary := bin\<rparr>))))
                  else if code = IF_TSOFFSET then
                    (if len \<noteq> 8 then Some (Inl (Tsoffset_Length len))
                     else if saw_tsoffset then Some (Inl Tsoffset_Repeated)
                     else
                       (case field64 swapped optvalue 0 of
                          None \<Rightarrow> None
                        | Some off \<Rightarrow>
                            process_idb_options swapped cursor2 saw_tsresol True (it\<lparr>it_tsoffset := off\<rparr>)))
                  else process_idb_options swapped cursor2 saw_tsresol saw_tsoffset it)))"
  by pat_completeness auto
termination
  by (relation "measure (\<lambda>(swapped, cursor, a, b, it). data_remaining cursor)")
    (auto simp: get_opthdr_from_block_data_def get_optvalue_from_block_data_def get_from_block_data_def
      split: if_splits bind_splits)

declare process_idb_options.simps [simp del]

text \<open>
  The array of interfaces when there is one more: it doubles, and entries that were not written yet are \<open>None\<close>. On this
  host with 64 bit \<open>size_t\<close> the size in bytes cannot overflow.
\<close>

definition grow_interfaces :: "pcap_ng_sf \<Rightarrow> mem \<Rightarrow> sf_error option \<times> pcap_ng_sf \<times> mem" where
  "grow_interfaces ps m =
     (if ifcount ps > ifaces_size ps then
        (if ifaces_size ps \<noteq> 0 \<and> ifaces_size ps * 2 < ifaces_size ps then (Some Too_Many_Interfaces, ps, m)
         else
           (let new_ifaces_size = (if ifaces_size ps = 0 then 1 else ifaces_size ps * 2) in
            case (if ifaces_size ps = 0 then malloc m else mrealloc m) of
              (False, m) \<Rightarrow> (Some (No_Memory_For_Interfaces (ifcount ps)), ps, m)
            | (True, m) \<Rightarrow>
                (None,
                 ps\<lparr>ifaces_size := new_ifaces_size,
                    ifaces := ifaces ps @ replicate (unat new_ifaces_size - unat (ifaces_size ps)) None\<rparr>, m)))
      else (None, ps, m))"

text \<open>How the fractions are scaled; the factor of a scaling that has none is not read.\<close>

definition interface_for :: "u64 \<Rightarrow> idb_times \<Rightarrow> pcap_ng_if" where
  "interface_for user it =
     (let res = it_tsresol it;
          (scale, factor) =
            (if res = user then (NG_PASS_THROUGH, 0)
             else if res > user then (if it_binary it then (SCALE_DOWN_BIN, 0) else (SCALE_DOWN_DEC, res div user))
             else if it_binary it then (SCALE_UP_BIN, 0) else (SCALE_UP_DEC, user div res))
      in \<lparr>tsresol = res, scale_type = scale, scale_factor = factor, tsoffset = it_tsoffset it\<rparr>)"

definition add_interface :: "bool \<Rightarrow> block_cursor \<Rightarrow> pcap_ng_sf \<Rightarrow> mem \<Rightarrow> (sf_error option \<times> pcap_ng_sf \<times> mem) option" where
  "add_interface swapped cursor ps m =
     (case grow_interfaces (ps\<lparr>ifcount := ifcount ps + 1\<rparr>) m of
        (Some e, ps, m) \<Rightarrow> Some (Some e, ps, m)
      | (None, ps, m) \<Rightarrow>
          (case process_idb_options swapped cursor False False \<lparr>it_tsresol = 1000000, it_tsoffset = 0, it_binary = False\<rparr> of
             None \<Rightarrow> None
           | Some (Inl e) \<Rightarrow> Some (Some e, ps, m)
           | Some (Inr it) \<Rightarrow>
               (let k = unat (ifcount ps - 1) in
                if k < length (ifaces ps) then
                  Some (None, ps\<lparr>ifaces := (ifaces ps)[k := Some (interface_for (user_tsresol ps) it)]\<rparr>, m)
                else None)))"
section \<open>Opening\<close>

definition user_tsresol_for :: "u32 \<Rightarrow> u64 option" where
  "user_tsresol_for precision =
     (if precision = PCAP_TSTAMP_PRECISION_MICRO then Some 1000000
      else if precision = PCAP_TSTAMP_PRECISION_NANO then Some 1000000000
      else None)"

text \<open>The fixed part of a description of an interface: link type and snapshot length.\<close>

definition interface_fields :: "bool \<Rightarrow> block_cursor \<Rightarrow> (sf_error + (u16 \<times> u32) \<times> block_cursor) option" where
  "interface_fields swapped cursor =
     (case get_from_block_data cursor 8 of
        Inl e \<Rightarrow> Some (Inl e)
      | Inr (bs, cursor) \<Rightarrow>
          do {
            linktype \<leftarrow> field16 swapped bs 0;
            snaplen \<leftarrow> field32 swapped bs 4;
            Some (Inr ((linktype, snaplen), cursor))
          })"

lemma read_bytes_length:
  assumes "read_bytes n e fp = (r, fp')"
  shows "st_error fp' = st_error fp"
    "case r of Inl x \<Rightarrow> length (st_data fp') \<le> length (st_data fp) \<and> (e \<longrightarrow> x \<noteq> None)
     | Inr bs \<Rightarrow> length bs = n \<and> length (st_data fp) = n + length (st_data fp')"
  using assms by (auto simp: read_bytes_def fread_def split: if_splits prod.splits)

lemma read_block_left:
  assumes "read_block fp p ps m = Some (r, fp', ps', m')"
  shows "st_error fp' = st_error fp \<and> length (st_data fp') + (case r of Inl _ \<Rightarrow> 0 | Inr _ \<Rightarrow> 12) \<le> length (st_data fp)"
proof -
  obtain r1 fp1 where h: "read_bytes 8 False fp = (r1, fp1)" by fastforce
  note r1 = read_bytes_length [OF h]
  show ?thesis
  proof (cases r1)
    case (Inl e)
    with h r1 assms show ?thesis by (auto simp: read_block_def)
  next
    case (Inr bhdr)
    have rest: "st_error fp2 = st_error fp1 \<and> length (st_data fp2) + (case x of Inl _ \<Rightarrow> 0 | Inr _ \<Rightarrow> n) \<le> length (st_data fp1)"
      if "read_bytes n True fp1 = (x, fp2)" for n x fp2
      using read_bytes_length [OF that] by (cases x) auto
    from assms h Inr r1 show ?thesis
      by (auto simp: read_block_def not_less word_less_nat_alt split: bind_splits if_splits prod.splits option.splits sum.splits dest!: rest)
  qed
qed

function first_interface ::
    "rstream \<Rightarrow> pcap_t \<Rightarrow> pcap_ng_sf \<Rightarrow> mem \<Rightarrow> ((sf_error + u16 \<times> u32) \<times> rstream \<times> pcap_ng_sf \<times> mem) option" where
  "first_interface fp p ps m =
     (case read_block fp p ps m of
        None \<Rightarrow> None
      | Some (Inl None, fp, ps, m) \<Rightarrow> Some (Inl No_Interfaces, fp, ps, m)
      | Some (Inl (Some e), fp, ps, m) \<Rightarrow> Some (Inl e, fp, ps, m)
      | Some (Inr cursor, fp, ps, m) \<Rightarrow>
          if block_type cursor = BT_IDB then
            (case interface_fields (pt_swapped p) cursor of
               None \<Rightarrow> None
             | Some (Inl e) \<Rightarrow> Some (Inl e, fp, ps, m)
             | Some (Inr (idb, cursor)) \<Rightarrow>
                 (case add_interface (pt_swapped p) cursor ps m of
                    None \<Rightarrow> None
                  | Some (Some e, ps, m) \<Rightarrow> Some (Inl e, fp, ps, m)
                  | Some (None, ps, m) \<Rightarrow> Some (Inr idb, fp, ps, m)))
          else if block_type cursor = BT_EPB \<or> block_type cursor = BT_SPB \<or> block_type cursor = BT_PB then
            Some (Inl Packet_Before_Interfaces, fp, ps, m)
          else first_interface fp p ps m)"
  by pat_completeness auto
termination
  by (relation "measure (\<lambda>(fp, p, ps, m). length (st_data fp))") (auto dest!: read_block_left)

declare first_interface.simps [simp del]

text \<open>The handle before its interface is known, and with it.\<close>

definition ng_handle :: "bool \<Rightarrow> u32 \<Rightarrow> u32 \<Rightarrow> u16 \<Rightarrow> u16 \<Rightarrow> rstream \<Rightarrow> pcap_t" where
  "ng_handle swapped precision total_length major minor fp =
     \<lparr>pt_swapped = swapped, pt_major = major, pt_minor = minor, pt_tzoff = 0, pt_snapshot = 0, pt_linktype = 0,
      pt_linktype_ext = 0, pt_precision = precision, pt_hdr = Plain_Hdr, pt_lengths = NOT_SWAPPED, pt_scale = PASS_THROUGH,
      pt_bufsize = max 2048 (unat total_length), pt_rfile = fp, pt_fcode = None, pt_break = False, pt_activated = False,
      pt_ng = None\<rparr>"

definition ng_opened :: "pcap_t \<Rightarrow> pcap_ng_sf \<Rightarrow> u16 \<Rightarrow> u32 \<Rightarrow> pcap_t" where
  "ng_opened p ps linktype snaplen =
     (let snapshot = sint snaplen;
          snapshot = (if snapshot \<le> 0 then int (max_snaplen_for_dlt (uint linktype)) else snapshot);
          dlt = linktype_to_dlt (uint linktype);
          size = MAX_BLOCKSIZE (max_snaplen_for_dlt dlt)
      in p\<lparr>pt_snapshot := snapshot, pt_linktype := dlt,
           pt_ng := Some (if size > unat (max_blocksize ps) then ps\<lparr>max_blocksize := word_of_nat size\<rparr> else ps)\<rparr>)"

text \<open>At the label \<open>fail\<close> the interfaces, if any, the buffer and the handle are freed.\<close>

definition ng_fail :: "pcap_ng_sf \<Rightarrow> mem \<Rightarrow> mem" where
  "ng_fail ps m = mfree (mfree (if ifaces_size ps = 0 then m else mfree m))"

definition ng_section ::
    "bool \<Rightarrow> u32 \<Rightarrow> rstream \<Rightarrow> u32 \<Rightarrow> u64 \<Rightarrow> mem \<Rightarrow> (pcap_t opened \<times> rstream \<times> mem) option" where
  "ng_section swapped total_length fp precision user m =
     (let room = max 2048 (unat total_length);
          ps = \<lparr>user_tsresol = user, max_blocksize = word_of_nat (MAX_BLOCKSIZE MAXIMUM_SNAPLEN), ifcount = 0, ifaces_size = 0,
                ifaces = [], block_room = room\<rparr>
      in if unat total_length > room then None
         else
           (case read_bytes (unat total_length - 12) True fp of
              (Inl e, fp) \<Rightarrow> Some (Failed (case e of None \<Rightarrow> Read_Error | Some e \<Rightarrow> e), fp, ng_fail ps m)
            | (Inr shb, fp) \<Rightarrow>
                do {
                  major \<leftarrow> field16 swapped shb 0;
                  minor \<leftarrow> field16 swapped shb 2;
                  if \<not> (major = PCAP_NG_VERSION_MAJOR \<and> minor = PCAP_NG_VERSION_MINOR) then
                    Some (Failed (Unsupported_Version major minor), fp, ng_fail ps m)
                  else
                    (let p = ng_handle swapped precision total_length major minor fp in
                     case first_interface fp p ps m of
                       None \<Rightarrow> None
                     | Some (Inl e, fp, ps, m) \<Rightarrow> Some (Failed e, fp, ng_fail ps m)
                     | Some (Inr (linktype, snaplen), fp, ps, m) \<Rightarrow> Some (Opened (ng_opened p ps linktype snaplen), fp, m))
                }))"

text \<open>Fewer than four bytes: an error if reading failed, else another format.\<close>

definition ng_short :: "rstream \<Rightarrow> pcap_t opened" where
  "ng_short fp = (if st_error fp then Failed Read_Error else Not_Mine)"

definition pcap_ng_check_header ::
    "u32 \<Rightarrow> rstream \<Rightarrow> u32 \<Rightarrow> mem \<Rightarrow> (pcap_t opened \<times> rstream \<times> mem) option" where
  "pcap_ng_check_header magic fp precision m =
     (if magic \<noteq> BT_SHB then Some (Not_Mine, fp, m)
      else
        (case fread 4 fp of
           (length_bytes, fp) \<Rightarrow>
             if length length_bytes < 4 then Some (ng_short fp, fp, m)
             else
               (case fread 4 fp of
                  (magic_bytes, fp) \<Rightarrow>
                    if length magic_bytes < 4 then Some (ng_short fp, fp, m)
                    else do {
                      byte_order_magic \<leftarrow> get_le32 magic_bytes 0;
                      if byte_order_magic \<noteq> BYTE_ORDER_MAGIC \<and> SWAPLONG byte_order_magic \<noteq> BYTE_ORDER_MAGIC then
                        Some (Not_Mine, fp, m)
                      else do {
                        let swapped = (byte_order_magic \<noteq> BYTE_ORDER_MAGIC);
                        total_length \<leftarrow> field32 swapped length_bytes 0;
                        if total_length < 28 then Some (Failed (Section_Too_Short total_length), fp, m)
                        else
                          (case malloc m of
                             (False, m) \<Rightarrow> Some (Failed Out_Of_Memory, fp, m)
                           | (True, m) \<Rightarrow>
                               (case user_tsresol_for precision of
                                  None \<Rightarrow> Some (Failed (Unknown_Resolution precision), fp, mfree m)
                                | Some user \<Rightarrow>
                                    (case malloc m of
                                       (False, m) \<Rightarrow> Some (Failed Out_Of_Memory, fp, mfree m)
                                     | (True, m) \<Rightarrow> ng_section swapped total_length fp precision user m)))
                      }
                    })))"

definition pcap_ng_cleanup :: "mem \<Rightarrow> mem" where
  "pcap_ng_cleanup m = mfree m"

section \<open>Reading a packet\<close>

text \<open>What the three kinds of packet blocks give: interface, lengths and time stamp.\<close>

record ng_packet =
  np_interface :: u32
  np_caplen :: u32
  np_len :: u32
  np_time :: u64

definition stamp :: "u32 \<Rightarrow> u32 \<Rightarrow> u64" where
  "stamp high low = push_bit 32 (ucast high) OR ucast low"

definition enhanced_fields :: "bool \<Rightarrow> byte list \<Rightarrow> ng_packet option" where
  "enhanced_fields swapped bs = do {
     interface \<leftarrow> field32 swapped bs 0;
     high \<leftarrow> field32 swapped bs 4;
     low \<leftarrow> field32 swapped bs 8;
     caplen \<leftarrow> field32 swapped bs 12;
     len \<leftarrow> field32 swapped bs 16;
     Some \<lparr>np_interface = interface, np_caplen = caplen, np_len = len, np_time = stamp high low\<rparr>
   }"

definition simple_fields :: "bool \<Rightarrow> int \<Rightarrow> byte list \<Rightarrow> ng_packet option" where
  "simple_fields swapped snapshot bs = do {
     len \<leftarrow> field32 swapped bs 0;
     Some \<lparr>np_interface = 0, np_caplen = (if len > word_of_int snapshot then word_of_int snapshot else len),
           np_len = len, np_time = 0\<rparr>
   }"

definition packet_fields :: "bool \<Rightarrow> byte list \<Rightarrow> ng_packet option" where
  "packet_fields swapped bs = do {
     interface \<leftarrow> field16 swapped bs 0;
     high \<leftarrow> field32 swapped bs 4;
     low \<leftarrow> field32 swapped bs 8;
     caplen \<leftarrow> field32 swapped bs 12;
     len \<leftarrow> field32 swapped bs 16;
     Some \<lparr>np_interface = ucast interface, np_caplen = caplen, np_len = len, np_time = stamp high low\<rparr>
   }"

text \<open>A block of a packet is the packet, with the cursor at its data; any other block is \<open>None\<close>.\<close>

definition packet_block :: "bool \<Rightarrow> int \<Rightarrow> block_cursor \<Rightarrow> (sf_error + (ng_packet \<times> block_cursor) option) option" where
  "packet_block swapped snapshot cursor =
     (let part = (\<lambda>size fields.
        case get_from_block_data cursor size of
          Inl e \<Rightarrow> Some (Inl e)
        | Inr (bs, cursor) \<Rightarrow> map_option (\<lambda>np. Inr (Some (np, cursor))) (fields bs))
      in
      if block_type cursor = BT_EPB then part 20 (enhanced_fields swapped)
      else if block_type cursor = BT_SPB then part 4 (simple_fields swapped snapshot)
      else if block_type cursor = BT_PB then part 20 (packet_fields swapped)
      else Some (Inr None))"

text \<open>A further interface has to be of the type and snapshot length of the first one.\<close>

definition further_interface :: "block_cursor \<Rightarrow> pcap_t \<Rightarrow> pcap_ng_sf \<Rightarrow> mem \<Rightarrow> (sf_error option \<times> pcap_ng_sf \<times> mem) option" where
  "further_interface cursor p ps m =
     (case interface_fields (pt_swapped p) cursor of
        None \<Rightarrow> None
      | Some (Inl e) \<Rightarrow> Some (Some e, ps, m)
      | Some (Inr ((linktype, snaplen), cursor)) \<Rightarrow>
          if pt_linktype p \<noteq> uint linktype then Some (Some (Different_Linktype linktype), ps, m)
          else if word_of_int (pt_snapshot p) \<noteq> snaplen then Some (Some (Different_Snaplen snaplen), ps, m)
          else add_interface (pt_swapped p) cursor ps m)"

definition next_section :: "block_cursor \<Rightarrow> pcap_t \<Rightarrow> pcap_ng_sf \<Rightarrow> (sf_error option \<times> pcap_ng_sf) option" where
  "next_section cursor p ps =
     (case get_from_block_data cursor 16 of
        Inl e \<Rightarrow> Some (Some e, ps)
      | Inr (bs, cursor) \<Rightarrow>
          do {
            byte_order_magic \<leftarrow> field32 (pt_swapped p) bs 0;
            major \<leftarrow> field16 (pt_swapped p) bs 4;
            Some (if byte_order_magic = BYTE_ORDER_MAGIC then
                    (if major \<noteq> PCAP_NG_VERSION_MAJOR then (Some (Unknown_Major_Version major), ps)
                     else (None, ps\<lparr>ifcount := 0\<rparr>))
                  else if byte_order_magic = SWAPLONG BYTE_ORDER_MAGIC then (Some Different_Byte_Order, ps)
                  else (Some Bad_Byte_Order_Magic, ps))
          })"

definition other_block :: "block_cursor \<Rightarrow> pcap_t \<Rightarrow> pcap_ng_sf \<Rightarrow> mem \<Rightarrow> (sf_error option \<times> pcap_ng_sf \<times> mem) option" where
  "other_block cursor p ps m =
     (if block_type cursor = BT_IDB then further_interface cursor p ps m
      else if block_type cursor = BT_SHB then map_option (\<lambda>(e, ps). (e, ps, m)) (next_section cursor p ps)
      else Some (None, ps, m))"

text \<open>The blocks up to the next packet; \<open>Inl\<close> is what \<open>pcap_ng_next_packet\<close> returns without one.\<close>

function next_packet_block ::
    "rstream \<Rightarrow> pcap_t \<Rightarrow> pcap_ng_sf \<Rightarrow> mem \<Rightarrow> ((sf_next + ng_packet \<times> block_cursor) \<times> rstream \<times> pcap_ng_sf \<times> mem) option" where
  "next_packet_block fp p ps m =
     (case read_block fp p ps m of
        None \<Rightarrow> None
      | Some (Inl None, fp, ps, m) \<Rightarrow> Some (Inl End_Of_File, fp, ps, m)
      | Some (Inl (Some e), fp, ps, m) \<Rightarrow> Some (Inl (Read_Failed e), fp, ps, m)
      | Some (Inr cursor, fp, ps, m) \<Rightarrow>
          (case packet_block (pt_swapped p) (pt_snapshot p) cursor of
             None \<Rightarrow> None
           | Some (Inl e) \<Rightarrow> Some (Inl (Read_Failed e), fp, ps, m)
           | Some (Inr (Some pk)) \<Rightarrow> Some (Inr pk, fp, ps, m)
           | Some (Inr None) \<Rightarrow>
               (case other_block cursor p ps m of
                  None \<Rightarrow> None
                | Some (Some e, ps, m) \<Rightarrow> Some (Inl (Read_Failed e), fp, ps, m)
                | Some (None, ps, m) \<Rightarrow> next_packet_block fp p ps m)))"
  by pat_completeness auto
termination
  by (relation "measure (\<lambda>(fp, p, ps, m). length (st_data fp))") (auto dest!: read_block_left)

declare next_packet_block.simps [simp del]

text \<open>Seconds, and fractions in the user's resolution, with the wrap-around of 64 bits.\<close>

definition ng_fraction :: "u64 \<Rightarrow> pcap_ng_if \<Rightarrow> u64 \<Rightarrow> u64 option" where
  "ng_fraction user i t =
     (let frac = t mod tsresol i in
      case scale_type i of
        NG_PASS_THROUGH \<Rightarrow> Some frac
      | SCALE_UP_DEC \<Rightarrow> Some (frac * scale_factor i)
      | SCALE_UP_BIN \<Rightarrow> Some (frac * user div tsresol i)
      | SCALE_DOWN_DEC \<Rightarrow> if scale_factor i = 0 then None else Some (frac div scale_factor i)
      | SCALE_DOWN_BIN \<Rightarrow> Some (frac * user div tsresol i))"

definition ng_timeval :: "u64 \<Rightarrow> pcap_ng_if \<Rightarrow> u64 \<Rightarrow> timeval option" where
  "ng_timeval user i t =
     (if tsresol i = 0 then None
      else
        (case ng_fraction user i t of
           None \<Rightarrow> None
         | Some frac \<Rightarrow>
             Some \<lparr>tv_sec = sint (t div tsresol i + tsoffset i), tv_usec = sint (ucast frac :: u32)\<rparr>))"

definition ng_data :: "ng_packet \<Rightarrow> block_cursor \<Rightarrow> pcap_t \<Rightarrow> pcap_ng_sf \<Rightarrow> sf_next option" where
  "ng_data np cursor p ps =
     (if np_interface np \<ge> ifcount ps then Some (Read_Failed (Unknown_Interface (np_interface np)))
      else if np_caplen np > word_of_int (pt_snapshot p) then
        Some (Read_Failed (Caplen_Over_Snaplen (np_caplen np) (pt_snapshot p)))
      else if unat (np_interface np) \<ge> length (ifaces ps) then None
      else do {
        i \<leftarrow> ifaces ps ! unat (np_interface np);
        ts \<leftarrow> ng_timeval (user_tsresol ps) i (np_time np);
        case get_from_block_data cursor (unat (np_caplen np)) of
          Inl e \<Rightarrow> Some (Read_Failed e)
        | Inr (data, cursor) \<Rightarrow>
            do {
              data \<leftarrow> (if pt_swapped p then swap_pseudo_headers (pt_linktype p) (np_caplen np) (np_len np) data else Some data);
              Some (Packet \<lparr>ph_ts = ts, ph_caplen = np_caplen np, ph_len = np_len np\<rparr> data)
            }
      })"

definition pcap_ng_next_packet :: "pcap_ng_sf \<Rightarrow> pcap_t \<Rightarrow> mem \<Rightarrow> (sf_next \<times> pcap_t \<times> mem) option" where
  "pcap_ng_next_packet ps p m =
     (case next_packet_block (pt_rfile p) p ps m of
        None \<Rightarrow> None
      | Some (r, fp, ps, m) \<Rightarrow>
          (let p = p\<lparr>pt_rfile := fp, pt_ng := Some ps\<rparr> in
           case r of
             Inl s \<Rightarrow> Some (s, p, m)
           | Inr (np, cursor) \<Rightarrow> map_option (\<lambda>s. (s, p, m)) (ng_data np cursor p ps)))"

section \<open>Reading is safe\<close>

lemma field_Some:
  "k + 2 \<le> length bs \<Longrightarrow> \<exists>w. field16 swapped bs k = Some w"
  "k + 4 \<le> length bs \<Longrightarrow> \<exists>w. field32 swapped bs k = Some w"
  "k + 8 \<le> length bs \<Longrightarrow> \<exists>w. field64 swapped bs k = Some w"
  by (simp_all add: field16_def field32_def field64_def get_le16_def get_le64_def get8_Some get_le32_Some)

text \<open>A cursor inside the block that was read, which is at most 16 MB.\<close>

definition cursor_ok :: "block_cursor \<Rightarrow> bool" where
  "cursor_ok cursor \<longleftrightarrow> data_remaining cursor \<le> length (cur_data cursor) \<and> data_remaining cursor \<le> 2 ^ 24"

lemma get_from_ok:
  assumes "get_from_block_data cursor n = Inr (bs, cursor')" "cursor_ok cursor"
  shows "length bs = n \<and> cursor_ok cursor' \<and> n \<le> 2 ^ 24"
  using assms by (auto simp: get_from_block_data_def cursor_ok_def split: if_splits)

lemma read_block_ok:
  assumes "pt_bufsize p \<le> block_room ps"
  shows "\<exists>r fp' m' b. read_block fp p ps m = Some (r, fp', ps\<lparr>block_room := b\<rparr>, m') \<and> pt_bufsize p \<le> b \<and> live m' = live m \<and>
    (case r of Inl _ \<Rightarrow> True | Inr cursor \<Rightarrow> cursor_ok cursor)"
proof -
  obtain r1 fp1 where h: "read_bytes 8 False fp = (r1, fp1)" by fastforce
  show ?thesis
  proof (cases r1)
    case (Inl e)
    with h assms show ?thesis
      by (intro exI [of _ "Inl e"] exI [of _ fp1] exI [of _ m] exI [of _ "block_room ps"]) (simp add: read_block_def)
  next
    case (Inr bhdr)
    with read_bytes_length(2) [OF h] have "length bhdr = 8" by simp
    then obtain t n where f: "field32 (pt_swapped p) bhdr 0 = Some t" "field32 (pt_swapped p) bhdr 4 = Some n"
      using field_Some(2) [of 0 bhdr "pt_swapped p"] field_Some(2) [of 4 bhdr "pt_swapped p"] by auto
    obtain e ps1 m1 where bb: "block_buffer n p ps m = (e, ps1, m1)" using prod_cases3 by metis
    have ps1: "ps1 = ps\<lparr>block_room := block_room ps1\<rparr>" "pt_bufsize p \<le> block_room ps1" "live m1 = live m"
      "e = None \<Longrightarrow> unat n \<le> block_room ps1"
      using bb assms mrealloc_live [of m] by (auto simp: block_buffer_def split: if_splits prod.splits bool.splits)
    obtain r2 fp2 where rd: "read_bytes (unat n - 8) True fp1 = (r2, fp2)" by fastforce
    have eq: "read_block fp p ps m =
        (if n > 16 * 1024 * 1024 then Some (Inl (Some (Block_Too_Big n)), fp1, ps, m)
         else if n < 12 then Some (Inl (Some (Block_Too_Small n)), fp1, ps, m)
         else (case e of Some e \<Rightarrow> Some (Inl (Some e), fp1, ps1, m1)
           | None \<Rightarrow> (case r2 of Inl e \<Rightarrow> Some (Inl e, fp2, ps1, m1)
             | Inr bdata \<Rightarrow> Some (Inr \<lparr>cur_data = bdata, data_remaining = unat n - 12, block_type = t\<rparr>, fp2, ps1, m1))))"
      using h Inr f bb rd ps1(4) by (cases e) (auto simp: read_block_def split: option.split sum.split)
    consider "n > 16 * 1024 * 1024 \<or> n < 12" | e' where "\<not> (n > 16 * 1024 * 1024 \<or> n < 12)" "e = Some e'"
      | e' where "\<not> (n > 16 * 1024 * 1024 \<or> n < 12)" "e = None" "r2 = Inl e'"
      | bdata where "\<not> (n > 16 * 1024 * 1024 \<or> n < 12)" "e = None" "r2 = Inr bdata" by (cases e; cases r2) auto
    then show ?thesis
    proof cases
      case 1
      with eq assms show ?thesis
        by (intro exI [of _ "Inl (Some (if n > 16 * 1024 * 1024 then Block_Too_Big n else Block_Too_Small n))"] exI [of _ fp1]
            exI [of _ m] exI [of _ "block_room ps"]) auto
    next
      case 2
      with eq ps1 show ?thesis by (intro exI [of _ "Inl (Some e')"] exI [of _ fp1] exI [of _ m1] exI [of _ "block_room ps1"]) simp
    next
      case 3
      with eq ps1 show ?thesis by (intro exI [of _ "Inl e'"] exI [of _ fp2] exI [of _ m1] exI [of _ "block_room ps1"]) simp
    next
      case 4
      have "length bdata = unat n - 8" "unat n \<le> 2 ^ 24" "12 \<le> unat n"
        using read_bytes_length(2) [OF rd] 4 by (auto simp: not_less word_le_nat_alt)
      with 4 eq ps1 show ?thesis
        by (intro exI [of _ "Inr \<lparr>cur_data = bdata, data_remaining = unat n - 12, block_type = t\<rparr>"] exI [of _ fp2]
            exI [of _ m1] exI [of _ "block_room ps1"]) (auto simp: cursor_ok_def)
    qed
  qed
qed

text \<open>Resolutions are powers that fit in 64 bits.\<close>

lemma power_word:
  assumes "(b :: nat) ^ n < 2 ^ 64"
  shows "unat (word_of_nat b ^ n :: u64) = b ^ n"
proof -
  have "word_of_nat b ^ n = (word_of_nat (b ^ n) :: u64)" by simp
  then show ?thesis using assms by (simp only: unat_of_nat) simp
qed

lemma power_ten: "n \<le> 19 \<Longrightarrow> unat (10 ^ n :: u64) = 10 ^ n"
proof -
  assume "n \<le> 19"
  then have "(10 :: nat) ^ n \<le> 10 ^ 19" by (rule power_increasing) simp
  then have "(10 :: nat) ^ n < 2 ^ 64" by simp
  from power_word [OF this] show ?thesis by simp
qed

lemma power_two: "n < 64 \<Longrightarrow> unat (push_bit n 1 :: u64) = 2 ^ n"
  using power_word [of 2 n] power_strict_increasing [of n 64 "2 :: nat"] by (simp add: push_bit_eq_mult)
lemma tsresol_nonzero: "tsresol_of opt = Inr (res, bin) \<Longrightarrow> res \<noteq> 0"
proof -
  assume a: "tsresol_of opt = Inr (res, bin)"
  show "res \<noteq> 0"
  proof (cases "opt AND 0x80 \<noteq> 0")
    case True
    with a have "opt AND 0x7F \<le> 63" "res = push_bit (unat (opt AND 0x7F)) 1" by (auto simp: tsresol_of_def Let_def split: if_splits)
    moreover from this(1) have "unat (opt AND 0x7F) < 64" by (simp add: word_le_nat_alt)
    ultimately show ?thesis using power_two by (metis power_not_zero unat_0 zero_neq_numeral)
  next
    case False
    with a have "opt \<le> 19" "res = 10 ^ unat opt" by (auto simp: tsresol_of_def split: if_splits)
    then show ?thesis using power_ten [of "unat opt"] by (auto simp: word_le_nat_alt)
  qed
qed

lemma opthdr_ok:
  assumes "cursor_ok cursor"
  shows "\<exists>r. get_opthdr_from_block_data swapped cursor = Some r \<and>
    (case r of Inl e \<Rightarrow> True | Inr (h, cursor') \<Rightarrow> cursor_ok cursor')"
proof (cases "get_from_block_data cursor 4")
  case (Inr b)
  obtain bs cursor' where b: "b = (bs, cursor')" by fastforce
  have "length bs = 4 \<and> cursor_ok cursor'" using get_from_ok [of cursor 4 bs cursor'] Inr b assms by simp
  then obtain w v where "field16 swapped bs 0 = Some w" "field16 swapped bs 2 = Some v" "cursor_ok cursor'"
    using field_Some(1) [of 0 bs swapped] field_Some(1) [of 2 bs swapped] by auto
  with Inr b show ?thesis by (simp add: get_opthdr_from_block_data_def)
qed (simp add: get_opthdr_from_block_data_def)

lemma opthdr_shrinks:
  "get_opthdr_from_block_data swapped cursor = Some (Inr (h, cursor')) \<Longrightarrow> data_remaining cursor' < data_remaining cursor"
  by (auto simp: get_opthdr_from_block_data_def get_from_block_data_def split: if_splits bind_splits)

lemma optvalue_shrinks:
  "get_optvalue_from_block_data cursor len = Inr (v, cursor') \<Longrightarrow> data_remaining cursor' \<le> data_remaining cursor"
  by (auto simp: get_optvalue_from_block_data_def get_from_block_data_def split: if_splits)

definition resolves :: "(sf_error + idb_times) option \<Rightarrow> bool" where
  "resolves r = (case r of None \<Rightarrow> False | Some (Inl e) \<Rightarrow> True | Some (Inr it) \<Rightarrow> it_tsresol it \<noteq> 0)"

lemma resolves_simps [simp]: "\<not> resolves None" "resolves (Some (Inl e))" "resolves (Some (Inr it)) \<longleftrightarrow> it_tsresol it \<noteq> 0"
  by (simp_all add: resolves_def)

lemma idb_options_ok:
  assumes "cursor_ok cursor" "it_tsresol it \<noteq> 0"
  shows "resolves (process_idb_options swapped cursor a b it)"
  using assms
proof (induction "data_remaining cursor" arbitrary: cursor a b it rule: less_induct)
  case less
  show ?case
  proof (cases "data_remaining cursor = 0")
    case True
    with less.prems show ?thesis by (subst process_idb_options.simps) simp
  next
    case False
    obtain r where r: "get_opthdr_from_block_data swapped cursor = Some r"
      "case r of Inl e \<Rightarrow> True | Inr (h, cursor') \<Rightarrow> cursor_ok cursor'" using opthdr_ok less.prems(1) by blast
    consider (cut) e where "r = Inl e" | (short) code len cursor1 e where "r = Inr ((code, len), cursor1)"
        "get_optvalue_from_block_data cursor1 len = Inl e"
      | (val) code len cursor1 optvalue cursor2 where "r = Inr ((code, len), cursor1)"
        "get_optvalue_from_block_data cursor1 len = Inr (optvalue, cursor2)" by (metis old.prod.exhaust sum.exhaust)
    then show ?thesis
    proof cases
      case cut
      with False r show ?thesis by (subst process_idb_options.simps) simp
    next
      case short
      with False r show ?thesis by (subst process_idb_options.simps) simp
    next
      case val
      have c: "cursor_ok cursor2" "length optvalue = (unat len + 3) div 4 * 4"
        using get_from_ok [of cursor1 _ optvalue cursor2] val r(2) by (simp_all add: get_optvalue_from_block_data_def)
      have "data_remaining cursor2 < data_remaining cursor"
        using opthdr_shrinks [of swapped cursor] optvalue_shrinks [OF val(2)] r(1) val(1) by fastforce
      note IH = less.hyps [OF this c(1)]
      have IH2: "resolves (process_idb_options swapped cursor2 a b (it\<lparr>it_tsresol := res, it_binary := bin\<rparr>))"
        if "tsresol_of x = Inr (res, bin)" for x res bin a b using IH tsresol_nonzero [OF that] by simp
      have opt: "len = 1 \<Longrightarrow> \<exists>x. get8 optvalue 0 = Some x" "len = 8 \<Longrightarrow> \<exists>x. field64 swapped optvalue 0 = Some x"
        using c(2) field_Some(3) [of 0 optvalue swapped] by (auto simp: get8_def)
      show ?thesis
        using False r(1) val less.prems(2) opt IH IH2
        by (subst process_idb_options.simps) (auto split: sum.split)
    qed
  qed
qed
text \<open>The array of interfaces: its size is a power of two, and the interfaces counted are described.\<close>

definition iface_ok :: "pcap_ng_if \<Rightarrow> bool" where
  "iface_ok i \<longleftrightarrow> tsresol i \<noteq> 0 \<and> (scale_type i = SCALE_DOWN_DEC \<longrightarrow> scale_factor i \<noteq> 0)"

definition ifaces_ok :: "pcap_ng_sf \<Rightarrow> bool" where
  "ifaces_ok ps \<longleftrightarrow>
     (ifaces_size ps = 0 \<or> (\<exists>k \<le> 31. unat (ifaces_size ps) = 2 ^ k)) \<and> length (ifaces ps) = unat (ifaces_size ps) \<and>
     unat (ifcount ps) \<le> length (ifaces ps) \<and> user_tsresol ps \<noteq> 0 \<and>
     (\<forall>k < unat (ifcount ps). \<exists>i. ifaces ps ! k = Some i \<and> iface_ok i)"

definition iface_blocks :: "pcap_ng_sf \<Rightarrow> int" where
  "iface_blocks ps = (if ifaces_size ps = 0 then 0 else 1)"

lemma interface_for_ok: "it_tsresol it \<noteq> 0 \<Longrightarrow> user \<noteq> 0 \<Longrightarrow> iface_ok (interface_for user it)"
proof -
  assume a: "it_tsresol it \<noteq> 0" "user \<noteq> 0"
  have "it_tsresol it div user \<noteq> 0" if "it_tsresol it > user"
  proof -
    have "unat user \<noteq> 0" "unat user \<le> unat (it_tsresol it)" using a that by (simp_all add: unat_eq_0 word_less_nat_alt)
    then have "unat (it_tsresol it div user) \<noteq> 0" by (simp add: unat_div div_eq_0_iff)
    then show ?thesis by auto
  qed
  with a show ?thesis by (auto simp: iface_ok_def interface_for_def Let_def)
qed

text \<open>Doubling a power of two of 32 bits overflows only for the largest.\<close>

lemma double_power:
  assumes "unat (w :: u32) = 2 ^ k" "k \<le> 31"
  shows "w * 2 < w \<longleftrightarrow> k = 31" "k < 31 \<Longrightarrow> unat (w * 2) = 2 ^ (k + 1)"
proof -
  have u: "unat (w * 2) = 2 ^ (k + 1) mod 2 ^ 32" using assms(1) by (simp add: unat_word_ariths mult.commute)
  show small: "unat (w * 2) = 2 ^ (k + 1)" if "k < 31"
  proof -
    have "(2 :: nat) ^ (k + 1) < 2 ^ 32" by (rule power_strict_increasing) (use that in auto)
    with u show ?thesis by simp
  qed
  show "w * 2 < w \<longleftrightarrow> k = 31"
  proof (cases "k = 31")
    case True
    with u assms(1) show ?thesis by (simp add: word_less_nat_alt)
  next
    case False
    with small assms show ?thesis by (simp add: word_less_nat_alt)
  qed
qed

lemma grow_interfaces_ok:
  assumes "ifaces_ok ps" "grow_interfaces (ps\<lparr>ifcount := ifcount ps + 1\<rparr>) m = (e, ps', m')"
  shows "live m' - iface_blocks ps' = live m - iface_blocks ps \<and> (ifaces_size ps \<noteq> 0 \<longrightarrow> ifaces_size ps' \<noteq> 0) \<and>
    block_room ps' = block_room ps \<and> user_tsresol ps' = user_tsresol ps \<and>
    (e = None \<longrightarrow> (\<exists>k \<le> 31. unat (ifaces_size ps') = 2 ^ k) \<and> length (ifaces ps') = unat (ifaces_size ps') \<and>
       ifcount ps' = ifcount ps + 1 \<and> unat (ifcount ps') = unat (ifcount ps) + 1 \<and> unat (ifcount ps') \<le> length (ifaces ps') \<and>
       take (unat (ifcount ps)) (ifaces ps') = take (unat (ifcount ps)) (ifaces ps))"
proof -
  let ?s = "ifaces_size ps" and ?c = "ifcount ps"
  have inv: "?s = 0 \<or> (\<exists>k \<le> 31. unat ?s = 2 ^ k)" "length (ifaces ps) = unat ?s" "unat ?c \<le> unat ?s"
    using assms(1) by (auto simp: ifaces_ok_def)
  have "unat ?s \<le> 2 ^ 31"
  proof (cases "?s = 0")
    case False
    with inv(1) obtain k where "k \<le> 31" "unat ?s = 2 ^ k" by blast
    then show ?thesis by (metis one_le_numeral power_increasing)
  qed simp
  then have c: "unat (?c + 1) = unat ?c + 1" using inv(3) by (simp add: unat_word_ariths)
  have gt: "?c + 1 > ?s \<longleftrightarrow> unat ?c = unat ?s" using inv(3) c by (auto simp: word_less_nat_alt)
  consider (room) "unat ?c \<noteq> unat ?s" | (empty) "unat ?c = unat ?s" "?s = 0"
    | (full) k where "unat ?c = unat ?s" "?s \<noteq> 0" "k \<le> 31" "unat ?s = 2 ^ k" using inv(1) by blast
  then show ?thesis
  proof cases
    case room
    then have "?s \<noteq> 0" using inv(3) by auto
    with room assms(2) gt inv c show ?thesis by (auto simp: grow_interfaces_def iface_blocks_def)
  next
    case empty
    then have "?c = 0" by (simp only: unsigned_0 unsigned_eq_0_iff)
    with empty assms(2) inv show ?thesis using malloc_live [of m]
      by (auto simp: grow_interfaces_def iface_blocks_def Let_def split: prod.splits bool.splits intro!: exI [of _ 0])
  next
    case full
    show ?thesis
    proof (cases "k = 31")
      case True
      with full assms(2) gt double_power [OF full(4,3)] show ?thesis by (auto simp: grow_interfaces_def iface_blocks_def)
    next
      case False
      then have k: "k < 31" using full(3) by simp
      have d: "\<not> ?s * 2 < ?s" "unat (?s * 2) = 2 ^ (k + 1)" "?s * 2 \<noteq> 0"
        using double_power [OF full(4,3)] k by (auto simp: unat_eq_0 [symmetric])
      have step: "grow_interfaces (ps\<lparr>ifcount := ifcount ps + 1\<rparr>) m =
          (case mrealloc m of (False, m) \<Rightarrow> (Some (No_Memory_For_Interfaces (?c + 1)), ps\<lparr>ifcount := ?c + 1\<rparr>, m)
           | (True, m) \<Rightarrow> (None, ps\<lparr>ifcount := ?c + 1, ifaces_size := ?s * 2,
               ifaces := ifaces ps @ replicate (unat (?s * 2) - unat ?s) None\<rparr>, m))"
        using full(1,2) gt d(1) by (simp add: grow_interfaces_def Let_def split: prod.split bool.split)
      obtain ok m1 where r: "mrealloc m = (ok, m1)" by fastforce
      show ?thesis
      proof (cases ok)
        case True
        with assms(2) step r have "ps' = ps\<lparr>ifcount := ?c + 1, ifaces_size := ?s * 2,
            ifaces := ifaces ps @ replicate (unat (?s * 2) - unat ?s) None\<rparr>" "m' = m1" by auto
        moreover have "k + 1 \<le> 31" using k by simp
        ultimately show ?thesis using full(1,2,4) d(2,3) c inv(2) mrealloc_live [OF r]
          by (auto simp: iface_blocks_def intro!: exI [of _ "k + 1"])
      next
        case False
        with assms(2) step r mrealloc_live [OF r] full(2) show ?thesis by (auto simp: iface_blocks_def)
      qed
    qed
  qed
qed
lemma add_interface_ok:
  assumes "ifaces_ok ps" "cursor_ok cursor"
  shows "\<exists>e ps' m'. add_interface swapped cursor ps m = Some (e, ps', m') \<and> live m' - iface_blocks ps' = live m - iface_blocks ps \<and>
    (ifaces_size ps \<noteq> 0 \<longrightarrow> ifaces_size ps' \<noteq> 0) \<and> block_room ps' = block_room ps \<and> user_tsresol ps' = user_tsresol ps \<and>
    (e = None \<longrightarrow> ifaces_ok ps' \<and> ifaces_size ps' \<noteq> 0)"
proof -
  let ?o = "process_idb_options swapped cursor False False \<lparr>it_tsresol = 1000000, it_tsoffset = 0, it_binary = False\<rparr>"
  obtain e ps1 m1 where g: "grow_interfaces (ps\<lparr>ifcount := ifcount ps + 1\<rparr>) m = (e, ps1, m1)" using prod_cases3 by metis
  note ok = grow_interfaces_ok [OF assms(1) g]
  have "resolves ?o" by (rule idb_options_ok [OF assms(2)]) simp
  show ?thesis
  proof (cases "e = None")
    case False
    with g ok show ?thesis by (auto simp: add_interface_def)
  next
    case True
    note st = ok [THEN conjunct2, THEN conjunct2, THEN conjunct2, THEN conjunct2, rule_format, OF True]
    show ?thesis
    proof (cases "\<exists>x. ?o = Some (Inl x)")
      case o: True
      with True g ok show ?thesis by (auto simp: add_interface_def)
    next
      case False
      with \<open>resolves ?o\<close> obtain it where it: "?o = Some (Inr it)" "it_tsresol it \<noteq> 0"
        by (auto simp: resolves_def split: option.splits sum.splits)
      let ?k = "unat (ifcount ps)"
      let ?ps = "ps1\<lparr>ifaces := (ifaces ps1)[?k := Some (interface_for (user_tsresol ps1) it)]\<rparr>"
      have c1: "unat (ifcount ps1) = ?k + 1" using st by blast
      have k: "unat (ifcount ps1 - 1) = ?k" "?k < length (ifaces ps1)" using st by simp_all
      have add: "add_interface swapped cursor ps m = Some (None, ?ps, m1)" using g True it(1) k by (simp add: add_interface_def Let_def)
      have u: "user_tsresol ps1 = user_tsresol ps" "user_tsresol ps \<noteq> 0" using ok assms(1) by (simp_all add: ifaces_ok_def)
      have old: "ifaces ps1 ! n = ifaces ps ! n" if "n < ?k" for n
        using that st nth_take [of n ?k "ifaces ps1"] nth_take [of n ?k "ifaces ps"] by simp
      have "\<exists>i. ifaces ?ps ! n = Some i \<and> iface_ok i" if "n < unat (ifcount ?ps)" for n
      proof (cases "n = ?k")
        case True
        with k interface_for_ok [OF it(2) u(2)] u(1) show ?thesis by simp
      next
        case False
        with that c1 have "n < ?k" by simp
        with old assms(1) False show ?thesis by (simp add: ifaces_ok_def)
      qed
      then have "ifaces_ok ?ps" using st u by (auto simp: ifaces_ok_def)
      moreover have "ifaces_size ps1 \<noteq> 0" using st by auto
      ultimately show ?thesis using add ok by (auto simp: iface_blocks_def)
    qed
  qed
qed

text \<open>The handle of an open file.\<close>

definition ng_ok :: "pcap_t \<Rightarrow> pcap_ng_sf \<Rightarrow> bool" where
  "ng_ok p ps \<longleftrightarrow> ifaces_ok ps \<and> ifaces_size ps \<noteq> 0 \<and> pt_bufsize p \<le> block_room ps"

lemma interface_fields_ok:
  assumes "cursor_ok cursor"
  shows "\<exists>r. interface_fields swapped cursor = Some r \<and> (case r of Inl e \<Rightarrow> True | Inr (h, cursor') \<Rightarrow> cursor_ok cursor')"
proof (cases "get_from_block_data cursor 8")
  case (Inr b)
  obtain bs cursor' where b: "b = (bs, cursor')" by fastforce
  have l: "length bs = 8" "cursor_ok cursor'" using get_from_ok [of cursor 8 bs cursor'] Inr b assms by simp_all
  then obtain w v where "field16 swapped bs 0 = Some w" "field32 swapped bs 4 = Some v"
    using field_Some(1) [of 0 bs swapped] field_Some(2) [of 4 bs swapped] by auto
  with Inr b l show ?thesis by (simp add: interface_fields_def)
qed (simp add: interface_fields_def)

lemma ifaces_room [simp]:
  "ifaces_ok (ps\<lparr>block_room := b\<rparr>) = ifaces_ok ps" "iface_blocks (ps\<lparr>block_room := b\<rparr>) = iface_blocks ps"
  "ifaces_ok (ps\<lparr>max_blocksize := s\<rparr>) = ifaces_ok ps" "iface_blocks (ps\<lparr>max_blocksize := s\<rparr>) = iface_blocks ps"
  by (simp_all add: ifaces_ok_def iface_blocks_def)

lemma first_interface_ok:
  assumes "ifaces_ok ps" "pt_bufsize p \<le> block_room ps"
  shows "\<exists>r fp' ps' m'. first_interface fp p ps m = Some (r, fp', ps', m') \<and>
    live m' - iface_blocks ps' = live m - iface_blocks ps \<and> (case r of Inl e \<Rightarrow> True | Inr x \<Rightarrow> ng_ok p ps')"
  using assms
proof (induction "length (st_data fp)" arbitrary: fp ps m rule: less_induct)
  case less
  obtain r fp1 m1 b where rb: "read_block fp p ps m = Some (r, fp1, ps\<lparr>block_room := b\<rparr>, m1)" "pt_bufsize p \<le> b" "live m1 = live m"
    "case r of Inl _ \<Rightarrow> True | Inr cursor \<Rightarrow> cursor_ok cursor" using read_block_ok [OF less.prems(2)] by blast
  let ?ps = "ps\<lparr>block_room := b\<rparr>"
  show ?case
  proof (cases r)
    case (Inl e)
    with rb show ?thesis by (subst first_interface.simps) (cases e; simp)
  next
    case (Inr cursor)
    then have c: "cursor_ok cursor" and l: "length (st_data fp1) < length (st_data fp)"
      using rb(4) read_block_left [OF rb(1)] by auto
    consider (idb) "block_type cursor = BT_IDB" | (packet) "block_type cursor \<noteq> BT_IDB" "block_type cursor = BT_EPB \<or> block_type cursor = BT_SPB \<or> block_type cursor = BT_PB"
      | (skip) "block_type cursor \<noteq> BT_IDB" "\<not> (block_type cursor = BT_EPB \<or> block_type cursor = BT_SPB \<or> block_type cursor = BT_PB)" by blast
    then show ?thesis
    proof cases
      case idb
      obtain x where x: "interface_fields (pt_swapped p) cursor = Some x"
        "case x of Inl e \<Rightarrow> True | Inr (h, cursor') \<Rightarrow> cursor_ok cursor'" using interface_fields_ok [OF c] by blast
      show ?thesis
      proof (cases x)
        case (Inl e)
        with rb idb x \<open>r = Inr cursor\<close> show ?thesis by (subst first_interface.simps) simp
      next
        case hx: (Inr h)
        obtain d cursor' where h: "h = (d, cursor')" by fastforce
        have "ifaces_ok ?ps" "cursor_ok cursor'" using less.prems(1) x(2) hx h by simp_all
        from add_interface_ok [OF this, of "pt_swapped p" m1] obtain e ps2 m2 where
          a: "add_interface (pt_swapped p) cursor' ?ps m1 = Some (e, ps2, m2)" "live m2 - iface_blocks ps2 = live m1 - iface_blocks ps"
            "block_room ps2 = b" "e = None \<longrightarrow> ifaces_ok ps2 \<and> ifaces_size ps2 \<noteq> 0" by auto
        with rb idb x hx h \<open>r = Inr cursor\<close> show ?thesis
          by (subst first_interface.simps) (cases e; simp add: ng_ok_def)
      qed
    next
      case packet
      with rb \<open>r = Inr cursor\<close> show ?thesis by (subst first_interface.simps) simp
    next
      case skip
      have "ifaces_ok ?ps" "pt_bufsize p \<le> block_room ?ps" using less.prems(1) rb(2) by simp_all
      from less.hyps [OF l this, of m1] rb skip \<open>r = Inr cursor\<close> show ?thesis by (subst first_interface.simps) simp
    qed
  qed
qed

lemma ng_fail_live: "live (ng_fail ps m) = live m - 2 - iface_blocks ps"
  by (simp add: ng_fail_def iface_blocks_def)

lemma ng_opened_ok:
  assumes "ng_ok p ps"
  shows "sf_ok (ng_opened p ps l s) \<and> pt_fcode (ng_opened p ps l s) = pt_fcode p \<and>
    (\<exists>ps'. pt_ng (ng_opened p ps l s) = Some ps' \<and> ng_ok (ng_opened p ps l s) ps')"
proof -
  have "int (max_snaplen_for_dlt (uint l)) \<le> 2 ^ 27" using max_snaplen_bounds(2) by (metis of_nat_le_iff of_nat_numeral of_nat_power)
  moreover have "sint s < 2 ^ 31" using sint_range_size [of s] by (simp add: word_size)
  ultimately show ?thesis using assms by (auto simp: ng_opened_def Let_def sf_ok_def ng_ok_def)
qed

lemma ng_section_ok:
  assumes "user \<noteq> 0" "28 \<le> unat total_length"
  shows "\<exists>res fp' m'. ng_section swapped total_length fp precision user m = Some (res, fp', m') \<and>
    (case res of Not_Mine \<Rightarrow> False | Failed e \<Rightarrow> live m' = live m - 2
     | Opened p \<Rightarrow> sf_ok p \<and> pt_fcode p = None \<and> live m' = live m + 1 \<and> (\<exists>ps. pt_ng p = Some ps \<and> ng_ok p ps))"
proof -
  define ps :: pcap_ng_sf where "ps = \<lparr>user_tsresol = user, max_blocksize = word_of_nat (MAX_BLOCKSIZE MAXIMUM_SNAPLEN), ifcount = 0,
    ifaces_size = 0, ifaces = [], block_room = max 2048 (unat total_length)\<rparr>"
  have ps: "ifaces_ok ps" "iface_blocks ps = 0" using assms(1) by (simp_all add: ps_def ifaces_ok_def iface_blocks_def)
  obtain r fp1 where rd: "read_bytes (unat total_length - 12) True fp = (r, fp1)" by fastforce
  show ?thesis
  proof (cases r)
    case (Inl e)
    with rd ps ng_fail_live show ?thesis by (auto simp: ng_section_def Let_def simp flip: ps_def)
  next
    case (Inr shb)
    have "length shb = unat total_length - 12" using read_bytes_length(2) [OF rd] Inr by simp
    then have "0 + 2 \<le> length shb" "2 + 2 \<le> length shb" using assms(2) by linarith+
    then obtain a b where f: "field16 swapped shb 0 = Some a" "field16 swapped shb 2 = Some b"
      using field_Some(1) [of 0 shb swapped] field_Some(1) [of 2 shb swapped] by blast
    let ?p = "ng_handle swapped precision total_length a b fp1"
    have "pt_bufsize ?p \<le> block_room ps" "pt_fcode ?p = None" by (simp_all add: ng_handle_def ps_def)
    with first_interface_ok [OF ps(1), of ?p fp1 m] obtain x fp2 ps2 m2 where
      x: "first_interface fp1 ?p ps m = Some (x, fp2, ps2, m2)" "live m2 - iface_blocks ps2 = live m"
        "case x of Inl e \<Rightarrow> True | Inr y \<Rightarrow> ng_ok ?p ps2" using ps(2) by auto
    show ?thesis
    proof (cases x)
      case (Inl e)
      with x rd \<open>r = Inr shb\<close> f ps show ?thesis using ng_fail_live [of ps m] ng_fail_live [of ps2 m2]
        by (auto simp: ng_section_def Let_def simp flip: ps_def)
    next
      case (Inr y)
      obtain l s where y: "y = (l, s)" by fastforce
      have "iface_blocks ps2 = 1" using x(3) Inr by (simp add: ng_ok_def iface_blocks_def)
      with Inr y x rd \<open>r = Inr shb\<close> f ps ng_opened_ok [of ?p ps2 l s] \<open>pt_fcode ?p = None\<close> show ?thesis
        using ng_fail_live [of ps m] by (auto simp: ng_section_def Let_def simp flip: ps_def)
    qed
  qed
qed

lemma ng_check_header_ok:
  obtains res fp' m' where "pcap_ng_check_header magic fp precision m = Some (res, fp', m')"
    "case res of Opened p \<Rightarrow> sf_ok p \<and> pt_fcode p = None \<and> live m' = live m + 3 \<and> (\<exists>ps. pt_ng p = Some ps \<and> ng_ok p ps)
     | _ \<Rightarrow> live m' = live m"
proof -
  obtain lb fp1 where r1: "fread 4 fp = (lb, fp1)" by fastforce
  obtain mb fp2 where r2: "fread 4 fp1 = (mb, fp2)" by fastforce
  show thesis
  proof (cases "magic = BT_SHB \<and> \<not> length lb < 4 \<and> \<not> length mb < 4")
    case False
    define r where "r = (if magic \<noteq> BT_SHB then (Not_Mine, fp) else if length lb < 4 then (ng_short fp1, fp1) else (ng_short fp2, fp2))"
    obtain res fp' where "r = (res, fp')" by fastforce
    with False r1 r2 show thesis
      by (intro that [of res fp' m]) (auto simp: pcap_ng_check_header_def ng_short_def r_def split: if_splits)
  next
    case True
    obtain w where w: "get_le32 mb 0 = Some w" using True get_le32_Some [of 0 mb] by auto
    define sw where "sw = (w \<noteq> BYTE_ORDER_MAGIC)"
    obtain n where n: "field32 sw lb 0 = Some n" using True field_Some(2) [of 0 lb sw] by auto
    have eq: "pcap_ng_check_header magic fp precision m =
        (if w \<noteq> BYTE_ORDER_MAGIC \<and> SWAPLONG w \<noteq> BYTE_ORDER_MAGIC then Some (Not_Mine, fp2, m)
         else if n < 28 then Some (Failed (Section_Too_Short n), fp2, m)
         else (case malloc m of (False, m) \<Rightarrow> Some (Failed Out_Of_Memory, fp2, m)
           | (True, m) \<Rightarrow> (case user_tsresol_for precision of
               None \<Rightarrow> Some (Failed (Unknown_Resolution precision), fp2, mfree m)
             | Some user \<Rightarrow> (case malloc m of (False, m) \<Rightarrow> Some (Failed Out_Of_Memory, fp2, mfree m)
                 | (True, m) \<Rightarrow> ng_section sw n fp2 precision user m))))"
      using True r1 r2 w n by (simp add: pcap_ng_check_header_def Let_def flip: sw_def)
    have user: "user \<noteq> 0" if "user_tsresol_for precision = Some user" for user
      using that by (auto simp: user_tsresol_for_def split: if_splits)
    have sec: "\<exists>res fp' m'. ng_section sw n fp2 precision user m2 = Some (res, fp', m') \<and>
        (case res of Opened p \<Rightarrow> sf_ok p \<and> pt_fcode p = None \<and> live m' = live m + 3 \<and> (\<exists>ps. pt_ng p = Some ps \<and> ng_ok p ps)
         | _ \<Rightarrow> live m' = live m)"
      if "user \<noteq> 0" "\<not> n < 28" "live m2 = live m + 2" for user m2
      using ng_section_ok [OF that(1), of n sw fp2 precision m2] that(2,3)
      by (fastforce simp: not_less word_le_nat_alt split: opened.splits)
    have "\<exists>res fp' m'. pcap_ng_check_header magic fp precision m = Some (res, fp', m') \<and>
        (case res of Opened p \<Rightarrow> sf_ok p \<and> pt_fcode p = None \<and> live m' = live m + 3 \<and> (\<exists>ps. pt_ng p = Some ps \<and> ng_ok p ps)
         | _ \<Rightarrow> live m' = live m)"
      unfolding eq using user sec malloc_live by (auto split: prod.splits bool.splits option.splits)
    with that show thesis by blast
  qed
qed

lemma packet_fields_Some:
  "20 \<le> length bs \<Longrightarrow> \<exists>np. enhanced_fields swapped bs = Some np"
  "4 \<le> length bs \<Longrightarrow> \<exists>np. simple_fields swapped snapshot bs = Some np"
  "20 \<le> length bs \<Longrightarrow> \<exists>np. packet_fields swapped bs = Some np"
proof -
  show "\<exists>np. enhanced_fields swapped bs = Some np" if "20 \<le> length bs"
    using that field_Some(2) [of 0 bs swapped] field_Some(2) [of 4 bs swapped] field_Some(2) [of 8 bs swapped]
      field_Some(2) [of 12 bs swapped] field_Some(2) [of 16 bs swapped]
    by (auto simp: enhanced_fields_def)
  show "\<exists>np. simple_fields swapped snapshot bs = Some np" if "4 \<le> length bs"
    using that field_Some(2) [of 0 bs swapped] by (auto simp: simple_fields_def)
  show "\<exists>np. packet_fields swapped bs = Some np" if "20 \<le> length bs"
    using that field_Some(1) [of 0 bs swapped] field_Some(2) [of 4 bs swapped] field_Some(2) [of 8 bs swapped]
      field_Some(2) [of 12 bs swapped] field_Some(2) [of 16 bs swapped]
    by (auto simp: packet_fields_def)
qed

lemma packet_block_ok:
  assumes "cursor_ok cursor"
  shows "\<exists>r. packet_block swapped snapshot cursor = Some r \<and> (case r of Inr (Some (np, cursor')) \<Rightarrow> cursor_ok cursor' | _ \<Rightarrow> True)"
proof -
  have part: "\<exists>r. (case get_from_block_data cursor n of
        Inl e \<Rightarrow> Some (Inl e)
      | Inr (bs, cursor) \<Rightarrow> map_option (\<lambda>np. Inr (Some (np, cursor))) (fields bs)) = Some r \<and>
      (case r of Inr (Some (np, cursor')) \<Rightarrow> cursor_ok cursor' | _ \<Rightarrow> True)"
    if "\<And>bs. n \<le> length bs \<Longrightarrow> \<exists>np. fields bs = Some np" for n and fields :: "byte list \<Rightarrow> ng_packet option"
  proof (cases "get_from_block_data cursor n")
    case (Inr b)
    obtain bs cursor' where b: "b = (bs, cursor')" by fastforce
    have "length bs = n" "cursor_ok cursor'" using get_from_ok [of cursor n bs cursor'] Inr b assms by simp_all
    moreover from this that [of bs] obtain np where "fields bs = Some np" by auto
    ultimately show ?thesis using Inr b by simp
  qed simp
  show ?thesis unfolding packet_block_def Let_def
    using part [OF packet_fields_Some(1)] part [OF packet_fields_Some(2)] part [OF packet_fields_Some(3)] by simp
qed

lemma other_block_ok:
  assumes "ng_ok p ps" "cursor_ok cursor"
  shows "\<exists>e ps' m'. other_block cursor p ps m = Some (e, ps', m') \<and> live m' = live m \<and> pt_bufsize p \<le> block_room ps' \<and>
    (e = None \<longrightarrow> ng_ok p ps')"
proof -
  have ok: "ifaces_ok ps" "ifaces_size ps \<noteq> 0" "pt_bufsize p \<le> block_room ps" using assms(1) by (simp_all add: ng_ok_def)
  have idb: "\<exists>e ps' m'. further_interface cursor p ps m = Some (e, ps', m') \<and> live m' = live m \<and> pt_bufsize p \<le> block_room ps' \<and>
    (e = None \<longrightarrow> ng_ok p ps')"
  proof -
    obtain x where x: "interface_fields (pt_swapped p) cursor = Some x"
      "case x of Inl e \<Rightarrow> True | Inr (h, cursor') \<Rightarrow> cursor_ok cursor'" using interface_fields_ok [OF assms(2)] by blast
    show ?thesis
    proof (cases x)
      case (Inl e)
      with x ok show ?thesis by (simp add: further_interface_def)
    next
      case (Inr h)
      obtain l s cursor' where h: "h = ((l, s), cursor')" by (metis old.prod.exhaust)
      have "cursor_ok cursor'" using x(2) Inr h by simp
      from add_interface_ok [OF ok(1) this, of "pt_swapped p" m] obtain e ps2 m2 where
        a: "add_interface (pt_swapped p) cursor' ps m = Some (e, ps2, m2)" "live m2 - iface_blocks ps2 = live m - iface_blocks ps"
          "ifaces_size ps2 \<noteq> 0" "block_room ps2 = block_room ps" "e = None \<longrightarrow> ifaces_ok ps2" using ok(2) by auto
      then have "live m2 = live m" using ok(2) by (simp add: iface_blocks_def)
      with a x Inr h ok show ?thesis by (auto simp: further_interface_def ng_ok_def)
    qed
  qed
  have shb: "\<exists>e ps'. next_section cursor p ps = Some (e, ps') \<and> pt_bufsize p \<le> block_room ps' \<and> (e = None \<longrightarrow> ng_ok p ps')"
  proof (cases "get_from_block_data cursor 16")
    case (Inl e)
    with ok show ?thesis by (simp add: next_section_def)
  next
    case (Inr b)
    obtain bs cursor' where b: "b = (bs, cursor')" by fastforce
    have "length bs = 16" using get_from_ok [of cursor 16 bs cursor'] Inr b assms(2) by simp
    then obtain w v where "field32 (pt_swapped p) bs 0 = Some w" "field16 (pt_swapped p) bs 4 = Some v"
      using field_Some(2) [of 0 bs "pt_swapped p"] field_Some(1) [of 4 bs "pt_swapped p"] by auto
    moreover have "ifaces_ok (ps\<lparr>ifcount := 0\<rparr>)" using ok(1) by (auto simp: ifaces_ok_def)
    ultimately show ?thesis using Inr b ok by (auto simp: next_section_def ng_ok_def)
  qed
  show ?thesis using idb shb ok assms(1) by (auto simp: other_block_def)
qed

lemma next_packet_block_left:
  "next_packet_block fp p ps m = Some (r, fp', ps', m') \<Longrightarrow>
   st_error fp' = st_error fp \<and> length (st_data fp') + (case r of Inl _ \<Rightarrow> 0 | Inr _ \<Rightarrow> 12) \<le> length (st_data fp)"
proof (induction "length (st_data fp)" arbitrary: fp ps m r fp' ps' m' rule: less_induct)
  case less
  obtain x fp1 ps1 m1 where rb: "read_block fp p ps m = Some (x, fp1, ps1, m1)"
    using less.prems by (subst (asm) next_packet_block.simps) (auto split: option.splits)
  note l = read_block_left [OF rb]
  show ?case
  proof (cases x)
    case (Inl e)
    with less.prems rb l show ?thesis by (subst (asm) next_packet_block.simps) (auto split: option.splits)
  next
    case (Inr cursor)
    then have "length (st_data fp1) < length (st_data fp)" using l by simp
    note IH = less.hyps [OF this]
    show ?thesis using less.prems rb l Inr
      by (subst (asm) next_packet_block.simps) (auto split: option.splits sum.splits dest!: IH)
  qed
qed

lemma next_packet_block_ok:
  assumes "ng_ok p ps"
  shows "\<exists>r fp' ps' m'. next_packet_block fp p ps m = Some (r, fp', ps', m') \<and> live m' = live m \<and>
    (case r of Inl s \<Rightarrow> s = End_Of_File \<or> (\<exists>e. s = Read_Failed e) | Inr (np, cursor) \<Rightarrow> cursor_ok cursor \<and> ng_ok p ps')"
  using assms
proof (induction "length (st_data fp)" arbitrary: fp ps m rule: less_induct)
  case less
  have room: "pt_bufsize p \<le> block_room ps" using less.prems by (simp add: ng_ok_def)
  obtain x fp1 m1 b where rb: "read_block fp p ps m = Some (x, fp1, ps\<lparr>block_room := b\<rparr>, m1)" "pt_bufsize p \<le> b" "live m1 = live m"
    "case x of Inl _ \<Rightarrow> True | Inr cursor \<Rightarrow> cursor_ok cursor" using read_block_ok [OF room] by blast
  let ?ps = "ps\<lparr>block_room := b\<rparr>"
  have ok: "ng_ok p ?ps" using less.prems rb(2) by (simp add: ng_ok_def)
  show ?case
  proof (cases x)
    case (Inl e)
    with rb show ?thesis by (subst next_packet_block.simps) (cases e; simp)
  next
    case (Inr cursor)
    then have c: "cursor_ok cursor" and l: "length (st_data fp1) < length (st_data fp)"
      using rb(4) read_block_left [OF rb(1)] by auto
    obtain y where y: "packet_block (pt_swapped p) (pt_snapshot p) cursor = Some y"
      "case y of Inr (Some (np, cursor')) \<Rightarrow> cursor_ok cursor' | _ \<Rightarrow> True" using packet_block_ok [OF c] by blast
    consider (err) e where "y = Inl e" | (pk) np cursor' where "y = Inr (Some (np, cursor'))" | (other) "y = Inr None"
      by (metis option.exhaust old.prod.exhaust sum.exhaust)
    then show ?thesis
    proof cases
      case err
      with rb Inr y show ?thesis by (subst next_packet_block.simps) simp
    next
      case pk
      with rb Inr y ok show ?thesis by (subst next_packet_block.simps) simp
    next
      case other
      obtain e ps2 m2 where o: "other_block cursor p ?ps m1 = Some (e, ps2, m2)" "live m2 = live m1" "e = None \<longrightarrow> ng_ok p ps2"
        using other_block_ok [OF ok c] by blast
      show ?thesis
      proof (cases e)
        case None
        with o less.hyps [OF l, of ps2 m2] rb Inr y other show ?thesis by (subst next_packet_block.simps) simp
      next
        case (Some e')
        with o rb Inr y other show ?thesis by (subst next_packet_block.simps) simp
      qed
    qed
  qed
qed

lemma ng_timeval_Some: "iface_ok i \<Longrightarrow> \<exists>ts. ng_timeval user i t = Some ts"
  by (cases "scale_type i") (auto simp: iface_ok_def ng_timeval_def ng_fraction_def Let_def)

lemma ng_data_ok:
  assumes "ng_ok p' ps" "cursor_ok cursor"
  shows "\<exists>s. ng_data np cursor p ps = Some s \<and> (case s of Packet h d \<Rightarrow> captured_ok (h, d) | _ \<Rightarrow> True)"
proof (cases "np_interface np \<ge> ifcount ps \<or> np_caplen np > word_of_int (pt_snapshot p)")
  case True
  then show ?thesis by (auto simp: ng_data_def)
next
  case False
  let ?k = "unat (np_interface np)"
  have ok: "ifaces_ok ps" using assms(1) by (simp add: ng_ok_def)
  have k: "?k < unat (ifcount ps)" using False by (simp add: word_less_nat_alt not_le)
  then obtain i where i: "ifaces ps ! ?k = Some i" "iface_ok i" "?k < length (ifaces ps)" using ok by (auto simp: ifaces_ok_def)
  obtain ts where ts: "ng_timeval (user_tsresol ps) i (np_time np) = Some ts" using ng_timeval_Some [OF i(2)] by blast
  have eq: "ng_data np cursor p ps =
      (case get_from_block_data cursor (unat (np_caplen np)) of Inl e \<Rightarrow> Some (Read_Failed e)
       | Inr (data, cursor) \<Rightarrow> do {
           data \<leftarrow> (if pt_swapped p then swap_pseudo_headers (pt_linktype p) (np_caplen np) (np_len np) data else Some data);
           Some (Packet \<lparr>ph_ts = ts, ph_caplen = np_caplen np, ph_len = np_len np\<rparr> data) })"
    using False i ts by (simp add: ng_data_def)
  show ?thesis
  proof (cases "get_from_block_data cursor (unat (np_caplen np))")
    case (Inl e)
    with eq show ?thesis by simp
  next
    case (Inr b)
    obtain data c where b: "b = (data, c)" by fastforce
    have l: "length data = unat (np_caplen np)" "unat (np_caplen np) \<le> 2 ^ 24" using get_from_ok [of cursor _ data c] Inr b assms(2) by auto
    obtain d where d: "swap_pseudo_headers (pt_linktype p) (np_caplen np) (np_len np) data = Some d" "length d = length data"
      using swap_pseudo_headers_kept [of "np_caplen np" data] l(1) by auto
    have "np_caplen np < 2 ^ 31" using l(2) by (simp add: word_less_nat_alt)
    with eq Inr b l(1) d show ?thesis by (simp add: captured_ok_def)
  qed
qed

lemma ng_next_left: "pcap_ng_next_packet ps p m = Some (r, q, m') \<Longrightarrow> left q \<le> left p"
  by (auto simp: pcap_ng_next_packet_def left_def Let_def split: option.splits sum.splits dest!: next_packet_block_left)

lemma next_packet_block_Inl:
  "next_packet_block fp p ps m = Some (Inl s, fp', ps', m') \<Longrightarrow> \<forall>h d. s \<noteq> Packet h d"
proof (induction "length (st_data fp)" arbitrary: fp ps m s fp' ps' m' rule: less_induct)
  case less
  obtain x fp1 ps1 m1 where rb: "read_block fp p ps m = Some (x, fp1, ps1, m1)"
    using less.prems by (subst (asm) next_packet_block.simps) (auto split: option.splits)
  show ?case
  proof (cases x)
    case (Inl e)
    with less.prems rb show ?thesis by (subst (asm) next_packet_block.simps) (auto split: option.splits)
  next
    case (Inr cursor)
    then have "length (st_data fp1) < length (st_data fp)" using read_block_left [OF rb] by simp
    note IH = less.hyps [OF this]
    show ?thesis using less.prems rb Inr
      by (subst (asm) next_packet_block.simps) (auto split: option.splits sum.splits dest!: IH)
  qed
qed

lemma ng_next_shrinks:
  assumes "pcap_ng_next_packet ps p m = Some (Packet h d, q, m')"
  shows "left q < left p"
proof -
  obtain r fp ps' m1 where r: "next_packet_block (pt_rfile p) p ps m = Some (r, fp, ps', m1)"
    using assms by (auto simp: pcap_ng_next_packet_def split: option.splits)
  show ?thesis
  proof (cases r)
    case (Inl s)
    then have "\<forall>h d. s \<noteq> Packet h d" using next_packet_block_Inl r by blast
    with assms r Inl show ?thesis by (simp add: pcap_ng_next_packet_def Let_def)
  next
    case (Inr x)
    with assms r next_packet_block_left [OF r] show ?thesis
      by (auto simp: pcap_ng_next_packet_def left_def Let_def split: prod.splits)
  qed
qed

lemma ng_next_ok:
  assumes "ng_ok p ps"
  shows "\<exists>r q m'. pcap_ng_next_packet ps p m = Some (r, q, m') \<and> same_file (p\<lparr>pt_ng := Some ps\<rparr>) q \<and> live m' = live m \<and>
    (case r of Packet h d \<Rightarrow> left q < left p \<and> captured_ok (h, d) \<and> (\<exists>ps'. pt_ng q = Some ps' \<and> ng_ok q ps') | _ \<Rightarrow> True)"
proof -
  obtain r fp ps' m1 where r: "next_packet_block (pt_rfile p) p ps m = Some (r, fp, ps', m1)" "live m1 = live m"
    "case r of Inl s \<Rightarrow> s = End_Of_File \<or> (\<exists>e. s = Read_Failed e) | Inr (np, cursor) \<Rightarrow> cursor_ok cursor \<and> ng_ok p ps'"
    using next_packet_block_ok [OF assms] by blast
  note l = next_packet_block_left [OF r(1)]
  let ?q = "p\<lparr>pt_rfile := fp, pt_ng := Some ps'\<rparr>"
  have same: "same_file (p\<lparr>pt_ng := Some ps\<rparr>) ?q" using l by (simp add: same_file_def left_def)
  show ?thesis
  proof (cases r)
    case (Inl s)
    with r same show ?thesis by (auto simp: pcap_ng_next_packet_def Let_def)
  next
    case (Inr x)
    obtain np cursor where x: "x = (np, cursor)" by fastforce
    have ok: "cursor_ok cursor" "ng_ok ?q ps'" using r(3) Inr x by (simp_all add: ng_ok_def)
    obtain s where s: "ng_data np cursor ?q ps' = Some s" "case s of Packet h d \<Rightarrow> captured_ok (h, d) | _ \<Rightarrow> True"
      using ng_data_ok [OF ok(2,1)] by blast
    moreover have "left ?q < left p" using l Inr by (simp add: left_def)
    ultimately show ?thesis using r Inr x same ok(2)
      by (intro exI [of _ s] exI [of _ ?q] exI [of _ m1]) (auto simp: pcap_ng_next_packet_def Let_def split: sf_next.split)
  qed
qed


end
