(* ===== verification/Offline.thy ===== *)
theory Offline
  imports Pcapng
begin

text \<open>
  Reading savefiles, \<open>src/deps/libpcap/savefile.c\<close>, with \<open>pcap_loop\<close> of \<open>pcap.c\<close> and \<open>install_bpf_program\<close> of \<open>optimize.c\<close>: a file
  is opened in the format that recognises it, its packets are filtered and handed to a callback, and it is closed.
\<close>

section \<open>Opening\<close>

text \<open>The two formats in turn; the handle gets its stream and is active.\<close>

definition found :: "pcap_t \<Rightarrow> rstream \<Rightarrow> pcap_t" where
  "found p fp = p\<lparr>pt_rfile := fp, pt_activated := True\<rparr>"

definition pcap_fopen_offline_with_tstamp_precision ::
    "rstream \<Rightarrow> u32 \<Rightarrow> mem \<Rightarrow> ((sf_error + pcap_t) \<times> mem) option" where
  "pcap_fopen_offline_with_tstamp_precision fp precision m =
     (case fread 4 fp of
        (bytes, fp) \<Rightarrow>
          if length bytes \<noteq> 4 then
            Some (Inl (if st_error fp then Read_Error else Truncated_Header 4 (length bytes)), m)
          else
            (case get_le32 bytes 0 of
               None \<Rightarrow> None
             | Some magic \<Rightarrow>
                 (case pcap_check_header magic fp precision m of
                    None \<Rightarrow> None
                  | Some (Opened p, fp, m) \<Rightarrow> Some (Inr (found p fp), m)
                  | Some (Failed e, fp, m) \<Rightarrow> Some (Inl e, m)
                  | Some (Not_Mine, fp, m) \<Rightarrow>
                      (case pcap_ng_check_header magic fp precision m of
                         None \<Rightarrow> None
                       | Some (Opened p, fp, m) \<Rightarrow> Some (Inr (found p fp), m)
                       | Some (Failed e, fp, m) \<Rightarrow> Some (Inl e, m)
                       | Some (Not_Mine, fp, m) \<Rightarrow> Some (Inl Unknown_Format, m)))))"

definition fopen_offline :: "rstream \<Rightarrow> mem \<Rightarrow> ((sf_error + pcap_t) \<times> mem) option" where
  "fopen_offline fp m =
     pcap_fopen_offline_with_tstamp_precision fp PCAP_TSTAMP_PRECISION_MICRO m"

section \<open>The next packet\<close>

definition next_packet_op :: "pcap_t \<Rightarrow> mem \<Rightarrow> (sf_next \<times> pcap_t \<times> mem) option" where
  "next_packet_op p m = (case pt_ng p of None \<Rightarrow> pcap_next_packet p m | Some ps \<Rightarrow> pcap_ng_next_packet ps p m)"

text \<open>Handles that can be read.\<close>

definition handle_ok :: "pcap_t \<Rightarrow> bool" where
  "handle_ok p \<longleftrightarrow> sf_ok p \<and> (case pt_ng p of None \<Rightarrow> True | Some ps \<Rightarrow> ng_ok p ps)"

lemma next_op_left: "next_packet_op p m = Some (r, q, m') \<Longrightarrow> left q \<le> left p"
  by (auto simp: next_packet_op_def split: option.splits dest: next_packet_left ng_next_left)

lemma next_op_shrinks: "next_packet_op p m = Some (Packet h d, q, m') \<Longrightarrow> left q < left p"
  by (auto simp: next_packet_op_def split: option.splits dest: next_packet_shrinks ng_next_shrinks)

lemma next_op_ok:
  assumes "handle_ok p"
  obtains r q m' where "next_packet_op p m = Some (r, q, m')" "same_file p q" "live m' = live m"
    "\<And>h d. r = Packet h d \<Longrightarrow> left q < left p \<and> captured_ok (h, d) \<and> handle_ok q"
proof (cases "pt_ng p")
  case None
  obtain r q m' where np: "pcap_next_packet p m = Some (r, q, m')" "same_file p q" "live m' = live m"
    "\<And>h d. r = Packet h d \<Longrightarrow> left q < left p \<and> captured_ok (h, d)"
    using next_packet_ok assms unfolding handle_ok_def by metis
  moreover have "handle_ok q" using assms None np(2) same_file_ok [OF np(2)] by (simp add: handle_ok_def same_file_def)
  ultimately show thesis using None by (intro that [of r q m']) (auto simp: next_packet_op_def)
next
  case (Some ps)
  then have "ng_ok p ps" "sf_ok p" using assms by (simp_all add: handle_ok_def)
  from ng_next_ok [OF this(1), of m] obtain r q m' where
    np: "pcap_ng_next_packet ps p m = Some (r, q, m')" "same_file (p\<lparr>pt_ng := Some ps\<rparr>) q" "live m' = live m"
    "case r of Packet h d \<Rightarrow> left q < left p \<and> captured_ok (h, d) \<and> (\<exists>ps'. pt_ng q = Some ps' \<and> ng_ok q ps') | _ \<Rightarrow> True" by blast
  have "same_file p q" using np(2) Some by (simp add: same_file_def left_def)
  moreover have "sf_ok q" using \<open>sf_ok p\<close> same_file_ok [OF \<open>same_file p q\<close>] by simp
  ultimately show thesis using np Some by (intro that [of r q m']) (auto simp: next_packet_op_def handle_ok_def)
qed

section \<open>Reading a file\<close>

text \<open>The program ends with \<open>SIGABRT\<close> when the filter machine aborts.\<close>

definition SIGABRT :: int where "SIGABRT = 134"

text \<open>
  \<open>pcap_offline_read\<close>, with \<open>n\<close> packets handled so far. \<open>breaks\<close> says for each turn whether \<open>pcap_breakloop\<close> was called before
  it, by a signal handler; \<open>scratch\<close> what the filter's memory holds at first, for each number of bytes left. The
  result is \<open>None\<close> if the filter never ends.
\<close>

function offline_read ::
    "(pkthdr \<Rightarrow> byte list \<Rightarrow> 'c \<Rightarrow> 'c outcome) \<Rightarrow> (nat \<Rightarrow> u32 list) \<Rightarrow> int \<Rightarrow> int \<Rightarrow> bool list \<Rightarrow> pcap_t \<Rightarrow> mem \<Rightarrow> 'c \<Rightarrow>
     (int \<times> bool list \<times> pcap_t \<times> mem \<times> 'c) outcome option" where
  "offline_read callback scratch cnt n breaks p m c =
     (let p = (if breaks \<noteq> [] \<and> hd breaks then p\<lparr>pt_break := True\<rparr> else p); breaks = tl breaks in
      if pt_break p then
        Some (Done (if n = 0 then (- 2, breaks, p\<lparr>pt_break := False\<rparr>, m, c) else (n, breaks, p, m, c)))
      else
        (case next_packet_op p m of
           None \<Rightarrow> Some Undefined
         | Some (End_Of_File, p, m) \<Rightarrow> Some (Done (0, breaks, p, m, c))
         | Some (Read_Failed e, p, m) \<Rightarrow> Some (Done (- 1, breaks, p, m, c))
         | Some (Packet h data, p, m) \<Rightarrow>
             (case bpf_filter (pt_fcode p) data (ph_len h) (ph_caplen h) (scratch (left p)) of
                None \<Rightarrow> None
              | Some Aborts \<Rightarrow> Some (Exited SIGABRT)
              | Some (Faults f) \<Rightarrow> Some Undefined
              | Some (Accepts w) \<Rightarrow>
                  if w = 0 then offline_read callback scratch cnt n breaks p m c
                  else
                    (case callback h data c of
                       Exited s \<Rightarrow> Some (Exited s)
                     | Undefined \<Rightarrow> Some Undefined
                     | Done c \<Rightarrow>
                         (let n = to_int32 (n + 1) in
                          if n \<ge> cnt \<and> cnt > 0 then Some (Done (n, breaks, p, m, c))
                          else offline_read callback scratch cnt n breaks p m c)))))"
  by pat_completeness auto
termination
  by (relation "measure (\<lambda>(cb, sc, cnt, n, br, p, m, c). left p)")
    (auto dest!: next_op_shrinks split: if_splits simp: left_def)

declare offline_read.simps [simp del]

lemma offline_read_shrinks:
  "offline_read callback scratch cnt n breaks p m c = Some (Done (k, breaks', q, m', c')) \<Longrightarrow>
   left q \<le> left p \<and> (0 < k \<and> n = 0 \<longrightarrow> left q < left p)"
proof (induction "left p" arbitrary: n breaks p m c rule: less_induct)
  case less
  define p1 where "p1 = (if breaks \<noteq> [] \<and> hd breaks then p\<lparr>pt_break := True\<rparr> else p)"
  have l: "left p1 = left p" by (simp add: p1_def left_def)
  show ?case
  proof (cases "pt_break p1")
    case True
    with less.prems l show ?thesis
      by (subst (asm) offline_read.simps) (auto simp: Let_def left_def simp flip: p1_def split: if_splits)
  next
    case False
    show ?thesis
    proof (cases "\<exists>h d p2 m2. next_packet_op p1 m = Some (Packet h d, p2, m2)")
      case True
      then obtain h d p2 m2 where np: "next_packet_op p1 m = Some (Packet h d, p2, m2)" by blast
      have sh: "left p2 < left p" using next_op_shrinks [OF np] l by simp
      note IH = less.hyps [OF sh]
      from less.prems False np sh show ?thesis
        by (subst (asm) offline_read.simps)
          (auto simp: Let_def simp flip: p1_def split: option.splits bpf_result.splits outcome.splits if_splits dest!: IH)
    next
      case none: False
      from less.prems False none l show ?thesis
        by (subst (asm) offline_read.simps)
          (auto simp: Let_def simp flip: p1_def split: option.splits sf_next.splits if_splits dest: next_op_left)
    qed
  qed
qed

text \<open>\<open>pcap_loop\<close> on a file.\<close>

function file_loop ::
    "(pkthdr \<Rightarrow> byte list \<Rightarrow> 'c \<Rightarrow> 'c outcome) \<Rightarrow> (nat \<Rightarrow> u32 list) \<Rightarrow> int \<Rightarrow> bool list \<Rightarrow> pcap_t \<Rightarrow> mem \<Rightarrow> 'c \<Rightarrow>
     (int \<times> pcap_t \<times> mem \<times> 'c) outcome option" where
  "file_loop callback scratch cnt breaks p m c =
     (case offline_read callback scratch cnt 0 breaks p m c of
        None \<Rightarrow> None
      | Some (Exited s) \<Rightarrow> Some (Exited s)
      | Some Undefined \<Rightarrow> Some Undefined
      | Some (Done (n, breaks, p, m, c)) \<Rightarrow>
          if n \<le> 0 then Some (Done (n, p, m, c))
          else if cnt \<le> 0 then file_loop callback scratch cnt breaks p m c
          else if cnt - n \<le> 0 then Some (Done (0, p, m, c))
          else file_loop callback scratch (cnt - n) breaks p m c)"
  by pat_completeness auto
termination
  by (relation "measure (\<lambda>(cb, sc, cnt, br, p, m, c). left p)") (auto dest!: offline_read_shrinks)

declare file_loop.simps [simp del]

definition install_bpf_program :: "bpf_insn list \<Rightarrow> pcap_t \<Rightarrow> mem \<Rightarrow> int \<times> pcap_t \<times> mem" where
  "install_bpf_program f p m =
     (if \<not> bpf_validate f then (- 1, p, m)
      else
        (let m = (if pt_fcode p = None then m else mfree m); p = p\<lparr>pt_fcode := None\<rparr> in
         case malloc m of
           (False, m) \<Rightarrow> (- 1, p, m)
         | (True, m) \<Rightarrow> (0, p\<lparr>pt_fcode := Some f\<rparr>, m)))"

text \<open>
  \<open>pcap_close\<close> of a file: its stream, unless that is the standard input, is closed, its buffer, the filter and the
  handle are freed. \<open>files\<close> counts the streams that are open.
\<close>

definition sf_cleanup :: "bool \<Rightarrow> pcap_t \<Rightarrow> mem \<times> int \<Rightarrow> mem \<times> int" where
  "sf_cleanup from_stdin p s =
     (case s of
        (m, files) \<Rightarrow>
          (let files = (if from_stdin then files else files - 1); m = mfree m
           in (if pt_fcode p = None then m else mfree m, files)))"

definition close_file :: "bool \<Rightarrow> pcap_t \<Rightarrow> mem \<times> int \<Rightarrow> mem \<times> int" where
  "close_file from_stdin p s =
     (case s of
        (m, files) \<Rightarrow>
          (case sf_cleanup from_stdin p (if pt_ng p = None then m else pcap_ng_cleanup m, files) of
             (m, files) \<Rightarrow> (mfree m, files)))"

end
