(* ===== verification/Replay.thy ===== *)
theory Replay
  imports Offline
begin

text \<open>
  Recording and replaying: the program's handler on frames that come from a savefile. Whatever bytes a file holds, reading it
  is safe and ends; a file the dumper wrote replays as the frames that were captured, and one that was cut short as the
  first of them.
\<close>

unbundle bit_operations_syntax

section \<open>Any file\<close>

lemma sint_u32_range: "- (2 ^ 31) \<le> sint (w :: u32) \<and> sint w < 2 ^ 31"
  using sint_range_size [of w] by (simp add: word_size)

lemma sf_handle_ok: "sf_ok (sf_handle swapped magic precision scale hdr fp)"
proof -
  let ?s = "sint (fh_snaplen hdr)" and ?m = "int (max_snaplen_for_dlt (sint (fh_linktype hdr)))"
  have "?m \<le> 2 ^ 27" using max_snaplen_bounds(2) by (metis of_nat_le_iff of_nat_numeral of_nat_power)
  then have "- (2 ^ 31) \<le> (if ?s \<le> 0 then ?m else ?s) \<and> (if ?s \<le> 0 then ?m else ?s) < 2 ^ 31"
    using sint_u32_range [of "fh_snaplen hdr"] by auto
  then show ?thesis
    using to_int32_range [of "(if ?s \<le> 0 then ?m else ?s) + 14"]
    by (auto simp: sf_ok_def sf_handle_def Let_def simp del: to_int32_range)
qed

lemma decode_file_header_Some: "length bs = 20 \<Longrightarrow> \<exists>h. decode_file_header bs = Some h"
  by (simp add: decode_file_header_def get_le16_def get8_Some get_le32_Some)

lemma check_header_ok:
  obtains res fp' m' where "pcap_check_header magic fp precision m = Some (res, fp', m')"
    "case res of Opened p \<Rightarrow> sf_ok p \<and> pt_fcode p = None \<and> pt_ng p = None \<and> live m' = live m + 2 | _ \<Rightarrow> live m' = live m"
proof -
  define sw where "sw = (\<not> pcap_magic magic)"
  define mg where "mg = (if sw then SWAPLONG magic else magic)"
  obtain bs fp1 where r: "fread 20 fp = (bs, fp1)" by fastforce
  show thesis
  proof (cases "pcap_magic mg \<and> length bs = 20")
    case False
    with r show thesis
      by (intro that [of "if \<not> pcap_magic mg then Not_Mine else Failed (if st_error fp1 then Read_Error else Truncated_Header 24 (length bs))"
            "if \<not> pcap_magic mg then fp else fp1" m])
        (auto simp: pcap_check_header_def Let_def sw_def mg_def)
  next
    case True
    then obtain h where h: "decode_file_header bs = Some h" using decode_file_header_Some by blast
    define hd where "hd = (if sw then swap_file_header h else h)"
    have start: "pcap_check_header magic fp precision m =
        (if fh_major hd < PCAP_VERSION_MAJOR then Some (Failed Archaic_Format, fp1, m)
         else if \<not> (fh_major hd = PCAP_VERSION_MAJOR \<and> fh_minor hd \<le> PCAP_VERSION_MINOR \<or> fh_major hd = 543 \<and> fh_minor hd = 0)
         then Some (Failed (Unsupported_Version (fh_major hd) (fh_minor hd)), fp1, m)
         else (case malloc m of (False, m) \<Rightarrow> Some (Failed Out_Of_Memory, fp1, m)
           | (True, m) \<Rightarrow> (case scale_for precision mg of None \<Rightarrow> Some (Failed (Unknown_Resolution precision), fp1, mfree m)
             | Some scale \<Rightarrow> (case malloc m of (False, m) \<Rightarrow> Some (Failed Out_Of_Memory, fp1, mfree m)
               | (True, m) \<Rightarrow> Some (Opened (sf_handle sw mg precision scale hd fp1), fp1, m)))))"
      unfolding pcap_check_header_def Let_def sw_def [symmetric] mg_def [symmetric] hd_def using True r h by (simp split del: if_split)
    have fc: "pt_fcode (sf_handle sw mg precision scale hd fp1) = None" "pt_ng (sf_handle sw mg precision scale hd fp1) = None" for scale
      by (simp_all add: sf_handle_def Let_def)
    have "\<exists>res fp' m'. pcap_check_header magic fp precision m = Some (res, fp', m') \<and>
        (case res of Opened p \<Rightarrow> sf_ok p \<and> pt_fcode p = None \<and> pt_ng p = None \<and> live m' = live m + 2 | _ \<Rightarrow> live m' = live m)"
      unfolding start using sf_handle_ok fc malloc_live
      by (auto split: prod.splits bool.splits option.splits)
    with that show thesis by blast
  qed
qed

text \<open>The handler on a sequence of frames.\<close>

fun run_frames :: "(pkthdr \<Rightarrow> byte list \<Rightarrow> 'c \<Rightarrow> 'c outcome) \<Rightarrow> (pkthdr \<times> byte list) list \<Rightarrow> 'c \<Rightarrow> 'c outcome" where
  "run_frames callback [] c = Done c"
| "run_frames callback ((h, d) # frames) c = and_then (callback h d c) (run_frames callback frames)"

lemma pcap_loop_run: "pcap_loop A E frames rc c = and_then (run_frames (packet_handler A E) frames c) (\<lambda>c. Done (rc, c))"
proof (induction frames arbitrary: c)
  case (Cons fr frames)
  obtain h d where "fr = (h, d)" by fastforce
  with Cons show ?case by (cases "packet_handler A E h d c") auto
qed simp

text \<open>Filters that return on every packet.\<close>

definition straight :: "bpf_insn list \<Rightarrow> bool" where
  "straight f \<longleftrightarrow> length f < 2 ^ 32 \<and> (\<forall>i \<in> set f. insn_code i \<in> set known_codes \<and> forward_insn i \<and> safe_shift i)"

definition deciding :: "bpf_insn list option \<Rightarrow> bool" where
  "deciding fcode \<longleftrightarrow> (case fcode of None \<Rightarrow> True | Some f \<Rightarrow> bpf_validate f \<and> straight f)"

lemma deciding_filter:
  assumes "deciding fcode" "captured_ok (h, d)" "length scratch = BPF_MEMWORDS"
  shows "\<exists>w. bpf_filter fcode d (ph_len h) (ph_caplen h) scratch = Some (Accepts w)"
proof (cases fcode)
  case None
  then show ?thesis by (simp add: bpf_filter_def bpf_filter_with_aux_data_def)
next
  case (Some f)
  have "unat (ph_caplen h) \<le> length d" using assms(2) by (simp add: captured_ok_def)
  with Some assms(1,3) show ?thesis by (simp add: deciding_def straight_def filter_returns)
qed

text \<open>What the loop keeps of a handle: its filter, and its format.\<close>

definition same_holdings :: "pcap_t \<Rightarrow> pcap_t \<Rightarrow> bool" where
  "same_holdings p q \<longleftrightarrow> pt_fcode q = pt_fcode p \<and> (pt_ng q = None \<longleftrightarrow> pt_ng p = None)"

lemma offline_read_total:
  assumes "handle_ok p" "deciding (pt_fcode p)" "\<forall>n. length (scratch n) = BPF_MEMWORDS"
  shows "\<exists>frames k breaks' q m'. (\<forall>fr \<in> set frames. captured_ok fr) \<and> (0 < k \<longrightarrow> pt_break q) \<and> live m' = live m \<and>
     same_holdings p q \<and>
     offline_read callback scratch (- 1) n breaks p m c =
       Some (and_then (run_frames callback frames c) (\<lambda>c'. Done (k, breaks', q, m', c')))"
  using assms(1,2)
proof (induction "left p" arbitrary: n breaks p m c rule: less_induct)
  case less
  define p1 where "p1 = (if breaks \<noteq> [] \<and> hd breaks then p\<lparr>pt_break := True\<rparr> else p)"
  have p1: "left p1 = left p" "handle_ok p1" "pt_fcode p1 = pt_fcode p" "pt_ng p1 = pt_ng p"
    using less.prems(1) by (auto simp: p1_def left_def handle_ok_def sf_ok_def ng_ok_def split: option.splits)
  have p1_same: "same_holdings p p1" "same_holdings p (p1\<lparr>pt_break := x\<rparr>)" "same_holdings p p" for x
    using p1(3,4) by (simp_all add: same_holdings_def)
  show ?case
  proof (cases "pt_break p1")
    case True
    then show ?thesis using p1_same
      by (subst offline_read.simps)
        (auto simp: Let_def simp flip: p1_def intro!: exI [of _ "[] :: (pkthdr \<times> byte list) list"])
  next
    case False
    obtain r p2 m2 where np: "next_packet_op p1 m = Some (r, p2, m2)" "same_file p1 p2" "live m2 = live m"
      "\<And>h d. r = Packet h d \<Longrightarrow> left p2 < left p1 \<and> captured_ok (h, d) \<and> handle_ok p2"
      using next_op_ok [OF p1(2)] by metis
    have p2: "pt_fcode p2 = pt_fcode p" "same_holdings p p2" using np(2) p1(3,4) by (simp_all add: same_file_def same_holdings_def)
    show ?thesis
    proof (cases r)
      case (Packet h d)
      with np(4) p1(1) have fr: "left p2 < left p" "captured_ok (h, d)" "handle_ok p2" by auto
      obtain w where w: "bpf_filter (pt_fcode p2) d (ph_len h) (ph_caplen h) (scratch (left p2)) = Some (Accepts w)"
        using deciding_filter [OF _ fr(2), of "pt_fcode p2" "scratch (left p2)"] less.prems(2) p2(1) assms(3) by auto
      have IH: "\<exists>frames k breaks'' q m'. (\<forall>fr \<in> set frames. captured_ok fr) \<and> (0 < k \<longrightarrow> pt_break q) \<and> live m' = live m \<and>
          same_holdings p q \<and> offline_read callback scratch (- 1) n' breaks' p2 m2 c' =
            Some (and_then (run_frames callback frames c') (\<lambda>c'. Done (k, breaks'', q, m', c')))" for n' breaks' c'
        using less.hyps [OF fr(1,3), of m2 n' breaks' c'] less.prems(2) p2 np(3) unfolding same_holdings_def by simp
      have step: "offline_read callback scratch (- 1) n breaks p m c =
          (if w = 0 then offline_read callback scratch (- 1) n (tl breaks) p2 m2 c
           else (case callback h d c of Exited s \<Rightarrow> Some (Exited s) | Undefined \<Rightarrow> Some Undefined
             | Done c \<Rightarrow> offline_read callback scratch (- 1) (to_int32 (n + 1)) (tl breaks) p2 m2 c))"
        using np(1) Packet False w by (subst offline_read.simps) (simp add: Let_def flip: p1_def split: outcome.split)
      show ?thesis
      proof (cases "w = 0")
        case True
        with step IH show ?thesis by simp
      next
        case acc: False
        show ?thesis
        proof (cases "callback h d c")
          case (Done c2)
          from IH [of "to_int32 (n + 1)" "tl breaks" c2] obtain frames k b q m' where
            f: "\<forall>fr \<in> set frames. captured_ok fr" "0 < k \<longrightarrow> pt_break q" "live m' = live m" "same_holdings p q"
              "offline_read callback scratch (- 1) (to_int32 (n + 1)) (tl breaks) p2 m2 c2 =
                Some (and_then (run_frames callback frames c2) (\<lambda>c'. Done (k, b, q, m', c')))" by blast
          with step acc Done fr(2) show ?thesis
            by (intro exI [of _ "(h, d) # frames"] exI [of _ k] exI [of _ b] exI [of _ q] exI [of _ m']) auto
        next
          case (Exited s)
          with step acc fr(2) p1_same show ?thesis
            by (intro exI [of _ "[(h, d)]"] exI [of _ 0] exI [of _ p] exI [of _ m]) auto
        next
          case Undefined
          with step acc fr(2) p1_same show ?thesis
            by (intro exI [of _ "[(h, d)]"] exI [of _ 0] exI [of _ p] exI [of _ m]) auto
        qed
      qed
    next
      case End_Of_File
      with np p2 False show ?thesis
        by (subst offline_read.simps)
          (auto simp: Let_def simp flip: p1_def intro!: exI [of _ "[] :: (pkthdr \<times> byte list) list"])
    next
      case (Read_Failed e)
      with np p2 False show ?thesis
        by (subst offline_read.simps)
          (auto simp: Let_def simp flip: p1_def intro!: exI [of _ "[] :: (pkthdr \<times> byte list) list"])
    qed
  qed
qed

lemma file_loop_total:
  assumes "handle_ok p" "deciding (pt_fcode p)" "\<forall>n. length (scratch n) = BPF_MEMWORDS"
  shows "\<exists>frames k q m'. (\<forall>fr \<in> set frames. captured_ok fr) \<and> k \<le> 0 \<and> live m' = live m \<and> same_holdings p q \<and> file_loop callback scratch (- 1) breaks p m c =
       Some (and_then (run_frames callback frames c) (\<lambda>c'. Done (k, q, m', c')))"
proof -
  from offline_read_total [OF assms, of m callback 0 breaks c] obtain frames k b q m' where
    r: "\<forall>fr \<in> set frames. captured_ok fr" "0 < k \<longrightarrow> pt_break q" "live m' = live m" "same_holdings p q"
      "offline_read callback scratch (- 1) 0 breaks p m c =
        Some (and_then (run_frames callback frames c) (\<lambda>c'. Done (k, b, q, m', c')))" by blast
  show ?thesis
  proof (cases "k \<le> 0")
    case True
    with r show ?thesis
      by (intro exI [of _ frames] exI [of _ k] exI [of _ q] exI [of _ m'])
        (subst file_loop.simps, cases "run_frames callback frames c", auto)
  next
    case False
    let ?q = "q\<lparr>pt_break := False\<rparr>"
    have "same_holdings p ?q" using r(4) by (simp add: same_holdings_def)
    have "offline_read callback scratch (- 1) 0 b q m' c' = Some (Done (- 2, tl b, ?q, m', c'))" for c'
      using r(2) False by (subst offline_read.simps) (auto simp: Let_def)
    then have "file_loop callback scratch (- 1) b q m' c' = Some (Done (- 2, ?q, m', c'))" for c'
      by (subst file_loop.simps) simp
    with r False \<open>same_holdings p ?q\<close> show ?thesis
      by (intro exI [of _ frames] exI [of _ "- 2"] exI [of _ ?q] exI [of _ m'])
        (subst file_loop.simps, cases "run_frames callback frames c", auto)
  qed
qed

section \<open>Records\<close>

text \<open>Numbers in the order of the host that writes the file, \<open>be\<close> for big-endian.\<close>

definition enc32 :: "bool \<Rightarrow> u32 \<Rightarrow> byte list" where
  "enc32 be w = (if be then put_be32 w else put_le32 w)"

definition turned :: "bool \<Rightarrow> u32 \<Rightarrow> u32" where
  "turned be w = (if be then SWAPLONG w else w)"

definition record_bytes :: "bool \<Rightarrow> pkthdr \<times> byte list \<Rightarrow> byte list" where
  "record_bytes be fr =
     (case fr of (h, d) \<Rightarrow>
        enc32 be (word_of_int (tv_sec (ph_ts h))) @ enc32 be (word_of_int (tv_usec (ph_ts h))) @
        enc32 be (ph_caplen h) @ enc32 be (ph_len h) @ d)"

definition frame_fits :: "int \<Rightarrow> int \<Rightarrow> pkthdr \<times> byte list \<Rightarrow> bool" where
  "frame_fits snapshot linktype fr \<longleftrightarrow>
     (case fr of (h, d) \<Rightarrow>
        length d = unat (ph_caplen h) \<and> int (unat (ph_caplen h)) \<le> snapshot \<and>
        unat (ph_caplen h) \<le> max_snaplen_for_dlt linktype \<and>
        0 \<le> tv_sec (ph_ts h) \<and> tv_sec (ph_ts h) < 2 ^ 31 \<and> 0 \<le> tv_usec (ph_ts h) \<and> tv_usec (ph_ts h) < 2 ^ 31)"

lemma enc32_length [simp]: "length (enc32 be w) = 4"
  by (simp add: enc32_def)

lemma get_enc32:
  "get_le32 (enc32 be w @ ys) 0 = Some (turned be w)"
  "n = length xs \<Longrightarrow> get_le32 (xs @ enc32 be w @ ys) n = Some (turned be w)"
proof -
  show "get_le32 (enc32 be w @ ys) 0 = Some (turned be w)" for ys
    by (simp add: enc32_def turned_def get_le32_put get_le32_put_be)
  then show "n = length xs \<Longrightarrow> get_le32 (xs @ enc32 be w @ ys) n = Some (turned be w)"
    by (simp add: reads_append0)
qed

lemma decode_record:
  "decode_pkthdr (enc32 be s @ enc32 be u @ enc32 be c @ enc32 be l) = Some (turned be s, turned be u, turned be c, turned be l)"
proof -
  have "get_le32 (enc32 be s @ enc32 be u @ enc32 be c @ enc32 be l) 4 = Some (turned be u)"
    by (rule get_enc32(2)) simp
  moreover have "get_le32 ((enc32 be s @ enc32 be u) @ enc32 be c @ enc32 be l) 8 = Some (turned be c)"
    by (rule get_enc32(2)) simp
  moreover have "get_le32 ((enc32 be s @ enc32 be u @ enc32 be c) @ enc32 be l @ []) 12 = Some (turned be l)"
    by (rule get_enc32(2)) simp
  ultimately show ?thesis using get_enc32(1) [of be s] by (simp add: decode_pkthdr_def)
qed

lemma host_record:
  assumes "frame_fits s l (h, d)"
  shows "host_pkthdr be (turned be (word_of_int (tv_sec (ph_ts h))), turned be (word_of_int (tv_usec (ph_ts h))),
           turned be (ph_caplen h), turned be (ph_len h)) = h"
proof -
  have t: "uint (word_of_int t :: u32) = t" "sint (word_of_int t :: u32) = t" if "0 \<le> t" "t < 2 ^ 31" for t
  proof -
    show u: "uint (word_of_int t :: u32) = t" using that by (simp add: uint_word_of_int)
    show "sint (word_of_int t :: u32) = t" using that u by (simp add: sint_u32)
  qed
  have "tv_sec (ph_ts h) < 2 ^ 31" "0 \<le> tv_sec (ph_ts h)" "tv_usec (ph_ts h) < 2 ^ 31" "0 \<le> tv_usec (ph_ts h)"
    using assms by (simp_all add: frame_fits_def)
  then show ?thesis by (cases h; cases "ph_ts h") (simp add: host_pkthdr_def turned_def t)
qed

text \<open>A handle as the files of the dumper give it.\<close>

definition plain_file :: "pcap_t \<Rightarrow> bool" where
  "plain_file p \<longleftrightarrow>
     pt_ng p = None \<and> pt_hdr p = Plain_Hdr \<and> pt_lengths p = NOT_SWAPPED \<and> pt_scale p = PASS_THROUGH \<and> 0 < pt_snapshot p \<and>
     pt_snapshot p < 2 ^ 31 \<and> \<not> st_error (pt_rfile p) \<and>
     (pt_swapped p \<longrightarrow> pt_linktype p \<notin> {DLT_LINUX_SLL, DLT_USB_LINUX, DLT_USB_LINUX_MMAPPED, DLT_NFLOG})"

lemma plain_file_same: "same_file p q \<Longrightarrow> plain_file p \<Longrightarrow> plain_file q"
  by (simp add: same_file_def plain_file_def)

lemma plain_file_ok: "plain_file p \<Longrightarrow> sf_ok p"
  by (simp add: plain_file_def sf_ok_def)

text \<open>The header of a record, whole or cut.\<close>

lemma next_header_record:
  assumes p: "plain_file p" and f: "frame_fits (pt_snapshot p) l (h, d)"
    and data: "st_data (pt_rfile p) = take j (record_bytes (pt_swapped p) (h, d)) @ rest"
    and j: "16 \<le> j"
  shows "next_header p = Some (Inr h, p\<lparr>pt_rfile := (pt_rfile p)\<lparr>st_data := take (j - 16) d @ rest\<rparr>\<rparr>)"
proof -
  let ?be = "pt_swapped p"
  let ?e = "enc32 ?be (word_of_int (tv_sec (ph_ts h))) @ enc32 ?be (word_of_int (tv_usec (ph_ts h))) @
        enc32 ?be (ph_caplen h) @ enc32 ?be (ph_len h)"
  have e: "length ?e = 16" "record_bytes ?be (h, d) = ?e @ d" by (simp_all add: record_bytes_def)
  have "fread 16 (pt_rfile p) = (?e, (pt_rfile p)\<lparr>st_data := take (j - 16) d @ rest\<rparr>)"
    unfolding fread_def data e(2) using e(1) j by simp
  with p e(1) show ?thesis using host_record [OF f, of ?be] decode_record [of ?be]
    by (simp add: next_header_def Let_def plain_file_def scale_time_def swap_lengths_def)
qed

lemma fits_word:
  assumes "plain_file p" "frame_fits (pt_snapshot p) l (h, d)"
  shows "\<not> ph_caplen h > word_of_int (pt_snapshot p)"
proof -
  have "unat (word_of_int (pt_snapshot p) :: u32) = nat (pt_snapshot p)"
    using assms(1) by (simp add: plain_file_def unat_eq_nat_uint uint_word_of_int)
  moreover have "int (unat (ph_caplen h)) \<le> pt_snapshot p" using assms(2) unfolding frame_fits_def by blast
  then have "unat (ph_caplen h) \<le> nat (pt_snapshot p)" by (simp only: le_nat_iff)
  ultimately show ?thesis by (simp only: not_less word_le_nat_alt)
qed

lemma grow_plenty: "outcomes m = [] \<Longrightarrow> grow_buffer n p m = (True, p\<lparr>pt_bufsize := n\<rparr>, m)"
  by (simp add: grow_buffer_def mrealloc_def)

text \<open>With memory, the buffer has room, and what is there of the packet is read.\<close>

lemma read_whole_plenty:
  assumes "plain_file p" "frame_fits (pt_snapshot p) l (h, d)" "outcomes m = []"
    and "fread (unat (ph_caplen h)) (pt_rfile p) = (bs, fp)"
  shows "\<exists>b. read_whole h p m =
    Some (if length bs \<noteq> unat (ph_caplen h) then Inl (read_failed fp (Truncated_Packet (unat (ph_caplen h)) (length bs))) else Inr (h, bs),
      p\<lparr>pt_bufsize := b, pt_rfile := fp\<rparr>, m)"
proof -
  have "unat (ph_caplen h) \<le> 2 ^ 27" using assms(2) max_snaplen_bounds(2) [of l] by (auto simp: frame_fits_def)
  from read_whole_ok [OF this fits_word [OF assms(1,2)], of m] have some: "read_whole h p m \<noteq> None" by (auto simp: body_ok_def)
  define n where "n = (if round_up (ph_caplen h) > word_of_int (pt_snapshot p) then word_of_int (pt_snapshot p) else round_up (ph_caplen h))"
  define q where "q = (if unat (ph_caplen h) > pt_bufsize p then p\<lparr>pt_bufsize := unat n\<rparr> else p)"
  have q: "q = p\<lparr>pt_bufsize := pt_bufsize q\<rparr>" "pt_rfile q = pt_rfile p" by (simp_all add: q_def)
  have eq: "read_whole h p m = (case read_buffer (unat (ph_caplen h)) q of None \<Rightarrow> None
         | Some (bs, p) \<Rightarrow> if length bs \<noteq> unat (ph_caplen h) then Some (Inl (read_failed (pt_rfile p) (Truncated_Packet (unat (ph_caplen h)) (length bs))), p, m)
             else Some (Inr (h, bs), p, m))"
    unfolding read_whole_def Let_def grow_plenty [OF assms(3)] by (simp add: q_def n_def)
  with some have "read_buffer (unat (ph_caplen h)) q = Some (bs, q\<lparr>pt_rfile := fp\<rparr>)"
    using assms(4) q(2) by (auto simp: read_buffer_def split: if_splits)
  with eq have "read_whole h p m =
    Some (if length bs \<noteq> unat (ph_caplen h) then Inl (read_failed fp (Truncated_Packet (unat (ph_caplen h)) (length bs))) else Inr (h, bs),
      q\<lparr>pt_rfile := fp\<rparr>, m)" by simp
  moreover have "q\<lparr>pt_rfile := fp\<rparr> = p\<lparr>pt_bufsize := pt_bufsize q, pt_rfile := fp\<rparr>" by (subst q(1)) simp
  ultimately show ?thesis by metis
qed

lemma next_record:
  assumes p: "plain_file p" and f: "frame_fits (pt_snapshot p) (pt_linktype p) (h, d)" and m: "outcomes m = []"
    and data: "st_data (pt_rfile p) = record_bytes (pt_swapped p) (h, d) @ rest"
  obtains q where "pcap_next_packet p m = Some (Packet h d, q, m)" "same_file p q" "st_data (pt_rfile q) = rest"
proof -
  let ?fp = "(pt_rfile p)\<lparr>st_data := d @ rest\<rparr>" and ?fp' = "(pt_rfile p)\<lparr>st_data := rest\<rparr>"
  let ?p1 = "p\<lparr>pt_rfile := ?fp\<rparr>"
  have len: "length d = unat (ph_caplen h)" using f by (simp add: frame_fits_def)
  have "next_header p = Some (Inr h, ?p1)"
    using next_header_record [OF p f, of "16 + length d" rest] data by (simp add: record_bytes_def)
  moreover have p1: "plain_file ?p1" using p by (simp add: plain_file_def)
  have f1: "frame_fits (pt_snapshot ?p1) (pt_linktype ?p1) (h, d)" using f by simp
  have "fread (unat (ph_caplen h)) (pt_rfile ?p1) = (d, ?fp')" using len by (simp add: fread_def)
  from read_whole_plenty [OF p1 f1 m this] len obtain b where
    w: "read_whole h ?p1 m = Some (Inr (h, d), ?p1\<lparr>pt_bufsize := b, pt_rfile := ?fp'\<rparr>, m)" by auto
  moreover have "pt_swapped p \<Longrightarrow> swap_pseudo_headers (pt_linktype p) c n d = Some d" for c n
    using p by (simp add: plain_file_def swap_pseudo_headers_def)
  ultimately have "pcap_next_packet p m = Some (Packet h d, ?p1\<lparr>pt_bufsize := b, pt_rfile := ?fp'\<rparr>, m)"
    using fits_word [OF p1 f1] f by (auto simp: pcap_next_packet_def Let_def frame_fits_def)
  then show thesis using data
    by (intro that [of "?p1\<lparr>pt_bufsize := b, pt_rfile := ?fp'\<rparr>"]) (auto simp: same_file_def left_def)
qed

lemma next_cut_record:
  assumes p: "plain_file p" and f: "frame_fits (pt_snapshot p) (pt_linktype p) (h, d)" and m: "outcomes m = []"
    and data: "st_data (pt_rfile p) = take j (record_bytes (pt_swapped p) (h, d))" and j: "j < length (record_bytes (pt_swapped p) (h, d))"
  shows "\<exists>r q. pcap_next_packet p m = Some (r, q, m) \<and> (if j = 0 then r = End_Of_File else \<exists>e. r = Read_Failed e)"
proof (cases "16 \<le> j")
  case False
  have "length (take j (record_bytes (pt_swapped p) (h, d))) \<noteq> 16" "record_bytes (pt_swapped p) (h, d) \<noteq> []"
    using False by (auto simp flip: length_0_conv simp: record_bytes_def)
  then show ?thesis using p data False
    by (simp add: pcap_next_packet_def next_header_def Let_def plain_file_def fread_def)
next
  case True
  let ?fp = "(pt_rfile p)\<lparr>st_data := take (j - 16) d\<rparr>" and ?fp' = "(pt_rfile p)\<lparr>st_data := []\<rparr>"
  let ?p1 = "p\<lparr>pt_rfile := ?fp\<rparr>"
  have len: "length d = unat (ph_caplen h)" "j - 16 < length d" using f j True by (auto simp: frame_fits_def record_bytes_def)
  have nh: "next_header p = Some (Inr h, ?p1)" using next_header_record [OF p f, of j "[]"] data True by simp
  have p1: "plain_file ?p1" using p by (simp add: plain_file_def)
  have f1: "frame_fits (pt_snapshot ?p1) (pt_linktype ?p1) (h, d)" using f by simp
  have r: "fread (unat (ph_caplen h)) (pt_rfile ?p1) = (take (j - 16) d, ?fp')" using len by (simp add: fread_def)
  from read_whole_plenty [OF p1 f1 m r] len obtain b where
    "read_whole h ?p1 m = Some (Inl (read_failed ?fp' (Truncated_Packet (unat (ph_caplen h)) (j - 16))), ?p1\<lparr>pt_bufsize := b, pt_rfile := ?fp'\<rparr>, m)"
    by auto
  with nh fits_word [OF p1 f1] f True show ?thesis
    by (auto simp: pcap_next_packet_def Let_def frame_fits_def read_failed_def)
qed
section \<open>Replaying records\<close>

text \<open>How many of the records the first \<open>j\<close> bytes of a file hold, and what \<open>pcap_loop\<close> returns at the end of them.\<close>

fun replayed :: "bool \<Rightarrow> (pkthdr \<times> byte list) list \<Rightarrow> nat \<Rightarrow> nat \<times> int" where
  "replayed be [] j = (0, 0)"
| "replayed be (fr # frames) j =
     (let n = length (record_bytes be fr) in
      if j = 0 then (0, 0)
      else if j < n then (0, - 1)
      else (case replayed be frames (j - n) of (k, rc) \<Rightarrow> (Suc k, rc)))"

lemma record_length: "length (record_bytes be (h, d)) = 16 + length d"
  by (simp add: record_bytes_def)

lemma replayed_whole: "length (concat (map (record_bytes be) frames)) \<le> j \<Longrightarrow> replayed be frames j = (length frames, 0)"
proof (induction frames arbitrary: j)
  case (Cons fr frames)
  obtain h d where "fr = (h, d)" by fastforce
  then have "0 < length (record_bytes be fr)" by (simp add: record_length)
  moreover have "length (record_bytes be fr) \<le> j" "length (concat (map (record_bytes be) frames)) \<le> j - length (record_bytes be fr)"
    using Cons.prems by auto
  moreover from calculation have "0 < j" by linarith
  ultimately show ?case using Cons.IH [of "j - length (record_bytes be fr)"] by (simp add: Let_def)
qed simp

lemma replayed_code: "snd (replayed be frames j) \<le> 0"
proof (induction frames arbitrary: j)
  case (Cons fr frames)
  show ?case using Cons.IH [of "j - length (record_bytes be fr)"] by (auto simp: Let_def split: prod.split)
qed simp

lemma accept_all: "bpf_filter None d len caplen scratch = Some (Accepts (- 1))"
  by (simp add: bpf_filter_def bpf_filter_with_aux_data_def)

lemma replay_frames:
  assumes "plain_file p" "pt_fcode p = None" "\<not> pt_break p" "outcomes m = []"
    and "st_data (pt_rfile p) = take j (concat (map (record_bytes (pt_swapped p)) frames))"
    and "\<forall>fr \<in> set frames. frame_fits (pt_snapshot p) (pt_linktype p) fr"
    and "replayed (pt_swapped p) frames j = (k, rc)"
  shows "\<exists>q. offline_read callback scratch (- 1) n [] p m c =
     Some (and_then (run_frames callback (take k frames) c) (\<lambda>c'. Done (rc, [], q, m, c')))"
  using assms
proof (induction frames arbitrary: p j n c k)
  case Nil
  then have "pcap_next_packet p m = Some (End_Of_File, p, m)"
    by (simp add: pcap_next_packet_def next_header_def Let_def plain_file_def fread_def)
  with Nil show ?case by (subst offline_read.simps) (auto simp: Let_def next_packet_op_def plain_file_def)
next
  case (Cons fr frames)
  obtain h d where fr: "fr = (h, d)" by fastforce
  let ?r = "record_bytes (pt_swapped p) (h, d)"
  have f: "frame_fits (pt_snapshot p) (pt_linktype p) (h, d)" using Cons.prems(6) fr by simp
  show ?case
  proof (cases "j < length ?r")
    case True
    then have "st_data (pt_rfile p) = take j ?r" using Cons.prems(5) fr by simp
    from next_cut_record [OF Cons.prems(1) f Cons.prems(4) this True] obtain r q where
      "pcap_next_packet p m = Some (r, q, m)" "if j = 0 then r = End_Of_File else \<exists>e. r = Read_Failed e" by blast
    with True Cons.prems(1,3,7) fr show ?thesis
      by (subst offline_read.simps) (auto simp: Let_def next_packet_op_def plain_file_def split: if_splits)
  next
    case False
    let ?rest = "take (j - length ?r) (concat (map (record_bytes (pt_swapped p)) frames))"
    have "st_data (pt_rfile p) = ?r @ ?rest" using Cons.prems(5) fr False by simp
    from next_record [OF Cons.prems(1) f Cons.prems(4) this] obtain p2 where
      np: "pcap_next_packet p m = Some (Packet h d, p2, m)" "same_file p p2" "st_data (pt_rfile p2) = ?rest" by blast
    have same: "pt_swapped p2 = pt_swapped p" "pt_fcode p2 = None" "pt_snapshot p2 = pt_snapshot p"
      "pt_linktype p2 = pt_linktype p" "\<not> pt_break p2"
      using np(2) Cons.prems(2,3) by (simp_all add: same_file_def)
    obtain k' where k: "k = Suc k'" "replayed (pt_swapped p) frames (j - length ?r) = (k', rc)"
      using Cons.prems(7) fr False by (auto simp: Let_def record_length split: prod.splits if_splits)
    have IH: "\<exists>q. offline_read callback scratch (- 1) n' [] p2 m c' =
        Some (and_then (run_frames callback (take k' frames) c') (\<lambda>c'. Done (rc, [], q, m, c')))" for n' c'
      by (rule Cons.IH [of p2 "j - length ?r"])
        (use Cons.prems same np k(2) plain_file_same [OF np(2)] in auto)
    have step: "offline_read callback scratch (- 1) n [] p m c =
        (case callback h d c of Exited s \<Rightarrow> Some (Exited s) | Undefined \<Rightarrow> Some Undefined
           | Done c \<Rightarrow> offline_read callback scratch (- 1) (to_int32 (n + 1)) [] p2 m c)"
      using np(1) Cons.prems(1,3) same(2)
      by (subst offline_read.simps) (simp add: Let_def accept_all next_packet_op_def plain_file_def split: outcome.split)
    show ?thesis using IH [of "to_int32 (n + 1)"] unfolding step fr k(1) by (cases "callback h d c") auto
  qed
qed

text \<open>The program's loop over a file of records, the last of which may be cut.\<close>

lemma replay_loop:
  assumes "plain_file p" "pt_fcode p = None" "\<not> pt_break p" "outcomes m = []"
    and "st_data (pt_rfile p) = take j (concat (map (record_bytes (pt_swapped p)) frames))"
    and "\<forall>fr \<in> set frames. frame_fits (pt_snapshot p) (pt_linktype p) fr"
    and "replayed (pt_swapped p) frames j = (k, rc)"
  shows "\<exists>q. file_loop callback scratch (- 1) [] p m c =
     Some (and_then (run_frames callback (take k frames) c) (\<lambda>c'. Done (rc, q, m, c')))"
proof -
  have "rc \<le> 0" using replayed_code [of "pt_swapped p" frames j] assms(7) by simp
  then show ?thesis using replay_frames [OF assms, of callback scratch 0 c]
    by (subst file_loop.simps) (cases "run_frames callback (take k frames) c", auto)
qed

section \<open>File headers\<close>

definition enc16 :: "bool \<Rightarrow> u16 \<Rightarrow> byte list" where
  "enc16 be w = (if be then put_be16 w else put_le16 w)"

definition turned16 :: "bool \<Rightarrow> u16 \<Rightarrow> u16" where
  "turned16 be w = (if be then SWAPSHORT w else w)"

definition header_bytes :: "bool \<Rightarrow> u32 \<Rightarrow> u32 \<Rightarrow> u32 \<Rightarrow> byte list" where
  "header_bytes be zone snaplen linktype =
     enc32 be TCPDUMP_MAGIC @ enc16 be PCAP_VERSION_MAJOR @ enc16 be PCAP_VERSION_MINOR @ enc32 be zone @
     enc32 be 0 @ enc32 be snaplen @ enc32 be linktype"

lemma enc16_length [simp]: "length (enc16 be w) = 2"
  by (simp add: enc16_def put_le16_def)

lemma get_enc16: "get_le16 (enc16 be w @ ys) 0 = Some (turned16 be w)"
  by (simp add: enc16_def turned16_def get_le16_put)

lemma get_le16_append: "get_le16 (xs @ ys) (length xs) = get_le16 ys 0"
  using reads_append0(1) [of xs ys] reads_append(1) [of xs ys 1] by (simp add: get_le16_def)

lemma decode_header:
  "decode_file_header (enc16 be a @ enc16 be b @ enc32 be z @ enc32 be g @ enc32 be s @ enc32 be l) =
   Some \<lparr>fh_major = turned16 be a, fh_minor = turned16 be b, fh_thiszone = turned be z, fh_sigfigs = turned be g,
         fh_snaplen = turned be s, fh_linktype = turned be l\<rparr>" (is "decode_file_header ?bs = _")
proof -
  have "get_le16 ?bs 0 = Some (turned16 be a)" by (rule get_enc16)
  moreover have "get_le16 ?bs 2 = Some (turned16 be b)"
    using get_le16_append [of "enc16 be a"] get_enc16 [of be b] by simp
  moreover have "get_le32 ((enc16 be a @ enc16 be b) @ enc32 be z @ enc32 be g @ enc32 be s @ enc32 be l) 4 = Some (turned be z)"
    by (rule get_enc32(2)) simp
  moreover have "get_le32 ((enc16 be a @ enc16 be b @ enc32 be z) @ enc32 be g @ enc32 be s @ enc32 be l) 8 = Some (turned be g)"
    by (rule get_enc32(2)) simp
  moreover have "get_le32 ((enc16 be a @ enc16 be b @ enc32 be z @ enc32 be g) @ enc32 be s @ enc32 be l) 12 = Some (turned be s)"
    by (rule get_enc32(2)) simp
  moreover have "get_le32 ((enc16 be a @ enc16 be b @ enc32 be z @ enc32 be g @ enc32 be s) @ enc32 be l @ []) 16 = Some (turned be l)"
    by (rule get_enc32(2)) simp
  ultimately show ?thesis by (simp add: decode_file_header_def)
qed

lemma swap_turned:
  "(if be then swap_file_header h else h) =
   \<lparr>fh_major = turned16 be (fh_major h), fh_minor = turned16 be (fh_minor h), fh_thiszone = turned be (fh_thiszone h),
    fh_sigfigs = turned be (fh_sigfigs h), fh_snaplen = turned be (fh_snaplen h), fh_linktype = turned be (fh_linktype h)\<rparr>"
  by (simp add: swap_file_header_def turned_def turned16_def)

lemma turned_turned [simp]: "turned be (turned be w) = w" "turned16 be (turned16 be v) = v"
  by (simp_all add: turned_def turned16_def)

lemma turned_magic: "pcap_magic (turned be TCPDUMP_MAGIC) \<longleftrightarrow> \<not> be"
  by (simp add: pcap_magic_def turned_def SWAPLONG_def TCPDUMP_MAGIC_def KUZNETZOV_TCPDUMP_MAGIC_def NSEC_TCPDUMP_MAGIC_def)

lemma link_type_field:
  assumes "0 \<le> l" "l < 2 ^ 26"
  shows "sint (LT_LINKTYPE (word_of_int l)) = l"
proof -
  have "LT_LINKTYPE (word_of_int l) = take_bit 26 (word_of_int l)"
    by (simp add: LT_LINKTYPE_def take_bit_eq_mask mask_eq_exp_minus_1)
  moreover have "uint (word_of_int l :: u32) = l" using assms by (simp add: uint_word_of_int)
  then have "uint (take_bit 26 (word_of_int l :: u32)) = l"
    using assms by (simp only: unsigned_take_bit_eq) (simp add: take_bit_int_eq_self)
  ultimately show ?thesis using assms by (simp add: sint_u32)
qed

text \<open>Such a header is recognised, whichever order it is in.\<close>

lemma open_plain:
  assumes "outcomes m = []" "0 < snap" "snap < 2 ^ 31" "0 \<le> l" "l < 2 ^ 26"
  obtains q m' where
    "fopen_offline \<lparr>st_data = header_bytes be zone (word_of_int snap) (word_of_int l) @ rest, st_error = False\<rparr> m = Some (Inr q, m')"
    "outcomes m' = []" "live m' = live m + 2" "pt_snapshot q = snap" "pt_linktype q = linktype_to_dlt l" "pt_swapped q = be"
    "pt_hdr q = Plain_Hdr" "pt_lengths q = NOT_SWAPPED" "pt_scale q = PASS_THROUGH" "pt_rfile q = \<lparr>st_data = rest, st_error = False\<rparr>"
    "pt_fcode q = None" "\<not> pt_break q" "pt_ng q = None"
proof -
  let ?s = "\<lparr>st_data = rest, st_error = False\<rparr>"
  let ?b = "enc16 be PCAP_VERSION_MAJOR @ enc16 be PCAP_VERSION_MINOR @ enc32 be zone @ enc32 be 0 @ enc32 be (word_of_int snap) @ enc32 be (word_of_int l)"
  let ?h = "\<lparr>fh_major = PCAP_VERSION_MAJOR, fh_minor = PCAP_VERSION_MINOR, fh_thiszone = zone, fh_sigfigs = 0,
         fh_snaplen = word_of_int snap, fh_linktype = word_of_int l\<rparr>"
  let ?q = "found (sf_handle be TCPDUMP_MAGIC 0 PASS_THROUGH ?h ?s) ?s"
  have f4: "fread 4 \<lparr>st_data = header_bytes be zone (word_of_int snap) (word_of_int l) @ rest, st_error = False\<rparr> =
      (enc32 be TCPDUMP_MAGIC, \<lparr>st_data = ?b @ rest, st_error = False\<rparr>)"
    by (simp add: fread_def header_bytes_def)
  have f20: "fread 20 \<lparr>st_data = ?b @ rest, st_error = False\<rparr> = (?b, ?s)" by (simp add: fread_def)
  have mg: "get_le32 (enc32 be TCPDUMP_MAGIC) 0 = Some (turned be TCPDUMP_MAGIC)" using get_enc32(1) [of be _ "[]"] by simp
  have un: "(if be then SWAPLONG (turned be TCPDUMP_MAGIC) else turned be TCPDUMP_MAGIC) = TCPDUMP_MAGIC"
    by (simp add: turned_def)
  have tm: "pcap_magic TCPDUMP_MAGIC" "scale_for 0 TCPDUMP_MAGIC = Some PASS_THROUGH"
    by (simp_all add: pcap_magic_def scale_for_def PCAP_TSTAMP_PRECISION_MICRO_def TCPDUMP_MAGIC_def NSEC_TCPDUMP_MAGIC_def)
  define m1 m2 where "m1 = m\<lparr>live := live m + 1\<rparr>" and "m2 = m1\<lparr>live := live m1 + 1\<rparr>"
  then have m1: "malloc m = (True, m1)" and m2: "malloc m1 = (True, m2)" "outcomes m2 = []" "live m2 = live m + 2"
    using assms(1) by (simp_all add: malloc_plenty)
  have "pcap_check_header (turned be TCPDUMP_MAGIC) \<lparr>st_data = ?b @ rest, st_error = False\<rparr> 0 m =
      Some (Opened (sf_handle be TCPDUMP_MAGIC 0 PASS_THROUGH ?h ?s), ?s, m2)"
    unfolding pcap_check_header_def Let_def turned_magic not_not un f20 prod.case decode_header option.case swap_turned
    using m1 m2 tm by (simp add: PCAP_VERSION_MAJOR_def PCAP_VERSION_MINOR_def)
  then have op: "fopen_offline \<lparr>st_data = header_bytes be zone (word_of_int snap) (word_of_int l) @ rest, st_error = False\<rparr> m = Some (Inr ?q, m2)"
    by (simp add: fopen_offline_def pcap_fopen_offline_with_tstamp_precision_def f4 mg PCAP_TSTAMP_PRECISION_MICRO_def)
  have "sint (word_of_int snap :: u32) = snap" using assms(2,3) by (simp add: sint_u32 uint_word_of_int)
  moreover have "TCPDUMP_MAGIC \<noteq> KUZNETZOV_TCPDUMP_MAGIC" by (simp add: TCPDUMP_MAGIC_def KUZNETZOV_TCPDUMP_MAGIC_def)
  ultimately show thesis using assms(2) link_type_field [OF assms(4,5)]
    by (intro that [OF op m2(2,3)])
      (simp_all add: found_def sf_handle_def Let_def lengths_for_def PCAP_VERSION_MAJOR_def PCAP_VERSION_MINOR_def)
qed

section \<open>Writing records\<close>

text \<open>What a file with a given space keeps of some bytes.\<close>

definition clip :: "nat option \<Rightarrow> byte list \<Rightarrow> byte list" where
  "clip sp bs = (case sp of None \<Rightarrow> bs | Some k \<Rightarrow> take k bs)"

definition put_after :: "wfile \<Rightarrow> byte list \<Rightarrow> wfile" where
  "put_after f bs = f\<lparr>written := written f @ clip (space f) bs, space := map_option (\<lambda>k. k - length bs) (space f)\<rparr>"

lemma fwrite_after: "snd (fwrite bs f) = put_after f bs"
  by (cases "space f") (simp_all add: fwrite_def put_after_def clip_def Let_def min_def)

lemma after_append: "put_after (put_after f xs) ys = put_after f (xs @ ys)"
  by (cases "space f") (simp_all add: put_after_def clip_def)

lemma after_Nil: "put_after f [] = f"
  by (cases "space f") (simp_all add: put_after_def clip_def)

lemma dump_packet_after:
  assumes "length d = unat (ph_caplen h)"
  shows "dump_packet h d f = Some (put_after f (record_bytes False (h, d)))"
  using assms by (simp add: dump_packet_def Let_def fwrite_after after_append record_bytes_def enc32_def)

text \<open>\<open>pcap_dump\<close> on the file of the dumper.\<close>

definition file_dump :: "pkthdr \<Rightarrow> byte list \<Rightarrow> wfile \<Rightarrow> wfile" where
  "file_dump h d f = (case dump_packet h d f of None \<Rightarrow> f | Some f \<Rightarrow> f)"

lemma dump_frames:
  assumes "\<forall>fr \<in> set frames. captured_ok fr"
  shows "fold (\<lambda>(h, d). file_dump h d) frames f = put_after f (concat (map (record_bytes False) frames))"
  using assms
proof (induction frames arbitrary: f)
  case (Cons fr frames)
  obtain h d where fr: "fr = (h, d)" by fastforce
  then have "length d = unat (ph_caplen h)" using Cons.prems by (simp add: captured_ok_def)
  with Cons fr show ?case by (simp add: file_dump_def dump_packet_after after_append)
qed (simp add: after_Nil)

lemma frame_fits_ok:
  assumes "frame_fits s l fr"
  shows "captured_ok fr"
proof -
  obtain h d where fr: "fr = (h, d)" by fastforce
  have "unat (ph_caplen h) \<le> max_snaplen_for_dlt l" "length d = unat (ph_caplen h)" using assms fr by (simp_all add: frame_fits_def)
  then have "unat (ph_caplen h) \<le> 2 ^ 27" using max_snaplen_bounds(2) [of l] by linarith
  then have "ph_caplen h < 2 ^ 31" by (simp add: word_less_nat_alt)
  with fr \<open>length d = unat (ph_caplen h)\<close> show ?thesis by (simp add: captured_ok_def)
qed

lemma dump_open_written:
  assumes "dump_open p (Some name) fopen stdout = Inr f" "name \<noteq> str ''-''" "fopen name = Some \<lparr>written = [], space = sp\<rparr>"
    and "pt_precision p = PCAP_TSTAMP_PRECISION_MICRO" "pt_linktype_ext p = 0"
  shows "f = put_after \<lparr>written = [], space = sp\<rparr>
      (header_bytes False (word_of_int (pt_tzoff p)) (word_of_int (pt_snapshot p)) (word_of_int (dlt_to_linktype (pt_linktype p))))"
    and "dlt_to_linktype (pt_linktype p) \<noteq> - 1" and "\<forall>k. sp = Some k \<longrightarrow> 24 \<le> k"
proof -
  let ?b = "header_bytes False (word_of_int (pt_tzoff p)) (word_of_int (pt_snapshot p)) (word_of_int (dlt_to_linktype (pt_linktype p)))"
  let ?f = "\<lparr>written = [], space = sp\<rparr>"
  show link: "dlt_to_linktype (pt_linktype p) \<noteq> - 1" using assms(1) by (auto simp: dump_open_def split: if_splits)
  have "sf_write_header p ?f (dlt_to_linktype (pt_linktype p)) (pt_tzoff p) (pt_snapshot p) = fwrite ?b ?f"
    using assms(4) by (simp add: sf_write_header_def header_bytes_def enc32_def enc16_def PCAP_TSTAMP_PRECISION_MICRO_def PCAP_TSTAMP_PRECISION_NANO_def)
  with assms link have w: "fwrite ?b ?f = (True, f)"
    by (auto simp: dump_open_def pcap_setup_dump_def Let_def split: if_splits prod.splits bool.splits)
  then show "f = put_after ?f ?b" using fwrite_after [of ?b ?f] by simp
  have "length ?b = 24" by (simp add: header_bytes_def)
  with w show "\<forall>k. sp = Some k \<longrightarrow> 24 \<le> k" by (auto simp: fwrite_def Let_def min_def split: if_splits)
qed

section \<open>Any file, and the program's own\<close>

text \<open>What an open file holds: the handle and its buffer, for a pcapng file the interfaces, and the filter.\<close>

definition file_blocks :: "pcap_t \<Rightarrow> int" where
  "file_blocks p = 2 + (if pt_ng p = None then 0 else 1) + (if pt_fcode p = None then 0 else 1)"

lemma found_ok [simp]: "sf_ok (found p fp) = sf_ok p" "ng_ok (found p fp) ps = ng_ok p ps" "pt_fcode (found p fp) = pt_fcode p" "pt_ng (found p fp) = pt_ng p"
  by (simp_all add: found_def sf_ok_def ng_ok_def)

lemma open_any:
  "case fopen_offline fp m of
     None \<Rightarrow> False
   | Some (Inl e, m') \<Rightarrow> live m' = live m
   | Some (Inr p, m') \<Rightarrow> handle_ok p \<and> pt_fcode p = None \<and> live m' = live m + file_blocks p"
proof -
  obtain bs fp1 where r: "fread 4 fp = (bs, fp1)" by fastforce
  show ?thesis
  proof (cases "length bs = 4")
    case False
    with r show ?thesis by (simp add: fopen_offline_def pcap_fopen_offline_with_tstamp_precision_def)
  next
    case True
    obtain magic where magic: "get_le32 bs 0 = Some magic" using True get_le32_Some [of 0 bs] by auto
    obtain res fp2 m2 where c: "pcap_check_header magic fp1 PCAP_TSTAMP_PRECISION_MICRO m = Some (res, fp2, m2)"
      "case res of Opened p \<Rightarrow> sf_ok p \<and> pt_fcode p = None \<and> pt_ng p = None \<and> live m2 = live m + 2 | _ \<Rightarrow> live m2 = live m"
      using check_header_ok by blast
    obtain res' fp3 m3 where n: "pcap_ng_check_header magic fp2 PCAP_TSTAMP_PRECISION_MICRO m2 = Some (res', fp3, m3)"
      "case res' of Opened p \<Rightarrow> sf_ok p \<and> pt_fcode p = None \<and> live m3 = live m2 + 3 \<and> (\<exists>ps. pt_ng p = Some ps \<and> ng_ok p ps)
       | _ \<Rightarrow> live m3 = live m2" using ng_check_header_ok by blast
    from c n r True magic show ?thesis
      by (cases res; cases res')
        (auto simp: fopen_offline_def pcap_fopen_offline_with_tstamp_precision_def handle_ok_def file_blocks_def)
  qed
qed

text \<open>A filter is installed only if it passes the check, and the handle holds it.\<close>

lemma install_deciding:
  assumes "install_bpf_program f p m = (rc, q, m')" "straight f" "pt_fcode p = None" "handle_ok p"
  shows "deciding (pt_fcode q) \<and> handle_ok q \<and> live m' - file_blocks q = live m - file_blocks p"
  using assms malloc_live
  by (auto simp: install_bpf_program_def deciding_def handle_ok_def sf_ok_def ng_ok_def file_blocks_def Let_def
    split: if_splits prod.splits bool.splits option.splits)

lemma close_balanced:
  "\<exists>m'. close_file from_stdin q (m, files) = (m', if from_stdin then files else files - 1) \<and> live m' = live m - file_blocks q"
  by (simp add: close_file_def sf_cleanup_def pcap_ng_cleanup_def file_blocks_def Let_def)

text \<open>The handle after \<open>sniffer_compile\<close>, with or without a filter.\<close>

definition filtered :: "bpf_insn list option \<Rightarrow> pcap_t \<Rightarrow> mem \<Rightarrow> pcap_t \<times> mem" where
  "filtered prog p m = (case prog of None \<Rightarrow> (p, m) | Some f \<Rightarrow> snd (install_bpf_program f p m))"

lemma filtered_deciding:
  assumes "filtered prog p m = (q, m')" "\<forall>f. prog = Some f \<longrightarrow> straight f" "pt_fcode p = None" "handle_ok p"
  shows "deciding (pt_fcode q) \<and> handle_ok q \<and> live m' - file_blocks q = live m - file_blocks p"
proof (cases prog)
  case None
  with assms show ?thesis by (auto simp: filtered_def deciding_def)
next
  case (Some f)
  then obtain rc where "install_bpf_program f p m = (rc, q, m')" using assms(1)
    by (cases "install_bpf_program f p m") (simp add: filtered_def)
  with install_deciding [OF this] Some assms(2-4) show ?thesis by simp
qed


text \<open>
  C5. Recordings replay. A capture that is recorded to a file the program opened, for any link type but ATM CLIP, and read
  back by the program gives the handler the frames that were captured, with their times and lengths, in their order, and
  \<open>pcap_loop\<close> returns 0; if the disk was full, the frames before, and -1 if a record was cut. The frames are within the
  snapshot length, have times of 0 to \<open>2 ^ 31 - 1\<close>, and lengths on the wire that the handler takes.
\<close>

theorem record_replay:
  assumes "dump_open p (Some name) fopen stdout = Inr f" "name \<noteq> str ''-''" "fopen name = Some \<lparr>written = [], space = sp\<rparr>"
    and "pt_precision p = PCAP_TSTAMP_PRECISION_MICRO" "pt_linktype_ext p = 0" "pt_linktype p \<noteq> 19"
    and "0 < pt_snapshot p" "pt_snapshot p < 2 ^ 31" "outcomes m = []"
    and "capture_ok c" "lua_state (sniffer c) = None" "pcap (sniffer c) = Some h" "dumper (sniffer c) = Some f"
    and "\<forall>fr \<in> set frames. frame_fits (pt_snapshot p) (pt_linktype p) fr" "\<forall>fr \<in> set frames. wire_ok fr"
  shows "\<exists>c' g q m' k rc'.
     sniffer_run (A\<lparr>pcap_dump := file_dump\<rparr>) E frames rc c = Done (rc, c') \<and> dumper (sniffer c') = Some g \<and>
     fopen_offline \<lparr>st_data = written g, st_error = False\<rparr> m = Some (Inr q, m') \<and> pt_linktype q = pt_linktype p \<and>
     (case sp of None \<Rightarrow> k = length frames \<and> rc' = 0 | Some n \<Rightarrow> replayed False frames (n - 24) = (k, rc')) \<and>
     (\<exists>q'. file_loop (packet_handler A' E') scratch (- 1) [] q m' c2 =
        Some (and_then (sniffer_run A' E' (take k frames) rc' c2) (\<lambda>(rc, c). Done (rc, q', m', c))))"
proof -
  let ?A = "A\<lparr>pcap_dump := file_dump\<rparr>" and ?l = "dlt_to_linktype (pt_linktype p)"
  let ?h = "header_bytes False (word_of_int (pt_tzoff p)) (word_of_int (pt_snapshot p)) (word_of_int ?l)"
  let ?b = "concat (map (record_bytes False) frames)"
  note w = dump_open_written [OF assms(1-5)]
  have ok: "\<forall>fr \<in> set frames. captured_ok fr" using assms(14) frame_fits_ok by blast
  have "\<forall>fr \<in> set frames. frame_ok fr" using ok assms(15) by (simp add: frame_ok_def)
  from capture_loop [OF assms(10-12) this, of ?A E rc] assms(13) obtain c' where
    c': "sniffer_run ?A E frames rc c = Done (rc, c')" "dumper (sniffer c') = Some (fold (\<lambda>(h, d). file_dump h d) frames f)"
    by auto
  define g where "g = fold (\<lambda>(h, d). file_dump h d) frames f"
  define j where "j = (case sp of None \<Rightarrow> length ?b | Some n \<Rightarrow> n - 24)"
  have "g = put_after \<lparr>written = [], space = sp\<rparr> (?h @ ?b)" by (simp add: g_def dump_frames [OF ok] w(1) after_append)
  moreover have "length ?h = 24" by (simp add: header_bytes_def)
  ultimately have g: "written g = ?h @ take j ?b" using w(3) by (cases sp) (auto simp: put_after_def clip_def j_def)
  note l = dlt_roundtrip [OF w(2) assms(6)]
  have l26: "?l < 2 ^ 26" using l(3) by simp
  obtain q m' where q: "fopen_offline \<lparr>st_data = written g, st_error = False\<rparr> m = Some (Inr q, m')"
    "outcomes m' = []" "pt_snapshot q = pt_snapshot p" "pt_linktype q = pt_linktype p" "\<not> pt_swapped q"
    "pt_hdr q = Plain_Hdr" "pt_lengths q = NOT_SWAPPED" "pt_scale q = PASS_THROUGH"
    "pt_rfile q = \<lparr>st_data = take j ?b, st_error = False\<rparr>" "pt_fcode q = None" "\<not> pt_break q" "pt_ng q = None"
    unfolding g using open_plain [OF assms(9,7,8) l(2) l26, of False "word_of_int (pt_tzoff p)" "take j ?b" thesis] l(1) by simp
  have plain: "plain_file q" using q assms(7,8) by (simp add: plain_file_def)
  obtain k rc' where k: "replayed False frames j = (k, rc')" by fastforce
  have "replayed (pt_swapped q) frames j = (k, rc')" "st_data (pt_rfile q) = take j (concat (map (record_bytes (pt_swapped q)) frames))"
    "\<forall>fr \<in> set frames. frame_fits (pt_snapshot q) (pt_linktype q) fr" using k q assms(14) by simp_all
  from replay_loop [OF plain q(10,11,2) this(2,3,1), of "packet_handler A' E'" scratch c2] obtain q' where
    "file_loop (packet_handler A' E') scratch (- 1) [] q m' c2 =
       Some (and_then (sniffer_run A' E' (take k frames) rc' c2) (\<lambda>(rc, c). Done (rc, q', m', c)))"
    by (cases "run_frames (packet_handler A' E') (take k frames) c2") (auto simp: sniffer_run_def pcap_loop_run)
  moreover have "case sp of None \<Rightarrow> k = length frames \<and> rc' = 0 | Some n \<Rightarrow> replayed False frames (n - 24) = (k, rc')"
    using k replayed_whole [of False frames j] by (cases sp) (auto simp: j_def)
  ultimately show ?thesis using c' q(1,4) unfolding g_def by blast
qed

text \<open>
  C39. Byte order does not matter. A file of the same frames written on a big-endian or on a little-endian host, of a link
  type without pseudo-headers in host order, is read the same, with memory available: the handler gets the frames, and the
  loop returns 0. The frames are within the snapshot length and the maximum of the link type, and their seconds and
  microseconds in 0 to \<open>2 ^ 31 - 1\<close>; beyond, a time is read as signed in one order and as unsigned in the other.
\<close>

theorem byte_order_replay:
  assumes "outcomes m = []" "0 < snap" "snap < 2 ^ 31" "0 \<le> l" "l < 2 ^ 26"
    and "\<forall>fr \<in> set frames. frame_fits snap (linktype_to_dlt l) fr"
    and "be \<longrightarrow> linktype_to_dlt l \<notin> {DLT_LINUX_SLL, DLT_USB_LINUX, DLT_USB_LINUX_MMAPPED, DLT_NFLOG}"
  shows "\<exists>q m' q'.
     fopen_offline \<lparr>st_data = header_bytes be zone (word_of_int snap) (word_of_int l) @ concat (map (record_bytes be) frames),
       st_error = False\<rparr> m = Some (Inr q, m') \<and>
     file_loop (packet_handler A E) scratch (- 1) [] q m' c =
       Some (and_then (sniffer_run A E frames 0 c) (\<lambda>(rc, c). Done (rc, q', m', c)))"
proof -
  let ?b = "concat (map (record_bytes be) frames)"
  obtain q m' where q: "fopen_offline \<lparr>st_data = header_bytes be zone (word_of_int snap) (word_of_int l) @ ?b, st_error = False\<rparr> m = Some (Inr q, m')"
    "outcomes m' = []" "pt_snapshot q = snap" "pt_linktype q = linktype_to_dlt l" "pt_swapped q = be"
    "pt_hdr q = Plain_Hdr" "pt_lengths q = NOT_SWAPPED" "pt_scale q = PASS_THROUGH"
    "pt_rfile q = \<lparr>st_data = ?b, st_error = False\<rparr>" "pt_fcode q = None" "\<not> pt_break q" "pt_ng q = None"
    using open_plain [OF assms(1-5), of be zone ?b thesis] by simp
  have plain: "plain_file q" using q assms(2,3,7) by (simp add: plain_file_def)
  have "replayed (pt_swapped q) frames (length ?b) = (length frames, 0)"
    "st_data (pt_rfile q) = take (length ?b) (concat (map (record_bytes (pt_swapped q)) frames))"
    "\<forall>fr \<in> set frames. frame_fits (pt_snapshot q) (pt_linktype q) fr" using q assms(6) replayed_whole [of be frames "length ?b"] by simp_all
  from replay_loop [OF plain q(10,11,2) this(2,3,1), of "packet_handler A E" scratch c] obtain q' where
    "file_loop (packet_handler A E) scratch (- 1) [] q m' c =
       Some (and_then (sniffer_run A E frames 0 c) (\<lambda>(rc, c). Done (rc, q', m', c)))"
    by (cases "run_frames (packet_handler A E) frames c") (auto simp: sniffer_run_def pcap_loop_run)
  with q(1) show ?thesis by blast
qed

section \<open>Witnesses\<close>

definition demo_frame :: "pkthdr \<times> byte list" where
  "demo_frame = (\<lparr>ph_ts = \<lparr>tv_sec = 1, tv_usec = 2\<rparr>, ph_caplen = 30, ph_len = 60\<rparr>, replicate 30 0x45)"

definition demo_handle :: pcap_t where
  "demo_handle = found (sf_handle False TCPDUMP_MAGIC PCAP_TSTAMP_PRECISION_MICRO PASS_THROUGH
     \<lparr>fh_major = 2, fh_minor = 4, fh_thiszone = 0, fh_sigfigs = 0, fh_snaplen = 65535, fh_linktype = 1\<rparr>
     \<lparr>st_data = [], st_error = False\<rparr>) \<lparr>st_data = [], st_error = False\<rparr>"

lemma demo_handle_fields:
  "pt_snapshot demo_handle = 65535" "pt_linktype demo_handle = 1" "pt_precision demo_handle = PCAP_TSTAMP_PRECISION_MICRO"
  "pt_linktype_ext demo_handle = 0" "pt_activated demo_handle" "pt_tzoff demo_handle = 0"
proof -
  have "linktype_to_dlt 1 = 1" by (simp add: linktype_to_dlt_def linktype_map_def link_types)
  then show "pt_linktype demo_handle = 1" by (simp add: demo_handle_def found_def sf_handle_def Let_def LT_LINKTYPE_def)
qed (simp_all add: demo_handle_def found_def sf_handle_def Let_def LT_LINKTYPE_EXT_def TCPDUMP_MAGIC_def KUZNETZOV_TCPDUMP_MAGIC_def)

lemma demo_frame_fits: "frame_fits 65535 1 demo_frame"
  by (simp add: frame_fits_def demo_frame_def max_snaplen_for_dlt_def MAXIMUM_SNAPLEN_def link_types)

lemma demo_frame_wire: "wire_ok demo_frame"
  by (simp add: wire_ok_def demo_frame_def)

definition recording_pcap :: "(unit, unit, wfile) pcap_api" where
  "recording_pcap =
     \<lparr>pcap_findalldevs = Inr [], pcap_create = (\<lambda>d. Inr ()), pcap_set_snaplen = (\<lambda>n p. (0, p)),
      pcap_set_timeout = (\<lambda>n p. (0, p)), pcap_set_buffer_size = (\<lambda>n p. (0, p)),
      pcap_set_tstamp_type = (\<lambda>n p. (0, p)), pcap_activate = (\<lambda>p. (0, p)),
      pcap_statustostr = (\<lambda>n. []), pcap_geterr = (\<lambda>p. []), fopen_error = (\<lambda>f. None), pcap_fopen_offline = (\<lambda>f. Inr ()),
      pcap_compile = (\<lambda>f p. (Some (), p)), pcap_setfilter = (\<lambda>b p. (0, p)), pcap_datalink = (\<lambda>p. 1),
      pcap_dump_open = (\<lambda>p f. None), pcap_dump = file_dump, pthread_mutex_init = 0\<rparr>"

definition demo_file :: wfile where
  "demo_file = \<lparr>written = header_bytes False 0 65535 1, space = None\<rparr>"

definition demo_recording :: "(unit, int, unit, wfile) capture" where
  "demo_recording =
     \<lparr>sniffer =
        \<lparr>pcap = Some (), dev = None, filter_expr = None, protocol = ProtocolRedis, threshold = 0,
         ascii = 0, stats_lock = False, lock_ready = 1, syn_tab = Some demo_syn_tab,
         requests = Some demo_requests, last_expire = \<lparr>tv_sec = 0, tv_usec = 0\<rparr>,
         expire_primed = 0, lua_state = None, bpf = None, dumper = Some demo_file\<rparr>,
      heap = \<lparr>outcomes = [], live = 0\<rparr>, console = demo_logger, gc_count = 0\<rparr>"

lemma demo_recording_ok: "capture_ok demo_recording" "lua_state (sniffer demo_recording) = None"
  "pcap (sniffer demo_recording) = Some ()" "dumper (sniffer demo_recording) = Some demo_file"
  using demo_capture_ok by (simp_all add: capture_ok_def demo_recording_def demo_capture_def)

lemma demo_dump_open:
  "dump_open demo_handle (Some (str ''a'')) (\<lambda>n. Some \<lparr>written = [], space = None\<rparr>) \<lparr>written = [], space = None\<rparr> = Inr demo_file"
proof -
  have "dlt_to_linktype 1 = 1" by (simp add: dlt_to_linktype_def linktype_map_def link_types)
  then show ?thesis
    by (simp add: dump_open_def demo_handle_fields pcap_setup_dump_def sf_write_header_def fwrite_def demo_file_def header_bytes_def
        enc32_def enc16_def PCAP_TSTAMP_PRECISION_MICRO_def PCAP_TSTAMP_PRECISION_NANO_def str_def)
qed

theorem record_replay_witness:
  "\<exists>c' g q m' q'.
     sniffer_run (recording_pcap\<lparr>pcap_dump := file_dump\<rparr>) demo_env [demo_frame] 0 demo_recording = Done (0, c') \<and>
     dumper (sniffer c') = Some g \<and>
     fopen_offline \<lparr>st_data = written g, st_error = False\<rparr> \<lparr>outcomes = [], live = 0\<rparr> = Some (Inr q, m') \<and>
     file_loop (packet_handler demo_pcap demo_env) (\<lambda>n. []) (- 1) [] q m' demo_capture =
       Some (and_then (sniffer_run demo_pcap demo_env [demo_frame] 0 demo_capture) (\<lambda>(rc, c). Done (rc, q', m', c)))"
  using record_replay [OF demo_dump_open _ refl demo_handle_fields(3,4) _ _ _ _ demo_recording_ok, of "\<lparr>outcomes = [], live = 0\<rparr>"
      "[demo_frame]" recording_pcap demo_env 0 demo_pcap demo_env "\<lambda>n. []" demo_capture]
    demo_frame_fits demo_frame_wire
  by (auto simp: demo_handle_fields str_def)

theorem byte_order_replay_witness:
  "\<exists>q m' q'.
     fopen_offline \<lparr>st_data = header_bytes True 0 65535 1 @ record_bytes True demo_frame, st_error = False\<rparr>
       \<lparr>outcomes = [], live = 0\<rparr> = Some (Inr q, m') \<and>
     file_loop (packet_handler demo_pcap demo_env) (\<lambda>n. []) (- 1) [] q m' demo_capture =
       Some (and_then (sniffer_run demo_pcap demo_env [demo_frame] 0 demo_capture) (\<lambda>(rc, c). Done (rc, q', m', c)))"
proof -
  have "linktype_to_dlt 1 = 1" by (simp add: linktype_to_dlt_def linktype_map_def link_types)
  then show ?thesis
    using byte_order_replay [of "\<lparr>outcomes = [], live = 0\<rparr>" 65535 1 "[demo_frame]" True 0
        demo_pcap demo_env "\<lambda>n. []" demo_capture] demo_frame_fits
    by (simp add: link_types)
qed

text \<open>A file that is cut inside its second record, under the filter for IPv4, with an allocation that fails.\<close>

definition scarce :: mem where
  "scarce = \<lparr>outcomes = [True, True, False], live = 0\<rparr>"


end
