(* ===== verification/Pcapng_Spec.thy ===== *)
theory Pcapng_Spec
  imports Replay
begin

text \<open>
  What the reader of pcapng files gives for the files its format describes: exact times in microseconds, and the packets of
  a file of blocks. And where it does not do what it means to: several interfaces, very fine resolutions, and reading on
  after an error.
\<close>

unbundle bit_operations_syntax

section \<open>Times\<close>

text \<open>Microseconds of a time stamp \<open>t\<close> in units of a second over \<open>res\<close>.\<close>

definition micros :: "nat \<Rightarrow> nat \<Rightarrow> nat" where
  "micros res t = t * 1000000 div res"

lemma micros_split: "0 < res \<Longrightarrow> micros res t = t div res * 1000000 + t mod res * 1000000 div res"
proof -
  assume "0 < res"
  have "t * 1000000 = (t div res * res + t mod res) * 1000000" by simp
  also have "\<dots> = t mod res * 1000000 + t div res * 1000000 * res" by (simp only: add_mult_distrib mult.commute mult.left_commute add.commute)
  finally show ?thesis using \<open>0 < res\<close> by (simp only: micros_def) simp
qed

lemma mod_micros_bound: "0 < (res :: nat) \<Longrightarrow> t mod res * 1000000 div res < 1000000"
  by (simp add: div_less_iff_less_mult)

text \<open>Times the reader converts exactly: decimal resolutions, and binary ones up to a power of 44.\<close>

definition exact_resolution :: "idb_times \<Rightarrow> bool" where
  "exact_resolution it \<longleftrightarrow>
     (if it_binary it then \<exists>k \<le> 44. unat (it_tsresol it) = 2 ^ k else \<exists>k \<le> 19. unat (it_tsresol it) = 10 ^ k)"

lemma scaled_fraction:
  assumes "exact_resolution it"
  shows "\<exists>f. ng_fraction 1000000 (interface_for 1000000 it) t = Some f \<and>
    unat f = unat t mod unat (it_tsresol it) * 1000000 div unat (it_tsresol it)"
proof -
  let ?w = "it_tsresol it" and ?r = "unat (it_tsresol it)" and ?f = "unat t mod unat (it_tsresol it)"
  have f: "unat (t mod ?w) = ?f" by (simp add: unat_mod)
  have pos: "0 < ?r" using assms by (auto simp: exact_resolution_def split: if_splits)
  then have lt: "?f < ?r" by simp
  have u: "unat (1000000 :: u64) = 1000000" by simp
  show ?thesis
  proof (cases "it_binary it")
    case True
    then obtain k where k: "k \<le> 44" "?r = 2 ^ k" using assms by (auto simp: exact_resolution_def)
    have "(2 :: nat) ^ k \<le> 2 ^ 44" by (rule power_increasing) (use k in auto)
    then have "?f < 2 ^ 44" using lt k(2) by (simp only:)
    then have "?f * 1000000 < 2 ^ 64" by simp
    then have "unat (t mod ?w * 1000000) = ?f * 1000000" using f u by (simp only: unat_mult_lem [THEN iffD1] unat_word_ariths) simp
    then have b: "unat (t mod ?w * 1000000 div ?w) = ?f * 1000000 div ?r" by (simp add: unat_div)
    have "?w \<noteq> 1000000"
    proof
      assume "?w = 1000000"
      then have "(2 :: nat) ^ k = 1000000" using k(2) by simp
      moreover have "(2 :: nat) ^ k \<le> 2 ^ 19 \<or> 2 ^ 20 \<le> (2 :: nat) ^ k"
        using power_increasing [of k 19 "2 :: nat"] power_increasing [of 20 k "2 :: nat"] by force
      ultimately show False by simp
    qed
    with True b show ?thesis by (auto simp: ng_fraction_def interface_for_def Let_def)
  next
    case False
    then obtain k where k: "k \<le> 19" "?r = 10 ^ k" using assms by (auto simp: exact_resolution_def)
    consider (same) "k = 6" | (fine) "6 < k" | (coarse) "k < 6" by linarith
    then show ?thesis
    proof cases
      case same
      then have "?w = 1000000" using k(2) by (intro unsigned_word_eqI) simp
      with f show ?thesis by (auto simp: ng_fraction_def interface_for_def Let_def)
    next
      case fine
      let ?q = "(10 :: nat) ^ (k - 6)"
      have m: "?r = ?q * 1000000" using fine k(2) power_add [of "10 :: nat" "k - 6" 6] by simp
      have "1 < ?q" by (rule one_less_power) (use fine in auto)
      then have w: "1000000 < ?w" using m u by (simp only: word_less_nat_alt)
      have q: "unat (?w div 1000000) = ?q" using m by (simp only: unat_div u)
      then have "?w div 1000000 \<noteq> 0" by auto
      moreover have "unat (t mod ?w div (?w div 1000000)) = ?f * 1000000 div ?r"
        by (simp only: unat_div [of "t mod ?w"] q f) (simp only: m div_mult_mult2)
      ultimately show ?thesis using False w by (auto simp: ng_fraction_def interface_for_def Let_def)
    next
      case coarse
      let ?q = "(10 :: nat) ^ (6 - k)"
      have m: "1000000 = ?q * ?r" using coarse k(2) power_add [of "10 :: nat" "6 - k" k] by simp
      have "1 < ?q" by (rule one_less_power) (use coarse in auto)
      then have "?r < ?q * ?r" using mult_strict_right_mono [of 1 ?q ?r] pos by (simp only: mult_1)
      then have w: "?w < 1000000" using m u by (simp only: word_less_nat_alt)
      have "1000000 div ?r = ?q" using m pos by (metis div_mult_self_is_m)
      then have q: "unat (1000000 div ?w) = ?q" by (simp only: unat_div u)
      have "?f * ?q < ?r * ?q" using lt by simp
      then have "?f * ?q < 1000000" using m by (simp only: mult.commute)
      then have "?f * ?q < 2 ^ 64" by (rule order.strict_trans) simp
      moreover have "unat (t mod ?w * (1000000 div ?w)) = ?f * ?q mod 2 ^ LENGTH(64)" by (simp only: unat_word_ariths(2) q f)
      ultimately have "unat (t mod ?w * (1000000 div ?w)) = ?f * ?q" by simp
      moreover have "?f * 1000000 div ?r = ?f * ?q" using m pos by (metis mult.assoc nonzero_mult_div_cancel_right not_gr_zero)
      ultimately show ?thesis using False w by (auto simp: ng_fraction_def interface_for_def Let_def)
    qed
  qed
qed

lemma sint_u64_small:
  assumes "unat (b :: u64) < 2 ^ 63"
  shows "sint b = int (unat b)"
proof -
  have "uint b < 2 ^ 63" using assms by (metis of_nat_less_iff of_nat_numeral of_nat_power uint_nat)
  moreover have "- (2 ^ 63) \<le> uint b" by (rule order_trans [of _ 0]) simp_all
  ultimately have "signed_take_bit 63 (uint b) = uint b" by (intro signed_take_bit_int_eq_self) simp_all
  then show ?thesis by (simp add: sint_uint)
qed

text \<open>
  C40. Time stamps are exact. With decimal resolutions up to \<open>10\<^sup>19\<close> and binary ones up to \<open>2\<^sup>44\<close> a packet's time is its time
  stamp rounded down to microseconds, plus the offset of its interface, in normal form, where its whole seconds plus the offset,
  as an unsigned number, stay below \<open>2\<^sup>63\<close>.
\<close>

theorem ng_time_exact:
  assumes "exact_resolution it" "unat t div unat (it_tsresol it) + unat (it_tsoffset it) < 2 ^ 63"
  shows "\<exists>ts. ng_timeval 1000000 (interface_for 1000000 it) t = Some ts \<and> 0 \<le> tv_usec ts \<and> tv_usec ts < 1000000 \<and>
    tv_sec ts * 1000000 + tv_usec ts = int (micros (unat (it_tsresol it)) (unat t)) + int (unat (it_tsoffset it)) * 1000000"
proof -
  let ?r = "unat (it_tsresol it)" and ?i = "interface_for 1000000 it"
  obtain f where f: "ng_fraction 1000000 ?i t = Some f" "unat f = unat t mod ?r * 1000000 div ?r" using scaled_fraction [OF assms(1)] by blast
  have pos: "0 < ?r" using assms(1) by (auto simp: exact_resolution_def split: if_splits)
  have i: "tsresol ?i = it_tsresol it" "tsoffset ?i = it_tsoffset it" by (simp_all add: interface_for_def Let_def split: prod.split)
  let ?s = "t div it_tsresol it + it_tsoffset it"
  have "unat ?s = (unat (t div it_tsresol it) + unat (it_tsoffset it)) mod 2 ^ 64" using unat_word_ariths(1) [of "t div it_tsresol it"] by simp
  then have s: "unat ?s = unat t div ?r + unat (it_tsoffset it)" using assms(2) by (simp add: unat_div)
  then have sec: "sint ?s = int (unat t div ?r + unat (it_tsoffset it))" using assms(2) sint_u64_small [of ?s] by (simp only:)
  have "unat f < 1000000" using f(2) mod_micros_bound [OF pos, of "unat t"] by simp
  then have "unat (ucast f :: u32) = unat f" by (simp add: unsigned_ucast_eq take_bit_nat_eq_self_iff)
  moreover from this \<open>unat f < 1000000\<close> have "(ucast f :: u32) < 2 ^ 31" by (simp add: word_less_nat_alt)
  ultimately have usec: "sint (ucast f :: u32) = int (unat f)" using sint_u32_small [of "ucast f"] by (simp only:)
  have "it_tsresol it \<noteq> 0" using pos by auto
  then have "ng_timeval 1000000 ?i t = Some \<lparr>tv_sec = sint ?s, tv_usec = sint (ucast f :: u32)\<rparr>" using f(1) i by (simp add: ng_timeval_def)
  moreover have "int (unat t div ?r + unat (it_tsoffset it)) * 1000000 + int (unat f) =
      int (micros ?r (unat t)) + int (unat (it_tsoffset it)) * 1000000"
    using micros_split [OF pos, of "unat t"] f(2) by (simp add: algebra_simps del: unat_u32)
  moreover have "int (unat f) < 1000000" using \<open>unat f < 1000000\<close> by linarith
  ultimately show ?thesis using sec usec by simp
qed

definition milliseconds :: idb_times where
  "milliseconds = \<lparr>it_tsresol = 1000, it_tsoffset = 5, it_binary = False\<rparr>"

theorem ng_time_exact_witness:
  "ng_timeval 1000000 (interface_for 1000000 milliseconds) 1234 = Some \<lparr>tv_sec = 6, tv_usec = 234000\<rparr> \<and>
   (\<exists>ts. ng_timeval 1000000 (interface_for 1000000 milliseconds) 1234 = Some ts \<and> tv_usec ts < 1000000 \<and>
      tv_sec ts * 1000000 + tv_usec ts = int (micros 1000 1234) + 5 * 1000000)"
proof -
  have "exact_resolution milliseconds" by (auto simp: exact_resolution_def milliseconds_def intro!: exI [of _ 3])
  with ng_time_exact [of milliseconds 1234] have "\<exists>ts. ng_timeval 1000000 (interface_for 1000000 milliseconds) 1234 = Some ts \<and>
      tv_usec ts < 1000000 \<and> tv_sec ts * 1000000 + tv_usec ts = int (micros 1000 1234) + 5 * 1000000"
    by (auto simp: milliseconds_def)
  moreover have "ng_timeval 1000000 (interface_for 1000000 milliseconds) 1234 = Some \<lparr>tv_sec = 6, tv_usec = 234000\<rparr>"
    by (simp add: ng_timeval_def ng_fraction_def interface_for_def milliseconds_def Let_def)
  ultimately show ?thesis by blast
qed

text \<open>Finer resolutions wrap around: half a second in units of \<open>2\<^sup>-\<^sup>6\<^sup>3\<close> seconds is read as none.\<close>

lemma ng_time_wraps:
  "ng_timeval 1000000 (interface_for 1000000 \<lparr>it_tsresol = push_bit 63 1, it_tsoffset = 0, it_binary = True\<rparr>) (push_bit 62 1) =
     Some \<lparr>tv_sec = 0, tv_usec = 0\<rparr>"
  "micros (2 ^ 63) (2 ^ 62) = 500000"
  by (simp_all add: ng_timeval_def ng_fraction_def interface_for_def micros_def Let_def)

section \<open>Several interfaces\<close>

text \<open>
  A second interface just like the first one is refused if its link type has another number among the types of libpcap, as
  raw IP has, or if it has no limit on the length of packets.
\<close>

lemma same_type_refused:
  assumes "interface_fields (pt_swapped p) cursor = Some (Inr ((linktype, snaplen), cursor'))"
    and "pt_linktype p = linktype_to_dlt (uint linktype)" "linktype_to_dlt (uint linktype) \<noteq> uint linktype"
  shows "further_interface cursor p ps m = Some (Some (Different_Linktype linktype), ps, m)"
  using assms by (simp add: further_interface_def)

lemma raw_ip_number: "linktype_to_dlt (uint (101 :: u16)) \<noteq> uint (101 :: u16)"
  by (simp add: linktype_to_dlt_def linktype_map_def link_types)

lemma unlimited_refused:
  assumes "interface_fields (pt_swapped p) cursor = Some (Inr ((1, 0), cursor'))" "p = ng_opened q ps' 1 0"
  shows "further_interface cursor p ps m = Some (Some (Different_Snaplen 0), ps, m)"
proof -
  have l: "linktype_to_dlt 1 = 1" by (simp add: linktype_to_dlt_def linktype_map_def link_types)
  have "pt_linktype p = 1" "pt_snapshot p = 262144"
    using assms(2) l by (simp_all add: ng_opened_def Let_def max_snaplen_for_dlt_def MAXIMUM_SNAPLEN_def link_types)
  with assms(1) show ?thesis by (simp add: further_interface_def)
qed

text \<open>
  When there is no memory for one more interface it is counted all the same. A program that reads on after that error, as this
  one does not, takes a packet of that interface from beyond the array.
\<close>

lemma counted_without_room:
  assumes "ifaces_ok ps" "ifcount ps = ifaces_size ps" "ifaces_size ps \<noteq> 0" "outcomes m = [False]"
    and "\<not> ifaces_size ps * 2 < ifaces_size ps"
  obtains ps' where "add_interface swapped cursor ps m = Some (Some (No_Memory_For_Interfaces (ifcount ps + 1)), ps', m\<lparr>outcomes := []\<rparr>)"
    "\<And>np c p. np_interface np = ifcount ps \<Longrightarrow> \<not> np_caplen np > word_of_int (pt_snapshot p) \<Longrightarrow> ng_data np c p ps' = None"
proof -
  let ?ps = "ps\<lparr>ifcount := ifcount ps + 1\<rparr>"
  have len: "length (ifaces ps) = unat (ifaces_size ps)" "ifaces_size ps = 0 \<or> (\<exists>k \<le> 31. unat (ifaces_size ps) = 2 ^ k)"
    using assms(1) by (simp_all add: ifaces_ok_def)
  obtain k where k: "k \<le> 31" "unat (ifaces_size ps) = 2 ^ k" using len(2) assms(3) by blast
  have "(2 :: nat) ^ k \<le> 2 ^ 31" by (rule power_increasing) (use k in auto)
  then have "unat (ifcount ps + 1) = unat (ifcount ps) + 1" using assms(2) k(2) by (simp add: unat_word_ariths)
  then have lt: "ifcount ps < ifcount ps + 1" by (simp add: word_less_nat_alt)
  have "mrealloc m = (False, m\<lparr>outcomes := []\<rparr>)" using assms(4) by (simp add: mrealloc_def)
  then have "add_interface swapped cursor ps m = Some (Some (No_Memory_For_Interfaces (ifcount ps + 1)), ?ps, m\<lparr>outcomes := []\<rparr>)"
    using lt assms(2,3,5) by (simp add: add_interface_def grow_interfaces_def)
  then show thesis by (rule that) (use lt len(1) assms(2) in \<open>auto simp: ng_data_def\<close>)
qed

end
