(* ===== verification/Pcapng_Replay.thy ===== *)
theory Pcapng_Replay
  imports Pcapng_Spec
begin

text \<open>
  Files of blocks replayed: a pcapng file with one section and one interface in microseconds, in either byte order, gives
  the packet handler the frames of its enhanced packet blocks, and every other block is skipped.
\<close>

unbundle bit_operations_syntax

section \<open>Files of blocks\<close>

definition ng_block :: "bool \<Rightarrow> u32 \<Rightarrow> byte list \<Rightarrow> byte list" where
  "ng_block be type body =
     enc32 be type @ enc32 be (word_of_nat (12 + length body)) @ body @ enc32 be (word_of_nat (12 + length body))"

definition section_block :: "bool \<Rightarrow> byte list" where
  "section_block be =
     ng_block be BT_SHB (enc32 be BYTE_ORDER_MAGIC @ enc16 be PCAP_NG_VERSION_MAJOR @ enc16 be PCAP_NG_VERSION_MINOR @ replicate 8 0xff)"

definition interface_block :: "bool \<Rightarrow> u16 \<Rightarrow> u32 \<Rightarrow> byte list" where
  "interface_block be linktype snaplen = ng_block be BT_IDB (enc16 be linktype @ enc16 be 0 @ enc32 be snaplen)"

text \<open>Packets in microseconds, among blocks a reader has to skip.\<close>

datatype ng_item = Frame pkthdr "byte list" | Skipped u32 "byte list"

definition stamp_of :: "pkthdr \<Rightarrow> u64" where
  "stamp_of h = word_of_int (tv_sec (ph_ts h) * 1000000 + tv_usec (ph_ts h))"

definition padding :: "byte list \<Rightarrow> byte list" where
  "padding d = replicate ((4 - length d mod 4) mod 4) 0"

fun item_bytes :: "bool \<Rightarrow> ng_item \<Rightarrow> byte list" where
  "item_bytes be (Frame h d) =
     ng_block be BT_EPB (enc32 be 0 @ enc32 be (ucast (drop_bit 32 (stamp_of h))) @ enc32 be (ucast (stamp_of h)) @
       enc32 be (ph_caplen h) @ enc32 be (ph_len h) @ d @ padding d)"
| "item_bytes be (Skipped type body) = ng_block be type body"

fun item_frames :: "ng_item list \<Rightarrow> (pkthdr \<times> byte list) list" where
  "item_frames [] = []"
| "item_frames (Frame h d # items) = (h, d) # item_frames items"
| "item_frames (Skipped type body # items) = item_frames items"

definition stamped :: "pkthdr \<Rightarrow> bool" where
  "stamped h \<longleftrightarrow> 0 \<le> tv_sec (ph_ts h) \<and> tv_sec (ph_ts h) < 2 ^ 43 \<and> 0 \<le> tv_usec (ph_ts h) \<and> tv_usec (ph_ts h) < 1000000"

fun item_ok :: "int \<Rightarrow> ng_item \<Rightarrow> bool" where
  "item_ok snapshot (Frame h d) \<longleftrightarrow>
     length d = unat (ph_caplen h) \<and> int (unat (ph_caplen h)) \<le> snapshot \<and> unat (ph_caplen h) \<le> MAXIMUM_SNAPLEN \<and> stamped h"
| "item_ok snapshot (Skipped type body) \<longleftrightarrow>
     type \<notin> {BT_SHB, BT_IDB, BT_EPB, BT_SPB, BT_PB} \<and> length body \<le> MAXIMUM_SNAPLEN"

lemma field_enc:
  "field32 be (enc32 be w @ ys) 0 = Some w" "n = length xs \<Longrightarrow> field32 be (xs @ enc32 be w @ ys) n = Some w"
  "field16 be (enc16 be v @ ys) 0 = Some v" "n = length xs \<Longrightarrow> field16 be (xs @ enc16 be v @ ys) n = Some v"
proof -
  have t: "(\<lambda>w. if be then SWAPLONG w else w) (turned be w) = w" "(\<lambda>w. if be then SWAPSHORT w else w) (turned16 be v) = v"
    by (simp_all add: turned_def turned16_def)
  show "field32 be (enc32 be w @ ys) 0 = Some w" "n = length xs \<Longrightarrow> field32 be (xs @ enc32 be w @ ys) n = Some w"
    using t by (simp_all add: field32_def get_enc32)
  show "field16 be (enc16 be v @ ys) 0 = Some v" "n = length xs \<Longrightarrow> field16 be (xs @ enc16 be v @ ys) n = Some v"
    using t by (simp_all add: field16_def get_enc16 get_le16_append)
qed

lemma read_bytes_plenty:
  "n = length xs \<Longrightarrow> read_bytes n e \<lparr>st_data = xs @ ys, st_error = er\<rparr> = (Inr xs, \<lparr>st_data = ys, st_error = er\<rparr>)"
  by (simp add: read_bytes_def fread_def)

text \<open>A block is read whole.\<close>

lemma read_block_plenty:
  assumes "fp = \<lparr>st_data = ng_block (pt_swapped p) type body @ rest, st_error = er\<rparr>" "outcomes m = []"
    and "pt_bufsize p \<le> block_room ps" "12 + length body \<le> unat (max_blocksize ps)" "12 + length body \<le> 2 ^ 24"
  obtains b where "read_block fp p ps m =
    Some (Inr \<lparr>cur_data = body @ enc32 (pt_swapped p) (word_of_nat (12 + length body)), data_remaining = length body, block_type = type\<rparr>,
      \<lparr>st_data = rest, st_error = er\<rparr>, ps\<lparr>block_room := b\<rparr>, m)" "pt_bufsize p \<le> b"
proof -
  let ?be = "pt_swapped p"
  define N :: u32 where "N = word_of_nat (12 + length body)"
  let ?bdata = "body @ enc32 ?be N"
  have n: "unat N = 12 + length body" using assms(5) by (simp add: N_def unat_of_nat del: of_nat_add)
  have h: "read_bytes 8 False fp = (Inr (enc32 ?be type @ enc32 ?be N), \<lparr>st_data = ?bdata @ rest, st_error = er\<rparr>)"
    using read_bytes_plenty [of 8 "enc32 ?be type @ enc32 ?be N"] assms(1) unfolding ng_block_def N_def [symmetric] by simp
  have f: "field32 ?be (enc32 ?be type @ enc32 ?be N) 0 = Some type" "field32 ?be (enc32 ?be type @ enc32 ?be N) 4 = Some N"
    using field_enc(1) [of ?be type] field_enc(2) [of 4 "enc32 ?be type" ?be N "[]"] by simp_all
  have small: "\<not> N > 16 * 1024 * 1024" "\<not> N < 12" "\<not> N > max_blocksize ps"
    using n assms(4,5) by (simp_all add: word_less_nat_alt)
  have d: "read_bytes (unat N - 8) True \<lparr>st_data = ?bdata @ rest, st_error = er\<rparr> = (Inr ?bdata, \<lparr>st_data = rest, st_error = er\<rparr>)"
    by (rule read_bytes_plenty) (simp add: n)
  define b where "b = (if pt_bufsize p < unat N then unat N else block_room ps)"
  have bb: "block_buffer N p ps m = (None, ps\<lparr>block_room := b\<rparr>, m)" "unat N \<le> b" "pt_bufsize p \<le> b"
    using small(3) assms(2,3) by (auto simp: block_buffer_def b_def mrealloc_def)
  show thesis
  proof (rule that, unfold N_def [symmetric])
    show "read_block fp p ps m =
      Some (Inr \<lparr>cur_data = ?bdata, data_remaining = length body, block_type = type\<rparr>, \<lparr>st_data = rest, st_error = er\<rparr>, ps\<lparr>block_room := b\<rparr>, m)"
      unfolding read_block_def h prod.case sum.case f bind.bind_lunit bb(1) option.case using small(1,2) bb(2) d by (simp add: n)
  qed (rule bb(3))
qed

text \<open>A handle on a file with one interface in microseconds.\<close>

definition micro_interface :: pcap_ng_if where
  "micro_interface = \<lparr>tsresol = 1000000, scale_type = NG_PASS_THROUGH, scale_factor = 0, tsoffset = 0\<rparr>"

definition ng_plain :: "pcap_t \<Rightarrow> pcap_ng_sf \<Rightarrow> bool" where
  "ng_plain p ps \<longleftrightarrow>
     pt_ng p = Some ps \<and> ifcount ps = 1 \<and> ifaces ps \<noteq> [] \<and> ifaces ps ! 0 = Some micro_interface \<and> user_tsresol ps = 1000000 \<and>
     pt_bufsize p \<le> block_room ps \<and> MAX_BLOCKSIZE MAXIMUM_SNAPLEN \<le> unat (max_blocksize ps) \<and>
     0 < pt_snapshot p \<and> pt_snapshot p < 2 ^ 31 \<and> pt_fcode p = None \<and> \<not> pt_break p \<and>
     (pt_swapped p \<longrightarrow> pt_linktype p \<notin> {DLT_LINUX_SLL, DLT_USB_LINUX, DLT_USB_LINUX_MMAPPED, DLT_NFLOG})"

abbreviation at_data :: "pcap_t \<Rightarrow> pcap_ng_sf \<Rightarrow> byte list \<Rightarrow> pcap_t" where
  "at_data p ps xs \<equiv> p\<lparr>pt_rfile := \<lparr>st_data = xs, st_error = False\<rparr>, pt_ng := Some ps\<rparr>"

lemma ng_plain_at: "ng_plain p ps \<Longrightarrow> pt_bufsize p \<le> b \<Longrightarrow> ng_plain (at_data p (ps\<lparr>block_room := b\<rparr>) xs) (ps\<lparr>block_room := b\<rparr>)"
  by (simp add: ng_plain_def)

text \<open>The blocks do not depend on what else the handle holds.\<close>

lemma next_packet_block_cong:
  assumes "pt_swapped p = pt_swapped q" "pt_bufsize p = pt_bufsize q" "pt_snapshot p = pt_snapshot q" "pt_linktype p = pt_linktype q"
  shows "next_packet_block fp p ps m = next_packet_block fp q ps m"
proof (induction "length (st_data fp)" arbitrary: fp ps m rule: less_induct)
  case less
  have rb: "read_block fp p ps m = read_block fp q ps m" unfolding read_block_def block_buffer_def assms(1,2) by (rule refl)
  have ob: "other_block c p ps m = other_block c q ps m" for c ps m
    unfolding other_block_def further_interface_def next_section_def assms by (rule refl)
  show ?case
  proof (cases "\<exists>cursor fp1 ps1 m1. read_block fp q ps m = Some (Inr cursor, fp1, ps1, m1)")
    case True
    then obtain cursor fp1 ps1 m1 where r: "read_block fp q ps m = Some (Inr cursor, fp1, ps1, m1)" by blast
    then have "length (st_data fp1) < length (st_data fp)" using read_block_left [OF r] by simp
    note IH = less.hyps [OF this]
    show ?thesis unfolding next_packet_block.simps [of fp p ps m] next_packet_block.simps [of fp q ps m] rb ob assms(1,3) r
      using IH by (auto split: option.split sum.split)
  next
    case False
    then show ?thesis unfolding next_packet_block.simps [of fp p ps m] next_packet_block.simps [of fp q ps m] rb
      by (auto split: option.split sum.split)
  qed
qed

text \<open>A block that is none of the reader's own is skipped.\<close>

lemma skip_block:
  assumes "ng_plain p ps" "outcomes m = []" "item_ok (pt_snapshot p) (Skipped type body)"
    and "pt_rfile p = \<lparr>st_data = item_bytes (pt_swapped p) (Skipped type body) @ rest, st_error = False\<rparr>"
  obtains b where "next_packet_op p m = next_packet_op (at_data p (ps\<lparr>block_room := b\<rparr>) rest) m" "pt_bufsize p \<le> b"
proof -
  have l: "12 + length body \<le> unat (max_blocksize ps)" "12 + length body \<le> 2 ^ 24"
    using assms(1,3) by (auto simp: ng_plain_def MAX_BLOCKSIZE_def MAXIMUM_SNAPLEN_def)
  have room: "pt_bufsize p \<le> block_room ps" using assms(1) by (simp add: ng_plain_def)
  from read_block_plenty [OF _ assms(2) room l, of "pt_rfile p" type rest False] assms(4) obtain b where
    b: "read_block (pt_rfile p) p ps m =
      Some (Inr \<lparr>cur_data = body @ enc32 (pt_swapped p) (word_of_nat (12 + length body)), data_remaining = length body, block_type = type\<rparr>,
        \<lparr>st_data = rest, st_error = False\<rparr>, ps\<lparr>block_room := b\<rparr>, m)" "pt_bufsize p \<le> b" by auto
  let ?q = "at_data p (ps\<lparr>block_room := b\<rparr>) rest"
  have "next_packet_block (pt_rfile p) p ps m = next_packet_block (pt_rfile ?q) p (ps\<lparr>block_room := b\<rparr>) m"
    using assms(3) b(1) by (subst next_packet_block.simps) (simp add: packet_block_def other_block_def Let_def)
  also have "\<dots> = next_packet_block (pt_rfile ?q) ?q (ps\<lparr>block_room := b\<rparr>) m" by (rule next_packet_block_cong) simp_all
  finally have "next_packet_op p m = next_packet_op ?q m" using assms(1)
    by (simp add: next_packet_op_def ng_plain_def pcap_ng_next_packet_def Let_def split: option.split prod.split)
  with b(2) that show thesis by blast
qed

lemma stamp_parts: "stamp (ucast (drop_bit 32 t)) (ucast (t :: u64)) = t"
  by (rule bit_word_eqI) (auto simp: stamp_def bit_simps)

lemma micro_time:
  assumes "stamped h"
  shows "ng_timeval 1000000 micro_interface (stamp_of h) = Some (ph_ts h)"
proof -
  let ?s = "tv_sec (ph_ts h)" and ?u = "tv_usec (ph_ts h)"
  have b: "0 \<le> ?s" "?s < 2 ^ 43" "0 \<le> ?u" "?u < 1000000" using assms by (simp_all add: stamped_def)
  let ?n = "nat ?s * 1000000 + nat ?u"
  have "nat ?s < 2 ^ 43" "nat ?u < 1000000" using b by (simp_all add: nat_less_iff)
  then have "?n < 2 ^ 64" by simp
  moreover have "stamp_of h = word_of_nat ?n"
  proof -
    have "?s * 1000000 + ?u = int ?n" using b by simp
    then show ?thesis by (simp only: stamp_of_def of_int_of_nat_eq)
  qed
  ultimately have t: "unat (stamp_of h) = ?n" by (simp only: unat_of_nat) simp
  have q: "unat (stamp_of h div 1000000) = nat ?s" "unat (stamp_of h mod 1000000) = nat ?u"
    using t \<open>nat ?u < 1000000\<close> by (simp_all add: unat_div unat_mod)
  have sec: "sint (stamp_of h div 1000000) = ?s" using sint_u64_small [of "stamp_of h div 1000000"] q(1) b \<open>nat ?s < 2 ^ 43\<close> by simp
  have "unat (ucast (stamp_of h mod 1000000) :: u32) = nat ?u"
    using q(2) \<open>nat ?u < 1000000\<close> by (simp add: unsigned_ucast_eq take_bit_nat_eq_self_iff del: unat_mod)
  moreover from this \<open>nat ?u < 1000000\<close> have "(ucast (stamp_of h mod 1000000) :: u32) < 2 ^ 31" by (simp only: word_less_nat_alt) simp
  ultimately have "sint (ucast (stamp_of h mod 1000000) :: u32) = ?u" using sint_u32_small [of "ucast (stamp_of h mod 1000000)"] b(3) by (simp only: int_nat_eq if_True)
  with sec show ?thesis by (simp add: ng_timeval_def ng_fraction_def micro_interface_def Let_def)
qed

text \<open>A packet block gives its packet.\<close>

lemma enhanced_enc:
  "enhanced_fields be (enc32 be i @ enc32 be hi @ enc32 be lo @ enc32 be c @ enc32 be l) =
     Some \<lparr>np_interface = i, np_caplen = c, np_len = l, np_time = stamp hi lo\<rparr>"
proof -
  let ?bs = "enc32 be i @ enc32 be hi @ enc32 be lo @ enc32 be c @ enc32 be l"
  have "field32 be ?bs 0 = Some i" by (rule field_enc)
  moreover have "field32 be ?bs 4 = Some hi" by (rule field_enc) simp
  moreover have "field32 be ((enc32 be i @ enc32 be hi) @ enc32 be lo @ enc32 be c @ enc32 be l) 8 = Some lo" by (rule field_enc) simp
  moreover have "field32 be ((enc32 be i @ enc32 be hi @ enc32 be lo) @ enc32 be c @ enc32 be l) 12 = Some c" by (rule field_enc) simp
  moreover have "field32 be ((enc32 be i @ enc32 be hi @ enc32 be lo @ enc32 be c) @ enc32 be l @ []) 16 = Some l" by (rule field_enc) simp
  ultimately show ?thesis by (simp add: enhanced_fields_def)
qed

lemma packet_item:
  assumes p: "ng_plain p ps" and m: "outcomes m = []" and ok: "item_ok (pt_snapshot p) (Frame h d)"
    and data: "pt_rfile p = \<lparr>st_data = item_bytes (pt_swapped p) (Frame h d) @ rest, st_error = False\<rparr>"
  obtains b where "next_packet_op p m = Some (Packet h d, at_data p (ps\<lparr>block_room := b\<rparr>) rest, m)" "pt_bufsize p \<le> b"
proof -
  let ?be = "pt_swapped p"
  let ?e = "enc32 ?be 0 @ enc32 ?be (ucast (drop_bit 32 (stamp_of h))) @ enc32 ?be (ucast (stamp_of h)) @ enc32 ?be (ph_caplen h) @ enc32 ?be (ph_len h)"
  let ?body = "?e @ d @ padding d"
  have e: "length ?e = 20" "item_bytes ?be (Frame h d) = ng_block ?be BT_EPB ?body" by simp_all
  have len: "length d = unat (ph_caplen h)" "unat (ph_caplen h) \<le> MAXIMUM_SNAPLEN" "stamped h" using ok by simp_all
  have pad: "length (padding d) \<le> 3" by (simp add: padding_def)
  have room: "pt_bufsize p \<le> block_room ps" and big: "MAX_BLOCKSIZE MAXIMUM_SNAPLEN \<le> unat (max_blocksize ps)" using p by (simp_all add: ng_plain_def)
  have s: "12 + length ?body \<le> MAXIMUM_SNAPLEN + 35"
  proof -
    have "length ?body = 20 + (unat (ph_caplen h) + length (padding d))" using e(1) len(1) by simp
    with len(2) pad show ?thesis by linarith
  qed
  have l: "12 + length ?body \<le> unat (max_blocksize ps)"
    by (rule order_trans [OF s order_trans [OF _ big]]) (simp add: MAX_BLOCKSIZE_def)
  have l': "12 + length ?body \<le> 2 ^ 24" by (rule order_trans [OF s]) (simp add: MAXIMUM_SNAPLEN_def)
  define tl where "tl = enc32 ?be (word_of_nat (12 + length ?body))"
  from read_block_plenty [OF _ m room l l', of "pt_rfile p" BT_EPB rest False] data e(2) obtain b where
    b: "read_block (pt_rfile p) p ps m =
      Some (Inr \<lparr>cur_data = ?body @ tl, data_remaining = length ?body, block_type = BT_EPB\<rparr>,
        \<lparr>st_data = rest, st_error = False\<rparr>, ps\<lparr>block_room := b\<rparr>, m)" "pt_bufsize p \<le> b" unfolding tl_def by auto
  let ?np = "\<lparr>np_interface = 0, np_caplen = ph_caplen h, np_len = ph_len h, np_time = stamp_of h\<rparr>"
  let ?c = "\<lparr>cur_data = d @ padding d @ tl, data_remaining = length (d @ padding d), block_type = BT_EPB\<rparr>"
  let ?ps = "ps\<lparr>block_room := b\<rparr>"
  let ?q = "at_data p ?ps rest"
  have "get_from_block_data \<lparr>cur_data = ?body @ tl, data_remaining = length ?body, block_type = BT_EPB\<rparr> 20 = Inr (?e, ?c)"
    using e(1) by (simp add: get_from_block_data_def)
  then have "packet_block ?be (pt_snapshot p) \<lparr>cur_data = ?body @ tl, data_remaining = length ?body, block_type = BT_EPB\<rparr> = Some (Inr (Some (?np, ?c)))"
    by (simp add: packet_block_def Let_def enhanced_enc stamp_parts)
  then have npb: "next_packet_block (pt_rfile p) p ps m = Some (Inr (?np, ?c), \<lparr>st_data = rest, st_error = False\<rparr>, ?ps, m)"
    using b(1) by (subst next_packet_block.simps) simp
  have "\<not> ph_caplen h > word_of_int (pt_snapshot p)"
  proof -
    have "unat (word_of_int (pt_snapshot p) :: u32) = nat (pt_snapshot p)"
    proof -
      have k: "int (nat (pt_snapshot p)) = pt_snapshot p" "nat (pt_snapshot p) < 2 ^ LENGTH(32)" using p by (auto simp: ng_plain_def)
      have "(word_of_int (pt_snapshot p) :: u32) = word_of_nat (nat (pt_snapshot p))" by (subst k(1) [symmetric]) (rule of_int_of_nat_eq)
      then show ?thesis using k(2) by (simp only: unat_of_nat take_bit_eq_mod mod_less)
    qed
    moreover have "unat (ph_caplen h) \<le> nat (pt_snapshot p)" using ok unfolding item_ok.simps by arith
    ultimately show ?thesis by (simp only: not_less word_le_nat_alt)
  qed
  moreover have "get_from_block_data ?c (unat (ph_caplen h)) = Inr (d, \<lparr>cur_data = padding d @ tl, data_remaining = length (padding d), block_type = BT_EPB\<rparr>)"
    using len(1) by (simp add: get_from_block_data_def)
  moreover have "pt_swapped p \<Longrightarrow> swap_pseudo_headers (pt_linktype p) x y d = Some d" for x y
    using p by (simp add: ng_plain_def swap_pseudo_headers_def)
  ultimately have "ng_data ?np ?c ?q ?ps = Some (Packet h d)"
    using p micro_time [OF len(3)] by (auto simp: ng_data_def ng_plain_def)
  then have "next_packet_op p m = Some (Packet h d, ?q, m)"
    using p npb by (simp add: next_packet_op_def ng_plain_def pcap_ng_next_packet_def Let_def)
  then show thesis using b(2) that by blast
qed

lemma replay_items:
  assumes "ng_plain p ps" "outcomes m = []" "\<forall>i \<in> set items. item_ok (pt_snapshot p) i"
    and "pt_rfile p = \<lparr>st_data = concat (map (item_bytes (pt_swapped p)) items), st_error = False\<rparr>"
  shows "\<exists>q. offline_read callback scratch (- 1) n [] p m c =
     Some (and_then (run_frames callback (item_frames items) c) (\<lambda>c'. Done (0, [], q, m, c')))"
  using assms
proof (induction items arbitrary: p ps n c)
  case Nil
  have "read_block (pt_rfile p) p ps m = Some (Inl None, pt_rfile p, ps, m)"
    using Nil.prems(4) by (simp add: read_block_def read_bytes_def fread_def)
  then have "next_packet_op p m = Some (End_Of_File, p\<lparr>pt_rfile := pt_rfile p, pt_ng := Some ps\<rparr>, m)"
    using Nil.prems(1) by (simp add: next_packet_op_def ng_plain_def pcap_ng_next_packet_def next_packet_block.simps Let_def)
  moreover have "\<not> pt_break p" using Nil.prems(1) by (simp add: ng_plain_def)
  ultimately show ?case by (subst offline_read.simps) (auto simp: Let_def)
next
  case (Cons i items)
  have br: "\<not> pt_break p" using Cons.prems(1) by (simp add: ng_plain_def)
  let ?rest = "concat (map (item_bytes (pt_swapped p)) items)"
  show ?case
  proof (cases i)
    case (Skipped type body)
    from skip_block [OF Cons.prems(1,2), of type body ?rest] Cons.prems(3,4) Skipped obtain b where
      b: "next_packet_op p m = next_packet_op (at_data p (ps\<lparr>block_room := b\<rparr>) ?rest) m" "pt_bufsize p \<le> b" by auto
    let ?q = "at_data p (ps\<lparr>block_room := b\<rparr>) ?rest"
    have "offline_read callback scratch (- 1) n [] p m c = offline_read callback scratch (- 1) n [] ?q m c"
      unfolding offline_read.simps [of _ _ _ _ _ p] offline_read.simps [of _ _ _ _ _ ?q] using b(1) br by (simp add: Let_def)
    with Cons.IH [OF ng_plain_at [OF Cons.prems(1) b(2)] Cons.prems(2), of ?rest n c] Cons.prems(3) Skipped show ?thesis by simp
  next
    case (Frame h d)
    from packet_item [OF Cons.prems(1,2), of h d ?rest] Cons.prems(3,4) Frame obtain b where
      b: "next_packet_op p m = Some (Packet h d, at_data p (ps\<lparr>block_room := b\<rparr>) ?rest, m)" "pt_bufsize p \<le> b" by auto
    let ?q = "at_data p (ps\<lparr>block_room := b\<rparr>) ?rest"
    have fc: "pt_fcode ?q = None" using Cons.prems(1) by (simp add: ng_plain_def)
    have step: "offline_read callback scratch (- 1) n [] p m c =
        (case callback h d c of Exited s \<Rightarrow> Some (Exited s) | Undefined \<Rightarrow> Some Undefined
           | Done c \<Rightarrow> offline_read callback scratch (- 1) (to_int32 (n + 1)) [] ?q m c)"
      using b(1) br fc by (subst offline_read.simps) (simp add: Let_def accept_all split: outcome.split)
    have IH: "\<exists>q. offline_read callback scratch (- 1) (to_int32 (n + 1)) [] ?q m c' =
        Some (and_then (run_frames callback (item_frames items) c') (\<lambda>c'. Done (0, [], q, m, c')))" for c'
      using Cons.IH [OF ng_plain_at [OF Cons.prems(1) b(2)] Cons.prems(2), of ?rest "to_int32 (n + 1)" c'] Cons.prems(3) by simp
    show ?thesis using IH Frame unfolding step by (cases "callback h d c") auto
  qed
qed

section \<open>Opening\<close>

definition opened_ng :: "pcap_ng_sf \<Rightarrow> nat \<Rightarrow> pcap_ng_sf" where
  "opened_ng ps b = ps\<lparr>block_room := b, ifcount := 1, ifaces_size := 1, ifaces := [Some micro_interface]\<rparr>"

lemma first_interface_block:
  assumes "fp = \<lparr>st_data = interface_block (pt_swapped p) l s @ rest, st_error = er\<rparr>" "outcomes m = []"
    and "pt_bufsize p \<le> block_room ps" "20 \<le> unat (max_blocksize ps)"
    and "ifcount ps = 0" "ifaces_size ps = 0" "ifaces ps = []" "user_tsresol ps = 1000000"
  obtains b where "first_interface fp p ps m =
    Some (Inr (l, s), \<lparr>st_data = rest, st_error = er\<rparr>, opened_ng ps b, m\<lparr>live := live m + 1\<rparr>)" "pt_bufsize p \<le> b"
proof -
  let ?be = "pt_swapped p"
  let ?body = "enc16 ?be l @ enc16 ?be 0 @ enc32 ?be s"
  have len: "length ?body = 8" by simp
  define tl where "tl = enc32 ?be (word_of_nat (12 + length ?body))"
  from read_block_plenty [of fp p BT_IDB ?body rest er m ps] assms(1-4) len obtain b where
    b: "read_block fp p ps m =
      Some (Inr \<lparr>cur_data = ?body @ tl, data_remaining = 8, block_type = BT_IDB\<rparr>,
        \<lparr>st_data = rest, st_error = er\<rparr>, ps\<lparr>block_room := b\<rparr>, m)" "pt_bufsize p \<le> b"
    unfolding interface_block_def tl_def by (auto simp del: of_nat_add)
  let ?c = "\<lparr>cur_data = tl, data_remaining = 0, block_type = BT_IDB\<rparr>"
  have f: "field16 ?be ?body 0 = Some l" "field32 ?be ?body 4 = Some s"
    using field_enc(3) [of ?be l] field_enc(2) [of 4 "enc16 ?be l @ enc16 ?be 0" ?be s "[]"] by simp_all
  have "get_from_block_data \<lparr>cur_data = ?body @ tl, data_remaining = 8, block_type = BT_IDB\<rparr> 8 = Inr (?body, ?c)"
    using len by (simp add: get_from_block_data_def)
  then have i: "interface_fields ?be \<lparr>cur_data = ?body @ tl, data_remaining = 8, block_type = BT_IDB\<rparr> = Some (Inr ((l, s), ?c))"
    unfolding interface_fields_def by (simp only: sum.case prod.case f bind.bind_lunit)
  have "add_interface ?be ?c (ps\<lparr>block_room := b\<rparr>) m = Some (None, opened_ng ps b, m\<lparr>live := live m + 1\<rparr>)"
    using assms(2,5-8) by (simp add: add_interface_def grow_interfaces_def malloc_plenty process_idb_options.simps opened_ng_def
        interface_for_def micro_interface_def Let_def)
  with b i show thesis by (intro that [of b]) (subst first_interface.simps, simp_all)
qed
lemma section_bytes:
  "section_block be = enc32 be BT_SHB @ enc32 be 28 @ enc32 be BYTE_ORDER_MAGIC @
     (enc16 be PCAP_NG_VERSION_MAJOR @ enc16 be PCAP_NG_VERSION_MINOR @ replicate 8 0xff @ enc32 be 28)"
  by (simp add: section_block_def ng_block_def)

lemma magic_orders:
  "SWAPLONG BT_SHB = BT_SHB" "\<not> pcap_magic BT_SHB" "SWAPLONG BYTE_ORDER_MAGIC \<noteq> BYTE_ORDER_MAGIC"
  by (simp_all add: SWAPLONG_def BT_SHB_def BYTE_ORDER_MAGIC_def pcap_magic_def TCPDUMP_MAGIC_def
      KUZNETZOV_TCPDUMP_MAGIC_def NSEC_TCPDUMP_MAGIC_def)

lemma fread_plenty:
  "n = length xs \<Longrightarrow> fread n \<lparr>st_data = xs @ ys, st_error = er\<rparr> = (xs, \<lparr>st_data = ys, st_error = er\<rparr>)"
  by (simp add: fread_def)

definition section_ng :: pcap_ng_sf where
  "section_ng = \<lparr>user_tsresol = 1000000, max_blocksize = word_of_nat (MAX_BLOCKSIZE MAXIMUM_SNAPLEN), ifcount = 0,
     ifaces_size = 0, ifaces = [], block_room = 2048\<rparr>"

lemma ng_section_block:
  assumes "outcomes m = []"
    and "fp = \<lparr>st_data = enc16 be PCAP_NG_VERSION_MAJOR @ enc16 be PCAP_NG_VERSION_MINOR @ replicate 8 0xff @ enc32 be 28 @
       interface_block be l s @ rest, st_error = False\<rparr>"
  obtains b fp' where "ng_section be 28 fp PCAP_TSTAMP_PRECISION_MICRO 1000000 m =
    Some (Opened (ng_opened (ng_handle be PCAP_TSTAMP_PRECISION_MICRO 28 1 0 fp') (opened_ng section_ng b) l s),
      \<lparr>st_data = rest, st_error = False\<rparr>, m\<lparr>live := live m + 1\<rparr>)" "2048 \<le> b"
proof -
  let ?shb = "enc16 be PCAP_NG_VERSION_MAJOR @ enc16 be PCAP_NG_VERSION_MINOR @ replicate 8 0xff @ enc32 be 28"
  let ?fp = "\<lparr>st_data = interface_block be l s @ rest, st_error = False\<rparr>"
  let ?p = "ng_handle be PCAP_TSTAMP_PRECISION_MICRO 28 1 0 ?fp"
  have r: "read_bytes 16 True fp = (Inr ?shb, ?fp)" using read_bytes_plenty [of 16 ?shb] assms(2) by simp
  have f: "field16 be ?shb 0 = Some PCAP_NG_VERSION_MAJOR" "field16 be ?shb 2 = Some PCAP_NG_VERSION_MINOR"
    using field_enc(3) [of be PCAP_NG_VERSION_MAJOR] field_enc(4) [of 2 "enc16 be PCAP_NG_VERSION_MAJOR" be PCAP_NG_VERSION_MINOR] by simp_all
  have "?fp = \<lparr>st_data = interface_block (pt_swapped ?p) l s @ rest, st_error = False\<rparr>" "pt_bufsize ?p = 2048" by (simp_all add: ng_handle_def)
  moreover have "20 \<le> unat (max_blocksize section_ng)" by (simp add: section_ng_def MAX_BLOCKSIZE_def MAXIMUM_SNAPLEN_def)
  ultimately obtain b where b: "first_interface ?fp ?p section_ng m =
      Some (Inr (l, s), \<lparr>st_data = rest, st_error = False\<rparr>, opened_ng section_ng b, m\<lparr>live := live m + 1\<rparr>)" "2048 \<le> b"
    using first_interface_block [of ?fp ?p l s rest False m section_ng] assms(1) by (auto simp: section_ng_def)
  have "ng_section be 28 fp PCAP_TSTAMP_PRECISION_MICRO 1000000 m =
    Some (Opened (ng_opened ?p (opened_ng section_ng b) l s), \<lparr>st_data = rest, st_error = False\<rparr>, m\<lparr>live := live m + 1\<rparr>)"
    using b(1) r f by (simp add: ng_section_def Let_def section_ng_def PCAP_NG_VERSION_MAJOR_def PCAP_NG_VERSION_MINOR_def)
  then show thesis using b(2) by (rule that)
qed

lemma check_section:
  assumes "outcomes m = []"
  shows "pcap_ng_check_header BT_SHB \<lparr>st_data = enc32 be 28 @ enc32 be BYTE_ORDER_MAGIC @ xs, st_error = False\<rparr> PCAP_TSTAMP_PRECISION_MICRO m =
     ng_section be 28 \<lparr>st_data = xs, st_error = False\<rparr> PCAP_TSTAMP_PRECISION_MICRO 1000000 (m\<lparr>live := live m + 2\<rparr>)"
proof -
  have t: "turned False BYTE_ORDER_MAGIC = BYTE_ORDER_MAGIC" "turned True BYTE_ORDER_MAGIC \<noteq> BYTE_ORDER_MAGIC"
    "SWAPLONG (turned True BYTE_ORDER_MAGIC) = BYTE_ORDER_MAGIC"
    using magic_orders(3) by (simp_all add: turned_def)
  have f: "get_le32 (enc32 be BYTE_ORDER_MAGIC) 0 = Some (turned be BYTE_ORDER_MAGIC)" "field32 be (enc32 be 28) 0 = Some 28"
    using get_enc32(1) [of be BYTE_ORDER_MAGIC "[]"] field_enc(1) [of be 28 "[]"] by simp_all
  show ?thesis unfolding pcap_ng_check_header_def
    using f t assms by (cases be) (simp_all add: add.commute fread_plenty malloc_plenty user_tsresol_for_def Let_def)
qed
lemma blocksize_word: "n \<le> 2 ^ 28 \<Longrightarrow> unat (word_of_nat (MAX_BLOCKSIZE n) :: u32) = MAX_BLOCKSIZE n"
  by (simp only: unat_of_nat take_bit_eq_mod MAX_BLOCKSIZE_def) simp

lemma open_blocks:
  assumes "outcomes m = []" "0 < sint s"
    and "be \<longrightarrow> linktype_to_dlt (uint l) \<notin> {DLT_LINUX_SLL, DLT_USB_LINUX, DLT_USB_LINUX_MMAPPED, DLT_NFLOG}"
  obtains q m' ps where
    "fopen_offline \<lparr>st_data = section_block be @ interface_block be l s @ rest, st_error = False\<rparr> m = Some (Inr q, m')"
    "outcomes m' = []" "ng_plain q ps" "pt_swapped q = be" "pt_snapshot q = sint s" "pt_rfile q = \<lparr>st_data = rest, st_error = False\<rparr>"
proof -
  let ?b = "interface_block be l s @ rest"
  let ?v = "enc16 be PCAP_NG_VERSION_MAJOR @ enc16 be PCAP_NG_VERSION_MINOR @ replicate 8 0xff @ enc32 be 28 @ ?b"
  let ?m = "m\<lparr>live := live m + 2\<rparr>"
  obtain b fp where n: "ng_section be 28 \<lparr>st_data = ?v, st_error = False\<rparr> PCAP_TSTAMP_PRECISION_MICRO 1000000 ?m =
      Some (Opened (ng_opened (ng_handle be PCAP_TSTAMP_PRECISION_MICRO 28 1 0 fp) (opened_ng section_ng b) l s),
        \<lparr>st_data = rest, st_error = False\<rparr>, ?m\<lparr>live := live ?m + 1\<rparr>)" "2048 \<le> b"
    by (rule ng_section_block [of ?m "\<lparr>st_data = ?v, st_error = False\<rparr>" be l s rest]) (use assms(1) in simp_all)
  define q where "q = found (ng_opened (ng_handle be PCAP_TSTAMP_PRECISION_MICRO 28 1 0 fp) (opened_ng section_ng b) l s)
    \<lparr>st_data = rest, st_error = False\<rparr>"
  have "section_block be @ ?b = enc32 be BT_SHB @ enc32 be 28 @ enc32 be BYTE_ORDER_MAGIC @ ?v" by (simp add: section_bytes)
  moreover have "get_le32 (enc32 be BT_SHB) 0 = Some BT_SHB"
    using get_enc32(1) [of be BT_SHB "[]"] magic_orders(1) by (simp add: turned_def)
  moreover have "pcap_check_header BT_SHB fp' precision m = Some (Not_Mine, fp', m)" for fp' precision
    using magic_orders by (simp add: pcap_check_header_def Let_def)
  ultimately have "fopen_offline \<lparr>st_data = section_block be @ ?b, st_error = False\<rparr> m = Some (Inr q, ?m\<lparr>live := live ?m + 1\<rparr>)" (is ?opened)
    unfolding fopen_offline_def pcap_fopen_offline_with_tstamp_precision_def
    using n(1) check_section [OF assms(1), of be ?v] by (simp add: fread_plenty q_def)
  have "sint s < 2 ^ 31" using sint_lt [of s] by simp
  moreover have big: "unat (word_of_nat (MAX_BLOCKSIZE MAXIMUM_SNAPLEN) :: u32) = MAX_BLOCKSIZE MAXIMUM_SNAPLEN"
    "unat (word_of_nat (MAX_BLOCKSIZE (max_snaplen_for_dlt d)) :: u32) = MAX_BLOCKSIZE (max_snaplen_for_dlt d)" for d
    using max_snaplen_bounds(2) [of d] by (intro blocksize_word, simp add: MAXIMUM_SNAPLEN_def)+
  ultimately have "\<exists>ps. ng_plain q ps"
    using assms(2,3) n(2) by (auto simp: big ng_plain_def q_def found_def ng_opened_def ng_handle_def opened_ng_def section_ng_def Let_def)
  moreover have "pt_swapped q = be" "pt_snapshot q = sint s" "pt_rfile q = \<lparr>st_data = rest, st_error = False\<rparr>"
    using assms(2) by (simp_all add: q_def found_def ng_opened_def ng_handle_def Let_def)
  ultimately show thesis using that \<open>?opened\<close> assms(1) by auto
qed


text \<open>A packet after a block of name resolutions, in a file of the other byte order.\<close>

definition demo_items :: "ng_item list" where
  "demo_items = [Skipped 4 [0, 0, 0, 0], Frame (fst demo_frame) (snd demo_frame)]"


end
