(* ===== verification/Spec2Isabelle.thy ===== *)
theory Spec2Isabelle
  imports Tcpkit Json_Links Json_Minify Json_Hooks Pcapng_Replay
begin

text \<open>
  A verification library for tcpkit, the packet analyser under \<open>src/src\<close>: a program that captures
  frames with libpcap, parses IPv4 with TCP or UDP, pairs the requests and responses of a Redis,
  Memcached or HTTP server, prints the latency of each exchange, keeps counters and a latency
  histogram per endpoint, and serves them as JSON on a TCP port.

  \<^bold>\<open>Parts and theories, in the order they build on each other\<close>

  \<^item> \<open>Prelude\<close>, \<open>Libc\<close>: the allocator, checked reads of byte buffers, outcomes of code that can exit or
    be undefined, C strings, \<open>snprintf\<close>, \<open>strncmp\<close>, \<open>atoi\<close>, \<open>inet_ntoa\<close>.
  \<^item> \<open>Table_Spec\<close>, \<open>Hashtable\<close>: \<open>hashtable.c\<close>. \<open>Table_Spec\<close> states what clients rely on as locales;
    \<open>Hashtable\<close> models the chained table and interprets them. The lemmas give refinement of a finite map,
    the bucket invariant and the ledger of blocks.
  \<^item> \<open>Stats\<close>: \<open>stats.c\<close>, counters and histogram at 64 bits. \<open>Stats_Json\<close>: \<open>create_stats_object\<close>.
  \<^item> \<open>Protocol\<close>: \<open>protocol.c\<close>, the printable summaries of payloads, against a reference in terms of lines.
  \<^item> \<open>Log\<close>: \<open>log.c\<close>. \<open>Lua\<close>: \<open>lua.c\<close> and the hand-over of a packet to a script.
  \<^item> \<open>Packet\<close>: the header parsers of \<open>packet.c\<close>, safe on all bytes and inverse to an encoder.
  \<^item> \<open>Tracker\<close>, \<open>Tracker_Spec\<close>, \<open>Tracker_Ledger\<close>: the rest of \<open>packet.c\<close>; \<open>Tracker_Spec\<close> is an abstract
    tracker over maps and the proof that the code implements it, \<open>Tracker_Ledger\<close> the account of blocks.
  \<^item> \<open>Options\<close>: the command line of \<open>tcpkit.c\<close>.
  \<^item> \<open>Sniffer\<close>: \<open>sniffer.c\<close> and \<open>dumper.c\<close>, creation with every error path, frames, the capture loop.
  \<^item> \<open>Double\<close>, \<open>Json\<close>, \<open>Json_Print\<close>: \<open>cJSON.c\<close>. Numbers are IEEE doubles as multiples of the smallest
    positive double; items are trees; the printer writes into cells of a growing or given buffer.
  \<^item> \<open>Json_Parse\<close>, \<open>Json_Parse_Safe\<close>, \<open>Json_Parse_Spec\<close>: the parser of \<open>cJSON.c\<close> with checked reads and stores,
    its safety and ledger, the nesting limit and the decoding of UTF-16 literals. \<open>Json_Roundtrip\<close>: it reads
    back what the printer writes. \<open>Json_Links\<close>: the member lists as linked nodes in a heap, with all operations
    on the links, against operations on HOL lists. \<open>Json_Minify\<close>: the minifier, in place, against a reference on
    texts. \<open>Json_Hooks\<close>: the allocation hooks.
  \<^item> \<open>Server\<close>, \<open>Stats_Loop\<close>, \<open>Lifecycle\<close>: \<open>server.c\<close>, the JSON text of the table, the listening thread, and
    the life of the server with its threads and signals as a step relation.
  \<^item> \<open>Tcpkit\<close>: the signal handler, the usage text and \<open>main\<close> of \<open>tcpkit.c\<close>.
  \<^item> \<open>Bpf\<close>: \<open>bpf_filter.c\<close> of the bundled libpcap, the machine that runs a filter on a packet and the check of
    its programs. \<open>Link_Types\<close>: \<open>pcap-common.c\<close>, link types and byte order.
  \<^item> \<open>Savefile\<close>: \<open>sf-pcap.c\<close>, reading and writing of capture files of records. \<open>Pcapng\<close>: \<open>sf-pcapng.c\<close>, reading of files
    of blocks with several sections and interfaces. \<open>Offline\<close>: \<open>savefile.c\<close>, \<open>pcap_loop\<close> on a file and
    \<open>install_bpf_program\<close>, over both formats.
  \<^item> \<open>Replay\<close>: the program's handler on what a file holds, any file and one it recorded itself. \<open>Pcapng_Spec\<close>: the
    times of packets in files of blocks, and where several interfaces are not read as meant. \<open>Pcapng_Replay\<close>: the
    handler on a file of blocks.

  \<^bold>\<open>How code becomes definitions\<close>

  Structs are records with the names of the code's fields, enums are datatypes, fixed width integers
  that can wrap are words. A pointer that may be NULL is an option. Every function keeps its
  name and its order of tests; loops are recursive functions. The allocator is the record
  \<open>mem\<close>: the outcomes of the allocations still to come (an empty list means that they succeed) and the
  number of live blocks, so that a statement over all \<open>mem\<close> covers every pattern of failures, and
  ledger lemmas speak of leaks and double frees. The record \<open>resources\<close> adds what else the program holds: capture
  handles, compiled filters, dump files, interpreters, mutexes, streams, lists of devices and threads. Reads and writes of buffers are checked: out of bounds is
  \<open>None\<close> or \<open>Undefined\<close>, and the safety theorems show that it does not occur. Output is the list of
  texts written. Live capture of libpcap, the Lua interpreter, sockets, threads and the clock are records of functions
  or results that the definitions take as arguments; nothing is assumed of them beyond what a theorem
  states as a hypothesis.

  The model is of a little-endian host with 32 bit \<open>int\<close> and 64 bit \<open>long\<close> and \<open>size_t\<close>, as Linux on
  x86-64 is. Critical sections of the statistics lock are taken as atomic with respect to each
  other; a request of a client carries the shared state it sees when it takes the lock.

  \<^bold>\<open>What the properties show\<close>

  The program as a whole: \<open>main\<close> gives back everything it holds on every way through it; it can reach an undefined
  step only where \<open>pcap_loop\<close> failed, which skips the join of the statistics thread, or where a signal arrives behind the
  destruction of the server. Frames: no
  captured bytes make the handler read out of bounds, whatever allocations fail, and the tracker's state
  stays well-formed; sixteen values of the length on the wire are excepted, for which the handler's subtraction
  overflows. Tracking: the code refines an abstract tracker; an exchange is observed exactly once;
  pending requests are bounded in number and age. Statistics: the table of endpoints is served as the exact
  JSON text, under the lock, to every client in order, and a client that leaves early ends the process by \<open>SIGPIPE\<close>;
  the statistics thread has ended when the server is
  freed, provided the capture loop did not fail. JSON: printing is exact and stays in its buffer; creation
  and duplication keep the ledger; parsing ends on every text without a read or store out of
  bounds and leaks nothing, and inverts printing; escaped code points become their UTF-8 bytes; operations
  on the links of a well-linked member list are the list operations, except in the cases where the code breaks
  the links; minifying drops whitespace and comments outside strings where no string has an escaped backslash in front of a
  quote, and turns the formatted text of an item without raw text into the unformatted one. Filters: a program that passed
  the check never leaves its code, its memory or the packet, and returns if its codes are known, its jumps go forward and
  its shifts are by constants below 32.
  Files: whatever a savefile of either format holds, reading it ends, in bounds and with nothing lost, its stream closed,
  and handles its frames as a live capture would; a recording replays as the frames captured, and the byte order of the
  writer does not matter for times that fit 31 bits; a file of blocks replays as the frames of its packet blocks, and their times are exact up to the resolutions
  at which the 64 bit arithmetic wraps.

  \<^bold>\<open>Bounds\<close>

  The mutual recursion of the parser carries fuel, \<open>parse_fuel\<close>: two for each byte of the text and four
  more, since a call consumes a byte or is followed by one that does. \<open>Json_Parse_Spec\<close> shows that it
  never runs out. Walks along links and runs of a filter are \<open>partial_function (option)\<close>, where
  \<open>None\<close> is also a walk or run that never ends, and the theorems on them say that they return. Reading a file is
  recursion with the bytes left as its measure. Every other recursion is over the data or
  has a measure. The \<open>write\<close> loop is recursion over the results of the calls, and \<open>None\<close> where the
  list of results is used up.

  \<^bold>\<open>Not modelled\<close>

  The Lua interpreter and, of libpcap, live capture, the compiler of filters and appending to files
  are parameters or left out: third-party code that the program only calls. The property on files takes
  of the compiler that its programs consist of known codes, forward jumps and constant shifts.
  Of \<open>cJSON.c\<close> the version string is left out, and the decimal point of the locale is the period of the C
  locale, in which tcpkit runs; items as trees and as linked nodes are two models, and the parser,
  the printer and the statistics work on trees. Timing, buffering of streams and the scheduling of
  threads beyond their order are outside the model.
\<close>

end
